(* ===== verification/Prelude.thy ===== *)
theory Prelude
  imports Main "HOL-Library.Word" "HOL-Library.Monad_Syntax"
begin

text \<open>
  Shared vocabulary of the development.

  \<^item> \<open>errno\<close>: the error numbers the sources return negated.  Their numeric values
    belong to the C library, so they are kept as names; \<open>EDRIVER\<close> carries a code that a
    driver outside the sources returned.  A C function that returns \<open>0\<close> or \<open>-errno\<close>
    returns \<open>rc = errno + unit\<close>.
  \<^item> \<open>mem\<close>: byte-addressed memory of the 32-bit little-endian target, with \<open>rd\<close> and
    \<open>wr\<close> for runs of bytes (memcpy, memset) and \<open>ld32\<close>/\<open>st32\<close> for 32-bit loads and
    stores.  The address \<open>0\<close> is \<open>NULL\<close>.
  \<^item> \<open>u32\<close> and \<open>psub\<close>: \<open>size_t\<close> arithmetic on natural numbers with its wrap-around
    written out.
  \<^item> A C loop that need not end is a \<^theory_text>\<open>partial_function (option)\<close>: \<open>None\<close> is
    "does not return".
\<close>

unbundle bit_operations_syntax

named_theorems mem_simps \<open>loads after stores\<close>
named_theorems layout_defs \<open>structure sizes and compile-time constants\<close>

section \<open>Error numbers and results\<close>

datatype errno =
    ENOENT | EINTR | EIO | ENOMEM | EBUSY | ENODEV | EINVAL | EFBIG | ENODATA | EBADMSG
  | ENOTSUP | EALREADY | EMSGSIZE | ETIMEDOUT | ECANCELED | EPROTONOSUPPORT | ENOTCONN
  | ENOSYS | EAGAIN | ENOMSG | EDRIVER int

type_synonym rc = "errno + unit"

abbreviation ok :: rc where "ok \<equiv> Inr ()"

lemma rc_cases_ok: "(r :: rc) = ok \<or> (\<exists>e. r = Inl e)"
  by (cases r) auto

section \<open>Unsigned sizes\<close>

definition u32 :: "nat \<Rightarrow> nat" where
  "u32 n = n mod 2 ^ 32"

text \<open>A pointer or size difference converted to \<open>size_t\<close>.\<close>

definition psub :: "nat \<Rightarrow> nat \<Rightarrow> nat" where
  "psub a b = nat ((int a - int b) mod 2 ^ 32)"

lemma u32_id [simp]: "n < 4294967296 \<Longrightarrow> u32 n = n"
  by (simp add: u32_def)

lemma u32_less [simp]: "u32 n < 4294967296"
  by (simp add: u32_def)

lemma psub_id [simp]: "b \<le> a \<Longrightarrow> a < 4294967296 \<Longrightarrow> psub a b = a - b"
  unfolding psub_def
  by (subst mod_pos_pos_trivial) (auto simp: nat_diff_distrib simp flip: of_nat_diff)

definition round_up4 :: "nat \<Rightarrow> nat" where
  "round_up4 n = u32 (n + 3) div 4 * 4"

lemma round_up4_props:
  assumes "0 < n" "n < 4294967293"
  shows "n \<le> round_up4 n" "round_up4 n < n + 4" "round_up4 n mod 4 = 0" "4 \<le> round_up4 n"
  using assms by (auto simp: round_up4_def)

section \<open>Bytes and memory\<close>

type_synonym byte = "8 word"
type_synonym mem = "nat \<Rightarrow> byte"

abbreviation (input) NULL :: nat where "NULL \<equiv> 0"

definition rd :: "mem \<Rightarrow> nat \<Rightarrow> nat \<Rightarrow> byte list" where
  "rd m a n = map m [a..<a + n]"

definition wr :: "mem \<Rightarrow> nat \<Rightarrow> byte list \<Rightarrow> mem" where
  "wr m a bs = (\<lambda>x. if a \<le> x \<and> x < a + length bs then bs ! (x - a) else m x)"

lemma length_rd [simp]: "length (rd m a n) = n"
  by (simp add: rd_def)

lemma rd_0 [simp]: "rd m a 0 = []"
  by (simp add: rd_def)

lemma nth_rd [simp]: "i < n \<Longrightarrow> rd m a n ! i = m (a + i)"
  by (simp add: rd_def)

lemma rd_add: "rd m a (i + j) = rd m a i @ rd m (a + i) j"
proof -
  have "[a..<a + (i + j)] = [a..<a + i] @ [a + i..<a + i + j]"
    using upt_add_eq_append [of a "a + i" j] by (simp add: add.assoc)
  then show ?thesis by (simp add: rd_def)
qed

lemma wr_Nil [simp]: "wr m a [] = m"
  by (rule ext) (auto simp: wr_def)

lemma wr_same [mem_simps]: "n = length bs \<Longrightarrow> rd (wr m a bs) a n = bs"
  by (auto simp: rd_def wr_def intro: nth_equalityI)

lemma wr_other [mem_simps]:
  "b + n \<le> a \<or> a + length bs \<le> b \<Longrightarrow> rd (wr m a bs) b n = rd m b n"
  by (auto simp: rd_def wr_def)

lemma wr_at_other: "x < a \<or> a + length bs \<le> x \<Longrightarrow> wr m a bs x = m x"
  by (auto simp: wr_def)

lemma rd_eq_at: "rd m a n = rd m' a n \<Longrightarrow> a \<le> x \<Longrightarrow> x < a + n \<Longrightarrow> m x = m' x"
  by (simp add: rd_def)

lemma rd_eqI: "(\<And>x. a \<le> x \<Longrightarrow> x < a + n \<Longrightarrow> m x = m' x) \<Longrightarrow> rd m a n = rd m' a n"
  by (simp add: rd_def)

lemma rd_sub:
  "rd m a n = rd m' a n \<Longrightarrow> a \<le> b \<Longrightarrow> b + k \<le> a + n \<Longrightarrow> rd m b k = rd m' b k"
  by (rule rd_eqI) (auto intro: rd_eq_at)

section \<open>Little-endian words\<close>

definition le16 :: "nat \<Rightarrow> byte list" where
  "le16 v = [of_nat v, of_nat (v div 256)]"

definition le32 :: "nat \<Rightarrow> byte list" where
  "le32 v = [of_nat v, of_nat (v div 256), of_nat (v div 65536), of_nat (v div 16777216)]"

fun un_le :: "byte list \<Rightarrow> nat" where
  "un_le [] = 0"
| "un_le (b # bs) = unat b + 256 * un_le bs"

lemma length_le16 [simp]: "length (le16 v) = 2"
  by (simp add: le16_def)

lemma length_le32 [simp]: "length (le32 v) = 4"
  by (simp add: le32_def)

lemma unat_of_nat8: "unat (of_nat v :: byte) = v mod 256"
  by (simp add: unat_of_nat)

lemma un_le16 [simp]: "un_le (le16 v) = v mod 65536"
  using mod_mult2_eq [of v 256 256] by (simp add: le16_def unat_of_nat8)

lemma un_le32: "un_le (le32 v) = v mod 4294967296"
  using mod_mult2_eq [of v 256 16777216] mod_mult2_eq [of "v div 256" 256 65536]
    mod_mult2_eq [of "v div 65536" 256 256]
  by (simp add: le32_def unat_of_nat8 div_mult2_eq [symmetric])

lemma un_le_bound: "un_le bs < 256 ^ length bs"
proof (induction bs)
  case Nil
  then show ?case by simp
next
  case (Cons b bs)
  have "unat b < 256" using unsigned_less [of b] by simp
  then show ?case using Cons by simp
qed

definition ld32 :: "mem \<Rightarrow> nat \<Rightarrow> nat" where
  "ld32 m a = un_le (rd m a 4)"

definition st32 :: "mem \<Rightarrow> nat \<Rightarrow> nat \<Rightarrow> mem" where
  "st32 m a v = wr m a (le32 v)"

lemma ld32_st32_same [mem_simps]: "v < 4294967296 \<Longrightarrow> ld32 (st32 m a v) a = v"
  by (simp add: ld32_def st32_def wr_same un_le32)

lemma ld32_st32_other [mem_simps]:
  "b + 4 \<le> a \<or> a + 4 \<le> b \<Longrightarrow> ld32 (st32 m a v) b = ld32 m b"
  by (simp add: ld32_def st32_def wr_other)

lemma ld32_wr_other [mem_simps]:
  "b + 4 \<le> a \<or> a + length bs \<le> b \<Longrightarrow> ld32 (wr m a bs) b = ld32 m b"
  by (simp add: ld32_def wr_other)

lemma rd_st32_other [mem_simps]:
  "b + n \<le> a \<or> a + 4 \<le> b \<Longrightarrow> rd (st32 m a v) b n = rd m b n"
  by (simp add: st32_def wr_other)

lemma st32_at_other [mem_simps]: "x < a \<or> a + 4 \<le> x \<Longrightarrow> st32 m a v x = m x"
  by (simp add: st32_def wr_at_other)

lemma ld32_bound: "ld32 m a < 4294967296"
  using un_le_bound [of "rd m a 4"] by (simp add: ld32_def)

lemma ld32_upd_other [mem_simps]: "x < b \<or> b + 4 \<le> x \<Longrightarrow> ld32 (m(x := v)) b = ld32 m b"
  unfolding ld32_def by (rule arg_cong [where f = un_le], rule rd_eqI) auto

lemma rd_upd_other [mem_simps]: "x < b \<or> b + n \<le> x \<Longrightarrow> rd (m(x := v)) b n = rd m b n"
  by (rule rd_eqI) auto

lemma ld32_cong: "rd m a 4 = rd m' a 4 \<Longrightarrow> ld32 m a = ld32 m' a"
  by (simp add: ld32_def)

section \<open>Exclusive or\<close>

lemma xor_cancel_right: "(a :: 'a::len word) XOR c = b XOR c \<longleftrightarrow> a = b"
  by (metis xor.assoc xor.right_neutral xor_self_eq)

lemma xor_cancel_left: "(c :: 'a::len word) XOR a = c XOR b \<longleftrightarrow> a = b"
  by (metis xor_cancel_right xor.commute)

end
