(* ===== verification/Bmalloc.thy ===== *)
theory Bmalloc
  imports Prelude
begin

text \<open>
  The pool allocator of \<open>zephyr/modules/rtbus/lib/bmalloc.c\<close>.  Every block starts with the
  8-byte header \<open>_m_header\<close>: the flag byte (\<open>isBusy\<close> in the low nibble, \<open>index\<close> in the
  high one), three bytes of padding, and the 32-bit address of the next header.  The state is
  the four arrays of the source and the memory itself; the headers live in that memory, so a
  payload write that strayed into a header would corrupt the chain here as it does on the device.

  The lemmas describe the memory between the pool base and the high-water mark as a \<open>chain\<close> of
  blocks.  \<open>pool_inv\<close> is the allocator's invariant, \<open>amap\<close> the map from the address of a live
  allocation to its size, and the interface to clients is the locale \<open>pool_allocator\<close>.
\<close>

section \<open>State and headers\<close>

definition POOL_NUM_MAX :: nat where [layout_defs]: "POOL_NUM_MAX = 2"
definition MAX_ALIGNMENT :: nat where [layout_defs]: "MAX_ALIGNMENT = 4"
definition HDR_SIZE :: nat where [layout_defs]: "HDR_SIZE = 8"

record pools =
  pool_mem :: mem
  last_heap_object :: "nat \<Rightarrow> nat"
  heap_of_memory :: "nat \<Rightarrow> nat"
  top_of_heap :: "nat \<Rightarrow> nat"
  this_active :: "nat \<Rightarrow> bool"

definition get_busy :: "mem \<Rightarrow> nat \<Rightarrow> bool" where
  "get_busy m h \<longleftrightarrow> m h AND 0x0F \<noteq> 0"

definition set_busy :: "byte \<Rightarrow> mem \<Rightarrow> nat \<Rightarrow> mem" where
  "set_busy v m h = m(h := (m h AND 0xF0) OR (v AND 0x0F))"

definition set_index :: "byte \<Rightarrow> mem \<Rightarrow> nat \<Rightarrow> mem" where
  "set_index i m h = m(h := (m h AND 0x0F) OR (push_bit 4 i AND 0xF0))"

definition hnext :: "mem \<Rightarrow> nat \<Rightarrow> nat" where
  "hnext m h = ld32 m (h + 4)"

definition set_next :: "nat \<Rightarrow> mem \<Rightarrow> nat \<Rightarrow> mem" where
  "set_next v m h = st32 m (h + 4) v"

section \<open>Operations\<close>

definition init_mem_pool :: "nat \<Rightarrow> nat \<Rightarrow> nat \<Rightarrow> 'a pools_scheme \<Rightarrow> 'a pools_scheme" where
  "init_mem_pool index heap len s =
     (if POOL_NUM_MAX \<le> index then s
      else
        let s = s\<lparr>last_heap_object := (last_heap_object s)(index := NULL),
                  heap_of_memory := (heap_of_memory s)(index := NULL),
                  top_of_heap := (top_of_heap s)(index := NULL),
                  this_active := (this_active s)(index := False)\<rparr>
        in if heap = NULL \<or> len \<le> HDR_SIZE then s
        else
          let aligned_start = u32 (heap + (MAX_ALIGNMENT - 1)) div MAX_ALIGNMENT * MAX_ALIGNMENT;
              align_skip = psub aligned_start heap
          in if len \<le> u32 (align_skip + HDR_SIZE) then s
          else
            let len = psub len align_skip; heap_base = aligned_start
            in s\<lparr>pool_mem := wr (pool_mem s) heap_base (replicate len 0),
                 heap_of_memory := (heap_of_memory s)(index := heap_base),
                 top_of_heap := (top_of_heap s)(index := heap_base + (len - 1)),
                 this_active := (this_active s)(index := True)\<rparr>)"

definition make_new_mem_hole :: "nat \<Rightarrow> nat \<Rightarrow> mem \<Rightarrow> mem" where
  "make_new_mem_hole head_p ptr m =
     (if psub (hnext m head_p) ptr > HDR_SIZE then
        let p = hnext m head_p;
            m = set_next ptr m head_p;
            m = set_busy 0 m ptr
        in set_next p m ptr
      else m)"

text \<open>The first-fit scan of \<open>bmalloc\<close>: the header found, or \<open>NULL\<close> at the high-water mark.\<close>

partial_function (option) bmalloc_find :: "mem \<Rightarrow> nat \<Rightarrow> nat \<Rightarrow> nat \<Rightarrow> nat option" where
  "bmalloc_find m ptr lst n =
     (if ptr < lst then
        if \<not> get_busy m ptr \<and> n \<le> psub (psub (hnext m ptr) ptr) HDR_SIZE then Some ptr
        else bmalloc_find m (hnext m ptr) lst n
      else Some NULL)"

definition bmalloc :: "nat \<Rightarrow> nat \<Rightarrow> 'a pools_scheme \<Rightarrow> ('a pools_scheme \<times> nat) option" where
  "bmalloc index n s =
     (if POOL_NUM_MAX \<le> index \<or> \<not> this_active s index \<or> n = 0 then Some (s, NULL)
      else
        let n = u32 (n + (MAX_ALIGNMENT - 1)) div MAX_ALIGNMENT * MAX_ALIGNMENT;
            s = (if last_heap_object s index = NULL
                 then s\<lparr>last_heap_object :=
                          (last_heap_object s)(index := heap_of_memory s index)\<rparr>
                 else s)
        in if u32 (n + HDR_SIZE) \<le> psub (top_of_heap s index) (last_heap_object s index) then
          let head_p = last_heap_object s index;
              m = set_index (of_nat index) (set_busy 1 (pool_mem s) head_p) head_p;
              lst = head_p + u32 (n + HDR_SIZE);
              m = set_next lst m head_p;
              result_ptr = lst - n
          in Some (s\<lparr>pool_mem := wr m result_ptr (replicate n 0),
                     last_heap_object := (last_heap_object s)(index := lst)\<rparr>, result_ptr)
        else do {
          head_p \<leftarrow> bmalloc_find (pool_mem s) (heap_of_memory s index)
                      (last_heap_object s index) n;
          if head_p = NULL then Some (s, NULL)
          else
            let ret_ptr = head_p + HDR_SIZE;
                m = set_index (of_nat index) (set_busy 1 (pool_mem s) head_p) head_p
            in Some (s\<lparr>pool_mem := make_new_mem_hole head_p (ret_ptr + n) m\<rparr>, ret_ptr)
        })"

text \<open>The scan of \<open>bfree\<close>: the previous and the current header where the payload address
  matches, \<open>None\<close> inside when the scan reaches the high-water mark.\<close>

partial_function (option) bfree_scan ::
    "mem \<Rightarrow> nat \<Rightarrow> nat \<Rightarrow> nat \<Rightarrow> nat \<Rightarrow> (nat \<times> nat) option option" where
  "bfree_scan m prev cur lst ptr =
     (if cur < lst then
        if ptr = cur + HDR_SIZE then Some (Some (prev, cur))
        else bfree_scan m cur (hnext m cur) lst ptr
      else Some None)"

definition bfree_block :: "nat \<Rightarrow> nat \<Rightarrow> nat \<Rightarrow> 'a pools_scheme \<Rightarrow> 'a pools_scheme" where
  "bfree_block index prev cur s =
     (let m = pool_mem s; lst = last_heap_object s index
      in if get_busy m cur then
        let next_h = (if hnext m cur < lst then hnext m cur else cur);
            (m, c) =
              (if \<not> get_busy m prev
               then (set_next (if get_busy m next_h then hnext m cur else hnext m next_h) m prev,
                     prev)
               else
                 let m = (if \<not> get_busy m next_h then set_next (hnext m next_h) m cur else m)
                 in (set_busy 0 m cur, cur))
        in s\<lparr>pool_mem := m,
             last_heap_object :=
               (if hnext m c = lst then (last_heap_object s)(index := c)
                else last_heap_object s)\<rparr>
      else s)"

definition bfree :: "nat \<Rightarrow> nat \<Rightarrow> 'a pools_scheme \<Rightarrow> 'a pools_scheme option" where
  "bfree index ptr s =
     (if POOL_NUM_MAX \<le> index \<or> \<not> this_active s index \<or> ptr = NULL then Some s
      else do {
        r \<leftarrow> bfree_scan (pool_mem s) (heap_of_memory s index) (heap_of_memory s index)
               (last_heap_object s index) ptr;
        Some (case r of None \<Rightarrow> s | Some (prev, cur) \<Rightarrow> bfree_block index prev cur s)
      })"

section \<open>Header fields\<close>

lemma nibbles [simp]:
  fixes x v i :: byte
  shows "((x AND 0xF0) OR (v AND 0x0F)) AND 0x0F = v AND 0x0F"
    and "((x AND 0x0F) OR (push_bit 4 i AND 0xF0)) AND 0x0F = x AND 0x0F"
  by (simp_all add: bit.conj_disj_distrib2 and.assoc)

lemma get_busy_set_busy [mem_simps]: "get_busy (set_busy v m h) h \<longleftrightarrow> v AND 0x0F \<noteq> 0"
  by (simp add: get_busy_def set_busy_def)

lemma get_busy_set_busy_other [mem_simps]: "h \<noteq> k \<Longrightarrow> get_busy (set_busy v m k) h = get_busy m h"
  by (simp add: get_busy_def set_busy_def)

lemma get_busy_set_index [mem_simps]: "get_busy (set_index i m h) h = get_busy m h"
  by (simp add: get_busy_def set_index_def)

lemma get_busy_set_next [mem_simps]:
  "h < k + 4 \<or> k + 8 \<le> h \<Longrightarrow> get_busy (set_next v m k) h = get_busy m h"
  by (elim disjE) (simp_all add: get_busy_def set_next_def st32_at_other)

lemma hnext_set_busy [mem_simps]: "k < h + 4 \<or> h + 8 \<le> k \<Longrightarrow> hnext (set_busy v m k) h = hnext m h"
  by (elim disjE) (simp_all add: hnext_def set_busy_def ld32_upd_other)

lemma hnext_set_index [mem_simps]: "k < h + 4 \<or> h + 8 \<le> k \<Longrightarrow> hnext (set_index v m k) h = hnext m h"
  by (elim disjE) (simp_all add: hnext_def set_index_def ld32_upd_other)

lemma hnext_set_next [mem_simps]: "v < 4294967296 \<Longrightarrow> hnext (set_next v m h) h = v"
  by (simp add: hnext_def set_next_def ld32_st32_same)

lemma hnext_set_next_other [mem_simps]:
  "h + 4 \<le> k \<or> k + 4 \<le> h \<Longrightarrow> hnext (set_next v m k) h = hnext m h"
  by (elim disjE) (simp_all add: hnext_def set_next_def ld32_st32_other)

lemma header_upd_at [mem_simps]:
  "x \<noteq> h \<Longrightarrow> set_busy v m h x = m x"
  "x \<noteq> h \<Longrightarrow> set_index i m h x = m x"
  "x < h + 4 \<or> h + 8 \<le> x \<Longrightarrow> set_next w m h x = m x"
  by (auto simp: set_busy_def set_index_def set_next_def st32_def wr_def)


section \<open>The chain of blocks\<close>

text \<open>A block is its payload size and its busy flag.\<close>

type_synonym block = "nat \<times> bool"

fun chain :: "mem \<Rightarrow> nat \<Rightarrow> nat \<Rightarrow> block list \<Rightarrow> bool" where
  "chain m a e [] \<longleftrightarrow> a = e"
| "chain m a e ((n, b) # bs) \<longleftrightarrow>
     get_busy m a = b \<and> hnext m a = a + HDR_SIZE + n \<and> chain m (a + HDR_SIZE + n) e bs"

fun total :: "block list \<Rightarrow> nat" where
  "total [] = 0"
| "total ((n, b) # bs) = HDR_SIZE + n + total bs"

fun busy_blocks :: "nat \<Rightarrow> block list \<Rightarrow> (nat \<times> nat) list" where
  "busy_blocks a [] = []"
| "busy_blocks a ((n, b) # bs) =
     (if b then [(a + HDR_SIZE, n)] else []) @ busy_blocks (a + HDR_SIZE + n) bs"

text \<open>No two adjacent holes, and no hole at the high-water mark.\<close>

definition coalesced :: "block list \<Rightarrow> bool" where
  "coalesced bs \<longleftrightarrow>
     (bs = [] \<or> snd (last bs)) \<and> successively (\<lambda>x y. snd x \<or> snd y) bs"

definition amap :: "nat \<Rightarrow> block list \<Rightarrow> nat \<rightharpoonup> nat" where
  "amap a bs = map_of (busy_blocks a bs)"

lemma HDR_SIZE_val [simp]: "HDR_SIZE = 8"
  by (simp add: HDR_SIZE_def)

lemma total_append [simp]: "total (xs @ ys) = total xs + total ys"
  by (induction xs rule: total.induct) simp_all

lemma chain_end: "chain m a e bs \<Longrightarrow> e = a + total bs"
  by (induction m a e bs rule: chain.induct) auto

lemma chain_append:
  "chain m a e (xs @ ys) \<longleftrightarrow> chain m a (a + total xs) xs \<and> chain m (a + total xs) e ys"
  by (induction m a e xs rule: chain.induct) (auto simp: algebra_simps)

lemma chain_frame:
  "(\<And>x. a \<le> x \<Longrightarrow> x < e \<Longrightarrow> m' x = m x) \<Longrightarrow> chain m a e bs \<Longrightarrow> chain m' a e bs"
proof (induction m a e bs rule: chain.induct)
  case (1 m a e)
  then show ?case by simp
next
  case (2 m a e n b bs)
  from "2.prems"(2) have e: "e = a + 8 + n + total bs"
    by (auto dest: chain_end)
  then have "get_busy m' a = get_busy m a" "hnext m' a = hnext m a"
    unfolding get_busy_def hnext_def
    by (auto intro!: ld32_cong rd_eqI simp: "2.prems"(1))
  then show ?case using 2 by simp
qed

text \<open>Replacing a run of blocks: only the bytes of that run may change.\<close>

lemma chain_subst:
  assumes "chain m a e (xs @ mid @ ys)" "p = a + total xs" "q = p + total mid"
    and "\<And>x. x < p \<or> q \<le> x \<Longrightarrow> m' x = m x"
    and "chain m' p q mid'"
  shows "chain m' a e (xs @ mid' @ ys)"
proof -
  from assms(1-3) have "chain m a p xs" "chain m q e ys"
    by (auto simp: chain_append)
  then have "chain m' a p xs" "chain m' q e ys"
    using assms(4) by (auto intro: chain_frame)
  moreover have "total mid' = total mid"
    using assms(3,5) by (auto dest: chain_end)
  ultimately show ?thesis
    using assms(2,3,5) by (simp add: chain_append)
qed

lemma busy_blocks_append [simp]:
  "busy_blocks a (xs @ ys) = busy_blocks a xs @ busy_blocks (a + total xs) ys"
  by (induction a xs rule: busy_blocks.induct) (simp_all add: algebra_simps)

lemma busy_blocks_bounds:
  "(p, n) \<in> set (busy_blocks a bs) \<Longrightarrow> a + 8 \<le> p \<and> p + n \<le> a + total bs"
  by (induction a bs rule: busy_blocks.induct) (auto split: if_splits)

lemma busy_blocks_disjoint:
  "(p, n) \<in> set (busy_blocks a bs) \<Longrightarrow> (q, k) \<in> set (busy_blocks a bs) \<Longrightarrow> p < q \<Longrightarrow> p + n + 8 \<le> q"
proof (induction a bs rule: busy_blocks.induct)
  case (1 a)
  then show ?case by simp
next
  case (2 a j b bs)
  then show ?case
    using busy_blocks_bounds [of p n "a + 8 + j" bs] busy_blocks_bounds [of q k "a + 8 + j" bs]
    by (auto split: if_splits)
qed

lemma amap_Some: "amap a bs p = Some n \<Longrightarrow> (p, n) \<in> set (busy_blocks a bs)"
  by (simp add: amap_def map_of_SomeD)

lemma amap_bounds: "amap a bs p = Some n \<Longrightarrow> a + 8 \<le> p \<and> p + n \<le> a + total bs"
  using amap_Some busy_blocks_bounds by blast

lemma amap_disjoint:
  "amap a bs p = Some n \<Longrightarrow> amap a bs q = Some k \<Longrightarrow> p \<noteq> q \<Longrightarrow> p + n + 8 \<le> q \<or> q + k + 8 \<le> p"
  using busy_blocks_disjoint [OF amap_Some amap_Some] by (metis linorder_neqE_nat)

lemma amap_append: "amap a (xs @ ys) = amap (a + total xs) ys ++ amap a xs"
  by (simp add: amap_def)

lemma amap_Nil [simp]: "amap a [] = Map.empty"
  by (simp add: amap_def)

lemma amap_hole [simp]: "amap a ((n, False) # bs) = amap (a + 8 + n) bs"
  by (simp add: amap_def)

lemma amap_busy [simp]: "amap a ((n, True) # bs) = (amap (a + 8 + n) bs)(a + 8 \<mapsto> n)"
  by (auto simp: amap_def)

lemma amap_outside: "p < a + 8 \<or> a + total bs < p \<Longrightarrow> amap a bs p = None"
  using amap_bounds [of a bs p] by (cases "amap a bs p") auto

lemma amap_insert:
  assumes "amap p mid = Map.empty" "amap p mid' = [r \<mapsto> n]" "total mid' = total mid"
    and "p = a + total xs" "p < r"
  shows "amap a (xs @ mid' @ ys) = (amap a (xs @ mid @ ys))(r \<mapsto> n)"
    and "r \<le> p + total mid \<Longrightarrow> amap a (xs @ mid @ ys) r = None"
proof -
  have xs: "amap a xs r = None" using assms(4,5) by (auto intro: amap_outside)
  then show "amap a (xs @ mid' @ ys) = (amap a (xs @ mid @ ys))(r \<mapsto> n)"
    using assms by (simp add: amap_append map_add_upd_left domIff)
  show "amap a (xs @ mid @ ys) r = None" if "r \<le> p + total mid"
    using xs that assms(1,4) by (auto simp: amap_append map_add_None intro: amap_outside)
qed

lemma amap_delete:
  assumes "amap p mid = [r \<mapsto> n]" "amap p mid' = Map.empty" "total mid' = total mid"
    and "p = a + total xs" "p < r" "r \<le> p + total mid"
  shows "amap a (xs @ mid' @ ys) = (amap a (xs @ mid @ ys))(r := None)"
proof
  fix x
  have "amap a xs r = None" "amap (p + total mid) ys r = None"
    using assms(4-6) by (auto intro: amap_outside)
  then show "amap a (xs @ mid' @ ys) x = ((amap a (xs @ mid @ ys))(r := None)) x"
    using assms by (auto simp: amap_append map_add_def split: option.splits)
qed

section \<open>The allocator's invariant\<close>

definition high_water :: "nat \<Rightarrow> 'a pools_scheme \<Rightarrow> nat" where
  "high_water i s = (if last_heap_object s i = NULL then heap_of_memory s i
                     else last_heap_object s i)"

definition pool_inv :: "nat \<Rightarrow> 'a pools_scheme \<Rightarrow> block list \<Rightarrow> bool" where
  "pool_inv i s bs \<longleftrightarrow>
     i < POOL_NUM_MAX \<and> this_active s i \<and>
     0 < heap_of_memory s i \<and> heap_of_memory s i mod 4 = 0 \<and>
     high_water i s \<le> top_of_heap s i \<and> top_of_heap s i < 4294967296 \<and>
     chain (pool_mem s) (heap_of_memory s i) (high_water i s) bs \<and> coalesced bs \<and>
     (\<forall>(n, b) \<in> set bs. n mod 4 = 0 \<and> 4 \<le> n)"

text \<open>The live allocations of a pool: payload address to payload size.\<close>

abbreviation live :: "nat \<Rightarrow> 'a pools_scheme \<Rightarrow> block list \<Rightarrow> nat \<rightharpoonup> nat" where
  "live i s bs \<equiv> amap (heap_of_memory s i) bs"

lemmas coalesced_simps = coalesced_def successively_append_iff successively_Cons

lemma find_spec:
  assumes "chain m a e bs" "0 < a" "e < 4294967296"
  shows "(\<exists>xs k ys. bs = xs @ (k, False) # ys \<and> n \<le> k \<and>
            bmalloc_find m a e n = Some (a + total xs)) \<or>
         (\<forall>(k, b) \<in> set bs. b \<or> k < n) \<and> bmalloc_find m a e n = Some NULL"
  using assms
proof (induction bs arbitrary: a)
  case Nil
  then show ?case by (simp add: bmalloc_find.simps)
next
  case (Cons x bs)
  obtain k b where x: "x = (k, b)" by force
  with Cons.prems have bs: "get_busy m a = b" "hnext m a = a + 8 + k" "chain m (a + 8 + k) e bs"
    by simp_all
  then have e: "a + 8 + k \<le> e" by (auto dest: chain_end)
  show ?case
  proof (cases "\<not> b \<and> n \<le> k")
    case True
    then have "bmalloc_find m a e n = Some a"
      using bs e Cons.prems by (subst bmalloc_find.simps) simp
    with True x show ?thesis
      by (intro disjI1 exI [of _ "[]"]) simp
  next
    case False
    then have step: "bmalloc_find m a e n = bmalloc_find m (a + 8 + k) e n"
      using bs e Cons.prems by (subst bmalloc_find.simps) auto
    have "0 < a + 8 + k" using Cons.prems by simp
    from Cons.IH [OF bs(3) this Cons.prems(3)] show ?thesis
    proof (elim disjE exE conjE)
      fix xs j ys
      assume "bs = xs @ (j, False) # ys" "n \<le> j"
        "bmalloc_find m (a + 8 + k) e n = Some (a + 8 + k + total xs)"
      then show ?thesis
        using step x by (intro disjI1 exI [of _ "(k, b) # xs"]) (auto simp: algebra_simps)
    next
      assume "\<forall>(k, b) \<in> set bs. b \<or> k < n" "bmalloc_find m (a + 8 + k) e n = Some NULL"
      then show ?thesis using step x False by (intro disjI2) auto
    qed
  qed
qed

text \<open>The scan of \<open>bfree\<close> finds the block, with its predecessor (the block itself at the
  base of the pool).\<close>

lemma scan_hit:
  assumes "chain m a e (xs @ (k, b) # ys)" "e < 4294967296"
  shows "bfree_scan m prev a e (a + total xs + 8) =
           Some (Some (if xs = [] then prev else a + total (butlast xs), a + total xs))"
  using assms
proof (induction xs arbitrary: prev a)
  case Nil
  then have "a < e" by (auto dest: chain_end)
  then show ?case by (simp add: bfree_scan.simps)
next
  case (Cons x xs)
  obtain j c where x: "x = (j, c)" by force
  with Cons.prems have "hnext m a = a + 8 + j" "chain m (a + 8 + j) e (xs @ (k, b) # ys)" "a < e"
    by (auto dest: chain_end)
  with Cons.IH [of "a + 8 + j" a] Cons.prems x show ?case
    by (subst bfree_scan.simps) (auto simp: algebra_simps)
qed

lemma scan_miss:
  assumes "chain m a e bs" "e < 4294967296"
    and "\<And>xs k b ys. bs = xs @ (k, b) # ys \<Longrightarrow> ptr \<noteq> a + total xs + 8"
  shows "bfree_scan m prev a e ptr = Some None"
  using assms
proof (induction bs arbitrary: prev a)
  case Nil
  then show ?case by (simp add: bfree_scan.simps)
next
  case (Cons x bs)
  obtain j c where x: "x = (j, c)" by force
  have "bfree_scan m a (a + 8 + j) e ptr = Some None"
  proof (rule Cons.IH)
    show "chain m (a + 8 + j) e bs" using Cons.prems x by simp
    fix xs k b ys
    assume "bs = xs @ (k, b) # ys"
    then show "ptr \<noteq> a + 8 + j + total xs + 8"
      using Cons.prems(3) [of "x # xs" k b ys] x by (simp add: algebra_simps)
  qed (use Cons.prems in simp)
  then show ?case
    using Cons.prems(1) Cons.prems(3) [of "[]"] x
    by (subst bfree_scan.simps) (auto dest: chain_end)
qed

section \<open>What the operations do\<close>

text \<open>The lazy initialisation of the high-water mark.\<close>

definition with_mark :: "nat \<Rightarrow> 'a pools_scheme \<Rightarrow> 'a pools_scheme" where
  "with_mark i s = s\<lparr>last_heap_object := (last_heap_object s)(i := high_water i s)\<rparr>"

lemma with_mark_simps [simp]:
  "pool_mem (with_mark i s) = pool_mem s"
  "heap_of_memory (with_mark i s) = heap_of_memory s"
  "top_of_heap (with_mark i s) = top_of_heap s"
  "this_active (with_mark i s) = this_active s"
  "last_heap_object (with_mark i s) i = high_water i s"
  by (simp_all add: with_mark_def)

lemma high_water_with_mark [simp]: "high_water i (with_mark i s) = high_water i s"
  by (simp add: high_water_def with_mark_def)

lemma pool_inv_with_mark [simp]: "pool_inv i (with_mark i s) bs = pool_inv i s bs"
  by (simp add: pool_inv_def)

lemma pool_invD:
  assumes "pool_inv i s bs"
  shows "i < 2" "this_active s i" "0 < heap_of_memory s i" "heap_of_memory s i mod 4 = 0"
    "high_water i s \<le> top_of_heap s i" "top_of_heap s i < 4294967296"
    "chain (pool_mem s) (heap_of_memory s i) (high_water i s) bs" "coalesced bs"
    "\<forall>(n, b) \<in> set bs. n mod 4 = 0 \<and> 4 \<le> n"
    "high_water i s = heap_of_memory s i + total bs"
  using assms chain_end by (auto simp: pool_inv_def POOL_NUM_MAX_def)

text \<open>The two branches of \<open>bmalloc\<close> as functions of the rounded size.\<close>

definition bmalloc_top :: "nat \<Rightarrow> nat \<Rightarrow> 'a pools_scheme \<Rightarrow> 'a pools_scheme \<times> nat" where
  "bmalloc_top i n s =
     (let h = high_water i s;
          m = set_next (h + (n + 8)) (set_index (of_nat i) (set_busy 1 (pool_mem s) h) h) h
      in (s\<lparr>pool_mem := wr m (h + 8) (replicate n 0),
            last_heap_object := (last_heap_object s)(i := h + (n + 8))\<rparr>, h + 8))"

definition bmalloc_hole :: "nat \<Rightarrow> nat \<Rightarrow> nat \<Rightarrow> 'a pools_scheme \<Rightarrow> 'a pools_scheme" where
  "bmalloc_hole i n h s =
     s\<lparr>pool_mem := make_new_mem_hole h (h + 8 + n)
                     (set_index (of_nat i) (set_busy 1 (pool_mem s) h) h)\<rparr>"

lemma bmalloc_unfold:
  assumes inv: "pool_inv i s bs" and n: "0 < n" "n < 4294967280"
  shows "bmalloc i n s =
    (if round_up4 n + 8 \<le> top_of_heap s i - high_water i s
     then Some (bmalloc_top i (round_up4 n) s)
     else do {
       h \<leftarrow> bmalloc_find (pool_mem s) (heap_of_memory s i) (high_water i s) (round_up4 n);
       if h = NULL then Some (with_mark i s, NULL)
       else Some (bmalloc_hole i (round_up4 n) h (with_mark i s), h + 8)
     })"
proof -
  note I = pool_invD [OF inv]
  have r: "(n + 3) div 4 * 4 = round_up4 n" using n by (simp add: round_up4_def)
  have r8: "u32 (round_up4 n + 8) = round_up4 n + 8"
    using round_up4_props [of n] n by simp
  have "(if last_heap_object s i = NULL
         then s\<lparr>last_heap_object := (last_heap_object s)(i := heap_of_memory s i)\<rparr> else s)
        = with_mark i s"
    by (simp add: with_mark_def high_water_def)
  moreover have "psub (top_of_heap s i) (high_water i s) = top_of_heap s i - high_water i s"
    using I by simp
  moreover have "(last_heap_object (with_mark i s))(i := v) = (last_heap_object s)(i := v)" for v
    by (simp add: with_mark_def)
  ultimately show ?thesis
    using I(1-7) n unfolding bmalloc_def bmalloc_top_def bmalloc_hole_def
    by (simp add: r r8 layout_defs Let_def with_mark_def add.assoc cong: if_cong)
qed

lemma get_busy_wr [mem_simps]: "h < a \<or> a + length bs \<le> h \<Longrightarrow> get_busy (wr m a bs) h = get_busy m h"
  by (simp add: get_busy_def wr_at_other)

lemma hnext_wr [mem_simps]:
  "h + 8 \<le> a \<or> a + length bs \<le> h + 4 \<Longrightarrow> hnext (wr m a bs) h = hnext m h"
  unfolding hnext_def by (rule ld32_wr_other) auto

lemma chain_high_water_less: "pool_inv i s bs \<Longrightarrow> high_water i s < 4294967296"
  using pool_invD [of i s bs] by simp

lemma bmalloc_top_spec:
  assumes inv: "pool_inv i s bs" and n: "n mod 4 = 0" "4 \<le> n"
    and room: "n + 8 \<le> top_of_heap s i - high_water i s"
    and res: "bmalloc_top i n s = (s', p)"
  shows "p = high_water i s + 8" "pool_inv i s' (bs @ [(n, True)])"
    "x < high_water i s \<or> p + n \<le> x \<Longrightarrow> pool_mem s' x = pool_mem s x"
    "rd (pool_mem s') p n = replicate n 0"
proof -
  note I = pool_invD [OF inv]
  let ?h = "high_water i s"
  let ?m = "set_next (?h + (n + 8)) (set_index (of_nat i) (set_busy 1 (pool_mem s) ?h) ?h) ?h"
  from res have s': "s' = s\<lparr>pool_mem := wr ?m (?h + 8) (replicate n 0),
      last_heap_object := (last_heap_object s)(i := ?h + (n + 8))\<rparr>" and p: "p = ?h + 8"
    by (auto simp: bmalloc_top_def Let_def)
  show "p = ?h + 8" by (rule p)
  show frame: "pool_mem s' x = pool_mem s x" if "x < ?h \<or> p + n \<le> x" for x
    using that by (auto simp: s' p wr_at_other header_upd_at)
  show "rd (pool_mem s') p n = replicate n 0"
    by (simp add: s' p wr_same)
  have b: "?h + (n + 8) < 4294967296" using room I by simp
  have "chain (pool_mem s') (heap_of_memory s i) ?h bs"
    by (rule chain_frame [OF _ I(7)]) (simp add: frame)
  moreover have "chain (pool_mem s') ?h (?h + (n + 8)) [(n, True)]"
    using b by (simp add: s' mem_simps)
  ultimately have "chain (pool_mem s') (heap_of_memory s i) (?h + (n + 8)) (bs @ [(n, True)])"
    using I(10) by (simp add: chain_append)
  moreover have "coalesced (bs @ [(n, True)])"
    using I(8) by (auto simp: coalesced_simps)
  ultimately show "pool_inv i s' (bs @ [(n, True)])"
    using I n room by (auto simp: pool_inv_def s' high_water_def POOL_NUM_MAX_def)
qed

definition split_block :: "nat \<Rightarrow> nat \<Rightarrow> block list" where
  "split_block n k = (if 8 < k - n then [(n, True), (k - n - 8, False)] else [(k, True)])"

lemma total_split_block [simp]: "n \<le> k \<Longrightarrow> total (split_block n k) = 8 + k"
  by (simp add: split_block_def)

lemma coalesced_hole:
  assumes "coalesced (xs @ (k, False) # ys)"
  shows "ys \<noteq> [] \<and> snd (hd ys)" "xs = [] \<or> snd (last xs)"
proof -
  show "xs = [] \<or> snd (last xs)" using assms by (simp add: coalesced_simps)
  show "ys \<noteq> [] \<and> snd (hd ys)"
    using assms by (cases ys) (simp_all add: coalesced_simps)
qed

lemma coalesced_split_block:
  assumes "coalesced (xs @ (k, False) # ys)"
  shows "coalesced (xs @ split_block n k @ ys)"
proof -
  obtain c ys' where "ys = c # ys'" "snd c"
    using coalesced_hole(1) [OF assms] by (cases ys) auto
  with assms show ?thesis
    by (simp add: coalesced_simps split_block_def)
qed

lemma bmalloc_hole_spec:
  assumes inv: "pool_inv i s (xs @ (k, False) # ys)" and n: "n mod 4 = 0" "4 \<le> n" "n \<le> k"
    and h: "h = heap_of_memory s i + total xs"
    and s': "s' = bmalloc_hole i n h (with_mark i s)"
  shows "pool_inv i s' (xs @ split_block n k @ ys)"
    "x < h \<or> h + 8 + k \<le> x \<Longrightarrow> pool_mem s' x = pool_mem s x"
proof -
  note I = pool_invD [OF inv]
  let ?m = "set_index (of_nat i) (set_busy 1 (pool_mem s) h) h"
  have m': "pool_mem s' = make_new_mem_hole h (h + 8 + n) ?m"
    by (simp add: s' bmalloc_hole_def)
  have nx: "hnext ?m h = h + 8 + k" "get_busy ?m h" and b: "h + 8 + k < 4294967296"
    using I h by (auto simp: chain_append mem_simps dest: chain_end)
  show frame: "pool_mem s' x = pool_mem s x" if "x < h \<or> h + 8 + k \<le> x" for x
    using that n nx b
    by (auto simp: m' make_new_mem_hole_def Let_def set_busy_def set_index_def set_next_def
          st32_def wr_def)
  have mid: "chain (pool_mem s') h (h + 8 + k) (split_block n k)"
    using n nx b
    by (auto simp: m' make_new_mem_hole_def split_block_def Let_def mem_simps)
  have "chain (pool_mem s') (heap_of_memory s i) (high_water i s) (xs @ split_block n k @ ys)"
    by (rule chain_subst [where mid = "[(k, False)]" and m = "pool_mem s" and p = h
          and q = "h + 8 + k"])
      (use I(7) h mid frame in auto)
  moreover have "coalesced (xs @ split_block n k @ ys)"
    using I(8) by (rule coalesced_split_block)
  moreover have "\<forall>(n, b) \<in> set (split_block n k). n mod 4 = 0 \<and> 4 \<le> n"
    using I(9) n by (auto simp: split_block_def) presburger+
  moreover have "high_water i s' = high_water i s"
    using I(3) by (simp add: s' bmalloc_hole_def high_water_def with_mark_def)
  ultimately show "pool_inv i s' (xs @ split_block n k @ ys)"
    using I by (auto simp: pool_inv_def s' bmalloc_hole_def POOL_NUM_MAX_def)
qed

lemma total_mod4: "\<forall>(n, b) \<in> set bs. n mod 4 = 0 \<and> 4 \<le> n \<Longrightarrow> total bs mod 4 = 0"
  by (induction bs rule: total.induct) auto

text \<open>Bytes of a block are outside every other live allocation.\<close>

lemma live_outside_block:
  assumes "amap a (xs @ mid @ ys) q = Some j" "amap (a + total xs) mid q = None"
  shows "q + j \<le> a + total xs \<or> a + total xs + total mid \<le> q"
proof -
  have "amap a xs q = Some j \<or> amap (a + total xs + total mid) ys q = Some j"
    using assms by (auto simp: amap_append map_add_Some_iff)
  then show ?thesis by (auto dest: amap_bounds)
qed

lemma bmalloc_cases:
  assumes inv: "pool_inv i s bs" and n: "0 < n" "n < 4294967280"
  obtains (full) "bmalloc i n s = Some (with_mark i s, NULL)"
      "top_of_heap s i - high_water i s < round_up4 n + 8"
      "\<forall>(k, b) \<in> set bs. b \<or> k < round_up4 n"
  | (fit) s' p bs' k where "bmalloc i n s = Some (s', p)" "p \<noteq> NULL" "p mod 4 = 0"
      "s' = s\<lparr>pool_mem := pool_mem s', last_heap_object := last_heap_object s'\<rparr>"
      "pool_inv i s' bs'" "round_up4 n \<le> k"
      "live i s bs p = None" "live i s' bs' = (live i s bs)(p \<mapsto> k)"
      "\<And>q j. live i s bs q = Some j \<Longrightarrow> rd (pool_mem s') q j = rd (pool_mem s) q j"
proof -
  note I = pool_invD [OF inv]
  let ?n = "round_up4 n" and ?a = "heap_of_memory s i"
  have n4: "?n mod 4 = 0" "4 \<le> ?n" using round_up4_props [of n] n by auto
  show ?thesis
  proof (cases "?n + 8 \<le> top_of_heap s i - high_water i s")
    case True
    obtain s' p where top: "bmalloc_top i ?n s = (s', p)" by force
    note T = bmalloc_top_spec [OF inv n4 True top]
    have s': "s' = s\<lparr>pool_mem := pool_mem s', last_heap_object := last_heap_object s'\<rparr>"
      using top by (auto simp: bmalloc_top_def Let_def)
    then have heap: "heap_of_memory s' i = ?a" by (metis pools.ext_inject pools.surjective pools.update_convs(1,2))
    show ?thesis
    proof (rule fit)
      show "bmalloc i n s = Some (s', p)"
        using True top by (simp add: bmalloc_unfold [OF inv n])
      show "live i s bs p = None"
        using T(1) I(10) by (auto intro: amap_outside)
      then show "live i s' (bs @ [(?n, True)]) = (live i s bs)(p \<mapsto> ?n)"
        using T(1) I(10) by (auto simp: heap amap_append fun_eq_iff map_add_def split: option.splits)
      show "rd (pool_mem s') q j = rd (pool_mem s) q j" if "live i s bs q = Some j" for q j
        using amap_bounds [OF that] I(10) by (intro rd_eqI T(3)) auto
      show "p mod 4 = 0"
        using T(1) I(4,10) total_mod4 [OF I(9)] by (simp add: mod_add_eq [symmetric] add.assoc)
    qed (use T s' in auto)
  next
    case False
    have hw: "high_water i s < 4294967296" using chain_high_water_less [OF inv] .
    from find_spec [OF I(7) I(3) hw, of ?n] show ?thesis
    proof (elim disjE exE conjE)
      assume "\<forall>(k, b) \<in> set bs. b \<or> k < ?n"
        "bmalloc_find (pool_mem s) ?a (high_water i s) ?n = Some NULL"
      then show ?thesis
        using False by (intro full) (auto simp: bmalloc_unfold [OF inv n])
    next
      fix xs k ys
      assume bs: "bs = xs @ (k, False) # ys" and k: "?n \<le> k"
        and f: "bmalloc_find (pool_mem s) ?a (high_water i s) ?n = Some (?a + total xs)"
      define h where "h = ?a + total xs"
      define s' where "s' = bmalloc_hole i ?n h (with_mark i s)"
      note H = bmalloc_hole_spec [OF inv [unfolded bs] n4 k h_def s'_def]
      have tot: "total (split_block ?n k) = total [(k, False)]" using k by simp
      obtain k' where k': "amap h (split_block ?n k) = [h + 8 \<mapsto> k']" "?n \<le> k'"
        using k by (cases "8 < k - ?n") (auto simp: split_block_def)
      note A = amap_insert [where mid = "[(k, False)]", OF _ k'(1) tot h_def, of ys, simplified]
      show ?thesis
      proof (rule fit)
        show "bmalloc i n s = Some (s', h + 8)"
          using False f I(3) by (simp add: bmalloc_unfold [OF inv n] s'_def h_def)
        show "pool_inv i s' (xs @ split_block ?n k @ ys)" by (rule H(1))
        show "live i s bs (h + 8) = None" using A(2) bs by simp
        show "live i s' (xs @ split_block ?n k @ ys) = (live i s bs)(h + 8 \<mapsto> k')"
          using A(1) bs by (simp add: s'_def bmalloc_hole_def)
        show "rd (pool_mem s') q j = rd (pool_mem s) q j" if "live i s bs q = Some j" for q j
        proof -
          from that bs have "q + j \<le> h \<or> h + 8 + k \<le> q"
            using live_outside_block [of ?a xs "[(k, False)]" ys q j] by (simp add: h_def add.assoc)
          then show ?thesis by (intro rd_eqI H(2)) auto
        qed
        show "(h + 8) mod 4 = 0"
          using I(4,9) total_mod4 [of xs] bs by (auto simp: h_def)
      qed (use k' in \<open>auto simp: s'_def bmalloc_hole_def with_mark_def\<close>)
    qed
  qed
qed

text \<open>Freeing a busy block: the run of blocks \<open>mid\<close> around it (with the hole before it and the
  hole after it, where there is one) becomes one hole, or the pool shrinks to its start.\<close>

lemma bfree_block_merge:
  assumes inv: "pool_inv i s (xs @ (k, True) # ys)"
    and cur: "cur = heap_of_memory s i + total xs"
    and prev: "prev = (if xs = [] then heap_of_memory s i
                       else heap_of_memory s i + total (butlast xs))"
  obtains xs1 mid ys1 K P m where
    "xs @ (k, True) # ys = xs1 @ mid @ ys1" "P = heap_of_memory s i + total xs1"
    "total mid = 8 + K" "K mod 4 = 0" "4 \<le> K" "amap P mid = [cur + 8 \<mapsto> k]" "P \<le> cur"
    "cur + 8 \<le> P + 8 + K"
    "bfree_block i prev cur s =
       s\<lparr>pool_mem := m, last_heap_object :=
           (if ys1 = [] then (last_heap_object s)(i := P) else last_heap_object s)\<rparr>"
    "chain m P (P + 8 + K) [(K, False)]"
    "\<And>x. x < P \<or> P + 8 + K \<le> x \<Longrightarrow> m x = pool_mem s x"
    "xs1 = [] \<or> snd (last xs1)" "ys1 = [] \<or> snd (hd ys1)"
proof -
  note I = pool_invD [OF inv]
  let ?m = "pool_mem s" and ?lst = "high_water i s"
  have lst: "last_heap_object s i = ?lst"
    using I(7) I(10) by (auto simp: high_water_def split: if_splits)
  have b: "?lst < 4294967296" using chain_high_water_less [OF inv] .
  have c: "get_busy ?m cur" "hnext ?m cur = cur + 8 + k" "chain ?m (cur + 8 + k) ?lst ys"
    using I(7) cur by (auto simp: chain_append)
  have k4: "k mod 4 = 0" "4 \<le> k" using I(9) by auto
  define j where "j = (case ys of (l, False) # _ \<Rightarrow> k + 8 + l | _ \<Rightarrow> k)"
  define ys1 where "ys1 = (case ys of (l, False) # zs \<Rightarrow> zs | _ \<Rightarrow> ys)"
  define nx where "nx = (if cur + 8 + k < ?lst then cur + 8 + k else cur)"
  have tail: "ys = [] \<or> (\<exists>l zs. ys = (l, True) # zs) \<or> (\<exists>l zs. ys = (l, False) # zs)"
    by (cases ys) auto
  have j4: "j mod 4 = 0" "4 \<le> j" "k \<le> j"
    using I(9) k4 tail unfolding j_def by (auto, presburger?)
  have e: "?lst = cur + 8 + j + total ys1"
    using tail c(3) unfolding j_def ys1_def by (auto dest: chain_end)
  have ys1_Nil: "ys1 = [] \<longleftrightarrow> cur + 8 + j = ?lst"
    using e by (cases ys1) auto
  have next_busy: "get_busy ?m nx \<Longrightarrow> j = k \<and> ys1 = ys"
    using tail c I(10) unfolding j_def ys1_def nx_def by (auto dest: chain_end split: if_splits)
  have next_hole: "\<not> get_busy ?m nx \<Longrightarrow> hnext ?m nx = cur + 8 + j \<and> nx = cur + 8 + k"
    using tail c I(10) unfolding j_def ys1_def nx_def by (auto dest: chain_end split: if_splits)
  define hole where "hole = (case ys of (l, False) # _ \<Rightarrow> [(l, False)] | _ \<Rightarrow> [])"
  have ys: "ys = hole @ ys1" "8 + k + total hole = 8 + j" "amap (cur + 8 + k) hole = Map.empty"
    using tail unfolding hole_def ys1_def j_def by auto
  have ys1_busy: "ys1 = [] \<or> snd (hd ys1)"
    using tail I(8) unfolding ys1_def by (auto simp: coalesced_simps split: list.splits)
  have code: "bfree_block i prev cur s =
      (let m = (if \<not> get_busy ?m prev then set_next (cur + 8 + j) ?m prev
                else set_busy 0 (if get_busy ?m nx then ?m else set_next (cur + 8 + j) ?m cur) cur);
           c = (if \<not> get_busy ?m prev then prev else cur)
       in s\<lparr>pool_mem := m, last_heap_object :=
            (if hnext m c = ?lst then (last_heap_object s)(i := c) else last_heap_object s)\<rparr>)"
    using c next_busy next_hole lst unfolding bfree_block_def nx_def
    by (auto simp: Let_def)
  have jb: "cur + 8 + j < 4294967296" using e b by simp
  consider (merge) xs1 l where "xs = xs1 @ [(l, False)]" | (keep) "xs = [] \<or> snd (last xs)"
    by (cases xs rule: rev_cases) (auto, blast)
  then show ?thesis
  proof cases
    case keep
    have "get_busy ?m prev"
    proof (cases xs rule: rev_cases)
      case Nil
      then show ?thesis using prev cur c by simp
    next
      case (snoc xs0 x)
      then show ?thesis using keep prev cur I(7) by (cases x) (auto simp: chain_append)
    qed
    define m where "m = set_busy 0 (if get_busy ?m nx then ?m else set_next (cur + 8 + j) ?m cur) cur"
    have n: "hnext m cur = cur + 8 + j" "\<not> get_busy m cur"
      using c jb next_busy by (auto simp: m_def mem_simps)
    show ?thesis
    proof (rule that)
      show "xs @ (k, True) # ys = xs @ ((k, True) # hole) @ ys1" using ys by simp
      show "total ((k, True) # hole) = 8 + j" using ys by simp
      show "amap cur ((k, True) # hole) = [cur + 8 \<mapsto> k]" using ys by simp
      show "bfree_block i prev cur s = s\<lparr>pool_mem := m, last_heap_object :=
           (if ys1 = [] then (last_heap_object s)(i := cur) else last_heap_object s)\<rparr>"
        using code \<open>get_busy ?m prev\<close> n ys1_Nil by (simp add: m_def Let_def)
      show "m x = ?m x" if "x < cur \<or> cur + 8 + j \<le> x" for x
        using that j4 k4 by (auto simp: m_def set_busy_def set_next_def st32_def wr_def)
    qed (use cur n j4 keep ys1_busy in auto)
  next
    case (merge xs1 l)
    have P: "prev = heap_of_memory s i + total xs1" "cur = prev + 8 + l"
      using prev cur merge by auto
    have "\<not> get_busy ?m prev" using I(7) merge P by (auto simp: chain_append)
    define m where "m = set_next (cur + 8 + j) ?m prev"
    have n: "hnext m prev = cur + 8 + j" "\<not> get_busy m prev"
      using jb \<open>\<not> get_busy ?m prev\<close> by (auto simp: m_def mem_simps)
    have l4: "l mod 4 = 0" "4 \<le> l" using I(9) merge by auto
    show ?thesis
    proof (rule that)
      show "xs @ (k, True) # ys = xs1 @ ((l, False) # (k, True) # hole) @ ys1"
        using ys merge by simp
      show "total ((l, False) # (k, True) # hole) = 8 + (l + 8 + j)" using ys by simp
      show "amap prev ((l, False) # (k, True) # hole) = [cur + 8 \<mapsto> k]" using ys P by simp
      show "bfree_block i prev cur s = s\<lparr>pool_mem := m, last_heap_object :=
           (if ys1 = [] then (last_heap_object s)(i := prev) else last_heap_object s)\<rparr>"
        using code \<open>\<not> get_busy ?m prev\<close> n ys1_Nil by (simp add: m_def Let_def)
      show "m x = ?m x" if "x < prev \<or> prev + 8 + (l + 8 + j) \<le> x" for x
        using that by (auto simp: m_def set_next_def st32_def wr_def)
      show "xs1 = [] \<or> snd (last xs1)" using I(8) merge by (auto simp: coalesced_simps)
      show "(l + 8 + j) mod 4 = 0" using l4 j4 by presburger
      show "chain m prev (prev + 8 + (l + 8 + j)) [(l + 8 + j, False)]" using n P by simp
    qed (use P ys1_busy l4 in auto)
  qed
qed

lemma busy_blocksE:
  assumes "(p, n) \<in> set (busy_blocks a bs)"
  obtains xs ys where "bs = xs @ (n, True) # ys" "p = a + total xs + 8"
proof -
  have "\<exists>xs ys. bs = xs @ (n, True) # ys \<and> p = a + total xs + 8"
    using assms
  proof (induction a bs rule: busy_blocks.induct)
    case (1 a)
    then show ?case by simp
  next
    case (2 a k b bs)
    show ?case
    proof (cases "b \<and> p = a + 8 \<and> n = k")
      case True
      then show ?thesis by (intro exI [of _ "[]"] exI [of _ bs]) simp
    next
      case False
      with 2 obtain xs ys where "bs = xs @ (n, True) # ys" "p = a + 8 + k + total xs + 8"
        by (auto split: if_splits)
      then show ?thesis by (intro exI [of _ "(k, b) # xs"] exI [of _ ys]) simp
    qed
  qed
  with that show thesis by blast
qed

text \<open>The invariant after the merge.\<close>

lemma bfree_inv:
  assumes inv: "pool_inv i s (xs1 @ mid @ ys1)" and P: "P = heap_of_memory s i + total xs1"
    and K: "total mid = 8 + K" "K mod 4 = 0" "4 \<le> K"
    and m: "chain m P (P + 8 + K) [(K, False)]"
      "\<And>x. x < P \<or> P + 8 + K \<le> x \<Longrightarrow> m x = pool_mem s x"
    and busy: "xs1 = [] \<or> snd (last xs1)" "ys1 = [] \<or> snd (hd ys1)"
  shows "pool_inv i
    (s\<lparr>pool_mem := m, last_heap_object :=
        (if ys1 = [] then (last_heap_object s)(i := P) else last_heap_object s)\<rparr>)
    (if ys1 = [] then xs1 else xs1 @ (K, False) # ys1)"
proof -
  note I = pool_invD [OF inv]
  have all: "chain m (heap_of_memory s i) (high_water i s) (xs1 @ [(K, False)] @ ys1)"
    by (rule chain_subst [OF I(7) P]) (use K m in auto)
  show ?thesis
  proof (cases "ys1 = []")
    case True
    then have "chain m (heap_of_memory s i) P xs1" "P \<le> top_of_heap s i"
      using all P I(5,10) K by (auto simp: chain_append)
    with True I P busy show ?thesis
      by (auto simp: pool_inv_def high_water_def POOL_NUM_MAX_def coalesced_simps)
  next
    case False
    have "coalesced (xs1 @ (K, False) # ys1)"
      using I(8) False busy by (auto simp: coalesced_simps)
    with False I all K show ?thesis
      by (auto simp: pool_inv_def high_water_def POOL_NUM_MAX_def)
  qed
qed

lemma bfree_spec:
  assumes inv: "pool_inv i s bs"
  obtains s' bs' where "bfree i p s = Some s'" "pool_inv i s' bs'"
    "live i s' bs' = (live i s bs)(p := None)"
    "s' = s\<lparr>pool_mem := pool_mem s', last_heap_object := last_heap_object s'\<rparr>"
    "\<And>q j. q \<noteq> p \<Longrightarrow> live i s bs q = Some j \<Longrightarrow> rd (pool_mem s') q j = rd (pool_mem s) q j"
    "live i s bs p = None \<Longrightarrow> s' = s"
proof -
  note I = pool_invD [OF inv]
  let ?a = "heap_of_memory s i"
  have code: "bfree i p s = do {
      r \<leftarrow> bfree_scan (pool_mem s) ?a ?a (last_heap_object s i) p;
      Some (case r of None \<Rightarrow> s | Some (prev, cur) \<Rightarrow> bfree_block i prev cur s) }"
    if "p \<noteq> NULL"
    using that I by (simp add: bfree_def POOL_NUM_MAX_def)
  consider (null) "p = NULL"
    | (hit) xs k b ys where "p \<noteq> NULL" "bs = xs @ (k, b) # ys" "p = ?a + total xs + 8"
    | (miss) "p \<noteq> NULL" "\<And>xs k b ys. bs = xs @ (k, b) # ys \<Longrightarrow> p \<noteq> ?a + total xs + 8"
    by blast
  then show thesis
  proof cases
    case null
    then have "live i s bs p = None" by (simp add: amap_outside)
    with null show thesis by (intro that [of s bs]) (auto simp: bfree_def inv)
  next
    case miss
    have "live i s bs p = None"
    proof (rule ccontr)
      assume "live i s bs p \<noteq> None"
      then obtain n where "(p, n) \<in> set (busy_blocks ?a bs)" using amap_Some by fastforce
      then obtain xs ys where "bs = xs @ (n, True) # ys" "p = ?a + total xs + 8"
        by (rule busy_blocksE)
      with miss(2) show False by blast
    qed
    moreover have "bfree i p s = Some s"
    proof (cases "last_heap_object s i = NULL")
      case True
      then show ?thesis using miss by (simp add: code bfree_scan.simps)
    next
      case False
      then have "bfree_scan (pool_mem s) ?a ?a (last_heap_object s i) p = Some None"
        using scan_miss [OF I(7) _ miss(2)] chain_high_water_less [OF inv]
        by (simp add: high_water_def)
      then show ?thesis using miss by (simp add: code)
    qed
    ultimately show thesis by (intro that [of s bs]) (auto simp: inv)
  next
    case hit
    have lst: "last_heap_object s i = high_water i s"
      using I(10) hit(2) by (auto simp: high_water_def split: if_splits)
    let ?cur = "?a + total xs" and ?prev = "if xs = [] then ?a else ?a + total (butlast xs)"
    have "bfree_scan (pool_mem s) ?a ?a (last_heap_object s i) p = Some (Some (?prev, ?cur))"
      using scan_hit [OF I(7) [unfolded hit(2)] chain_high_water_less [OF inv]] hit(3) lst
      by simp
    then have step: "bfree i p s = Some (bfree_block i ?prev ?cur s)"
      using hit(1) by (simp add: code)
    show thesis
    proof (cases b)
      case False
      have "get_busy (pool_mem s) ?cur = False"
        using I(7) hit(2) False by (simp add: chain_append)
      then have "bfree_block i ?prev ?cur s = s" by (simp add: bfree_block_def Let_def)
      moreover have "live i s bs p = None"
        using hit False by (auto simp: amap_append map_add_None intro: amap_outside)
      ultimately show thesis using step by (intro that [of s bs]) (auto simp: inv)
    next
      case True
      have inv': "pool_inv i s (xs @ (k, True) # ys)" using inv hit(2) True by simp
      show thesis
      proof (rule bfree_block_merge [OF inv' refl refl])
        fix xs1 mid ys1 K P m
        assume M: "xs @ (k, True) # ys = xs1 @ mid @ ys1" "P = ?a + total xs1"
          "total mid = 8 + K" "K mod 4 = 0" "4 \<le> K" "amap P mid = [?cur + 8 \<mapsto> k]" "P \<le> ?cur"
          "?cur + 8 \<le> P + 8 + K"
          "bfree_block i ?prev ?cur s = s\<lparr>pool_mem := m, last_heap_object :=
             (if ys1 = [] then (last_heap_object s)(i := P) else last_heap_object s)\<rparr>"
          "chain m P (P + 8 + K) [(K, False)]"
          "\<And>x. x < P \<or> P + 8 + K \<le> x \<Longrightarrow> m x = pool_mem s x"
          "xs1 = [] \<or> snd (last xs1)" "ys1 = [] \<or> snd (hd ys1)"
        have bs: "bs = xs1 @ mid @ ys1" using M(1) hit(2) True by simp
        define s' where "s' = bfree_block i ?prev ?cur s"
        define bs' where "bs' = (if ys1 = [] then xs1 else xs1 @ (K, False) # ys1)"
        have lv: "live i s' bs' = (live i s bs)(p := None)"
        proof -
          have "amap ?a (xs1 @ [(K, False)] @ ys1) = (amap ?a (xs1 @ mid @ ys1))(p := None)"
            using M(2,3,6,7,8) hit(3) by (intro amap_delete [where p = P]) auto
          then show ?thesis
            using bs M(9) by (auto simp: s'_def bs'_def amap_append)
        qed
        show thesis
        proof (rule that)
          show "bfree i p s = Some s'" using step s'_def by simp
          show "live i s' bs' = (live i s bs)(p := None)" by (rule lv)
          show "s' = s\<lparr>pool_mem := pool_mem s', last_heap_object := last_heap_object s'\<rparr>"
            by (simp add: s'_def M(9))
          show "rd (pool_mem s') q j = rd (pool_mem s) q j"
            if "q \<noteq> p" "live i s bs q = Some j" for q j
          proof -
            have "amap (?a + total xs1) mid q = None"
              using M(2,6) that(1) hit(3) by simp
            then have "q + j \<le> P \<or> P + 8 + K \<le> q"
              using live_outside_block [of ?a xs1 mid ys1 q j] that(2) bs M(2,3) by (simp add: add.assoc)
            then show ?thesis by (intro rd_eqI) (auto simp: s'_def M(9) intro!: M(11))
          qed
          have "live i s bs p \<noteq> None"
            using hit True by (auto simp: amap_append)
          then show "live i s bs p = None \<Longrightarrow> s' = s" by blast
          show "pool_inv i s' bs'"
            using bfree_inv [OF inv [unfolded bs] M(2-5) M(10-13)] M(9)
            by (simp add: s'_def bs'_def)
        qed
      qed
    qed
  qed
qed

text \<open>A client that writes inside one of its allocations leaves the allocator intact.\<close>

lemma pool_inv_payload:
  assumes inv: "pool_inv i s bs" and p: "live i s bs p = Some n"
    and m: "\<And>x. x < p \<or> p + n \<le> x \<Longrightarrow> m x = pool_mem s x"
  shows "pool_inv i (s\<lparr>pool_mem := m\<rparr>) bs"
proof -
  note I = pool_invD [OF inv]
  obtain xs ys where bs: "bs = xs @ [(n, True)] @ ys" "p = heap_of_memory s i + total xs + 8"
    using busy_blocksE [OF amap_Some [OF p]] by auto
  let ?h = "heap_of_memory s i + total xs"
  have mid: "chain m ?h (?h + 8 + n) [(n, True)]"
  proof -
    have "chain (pool_mem s) ?h (?h + 8 + n) [(n, True)]"
      using I(7) unfolding bs by (auto simp: chain_append)
    moreover have "get_busy m ?h = get_busy (pool_mem s) ?h" "hnext m ?h = hnext (pool_mem s) ?h"
      using bs(2) by (auto simp: get_busy_def hnext_def m intro!: ld32_cong rd_eqI)
    ultimately show ?thesis by simp
  qed
  have "chain m (heap_of_memory s i) (high_water i s) (xs @ [(n, True)] @ ys)"
    by (rule chain_subst [where m = "pool_mem s" and mid = "[(n, True)]" and p = ?h
          and q = "?h + 8 + n"])
      (use I(7) bs mid m in \<open>auto simp: add.assoc\<close>)
  moreover have "high_water i (s\<lparr>pool_mem := m\<rparr>) = high_water i s"
    by (simp add: high_water_def)
  ultimately show ?thesis using inv by (simp add: pool_inv_def bs)
qed

lemma init_mem_pool_inv:
  assumes "i < POOL_NUM_MAX" "0 < heap" "heap mod 4 = 0" "8 < len" "heap + len < 4294967296"
  shows "pool_inv i (init_mem_pool i heap len s) []"
proof -
  have a: "u32 (heap + 3) div 4 * 4 = heap" using assms by auto
  have top: "heap \<le> heap + (len - 1)" "heap + (len - 1) < 4294967296" using assms by auto
  show ?thesis
    using assms a top unfolding init_mem_pool_def pool_inv_def high_water_def layout_defs Let_def
    by (simp add: coalesced_def del: diff_Suc_1)
qed

section \<open>The allocator as an interface\<close>

text \<open>A client's view: a state, the live allocations, and the two calls.\<close>

datatype request = Alloc nat | Free nat

fun run_requests ::
    "(nat \<Rightarrow> 's \<Rightarrow> ('s \<times> nat) option) \<Rightarrow> (nat \<Rightarrow> 's \<Rightarrow> 's option) \<Rightarrow>
     request list \<Rightarrow> 's \<Rightarrow> 's option" where
  "run_requests alloc free [] s = Some s"
| "run_requests alloc free (Alloc n # rs) s =
     do { (s, p) \<leftarrow> alloc n s; run_requests alloc free rs s }"
| "run_requests alloc free (Free p # rs) s =
     do { s \<leftarrow> free p s; run_requests alloc free rs s }"

fun valid_request :: "request \<Rightarrow> bool" where
  "valid_request (Alloc n) \<longleftrightarrow> 0 < n \<and> n < 4294967280"
| "valid_request (Free p) \<longleftrightarrow> True"

locale pool_allocator =
  fixes alloc :: "nat \<Rightarrow> 's \<Rightarrow> ('s \<times> nat) option"
    and free :: "nat \<Rightarrow> 's \<Rightarrow> 's option"
    and memory :: "'s \<Rightarrow> mem"
    and lives :: "'s \<Rightarrow> (nat \<rightharpoonup> nat) \<Rightarrow> bool"
  assumes alloc_law:
      "lives s A \<Longrightarrow> 0 < n \<Longrightarrow> n < 4294967280 \<Longrightarrow>
       \<exists>s' p. alloc n s = Some (s', p) \<and>
         (\<forall>q j. A q = Some j \<longrightarrow> rd (memory s') q j = rd (memory s) q j) \<and>
         (p = NULL \<and> lives s' A \<or> p \<noteq> NULL \<and> A p = None \<and> (\<exists>k \<ge> n. lives s' (A(p \<mapsto> k))))"
    and free_law:
      "lives s A \<Longrightarrow>
       \<exists>s'. free p s = Some s' \<and> lives s' (A(p := None)) \<and>
         (\<forall>q j. q \<noteq> p \<longrightarrow> A q = Some j \<longrightarrow> rd (memory s') q j = rd (memory s) q j)"
    and separate_law:
      "lives s A \<Longrightarrow> A p = Some n \<Longrightarrow> A q = Some k \<Longrightarrow> p \<noteq> q \<Longrightarrow> p + n \<le> q \<or> q + k \<le> p"
begin

lemma alloc_then_free:
  assumes "lives s A" "0 < n" "n < 4294967280" "alloc n s = Some (s', p)"
  shows "\<exists>s''. free p s' = Some s'' \<and> (A NULL = None \<longrightarrow> lives s'' A)"
proof -
  from alloc_law [OF assms(1-3)] assms(4)
  consider "p = NULL" "lives s' A" | k where "A p = None" "lives s' (A(p \<mapsto> k))"
    by auto
  then show ?thesis
  proof cases
    case 1
    with free_law [OF this(2), of p] show ?thesis
      by (metis fun_upd_idem)
  next
    case 2
    with free_law [OF this(2), of p] show ?thesis
      by (auto simp: fun_upd_idem)
  qed
qed

text \<open>Any run of requests returns; an allocation the run does not free stays live and keeps
  its contents.\<close>

lemma run_keeps:
  assumes "lives s A" "list_all valid_request rs"
  shows "\<exists>s' A'. run_requests alloc free rs s = Some s' \<and> lives s' A' \<and>
    (\<forall>q j. A q = Some j \<longrightarrow> Free q \<notin> set rs \<longrightarrow>
       A' q = Some j \<and> rd (memory s') q j = rd (memory s) q j)"
  using assms
proof (induction rs arbitrary: s A)
  case Nil
  then show ?case by auto
next
  case (Cons r rs)
  show ?case
  proof (cases r)
    case (Alloc n)
    with Cons.prems have "0 < n" "n < 4294967280" by simp_all
    from alloc_law [OF Cons.prems(1) this] obtain s1 p A1 where
      one: "alloc n s = Some (s1, p)" "lives s1 A1"
        "\<forall>q j. A q = Some j \<longrightarrow> A1 q = Some j \<and> rd (memory s1) q j = rd (memory s) q j"
      by (metis fun_upd_apply option.distinct(1))
    from Cons.IH [OF one(2)] Cons.prems(2) obtain s' A' where
      "run_requests alloc free rs s1 = Some s'" "lives s' A'"
      "\<forall>q j. A1 q = Some j \<longrightarrow> Free q \<notin> set rs \<longrightarrow>
         A' q = Some j \<and> rd (memory s') q j = rd (memory s1) q j"
      by auto
    with one Alloc show ?thesis by auto
  next
    case (Free p)
    from free_law [OF Cons.prems(1), of p] obtain s1 where
      one: "free p s = Some s1" "lives s1 (A(p := None))"
        "\<forall>q j. q \<noteq> p \<longrightarrow> A q = Some j \<longrightarrow> rd (memory s1) q j = rd (memory s) q j"
      by auto
    from Cons.IH [OF one(2)] Cons.prems(2) obtain s' A' where
      "run_requests alloc free rs s1 = Some s'" "lives s' A'"
      "\<forall>q j. (A(p := None)) q = Some j \<longrightarrow> Free q \<notin> set rs \<longrightarrow>
         A' q = Some j \<and> rd (memory s') q j = rd (memory s1) q j"
      by auto
    with one Free show ?thesis by auto
  qed
qed

end

definition pool_lives :: "nat \<Rightarrow> 'a pools_scheme \<Rightarrow> (nat \<rightharpoonup> nat) \<Rightarrow> bool" where
  "pool_lives i s A \<longleftrightarrow> (\<exists>bs. pool_inv i s bs \<and> A = live i s bs)"

interpretation bm: pool_allocator "bmalloc i" "bfree i" pool_mem "pool_lives i" for i
proof unfold_locales
  fix s :: "'a pools_scheme" and A n p q k
  assume "pool_lives i s A"
  then obtain bs where inv: "pool_inv i s bs" and A: "A = live i s bs"
    by (auto simp: pool_lives_def)
  show "\<exists>s' p. bmalloc i n s = Some (s', p) \<and>
      (\<forall>q j. A q = Some j \<longrightarrow> rd (pool_mem s') q j = rd (pool_mem s) q j) \<and>
      (p = NULL \<and> pool_lives i s' A \<or>
       p \<noteq> NULL \<and> A p = None \<and> (\<exists>k \<ge> n. pool_lives i s' (A(p \<mapsto> k))))"
    if "0 < n" "n < 4294967280"
    using inv that
  proof (cases rule: bmalloc_cases)
    case full
    then show ?thesis using inv A by (auto simp: pool_lives_def)
  next
    case (fit s' p bs' k)
    have "n \<le> k" using fit(6) round_up4_props(1) [of n] that by simp
    moreover have "pool_lives i s' (A(p \<mapsto> k))"
      using fit(5,8) A unfolding pool_lives_def by metis
    ultimately show ?thesis using fit A by auto
  qed
  show "\<exists>s'. bfree i p s = Some s' \<and> pool_lives i s' (A(p := None)) \<and>
      (\<forall>q j. q \<noteq> p \<longrightarrow> A q = Some j \<longrightarrow> rd (pool_mem s') q j = rd (pool_mem s) q j)"
    using inv
  proof (cases rule: bfree_spec [where p = p])
    case (1 s' bs')
    then show ?thesis using A by (auto simp: pool_lives_def)
  qed
  show "p + n \<le> q \<or> q + k \<le> p" if "A p = Some n" "A q = Some k" "p \<noteq> q"
    using amap_disjoint that A by fastforce
qed

section \<open>Properties\<close>

lemma live_bounds:
  assumes "pool_inv i s bs" "live i s bs p = Some n"
  shows "heap_of_memory s i + 8 \<le> p \<and> p + n \<le> top_of_heap s i"
  using amap_bounds [OF assms(2)] pool_invD(5,10) [OF assms(1)] by simp

lemma no_live_empty:
  assumes "coalesced bs" "amap a bs = Map.empty"
  shows "bs = []"
proof (rule ccontr)
  assume "bs \<noteq> []"
  then obtain xs n b where bs: "bs = xs @ [(n, b)]" by (metis rev_exhaust surj_pair)
  with assms(1) have b by (simp add: coalesced_def)
  with bs have "amap a bs (a + total xs + 8) \<noteq> None"
    by (auto simp: amap_append map_add_None)
  with assms(2) show False by simp
qed

text \<open>A pool of 256 bytes at the start of the RAM, used in the examples.\<close>

definition boot_pools :: pools where
  "boot_pools = \<lparr>pool_mem = (\<lambda>_. 0), last_heap_object = (\<lambda>_. 0), heap_of_memory = (\<lambda>_. 0),
     top_of_heap = (\<lambda>_. 0), this_active = (\<lambda>_. False)\<rparr>"

definition demo_pool :: pools where
  "demo_pool = init_mem_pool 0 0x20000000 256 boot_pools"

lemma demo_pool_inv: "pool_inv 0 demo_pool []"
  unfolding demo_pool_def by (rule init_mem_pool_inv) (simp_all add: POOL_NUM_MAX_def)

lemma demo_pool_fields: "heap_of_memory demo_pool 0 = 536870912" "high_water 0 demo_pool = 536870912"
  "top_of_heap demo_pool 0 = 536871167"
  by (simp_all add: demo_pool_def boot_pools_def init_mem_pool_def high_water_def layout_defs)

text \<open>C6: a successful \<open>bmalloc\<close> returns a 4-aligned address that was not live, of a block at
  least as large as requested and inside the pool; it overlaps no live allocation and leaves the
  contents of every live allocation unchanged, and the allocator's invariant is kept.\<close>

theorem bmalloc_serves:
  assumes "pool_inv i s bs" "0 < n" "n < 4294967280" "bmalloc i n s = Some (s', p)" "p \<noteq> NULL"
  shows "p mod 4 = 0 \<and> live i s bs p = None \<and>
    (\<exists>bs' k. n \<le> k \<and> pool_inv i s' bs' \<and> live i s' bs' = (live i s bs)(p \<mapsto> k) \<and>
       heap_of_memory s i + 8 \<le> p \<and> p + k \<le> top_of_heap s i) \<and>
    (\<forall>q j. live i s bs q = Some j \<longrightarrow>
       (p + n \<le> q \<or> q + j \<le> p) \<and> rd (pool_mem s') q j = rd (pool_mem s) q j)"
  using assms(1-3)
proof (cases rule: bmalloc_cases)
  case full
  with assms show ?thesis by simp
next
  case (fit s1 p1 bs' k)
  then have eq: "s1 = s'" "p1 = p" using assms(4) by auto
  have k: "n \<le> k" using fit(6) round_up4_props(1) [of n] assms by simp
  have "heap_of_memory s' i = heap_of_memory s i" "top_of_heap s' i = top_of_heap s i"
    by (subst fit(4) [unfolded eq], simp)+
  then have b: "heap_of_memory s i + 8 \<le> p \<and> p + k \<le> top_of_heap s i"
    using live_bounds [OF fit(5), of p k] fit(8) eq by simp
  have "p + n \<le> q \<or> q + j \<le> p" if "live i s bs q = Some j" for q j
  proof -
    have "q \<noteq> p" using that fit(7) eq by auto
    then have "live i s1 bs' p = Some k" "live i s1 bs' q = Some j"
      using that fit(8) eq by auto
    then show ?thesis using amap_disjoint \<open>q \<noteq> p\<close> k by fastforce
  qed
  then show ?thesis
    using fit eq k b by (intro conjI exI [of _ bs'] exI [of _ k]) auto
qed

theorem bmalloc_serves_witness:
  "\<exists>s' p. bmalloc 0 20 demo_pool = Some (s', p) \<and> p \<noteq> NULL \<and> p mod 4 = 0"
proof -
  have "bmalloc 0 20 demo_pool = Some (bmalloc_top 0 20 demo_pool)"
    by (simp add: bmalloc_unfold [OF demo_pool_inv] demo_pool_fields round_up4_def)
  then obtain s' where s': "bmalloc 0 20 demo_pool = Some (s', 536870920)"
    by (simp add: bmalloc_top_def Let_def demo_pool_fields)
  with bmalloc_serves [OF demo_pool_inv, of 20 s' 536870920] show ?thesis by auto
qed

lemma find_none:
  assumes "chain m a e bs" "0 < a" "e < 4294967296" "\<forall>(k, b) \<in> set bs. b \<or> k < n"
  shows "bmalloc_find m a e n = Some NULL"
  using find_spec [OF assms(1-3), of n] assms(4) by fastforce

text \<open>\<open>bmalloc\<close> always returns (the first-fit scan ends), and it returns \<open>NULL\<close> exactly when
  neither the space above the high-water mark nor any hole can take the rounded request.\<close>

theorem bmalloc_null_iff_full:
  assumes "pool_inv i s bs" "0 < n" "n < 4294967280"
  shows "\<exists>s' p. bmalloc i n s = Some (s', p) \<and>
    (p = NULL \<longleftrightarrow> top_of_heap s i - high_water i s < round_up4 n + 8 \<and>
       (\<forall>(k, b) \<in> set bs. \<not> b \<longrightarrow> k < round_up4 n))"
  using assms
proof (cases rule: bmalloc_cases)
  case full
  then show ?thesis by auto
next
  case (fit s' p bs' k)
  note I = pool_invD [OF assms(1)]
  have "\<not> (top_of_heap s i - high_water i s < round_up4 n + 8 \<and>
      (\<forall>(k, b) \<in> set bs. \<not> b \<longrightarrow> k < round_up4 n))"
  proof
    assume no: "top_of_heap s i - high_water i s < round_up4 n + 8 \<and>
      (\<forall>(k, b) \<in> set bs. \<not> b \<longrightarrow> k < round_up4 n)"
    then have "bmalloc_find (pool_mem s) (heap_of_memory s i) (high_water i s) (round_up4 n)
        = Some NULL"
      using I chain_high_water_less [OF assms(1)] by (intro find_none [of _ _ _ bs]) auto
    with no fit(1,2) show False by (simp add: bmalloc_unfold [OF assms])
  qed
  with fit(1,2) show ?thesis by auto
qed

theorem bmalloc_null_iff_full_witness:
  "\<exists>s'. bmalloc 0 300 demo_pool = Some (s', NULL)"
  using bmalloc_null_iff_full [OF demo_pool_inv, of 300]
  by (auto simp: demo_pool_fields round_up4_def)

text \<open>\<open>bfree\<close> always returns; it ends exactly the life of the given address, whatever the
  address, keeps the contents of the other live allocations, and does nothing when the address
  is not live (a second free, a foreign pointer, \<open>NULL\<close>).\<close>

theorem bfree_releases:
  assumes "pool_inv i s bs"
  shows "\<exists>s' bs'. bfree i p s = Some s' \<and> pool_inv i s' bs' \<and>
    live i s' bs' = (live i s bs)(p := None) \<and>
    (\<forall>q j. q \<noteq> p \<longrightarrow> live i s bs q = Some j \<longrightarrow> rd (pool_mem s') q j = rd (pool_mem s) q j) \<and>
    (live i s bs p = None \<longrightarrow> s' = s)"
  using assms
proof (cases rule: bfree_spec [where p = p])
  case (1 s' bs')
  then show ?thesis
    by (intro exI [of _ s'] exI [of _ bs'] conjI allI impI) blast+
qed

theorem bfree_releases_witness:
  "bfree 0 536870920 demo_pool = Some demo_pool"
  using bfree_releases [OF demo_pool_inv, of 536870920] by auto

text \<open>C7: the pool never leaks.  From a fresh pool any run of allocations and frees returns, and
  when it ends with nothing live there is no block left and the high-water mark is back at the
  base, so the whole pool can be allocated again.\<close>

theorem pool_reclaimed:
  assumes "i < POOL_NUM_MAX" "0 < heap" "heap mod 4 = 0" "8 < len" "heap + len < 4294967296"
    and "list_all valid_request rs"
  shows "\<exists>s' bs. run_requests (bmalloc i) (bfree i) rs (init_mem_pool i heap len s) = Some s' \<and>
    pool_inv i s' bs \<and>
    (live i s' bs = Map.empty \<longrightarrow> bs = [] \<and> high_water i s' = heap_of_memory s' i)"
proof -
  have "pool_lives i (init_mem_pool i heap len s) Map.empty"
    using init_mem_pool_inv [OF assms(1-5), of s] unfolding pool_lives_def by force
  from bm.run_keeps [OF this assms(6)] obtain s' A' where
    "run_requests (bmalloc i) (bfree i) rs (init_mem_pool i heap len s) = Some s'"
    "pool_lives i s' A'" by auto
  moreover from this(2) obtain bs where bs: "pool_inv i s' bs" by (auto simp: pool_lives_def)
  moreover have "live i s' bs = Map.empty \<longrightarrow> bs = [] \<and> high_water i s' = heap_of_memory s' i"
    using no_live_empty pool_invD(8,10) [OF bs] by fastforce
  ultimately show ?thesis by blast
qed

theorem pool_reclaimed_witness:
  "\<exists>s' bs. run_requests (bmalloc 0) (bfree 0)
      [Alloc 24, Alloc 7, Free 0x20000008, Alloc 8, Free 0x20000028]
      (init_mem_pool 0 0x20000000 256 boot_pools) = Some s' \<and> pool_inv 0 s' bs"
proof -
  have "list_all valid_request [Alloc 24, Alloc 7, Free 0x20000008, Alloc 8, Free 0x20000028]"
    by simp
  from pool_reclaimed [where i = 0 and heap = "0x20000000" and len = 256 and s = boot_pools,
      OF _ _ _ _ _ this] show ?thesis
    by (auto simp: POOL_NUM_MAX_def)
qed

text \<open>A request within three bytes of \<open>SIZE_MAX\<close> wraps to zero when it is rounded up, and
  \<open>bmalloc\<close> then succeeds with a block that has no payload at all.\<close>

theorem bmalloc_size_wrap:
  assumes "pool_inv i s bs" "4294967293 \<le> n" "n < 4294967296"
    and "8 \<le> top_of_heap s i - high_water i s"
  shows "\<exists>s'. bmalloc i n s = Some (s', high_water i s + 8) \<and>
    last_heap_object s' i = high_water i s + 8 + 0"
proof -
  note I = pool_invD [OF assms(1)]
  have z: "u32 (n + 3) div 4 = 0"
    using assms(2,3) by (simp add: u32_def le_mod_geq)
  have mark: "(if last_heap_object s i = NULL
      then s\<lparr>last_heap_object := (last_heap_object s)(i := heap_of_memory s i)\<rparr> else s)
      = with_mark i s"
    by (simp add: with_mark_def high_water_def)
  show ?thesis
    using assms I(1-6) z mark unfolding bmalloc_def
    by (simp add: layout_defs Let_def with_mark_def cong: if_cong)
qed

theorem bmalloc_size_wrap_witness:
  "\<exists>s'. bmalloc 0 4294967294 demo_pool = Some (s', 536870920)"
  using bmalloc_size_wrap [OF demo_pool_inv, of 4294967294] by (auto simp: demo_pool_fields)

end
