(* ===== verification/Linklist.thy ===== *)
theory Linklist
  imports Bmalloc
begin

text \<open>
  The intrusive singly linked list of \<open>zephyr/modules/rtbus/lib/linklist.c\<close>: a node is a pool
  allocation whose first four bytes are the address of the next node.  The list head is a
  variable of the caller; \<open>void **source\<close> is modelled by passing the head's value and returning
  its new value, with \<open>None\<close> for a \<open>NULL\<close> \<open>source\<close>.

  \<open>lseg\<close> says that memory holds a list segment with the given nodes; the lemmas show that each
  operation returns on a well-formed list and what it does to the node list, to the set of live
  allocations and to the contents of the nodes.
\<close>

section \<open>Operations\<close>

definition LINK_SIZE :: nat where [layout_defs]: "LINK_SIZE = 4"

text \<open>\<open>node->next\<close> and its assignment.\<close>

definition node_next :: "mem \<Rightarrow> nat \<Rightarrow> nat" where
  "node_next m p = ld32 m p"

definition set_node_next :: "nat \<Rightarrow> nat \<Rightarrow> mem \<Rightarrow> mem" where
  "set_node_next p v m = st32 m p v"

text \<open>The walk to the last node, a do-while loop with an extra exit at its head.\<close>

partial_function (option) linklist_last :: "mem \<Rightarrow> nat \<Rightarrow> nat option" where
  "linklist_last m last_tmp =
     (if last_tmp = NULL \<or> node_next m last_tmp = NULL then Some last_tmp
      else
        let last_tmp = node_next m last_tmp
        in if last_tmp \<noteq> NULL \<and> node_next m last_tmp \<noteq> NULL then linklist_last m last_tmp
           else Some last_tmp)"

definition linklist_new ::
    "nat \<Rightarrow> nat option \<Rightarrow> nat \<Rightarrow> 'a pools_scheme \<Rightarrow> ('a pools_scheme \<times> nat option \<times> nat) option"
  where
  "linklist_new pool_id source new_datalen s =
     (case source of
        None \<Rightarrow> Some (s, None, NULL)
      | Some head \<Rightarrow>
          if new_datalen < LINK_SIZE then Some (s, source, NULL)
          else do {
            last_tmp \<leftarrow> linklist_last (pool_mem s) head;
            (s, new_tmp) \<leftarrow> bmalloc pool_id new_datalen s;
            if new_tmp = NULL then Some (s, source, NULL)
            else
              let s = s\<lparr>pool_mem := set_node_next new_tmp NULL (pool_mem s)\<rparr>
              in if last_tmp = NULL then Some (s, Some new_tmp, new_tmp)
                 else Some (s\<lparr>pool_mem := set_node_next last_tmp new_tmp (pool_mem s)\<rparr>,
                            source, new_tmp)
          })"

text \<open>The search loop shared by \<open>linklist_remove\<close> and \<open>linklist_reidx\<close>: predecessor and
  node, the node \<open>NULL\<close> when the target is not in the list.\<close>

partial_function (option) linklist_find :: "mem \<Rightarrow> nat \<Rightarrow> nat \<Rightarrow> nat \<Rightarrow> (nat \<times> nat) option" where
  "linklist_find m pre_tmp cur_tmp target =
     (if cur_tmp \<noteq> NULL then
        if cur_tmp = target then Some (pre_tmp, cur_tmp)
        else linklist_find m cur_tmp (node_next m cur_tmp) target
      else Some (pre_tmp, NULL))"

text \<open>Taking a found node out of the list: the new memory and the new head.\<close>

definition linklist_unlink :: "nat \<Rightarrow> nat \<Rightarrow> nat \<Rightarrow> mem \<Rightarrow> mem \<times> nat" where
  "linklist_unlink head pre_tmp cur_tmp m =
     (if pre_tmp \<noteq> NULL then
        let m = set_node_next pre_tmp (node_next m cur_tmp) m
        in (set_node_next cur_tmp NULL m, head)
      else (m, if node_next m cur_tmp \<noteq> NULL then node_next m cur_tmp else NULL))"

definition linklist_remove ::
    "nat \<Rightarrow> nat \<Rightarrow> nat \<Rightarrow> 'a pools_scheme \<Rightarrow> ('a pools_scheme \<times> nat) option" where
  "linklist_remove pool_id head kill_target s = do {
     (pre_tmp, cur_tmp) \<leftarrow> linklist_find (pool_mem s) NULL head kill_target;
     if cur_tmp = NULL then Some (s, head)
     else
       let (m, head) = linklist_unlink head pre_tmp cur_tmp (pool_mem s)
       in do {
         s \<leftarrow> bfree pool_id cur_tmp (s\<lparr>pool_mem := m\<rparr>);
         Some (s, head)
       }
   }"

text \<open>\<open>linklist_reidx\<close> moves a node to the end of the list.  Where the node has a predecessor
  the source starts the second walk from \<open>last_tmp = NULL\<close>.\<close>

definition linklist_reidx ::
    "nat \<Rightarrow> nat \<Rightarrow> nat \<Rightarrow> 'a pools_scheme \<Rightarrow> ('a pools_scheme \<times> nat) option" where
  "linklist_reidx pool_id head reidx_target s = do {
     (pre_tmp, cur_tmp) \<leftarrow> linklist_find (pool_mem s) NULL head reidx_target;
     if cur_tmp = NULL then Some (s, head)
     else
       let (m, head) = linklist_unlink head pre_tmp cur_tmp (pool_mem s);
           last_tmp = (if pre_tmp \<noteq> NULL then NULL else head)
       in do {
         last_tmp \<leftarrow> linklist_last m last_tmp;
         let (m, head) = (if last_tmp = NULL then (m, cur_tmp)
                          else (set_node_next last_tmp cur_tmp m, head));
         Some (s\<lparr>pool_mem := set_node_next cur_tmp NULL m\<rparr>, head)
       }
   }"

partial_function (option) linklist_count_loop :: "mem \<Rightarrow> nat \<Rightarrow> nat \<Rightarrow> nat option" where
  "linklist_count_loop m last_tmp func_count =
     (if last_tmp = NULL \<or> node_next m last_tmp = NULL then Some func_count
      else
        let last_tmp = node_next m last_tmp; func_count = u32 (func_count + 1)
        in if last_tmp \<noteq> NULL \<and> node_next m last_tmp \<noteq> NULL
           then linklist_count_loop m last_tmp func_count
           else Some func_count)"

definition linklist_count :: "nat \<Rightarrow> nat \<Rightarrow> 'a pools_scheme \<Rightarrow> nat option" where
  "linklist_count pool_id head s =
     linklist_count_loop (pool_mem s) head (if head \<noteq> NULL then 1 else 0)"

partial_function (option) linklist_get_loop :: "mem \<Rightarrow> nat \<Rightarrow> nat \<Rightarrow> nat \<Rightarrow> nat option" where
  "linklist_get_loop m last_tmp func_count index =
     (if last_tmp = NULL \<or> node_next m last_tmp = NULL then Some NULL
      else
        let last_tmp = node_next m last_tmp; func_count = u32 (func_count + 1)
        in if func_count = index then Some last_tmp
           else if last_tmp \<noteq> NULL \<and> node_next m last_tmp \<noteq> NULL
           then linklist_get_loop m last_tmp func_count index
           else Some NULL)"

definition linklist_get :: "nat \<Rightarrow> nat \<Rightarrow> nat \<Rightarrow> 'a pools_scheme \<Rightarrow> nat option" where
  "linklist_get pool_id head index s =
     (if 0 = index then Some head else linklist_get_loop (pool_mem s) head 0 index)"

section \<open>List segments\<close>

fun lseg :: "mem \<Rightarrow> nat \<Rightarrow> nat \<Rightarrow> nat list \<Rightarrow> bool" where
  "lseg m p q [] \<longleftrightarrow> p = q"
| "lseg m p q (x # xs) \<longleftrightarrow> p = x \<and> x \<noteq> NULL \<and> lseg m (node_next m x) q xs"

lemma lseg_append: "lseg m p q (xs @ ys) \<longleftrightarrow> (\<exists>r. lseg m p r xs \<and> lseg m r q ys)"
  by (induction xs arbitrary: p) auto

lemma lseg_frame:
  "lseg m p q xs \<Longrightarrow> (\<And>x. x \<in> set xs \<Longrightarrow> node_next m' x = node_next m x) \<Longrightarrow> lseg m' p q xs"
  by (induction xs arbitrary: p) auto

lemma lseg_NULL: "lseg m NULL NULL xs \<longleftrightarrow> xs = []"
  by (cases xs) auto

lemma lseg_head: "lseg m p NULL xs \<Longrightarrow> p = (if xs = [] then NULL else hd xs)"
  by (cases xs) auto

lemma lseg_nonnull: "lseg m p q xs \<Longrightarrow> NULL \<notin> set xs"
  by (induction xs arbitrary: p) auto

lemma set_node_next_same [mem_simps]: "v < 4294967296 \<Longrightarrow> node_next (set_node_next p v m) p = v"
  by (simp add: node_next_def set_node_next_def mem_simps)

lemma set_node_next_other [mem_simps]:
  "q + 4 \<le> p \<or> p + 4 \<le> q \<Longrightarrow> node_next (set_node_next p v m) q = node_next m q"
  by (simp add: node_next_def set_node_next_def mem_simps)

lemma node_next_bound: "node_next m p < 4294967296"
  by (simp add: node_next_def ld32_bound)

lemma set_node_next_rd [mem_simps]:
  "b + n \<le> p \<or> p + 4 \<le> b \<Longrightarrow> rd (set_node_next p v m) b n = rd m b n"
  by (simp add: set_node_next_def mem_simps)

lemma set_node_next_at [mem_simps]: "x < p \<or> p + 4 \<le> x \<Longrightarrow> set_node_next p v m x = m x"
  by (simp add: set_node_next_def mem_simps)

lemma node_next_rd: "rd m' q j = rd m q j \<Longrightarrow> 4 \<le> j \<Longrightarrow> node_next m' q = node_next m q"
  by (auto simp: node_next_def intro!: ld32_cong elim: rd_sub)

text \<open>The walks over a segment.\<close>

lemma last_lseg:
  "lseg m p NULL xs \<Longrightarrow> linklist_last m p = Some (if xs = [] then NULL else last xs)"
proof (induction xs arbitrary: p)
  case Nil
  then show ?case by (simp add: linklist_last.simps)
next
  case (Cons x xs)
  then have ih: "linklist_last m (node_next m x) = Some (if xs = [] then NULL else last xs)"
    and p: "p = x" "x \<noteq> NULL" "lseg m (node_next m x) NULL xs" by auto
  show ?case
  proof (cases "xs = []")
    case True
    with p show ?thesis by (simp add: linklist_last.simps)
  next
    case False
    then have nn: "node_next m x \<noteq> NULL" using p(3) by (cases xs) auto
    show ?thesis
    proof (cases "node_next m (node_next m x) = NULL")
      case True
      then have "xs = [node_next m x]"
        using p(3) False by (cases xs) (auto simp: lseg_NULL)
      with True nn p show ?thesis by (subst linklist_last.simps) (simp add: Let_def)
    next
      case f: False
      with nn p ih False show ?thesis by (subst linklist_last.simps) (simp add: Let_def)
    qed
  qed
qed

lemma find_lseg_hit:
  "lseg m p NULL (xs @ x # ys) \<Longrightarrow> x \<notin> set xs \<Longrightarrow>
   linklist_find m pre p x = Some (if xs = [] then pre else last xs, x)"
proof (induction xs arbitrary: p pre)
  case Nil
  then show ?case by (subst linklist_find.simps) simp
next
  case (Cons a xs)
  then show ?case by (subst linklist_find.simps) simp
qed

lemma find_lseg_miss:
  "lseg m p NULL xs \<Longrightarrow> x \<notin> set xs \<Longrightarrow>
   linklist_find m pre p x = Some (if xs = [] then pre else last xs, NULL)"
proof (induction xs arbitrary: p pre)
  case Nil
  then show ?case by (subst linklist_find.simps) simp
next
  case (Cons a xs)
  then show ?case by (subst linklist_find.simps) simp
qed

text \<open>A list of live nodes of a pool.\<close>

definition plist :: "nat \<Rightarrow> 'a pools_scheme \<Rightarrow> block list \<Rightarrow> nat \<Rightarrow> nat list \<Rightarrow> bool" where
  "plist i s bs head xs \<longleftrightarrow>
     lseg (pool_mem s) head NULL xs \<and> distinct xs \<and>
     (\<forall>x \<in> set xs. \<exists>n \<ge> 4. live i s bs x = Some n)"

lemma plist_Nil [simp]: "plist i s bs head [] \<longleftrightarrow> head = NULL"
  by (simp add: plist_def)

lemma plist_head: "plist i s bs head xs \<Longrightarrow> head = (if xs = [] then NULL else hd xs)"
  by (auto simp: plist_def dest: lseg_head)

lemma plist_frame:
  assumes "plist i s bs head xs"
    and "\<And>x n. x \<in> set xs \<Longrightarrow> live i s bs x = Some n \<Longrightarrow>
      live i s' bs' x = Some n \<and> rd (pool_mem s') x n = rd (pool_mem s) x n"
  shows "plist i s' bs' head xs"
proof -
  have "node_next (pool_mem s') x = node_next (pool_mem s) x"
    and "\<exists>n \<ge> 4. live i s' bs' x = Some n" if x: "x \<in> set xs" for x
  proof -
    obtain n where "4 \<le> n" "live i s bs x = Some n" using assms(1) x by (auto simp: plist_def)
    with assms(2) [OF x this(2)] show
      "node_next (pool_mem s') x = node_next (pool_mem s) x"
      "\<exists>n \<ge> 4. live i s' bs' x = Some n"
      by (auto intro: node_next_rd)
  qed
  with assms(1) show ?thesis unfolding plist_def by (auto intro: lseg_frame)
qed

lemma plist_size: "plist i s bs head xs \<Longrightarrow> q \<in> set xs \<Longrightarrow> live i s bs q = Some j \<Longrightarrow> 4 \<le> j"
  by (auto simp: plist_def)

lemma plist_apart:
  assumes "live i s bs x = Some n" "live i s bs y = Some k" "x \<noteq> y" "4 \<le> n" "4 \<le> k"
  shows "x + 4 \<le> y \<or> y + 4 \<le> x"
  using amap_disjoint [OF assms(1,2,3)] assms(4,5) by auto

lemma live_addr_bound: "pool_inv i s bs \<Longrightarrow> live i s bs x = Some n \<Longrightarrow> x + n < 4294967296"
  using live_bounds [of i s bs x n] pool_invD(6) [of i s bs] by simp

lemma live_pool_mem [simp]: "live i (s\<lparr>pool_mem := m\<rparr>) bs = live i s bs"
  by simp

lemma set_next_inv:
  assumes "pool_inv i s bs" "live i s bs p = Some n" "4 \<le> n"
  shows "pool_inv i (s\<lparr>pool_mem := set_node_next p v (pool_mem s)\<rparr>) bs"
  by (rule pool_inv_payload [OF assms(1,2)]) (use assms(3) in \<open>auto simp: mem_simps\<close>)

section \<open>Appending a node\<close>

lemma lseg_snoc:
  assumes "lseg m p NULL xs" "distinct xs" "r \<noteq> NULL" "r < 4294967296" "node_next m r = NULL"
    and "\<And>x. x \<in> set xs \<Longrightarrow> x + 4 \<le> r \<or> r + 4 \<le> x"
    and "\<And>x. x \<in> set (butlast xs) \<Longrightarrow> x + 4 \<le> last xs \<or> last xs + 4 \<le> x" "xs \<noteq> []"
  shows "lseg (set_node_next (last xs) r m) p NULL (xs @ [r])"
proof -
  obtain ys y where xs: "xs = ys @ [y]" using assms(8) by (cases xs rule: rev_cases) auto
  let ?m = "set_node_next y r m"
  from assms(1) have "lseg m p y ys" "y \<noteq> NULL" by (auto simp: xs lseg_append)
  moreover from this(1) have "lseg ?m p y ys"
    by (rule lseg_frame) (use assms(7) xs in \<open>simp add: mem_simps\<close>)
  moreover have "node_next ?m y = r" using assms(4) by (simp add: mem_simps)
  moreover have "node_next ?m r = NULL" using assms(5) assms(6) [of y] xs by (auto simp: mem_simps)
  ultimately show ?thesis using assms(3) by (simp add: xs lseg_append)
qed

lemma linklist_new_cases:
  assumes inv: "pool_inv i s bs" and xs: "plist i s bs head xs" and d: "4 \<le> d" "d < 4294967280"
  obtains (full) "linklist_new i (Some head) d s = Some (with_mark i s, Some head, NULL)"
      "top_of_heap s i - high_water i s < round_up4 d + 8"
      "\<forall>(k, b) \<in> set bs. b \<or> k < round_up4 d"
  | (fit) s' r bs' k where
      "linklist_new i (Some head) d s = Some (s', Some (if xs = [] then r else head), r)"
      "r \<noteq> NULL" "r mod 4 = 0" "pool_inv i s' bs'" "d \<le> k"
      "s' = s\<lparr>pool_mem := pool_mem s', last_heap_object := last_heap_object s'\<rparr>"
      "live i s bs r = None" "live i s' bs' = (live i s bs)(r \<mapsto> k)"
      "plist i s' bs' (if xs = [] then r else head) (xs @ [r])"
      "\<And>q j. live i s bs q = Some j \<Longrightarrow> xs = [] \<or> q \<noteq> last xs \<Longrightarrow>
         rd (pool_mem s') q j = rd (pool_mem s) q j"
      "\<And>q j. live i s bs q = Some j \<Longrightarrow> q \<in> set xs \<Longrightarrow>
         rd (pool_mem s') (q + 4) (j - 4) = rd (pool_mem s) (q + 4) (j - 4)"
proof -
  have last: "linklist_last (pool_mem s) head = Some (if xs = [] then NULL else last xs)"
    using xs by (intro last_lseg) (simp add: plist_def)
  have d0: "0 < d" using d by simp
  show ?thesis
    using inv d0 d(2)
  proof (cases rule: bmalloc_cases)
    case full
    then show ?thesis using d last that(1) by (simp add: linklist_new_def LINK_SIZE_def)
  next
    case (fit s1 r bs1 k)
    note A = fit
    have dk: "d \<le> k" using A(6) round_up4_props(1) [of d] d by simp
    have s1: "heap_of_memory s1 i = heap_of_memory s i" by (subst A(4)) simp
    have lr: "live i s1 bs1 r = Some k" using A(8) by simp
    have r32: "r + k < 4294967296" using live_addr_bound [OF A(5) lr] .
    define s2 where "s2 = s1\<lparr>pool_mem := set_node_next r NULL (pool_mem s1)\<rparr>"
    have inv2: "pool_inv i s2 bs1"
      unfolding s2_def by (rule set_next_inv [OF A(5) lr]) (use d dk in simp)
    have old: "live i s1 bs1 q = Some j \<and> q \<noteq> r \<and> (q + j \<le> r \<or> r + k \<le> q)"
      if "live i s bs q = Some j" for q j
    proof -
      have "q \<noteq> r" using that A(7) by auto
      then have "live i s1 bs1 q = Some j" using that A(8) by simp
      with amap_disjoint [OF this lr \<open>q \<noteq> r\<close>] \<open>q \<noteq> r\<close> show ?thesis by auto
    qed
    have rd2: "rd (pool_mem s2) q j = rd (pool_mem s) q j" if "live i s bs q = Some j" for q j
      using old [OF that] A(9) [OF that] dk d
      by (elim conjE disjE) (simp_all add: s2_def mem_simps)
    have xs2: "plist i s2 bs1 head xs"
      by (rule plist_frame [OF xs]) (use old rd2 in \<open>auto simp: s2_def\<close>)
    have s2eq: "s2 = s\<lparr>pool_mem := pool_mem s2, last_heap_object := last_heap_object s2\<rparr>"
      unfolding s2_def by (subst A(4)) simp
    have nr: "node_next (pool_mem s2) r = NULL" by (simp add: s2_def mem_simps)
    show ?thesis
    proof (cases "xs = []")
      case True
      show ?thesis
      proof (rule that(2) [of s2 r bs1 k])
        show "linklist_new i (Some head) d s = Some (s2, Some (if xs = [] then r else head), r)"
          using d last A(1,2) True by (simp add: linklist_new_def LINK_SIZE_def s2_def)
        show "plist i s2 bs1 (if xs = [] then r else head) (xs @ [r])"
          using True A(2,8) nr d dk by (auto simp: plist_def s2_def intro!: exI [of _ k])
        show "live i s2 bs1 = (live i s bs)(r \<mapsto> k)" using A(8) by (simp add: s2_def)
      qed (use A inv2 dk rd2 s2eq True in auto)
    next
      case False
      let ?l = "last xs"
      define s3 where "s3 = s2\<lparr>pool_mem := set_node_next ?l r (pool_mem s2)\<rparr>"
      have l: "?l \<in> set xs" using False by simp
      then obtain n where n: "4 \<le> n" "live i s bs ?l = Some n" using xs by (auto simp: plist_def)
      have ln: "live i s2 bs1 ?l = Some n" using old [OF n(2)] by (simp add: s2_def)
      have inv3: "pool_inv i s3 bs1" unfolding s3_def by (rule set_next_inv [OF inv2 ln n(1)])
      have apart: "x + 4 \<le> ?l \<or> ?l + 4 \<le> x" if "x \<in> set xs" "x \<noteq> ?l" for x
        using xs that l n(1,2) plist_apart by (fastforce simp: plist_def)
      have rd3: "rd (pool_mem s3) q j = rd (pool_mem s) q j"
        if q: "live i s bs q = Some j" "q \<noteq> ?l" for q j
        using amap_disjoint [OF q(1) n(2) q(2)] n(1) rd2 [OF q(1)]
        by (elim disjE) (simp_all add: s3_def mem_simps)
      have "?l \<notin> set (butlast xs)"
        using False xs by (cases xs rule: rev_cases) (auto simp: plist_def)
      then have but: "x \<in> set xs" "x \<noteq> ?l" if "x \<in> set (butlast xs)" for x
        using that by (auto dest: in_set_butlastD)
      have seg: "lseg (pool_mem s3) head NULL (xs @ [r])"
        unfolding s3_def pools.simps if_not_P [OF False]
      proof (simp, rule lseg_snoc)
        show "lseg (pool_mem s2) head NULL xs" "distinct xs" using xs2 by (auto simp: plist_def)
        show "x + 4 \<le> r \<or> r + 4 \<le> x" if "x \<in> set xs" for x
          using xs that old d dk by (fastforce simp: plist_def)
      qed (use A(2) r32 nr False but apart in auto)
      show ?thesis
      proof (rule that(2) [of s3 r bs1 k])
        show "linklist_new i (Some head) d s = Some (s3, Some (if xs = [] then r else head), r)"
          using d last A(1,2) False ln live_bounds [OF inv n(2)]
          by (simp add: linklist_new_def LINK_SIZE_def s2_def s3_def Let_def)
        have "distinct (xs @ [r])" using xs A(7) by (auto simp: plist_def)
        moreover have "\<exists>n\<ge>4. live i s3 bs1 x = Some n" if "x \<in> set (xs @ [r])" for x
          using that xs old A(8) d dk by (fastforce simp: plist_def s3_def s2_def)
        ultimately show "plist i s3 bs1 (if xs = [] then r else head) (xs @ [r])"
          using seg False by (simp add: plist_def)
        show "live i s3 bs1 = (live i s bs)(r \<mapsto> k)" using A(8) by (simp add: s3_def s2_def)
        show "s3 = s\<lparr>pool_mem := pool_mem s3, last_heap_object := last_heap_object s3\<rparr>"
          unfolding s3_def by (subst s2eq) simp
        show "rd (pool_mem s3) (q + 4) (j - 4) = rd (pool_mem s) (q + 4) (j - 4)"
          if q: "live i s bs q = Some j" "q \<in> set xs" for q j
        proof (cases "q = ?l")
          case True
          have "rd (pool_mem s2) (q + 4) (j - 4) = rd (pool_mem s) (q + 4) (j - 4)"
            by (cases "4 \<le> j") (auto intro: rd_sub [OF rd2 [OF q(1)]])
          then show ?thesis using True by (simp add: s3_def mem_simps)
        next
          case f: False
          show ?thesis
            by (cases "4 \<le> j") (auto intro: rd_sub [OF rd3 [OF q(1) f]])
        qed
      qed (use A inv3 dk rd3 False in auto)
    qed
  qed
qed

section \<open>Removing a node\<close>

lemma linklist_remove_miss:
  assumes "plist i s bs head xs" "x \<notin> set xs"
  shows "linklist_remove i head x s = Some (s, head)"
proof -
  have "lseg (pool_mem s) head NULL xs" using assms by (simp add: plist_def)
  from find_lseg_miss [OF this assms(2)] show ?thesis by (simp add: linklist_remove_def)
qed

text \<open>Unlinking changes the links of the node and of its predecessor only.\<close>

lemma unlink_spec:
  assumes inv: "pool_inv i s bs" and xs: "plist i s bs head (ys @ x # zs)"
    and u: "linklist_unlink head (if ys = [] then NULL else last ys) x (pool_mem s) = (m, h)"
  shows "pool_inv i (s\<lparr>pool_mem := m\<rparr>) bs"
    "plist i (s\<lparr>pool_mem := m\<rparr>) bs h (ys @ zs)"
    "\<And>q j. live i s bs q = Some j \<Longrightarrow> q \<noteq> x \<Longrightarrow> ys = [] \<or> q \<noteq> last ys \<Longrightarrow> rd m q j = rd (pool_mem s) q j"
    "\<And>q j. live i s bs q = Some j \<Longrightarrow> q \<in> set (ys @ x # zs) \<Longrightarrow>
       rd m (q + 4) (j - 4) = rd (pool_mem s) (q + 4) (j - 4)"
    "ys \<noteq> [] \<Longrightarrow> node_next m x = NULL" "ys \<noteq> [] \<Longrightarrow> h = head" "ys = [] \<Longrightarrow> m = pool_mem s"
proof -
  let ?n = "node_next (pool_mem s) x"
  have lv: "\<exists>n \<ge> 4. live i s bs q = Some n" if "q \<in> set (ys @ x # zs)" for q
    using xs that by (auto simp: plist_def)
  have d: "distinct (ys @ x # zs)" using xs by (simp add: plist_def)
  have apart: "q + 4 \<le> r \<or> r + 4 \<le> q"
    if "q \<in> set (ys @ x # zs)" "r \<in> set (ys @ x # zs)" "q \<noteq> r" for q r
    using lv [OF that(1)] lv [OF that(2)] plist_apart that(3) by blast
  obtain n where n: "4 \<le> n" "live i s bs x = Some n" using lv [of x] by auto
  have "lseg (pool_mem s) head NULL (ys @ x # zs)" using xs by (simp add: plist_def)
  then obtain r where r: "lseg (pool_mem s) head x ys" "x \<noteq> NULL" "lseg (pool_mem s) ?n NULL zs"
    by (auto simp: lseg_append)
  have "pool_inv i (s\<lparr>pool_mem := m\<rparr>) bs \<and>
    plist i (s\<lparr>pool_mem := m\<rparr>) bs h (ys @ zs) \<and>
    (\<forall>q j. live i s bs q = Some j \<longrightarrow> q \<noteq> x \<longrightarrow> (ys = [] \<or> q \<noteq> last ys) \<longrightarrow> rd m q j = rd (pool_mem s) q j) \<and>
    (\<forall>q j. live i s bs q = Some j \<longrightarrow> q \<in> set (ys @ x # zs) \<longrightarrow>
       rd m (q + 4) (j - 4) = rd (pool_mem s) (q + 4) (j - 4)) \<and>
    (ys \<noteq> [] \<longrightarrow> node_next m x = NULL \<and> h = head) \<and> (ys = [] \<longrightarrow> m = pool_mem s)"
  proof (cases ys rule: rev_cases)
    case Nil
    then have "m = pool_mem s" "h = ?n" using u by (auto simp: linklist_unlink_def split: if_splits)
    then show ?thesis using Nil inv d r lv by (auto simp: plist_def)
  next
    case (snoc ws w)
    have w: "w \<in> set (ys @ x # zs)" "w \<noteq> x" using snoc d by auto
    obtain k where k: "4 \<le> k" "live i s bs w = Some k" using lv [OF w(1)] by auto
    have "w \<noteq> NULL" using live_bounds [OF inv k(2)] by auto
    then have m: "m = set_node_next x NULL (set_node_next w ?n (pool_mem s))" and h: "h = head"
      using u snoc by (auto simp: linklist_unlink_def Let_def)
    have mx: "node_next m x = NULL" by (simp add: m mem_simps)
    have mw: "node_next m w = ?n"
      using apart [OF _ w(1), of x] w node_next_bound
      unfolding m by (subst set_node_next_other) (auto simp: mem_simps)
    have mo: "node_next m q = node_next (pool_mem s) q"
      if "q \<in> set (ys @ x # zs)" "q \<noteq> x" "q \<noteq> w" for q
      using apart [OF that(1), of x] apart [OF that(1) w(1)] that
      unfolding m by (auto simp: mem_simps)
    have inv1: "pool_inv i (s\<lparr>pool_mem := set_node_next w ?n (pool_mem s)\<rparr>) bs"
      by (rule set_next_inv [OF inv k(2,1)])
    have inv2: "pool_inv i (s\<lparr>pool_mem := m\<rparr>) bs"
      using set_next_inv [OF inv1, of x n NULL] n by (simp add: m)
    have "lseg (pool_mem s) head w ws" "w \<noteq> NULL" using r(1) snoc by (auto simp: lseg_append)
    moreover from this(1) have "lseg m head w ws"
      by (rule lseg_frame) (use snoc d in \<open>auto intro!: mo\<close>)
    moreover have "lseg m ?n NULL zs"
      using r(3) by (rule lseg_frame) (use snoc d in \<open>auto intro!: mo\<close>)
    ultimately have seg: "lseg m head NULL (ys @ zs)"
      using mw by (auto simp: snoc lseg_append)
    have rd: "rd m q j = rd (pool_mem s) q j" if "live i s bs q = Some j" "q \<noteq> x" "q \<noteq> w" for q j
      using amap_disjoint [OF that(1) n(2) that(2)] amap_disjoint [OF that(1) k(2) that(3)] n k
      unfolding m by (auto simp: mem_simps)
    have pay: "rd m (q + 4) (j - 4) = rd (pool_mem s) (q + 4) (j - 4)"
      if q: "live i s bs q = Some j" "q \<in> set (ys @ x # zs)" for q j
    proof -
      have j: "4 \<le> j" using lv [OF q(2)] q(1) by auto
      have "q + j \<le> x \<or> x + 4 \<le> q + 4" "q + j \<le> w \<or> w + 4 \<le> q + 4"
        using amap_disjoint [OF q(1) n(2)] amap_disjoint [OF q(1) k(2)] n k by (cases "q = x"; cases "q = w"; auto)+
      then show ?thesis using j unfolding m by (auto simp: mem_simps)
    qed
    show ?thesis using inv2 seg d lv rd pay mx h snoc unfolding plist_def by auto
  qed
  then show "pool_inv i (s\<lparr>pool_mem := m\<rparr>) bs"
    "plist i (s\<lparr>pool_mem := m\<rparr>) bs h (ys @ zs)"
    "\<And>q j. live i s bs q = Some j \<Longrightarrow> q \<noteq> x \<Longrightarrow> ys = [] \<or> q \<noteq> last ys \<Longrightarrow> rd m q j = rd (pool_mem s) q j"
    "\<And>q j. live i s bs q = Some j \<Longrightarrow> q \<in> set (ys @ x # zs) \<Longrightarrow>
       rd m (q + 4) (j - 4) = rd (pool_mem s) (q + 4) (j - 4)"
    "ys \<noteq> [] \<Longrightarrow> node_next m x = NULL" "ys \<noteq> [] \<Longrightarrow> h = head" "ys = [] \<Longrightarrow> m = pool_mem s"
    by blast+
qed

lemma linklist_remove_spec:
  assumes inv: "pool_inv i s bs" and xs: "plist i s bs head (ys @ x # zs)"
  obtains s' bs' h where "linklist_remove i head x s = Some (s', h)" "pool_inv i s' bs'"
    "live i s' bs' = (live i s bs)(x := None)" "plist i s' bs' h (ys @ zs)"
    "s' = s\<lparr>pool_mem := pool_mem s', last_heap_object := last_heap_object s'\<rparr>"
    "\<And>q j. live i s bs q = Some j \<Longrightarrow> q \<noteq> x \<Longrightarrow> ys = [] \<or> q \<noteq> last ys \<Longrightarrow>
       rd (pool_mem s') q j = rd (pool_mem s) q j"
    "\<And>q j. live i s bs q = Some j \<Longrightarrow> q \<in> set (ys @ zs) \<Longrightarrow>
       rd (pool_mem s') (q + 4) (j - 4) = rd (pool_mem s) (q + 4) (j - 4)"
proof -
  let ?pre = "if ys = [] then NULL else last ys"
  have seg: "lseg (pool_mem s) head NULL (ys @ x # zs)" "distinct (ys @ x # zs)"
    using xs by (auto simp: plist_def)
  have find: "linklist_find (pool_mem s) NULL head x = Some (?pre, x)"
    using find_lseg_hit [OF seg(1)] seg(2) by simp
  have x: "x \<noteq> NULL" using seg(1) by (auto simp: lseg_append)
  obtain m h where u: "linklist_unlink head ?pre x (pool_mem s) = (m, h)" by force
  note U = unlink_spec [OF inv xs u]
  from U(1) show thesis
  proof (cases rule: bfree_spec [where p = x])
    case (1 s' bs')
    have heap: "heap_of_memory s' i = heap_of_memory s i" by (subst 1(4)) simp
    have lv: "live i s' bs' = (live i s bs)(x := None)" using 1(3) heap by simp
    have rm: "rd (pool_mem s') q j = rd m q j" if "q \<noteq> x" "live i s bs q = Some j" for q j
      using 1(5) [OF that(1)] that(2) by simp
    show thesis
    proof (rule that [of s' h bs'])
      show "linklist_remove i head x s = Some (s', h)"
        using find u x 1(1) by (simp add: linklist_remove_def del: if_split)
      show "plist i s' bs' h (ys @ zs)"
        by (rule plist_frame [OF U(2)]) (use seg(2) lv rm in auto)
      show "s' = s\<lparr>pool_mem := pool_mem s', last_heap_object := last_heap_object s'\<rparr>"
        by (subst 1(4)) simp
      show "rd (pool_mem s') q j = rd (pool_mem s) q j"
        if "live i s bs q = Some j" "q \<noteq> x" "ys = [] \<or> q \<noteq> last ys" for q j
        using U(3) [OF that] rm [OF that(2,1)] by simp
      show "rd (pool_mem s') (q + 4) (j - 4) = rd (pool_mem s) (q + 4) (j - 4)"
        if q: "live i s bs q = Some j" "q \<in> set (ys @ zs)" for q j
      proof -
        have "q \<noteq> x" using q(2) seg(2) by auto
        have "4 \<le> j" using plist_size [OF xs _ q(1)] q(2) by auto
        with rd_sub [OF rm [OF \<open>q \<noteq> x\<close> q(1)], of "q + 4" "j - 4"]
        show ?thesis using U(4) [OF q(1)] q(2) by auto
      qed
    qed (use 1(2) lv in auto)
  qed
qed

section \<open>Moving the head to the end\<close>

lemma linklist_reidx_head:
  assumes inv: "pool_inv i s bs" and xs: "plist i s bs head (x # zs)"
  shows "\<exists>m h. linklist_reidx i head x s = Some (s\<lparr>pool_mem := m\<rparr>, h) \<and>
    pool_inv i (s\<lparr>pool_mem := m\<rparr>) bs \<and> plist i (s\<lparr>pool_mem := m\<rparr>) bs h (zs @ [x])"
proof -
  let ?m = "pool_mem s"
  let ?n = "node_next ?m x"
  have seg: "head = x" "x \<noteq> NULL" "lseg ?m ?n NULL zs" "distinct (x # zs)"
    and lv: "\<And>y. y \<in> set (x # zs) \<Longrightarrow> \<exists>n \<ge> 4. live i s bs y = Some n"
    using xs by (auto simp: plist_def)
  obtain n where n: "4 \<le> n" "live i s bs x = Some n" using lv [of x] by auto
  have apart: "q + 4 \<le> r \<or> r + 4 \<le> q"
    if "q \<in> set (x # zs)" "r \<in> set (x # zs)" "q \<noteq> r" for q r
    using lv [OF that(1)] lv [OF that(2)] plist_apart that(3) by blast
  have find: "linklist_find ?m NULL head x = Some (NULL, x)"
    using seg(1,2) by (subst linklist_find.simps) simp
  have last: "linklist_last ?m ?n = Some (if zs = [] then NULL else last zs)"
    by (rule last_lseg [OF seg(3)])
  show ?thesis
  proof (cases "zs = []")
    case True
    then have "?n = NULL" using seg(3) by simp
    then have "linklist_reidx i head x s = Some (s\<lparr>pool_mem := set_node_next x NULL ?m\<rparr>, x)"
      using find last True seg(2) by (simp add: linklist_reidx_def linklist_unlink_def Let_def)
    moreover have "pool_inv i (s\<lparr>pool_mem := set_node_next x NULL ?m\<rparr>) bs"
      by (rule set_next_inv [OF inv n(2,1)])
    ultimately show ?thesis using True seg(2) n
      by (intro exI [of _ "set_node_next x NULL ?m"] exI [of _ x])
        (auto simp: plist_def mem_simps)
  next
    case False
    let ?l = "last zs"
    let ?m1 = "set_node_next ?l x ?m" and ?m2 = "set_node_next x NULL (set_node_next ?l x ?m)"
    let ?m3 = "set_node_next ?l x (set_node_next x NULL ?m)"
    have l: "?l \<in> set zs" "?l \<noteq> x" using False seg(4) by auto
    have l0: "?l \<noteq> NULL" using l(1) lseg_nonnull [OF seg(3)] by metis
    have nn: "?n \<noteq> NULL" using seg(3) False by (cases zs) auto
    obtain k where k: "4 \<le> k" "live i s bs ?l = Some k" using lv [of ?l] l by auto
    have xl: "x + 4 \<le> ?l \<or> ?l + 4 \<le> x" using apart [of x ?l] l by auto
    have swap: "?m2 = ?m3"
      by (rule ext) (use xl in \<open>auto simp: set_node_next_def st32_def wr_def\<close>)
    have run: "linklist_reidx i head x s = Some (s\<lparr>pool_mem := ?m2\<rparr>, ?n)"
      using find last False seg(1,2) l0 nn
      by (simp add: linklist_reidx_def linklist_unlink_def Let_def)
    have inv1: "pool_inv i (s\<lparr>pool_mem := ?m1\<rparr>) bs" by (rule set_next_inv [OF inv k(2,1)])
    have inv2: "pool_inv i (s\<lparr>pool_mem := ?m2\<rparr>) bs"
      using set_next_inv [OF inv1, of x n NULL] n by simp
    have nx: "lseg (set_node_next x NULL ?m) ?n NULL zs"
      using seg(3)
    proof (rule lseg_frame)
      show "node_next (set_node_next x NULL ?m) y = node_next ?m y" if "y \<in> set zs" for y
        using apart [of y x] that seg(4) by (intro set_node_next_other) auto
    qed
    have but: "y \<in> set zs \<and> y \<noteq> ?l" if "y \<in> set (butlast zs)" for y
      using that seg(4) False by (cases zs rule: rev_cases) auto
    have "lseg ?m3 ?n NULL (zs @ [x])"
    proof (rule lseg_snoc [OF nx])
      show "x < 4294967296" using live_addr_bound [OF inv n(2)] by simp
      show "y + 4 \<le> x \<or> x + 4 \<le> y" if "y \<in> set zs" for y
        using apart [of y x] that seg(4) by auto
      show "y + 4 \<le> ?l \<or> ?l + 4 \<le> y" if "y \<in> set (butlast zs)" for y
        using apart [of y ?l] but [OF that] l by auto
    qed (use seg False in \<open>auto simp: mem_simps\<close>)
    then have "plist i (s\<lparr>pool_mem := ?m2\<rparr>) bs ?n (zs @ [x])"
      using seg(4) lv by (auto simp: plist_def swap)
    with run inv2 show ?thesis by blast
  qed
qed

section \<open>Counting and indexing\<close>

lemma count_loop_lseg:
  "lseg m p NULL (x # xs) \<Longrightarrow> c + length xs < 4294967296 \<Longrightarrow>
   linklist_count_loop m p c = Some (c + length xs)"
proof (induction xs arbitrary: p x c)
  case Nil
  then show ?case by (subst linklist_count_loop.simps) simp
next
  case (Cons y ys)
  then have nx: "p = x" "x \<noteq> NULL" "node_next m x = y" "y \<noteq> NULL" "lseg m y NULL (y # ys)" by auto
  have ih: "linklist_count_loop m y (c + 1) = Some (c + 1 + length ys)"
    using Cons.IH [OF nx(5)] Cons.prems(2) by simp
  have "linklist_count_loop m p c =
      (if node_next m y \<noteq> NULL then linklist_count_loop m y (c + 1) else Some (c + 1))"
    using nx Cons.prems(2) by (subst linklist_count_loop.simps) (simp add: Let_def)
  moreover have "ys = []" if "node_next m y = NULL" using nx(5) that by (simp add: lseg_NULL)
  ultimately show ?case using ih by auto
qed

lemma get_loop_lseg:
  "lseg m p NULL (x # xs) \<Longrightarrow> c + length xs < 4294967296 \<Longrightarrow> c < ix \<Longrightarrow>
   linklist_get_loop m p c ix = Some (if ix - c < Suc (length xs) then (x # xs) ! (ix - c) else NULL)"
proof (induction xs arbitrary: p x c)
  case Nil
  then show ?case by (subst linklist_get_loop.simps) auto
next
  case (Cons y ys)
  then have nx: "p = x" "x \<noteq> NULL" "node_next m x = y" "y \<noteq> NULL" "lseg m y NULL (y # ys)" by auto
  have code: "linklist_get_loop m p c ix = (if c + 1 = ix then Some y
      else if node_next m y \<noteq> NULL then linklist_get_loop m y (c + 1) ix else Some NULL)"
    using nx Cons.prems(2) by (subst linklist_get_loop.simps) (simp add: Let_def)
  show ?case
  proof (cases "c + 1 = ix")
    case True
    with code show ?thesis by auto
  next
    case False
    then have ix: "ix - c = Suc (ix - (c + 1))" "c + 1 < ix" using Cons.prems(3) by auto
    have "linklist_get_loop m y (c + 1) ix =
        Some (if ix - (c + 1) < Suc (length ys) then (y # ys) ! (ix - (c + 1)) else NULL)"
      using Cons.IH [OF nx(5), of "c + 1"] Cons.prems(2) ix(2) by simp
    moreover have "ys = []" if "node_next m y = NULL" using nx(5) that by (simp add: lseg_NULL)
    ultimately show ?thesis using code False ix by auto
  qed
qed

section \<open>Properties\<close>

text \<open>\<open>linklist_new\<close> always returns.  When the pool is full it returns \<open>NULL\<close> and the list is
  as before; otherwise it returns a fresh live node of at least the requested size, the list is
  the old one with the node appended, no other live allocation changes, and the nodes of the list
  keep everything behind their link.\<close>

theorem linklist_new_appends:
  assumes "pool_inv i s bs" "plist i s bs head xs" "4 \<le> d" "d < 4294967280"
  shows "\<exists>s' src r. linklist_new i (Some head) d s = Some (s', src, r) \<and>
    (r = NULL \<and> src = Some head \<and> pool_inv i s' bs \<and> plist i s' bs head xs \<and>
       live i s' bs = live i s bs
     \<or> r \<noteq> NULL \<and> live i s bs r = None \<and>
       (\<exists>bs' k head'. src = Some head' \<and> d \<le> k \<and> pool_inv i s' bs' \<and>
          live i s' bs' = (live i s bs)(r \<mapsto> k) \<and> plist i s' bs' head' (xs @ [r]) \<and>
          (\<forall>q j. live i s bs q = Some j \<longrightarrow>
             (q \<notin> set xs \<longrightarrow> rd (pool_mem s') q j = rd (pool_mem s) q j) \<and>
             (q \<in> set xs \<longrightarrow>
               rd (pool_mem s') (q + 4) (j - 4) = rd (pool_mem s) (q + 4) (j - 4)))))"
  using assms
proof (cases rule: linklist_new_cases)
  case full
  then show ?thesis using assms(1,2) by (simp add: plist_def)
next
  case (fit s' r bs' k)
  have "xs = [] \<or> q \<noteq> last xs" if "q \<notin> set xs" for q using that by auto
  then show ?thesis using fit by blast
qed

theorem linklist_new_appends_witness:
  "\<exists>s' src r. linklist_new 0 (Some NULL) 20 demo_pool = Some (s', src, r)"
  using linklist_new_appends [OF demo_pool_inv, of NULL "[]" 20] by auto

text \<open>\<open>linklist_remove\<close> always returns.  A node of the list is taken out and freed, the order of
  the others is kept and so are their contents behind the link; an address that is not in the
  list changes nothing, so nothing is freed.\<close>

theorem linklist_remove_deletes:
  assumes "pool_inv i s bs" "plist i s bs head xs"
  shows "\<exists>s' bs' h. linklist_remove i head x s = Some (s', h) \<and> pool_inv i s' bs' \<and>
    plist i s' bs' h (remove1 x xs) \<and>
    (x \<notin> set xs \<longrightarrow> s' = s \<and> h = head) \<and>
    (x \<in> set xs \<longrightarrow> live i s' bs' = (live i s bs)(x := None)) \<and>
    (\<forall>q j. live i s bs q = Some j \<longrightarrow> q \<in> set xs \<longrightarrow> q \<noteq> x \<longrightarrow>
       rd (pool_mem s') (q + 4) (j - 4) = rd (pool_mem s) (q + 4) (j - 4))"
proof (cases "x \<in> set xs")
  case False
  then show ?thesis
    using linklist_remove_miss [OF assms(2) False] assms
    by (auto simp: remove1_idem)
next
  case True
  then obtain ys zs where ys: "xs = ys @ x # zs" "x \<notin> set ys" by (meson split_list_first)
  from assms(1) assms(2) [unfolded ys(1)] show ?thesis
  proof (cases rule: linklist_remove_spec)
    case (1 s' bs' h)
    have "remove1 x xs = ys @ zs" using ys by (simp add: remove1_append)
    then show ?thesis using 1 ys by (intro exI [of _ s'] exI [of _ bs'] exI [of _ h]) auto
  qed
qed

theorem linklist_remove_deletes_witness:
  "\<exists>s' h. linklist_remove 0 NULL 536870920 demo_pool = Some (s', h) \<and> s' = demo_pool"
  using linklist_remove_deletes [OF demo_pool_inv, of NULL "[]" 536870920] by auto

text \<open>\<open>linklist_count\<close> returns the length of the list and \<open>linklist_get\<close> its n-th node, \<open>NULL\<close>
  past the end.\<close>

theorem linklist_count_and_get:
  assumes "plist i s bs head xs" "length xs < 4294967296" "ix < 4294967296"
  shows "linklist_count i head s = Some (length xs) \<and>
    linklist_get i head ix s = Some (if ix < length xs then xs ! ix else NULL)"
proof
  have seg: "lseg (pool_mem s) head NULL xs" using assms(1) by (simp add: plist_def)
  show "linklist_count i head s = Some (length xs)"
  proof (cases xs)
    case Nil
    then show ?thesis
      using seg by (simp add: linklist_count_def linklist_count_loop.simps)
  next
    case (Cons x ys)
    then show ?thesis
      using seg assms(2) count_loop_lseg [of "pool_mem s" head x ys 1]
      by (auto simp: linklist_count_def)
  qed
  show "linklist_get i head ix s = Some (if ix < length xs then xs ! ix else NULL)"
  proof (cases xs)
    case Nil
    then show ?thesis
      using seg by (simp add: linklist_get_def linklist_get_loop.simps)
  next
    case (Cons x ys)
    then show ?thesis
      using seg assms(2) get_loop_lseg [of "pool_mem s" head x ys 0 ix]
      by (auto simp: linklist_get_def)
  qed
qed

theorem linklist_count_and_get_witness:
  "linklist_count 0 NULL demo_pool = Some 0 \<and> linklist_get 0 NULL 3 demo_pool = Some NULL"
  using linklist_count_and_get [of 0 demo_pool "[]" NULL "[]" 3] by simp

text \<open>\<open>linklist_reidx\<close> moves the head of the list to its end, but for any other node it loses
  the rest of the list: the new head is the node itself, followed by nothing, while every other
  node stays allocated.\<close>

theorem linklist_reidx_moves_head_loses_rest:
  assumes "pool_inv i s bs" "plist i s bs head (ys @ x # zs)"
  shows "\<exists>m h. linklist_reidx i head x s = Some (s\<lparr>pool_mem := m\<rparr>, h) \<and>
    pool_inv i (s\<lparr>pool_mem := m\<rparr>) bs \<and>
    plist i (s\<lparr>pool_mem := m\<rparr>) bs h (if ys = [] then zs @ [x] else [x])"
proof (cases "ys = []")
  case True
  then show ?thesis using linklist_reidx_head assms by fastforce
next
  case False
  have seg: "lseg (pool_mem s) head NULL (ys @ x # zs)" "distinct (ys @ x # zs)"
    using assms(2) by (auto simp: plist_def)
  have find: "linklist_find (pool_mem s) NULL head x = Some (last ys, x)"
    using find_lseg_hit [OF seg(1)] seg(2) False by simp
  have "x \<in> set (ys @ x # zs)" "last ys \<in> set (ys @ x # zs)" using False by simp_all
  then have x: "x \<noteq> NULL" "last ys \<noteq> NULL" using lseg_nonnull [OF seg(1)] by metis+
  obtain m h where u: "linklist_unlink head (last ys) x (pool_mem s) = (m, h)" by force
  have u': "linklist_unlink head (if ys = [] then NULL else last ys) x (pool_mem s) = (m, h)"
    using u False by simp
  note U = unlink_spec [OF assms u']
  obtain n where n: "4 \<le> n" "live i s bs x = Some n" using assms(2) by (auto simp: plist_def)
  let ?m = "set_node_next x NULL m"
  have "linklist_reidx i head x s = Some (s\<lparr>pool_mem := ?m\<rparr>, x)"
    using find u x by (simp add: linklist_reidx_def linklist_last.simps)
  moreover have "pool_inv i (s\<lparr>pool_mem := ?m\<rparr>) bs"
    using set_next_inv [OF U(1), of x n NULL] n by simp
  moreover have "plist i (s\<lparr>pool_mem := ?m\<rparr>) bs x [x]"
    using x n by (auto simp: plist_def mem_simps)
  ultimately show ?thesis using False by (intro exI [of _ ?m] exI [of _ x]) auto
qed

lemma demo_node: "\<exists>(s :: pools) bs r. pool_inv 0 s bs \<and> plist 0 s bs r [r]"
proof -
  have "plist 0 demo_pool [] NULL []" by simp
  from demo_pool_inv this show ?thesis
    by (rule linklist_new_cases [of 0 demo_pool "[]" NULL "[]" 8])
      (auto simp: demo_pool_fields round_up4_def)
qed

theorem linklist_reidx_moves_head_loses_rest_witness:
  "\<exists>(s :: pools) r m h. linklist_reidx 0 r r s = Some (s\<lparr>pool_mem := m\<rparr>, h)"
proof -
  obtain s :: pools and bs r where "pool_inv 0 s bs" "plist 0 s bs r ([] @ r # [])"
    using demo_node by auto
  from linklist_reidx_moves_head_loses_rest [OF this] show ?thesis by blast
qed

end
