(* ===== verification/Entries.thy ===== *)
theory Entries
  imports Linklist
begin

text \<open>
  The task table and its two backends, one of which the build selects:
  \<open>zephyr/modules/rtbus/src/rtbus_entries.c\<close> keeps a pointer to a table the application passes,
  \<open>rtbus_iterable.c\<close> walks a linker section, which is a list fixed at link time.

  Both promise the same contract, the locale \<open>entry_backend\<close>: a successful initialisation
  leaves a well-formed table (every priority valid, every handler present, no task id twice),
  and find and get-by-index read that table.  \<open>backend\<close> is the build's choice and the functions
  that dispatch on it are the ones EMOS calls.
\<close>

section \<open>Task entries\<close>

record emos_entry =
  e_task_id :: byte
  e_priority :: byte
  e_task_entry :: nat
  e_init :: bool
  e_always :: bool

definition EMOS_TASK_PRIORITY_NUMBER :: nat where [layout_defs]: "EMOS_TASK_PRIORITY_NUMBER = 3"

text \<open>\<open>EMOS_TASK_ENTRY\<close> and \<open>EMOS_TASK_ENTRY_POLL\<close>.\<close>

definition EMOS_TASK_ENTRY :: "byte \<Rightarrow> byte \<Rightarrow> nat \<Rightarrow> emos_entry" where
  "EMOS_TASK_ENTRY task_id priority task_entry =
     \<lparr>e_task_id = task_id, e_priority = priority, e_task_entry = task_entry,
      e_init = True, e_always = False\<rparr>"

definition EMOS_TASK_ENTRY_POLL :: "byte \<Rightarrow> byte \<Rightarrow> nat \<Rightarrow> emos_entry" where
  "EMOS_TASK_ENTRY_POLL task_id priority task_entry =
     \<lparr>e_task_id = task_id, e_priority = priority, e_task_entry = task_entry,
      e_init = True, e_always = True\<rparr>"

text \<open>The static variables of the table backend.\<close>

record entries = pools +
  registered_entries :: "emos_entry list option"
  registered_entry_count :: nat

section \<open>The table backend\<close>

definition tbl_entries_reset :: "'a entries_scheme \<Rightarrow> 'a entries_scheme" where
  "tbl_entries_reset s = s\<lparr>registered_entries := None, registered_entry_count := 0\<rparr>"

text \<open>The loop from index \<open>i\<close> with \<open>n\<close> rounds to go.\<close>

fun tbl_find_loop :: "emos_entry list \<Rightarrow> byte \<Rightarrow> nat \<Rightarrow> nat \<Rightarrow> emos_entry option" where
  "tbl_find_loop tbl task_id i 0 = None"
| "tbl_find_loop tbl task_id i (Suc n) =
     (if e_task_id (tbl ! i) = task_id then Some (tbl ! i)
      else tbl_find_loop tbl task_id (i + 1) n)"

definition tbl_entry_find :: "byte \<Rightarrow> 'a entries_scheme \<Rightarrow> emos_entry option" where
  "tbl_entry_find task_id s =
     (case registered_entries s of
        None \<Rightarrow> None
      | Some tbl \<Rightarrow> tbl_find_loop tbl task_id 0 (registered_entry_count s))"

definition tbl_entry_get_by_index :: "nat \<Rightarrow> 'a entries_scheme \<Rightarrow> emos_entry option" where
  "tbl_entry_get_by_index index s =
     (case registered_entries s of
        None \<Rightarrow> None
      | Some tbl \<Rightarrow>
          if registered_entry_count s \<le> index then None else Some (tbl ! index))"

text \<open>\<open>uint8_t matches\<close> wraps at 256.\<close>

fun tbl_matches_loop :: "emos_entry list \<Rightarrow> byte \<Rightarrow> nat \<Rightarrow> nat \<Rightarrow> nat \<Rightarrow> nat" where
  "tbl_matches_loop tbl task_id i 0 matches = matches"
| "tbl_matches_loop tbl task_id i (Suc n) matches =
     tbl_matches_loop tbl task_id (i + 1) n
       (if e_task_id (tbl ! i) = task_id then (matches + 1) mod 256 else matches)"

definition tbl_entry_id_is_duplicate :: "emos_entry list \<Rightarrow> nat \<Rightarrow> emos_entry \<Rightarrow> bool" where
  "tbl_entry_id_is_duplicate tbl count entry \<longleftrightarrow>
     1 < tbl_matches_loop tbl (e_task_id entry) 0 count 0"

fun tbl_init_loop :: "emos_entry list \<Rightarrow> nat \<Rightarrow> nat \<Rightarrow> nat \<Rightarrow> rc" where
  "tbl_init_loop tbl count i 0 = ok"
| "tbl_init_loop tbl count i (Suc n) =
     (if EMOS_TASK_PRIORITY_NUMBER \<le> unat (e_priority (tbl ! i)) \<or>
         e_task_entry (tbl ! i) = NULL then Inl EINVAL
      else if tbl_entry_id_is_duplicate tbl count (tbl ! i) then Inl EALREADY
      else tbl_init_loop tbl count (i + 1) n)"

definition tbl_entries_init ::
    "emos_entry list option \<Rightarrow> nat \<Rightarrow> 'a entries_scheme \<Rightarrow> (errno + nat) \<times> 'a entries_scheme" where
  "tbl_entries_init entry_tbl entry_count s =
     (case entry_tbl of
        None \<Rightarrow> (Inl EINVAL, s)
      | Some tbl \<Rightarrow>
          if entry_count = 0 then (Inl EINVAL, s)
          else
            let s = s\<lparr>registered_entries := Some tbl, registered_entry_count := entry_count\<rparr>
            in case tbl_init_loop tbl entry_count 0 entry_count of
                 Inl e \<Rightarrow> (Inl e, tbl_entries_reset s)
               | Inr _ \<Rightarrow> (Inr (registered_entry_count s), s))"

section \<open>The linker-section backend\<close>

text \<open>\<open>STRUCT_SECTION_FOREACH\<close> visits the entries of the section in order.\<close>

fun itr_entry_find :: "emos_entry list \<Rightarrow> byte \<Rightarrow> emos_entry option" where
  "itr_entry_find [] task_id = None"
| "itr_entry_find (entry # es) task_id =
     (if e_task_id entry = task_id then Some entry else itr_entry_find es task_id)"

fun itr_get_loop :: "emos_entry list \<Rightarrow> nat \<Rightarrow> nat \<Rightarrow> emos_entry option" where
  "itr_get_loop [] current index = None"
| "itr_get_loop (entry # es) current index =
     (if current = index then Some entry else itr_get_loop es ((current + 1) mod 256) index)"

definition itr_entry_get_by_index :: "emos_entry list \<Rightarrow> nat \<Rightarrow> emos_entry option" where
  "itr_entry_get_by_index sec index = itr_get_loop sec 0 index"

fun itr_matches_loop :: "emos_entry list \<Rightarrow> byte \<Rightarrow> nat \<Rightarrow> nat" where
  "itr_matches_loop [] task_id matches = matches"
| "itr_matches_loop (entry # es) task_id matches =
     itr_matches_loop es task_id
       (if e_task_id entry = task_id then (matches + 1) mod 256 else matches)"

definition itr_entry_id_is_duplicate :: "emos_entry list \<Rightarrow> emos_entry \<Rightarrow> bool" where
  "itr_entry_id_is_duplicate sec needle \<longleftrightarrow> 1 < itr_matches_loop sec (e_task_id needle) 0"

fun itr_init_loop :: "emos_entry list \<Rightarrow> emos_entry list \<Rightarrow> nat \<Rightarrow> errno + nat" where
  "itr_init_loop sec [] found = Inr found"
| "itr_init_loop sec (entry # es) found =
     (if EMOS_TASK_PRIORITY_NUMBER \<le> unat (e_priority entry) \<or>
         e_task_entry entry = NULL then Inl EINVAL
      else if itr_entry_id_is_duplicate sec entry then Inl EALREADY
      else itr_init_loop sec es ((found + 1) mod 256))"

definition itr_entries_init :: "emos_entry list \<Rightarrow> errno + nat" where
  "itr_entries_init sec =
     (case itr_init_loop sec sec 0 of
        Inl e \<Rightarrow> Inl e
      | Inr found \<Rightarrow> if found = 0 then Inl ENODEV else Inr found)"

section \<open>The build's choice\<close>

datatype backend = Entry_Table | Entry_Section "emos_entry list"

fun emos_entries_reset :: "backend \<Rightarrow> 'a entries_scheme \<Rightarrow> 'a entries_scheme" where
  "emos_entries_reset Entry_Table s = tbl_entries_reset s"
| "emos_entries_reset (Entry_Section sec) s = s"

fun emos_entry_find :: "backend \<Rightarrow> byte \<Rightarrow> 'a entries_scheme \<Rightarrow> emos_entry option" where
  "emos_entry_find Entry_Table task_id s = tbl_entry_find task_id s"
| "emos_entry_find (Entry_Section sec) task_id s = itr_entry_find sec task_id"

fun emos_entry_get_by_index :: "backend \<Rightarrow> nat \<Rightarrow> 'a entries_scheme \<Rightarrow> emos_entry option" where
  "emos_entry_get_by_index Entry_Table index s = tbl_entry_get_by_index index s"
| "emos_entry_get_by_index (Entry_Section sec) index s = itr_entry_get_by_index sec index"

fun emos_entries_init ::
    "backend \<Rightarrow> emos_entry list option \<Rightarrow> nat \<Rightarrow> 'a entries_scheme \<Rightarrow>
     (errno + nat) \<times> 'a entries_scheme" where
  "emos_entries_init Entry_Table entry_tbl entry_count s = tbl_entries_init entry_tbl entry_count s"
| "emos_entries_init (Entry_Section sec) entry_tbl entry_count s = (itr_entries_init sec, s)"

section \<open>The contract of a backend\<close>

definition entry_ok :: "emos_entry \<Rightarrow> bool" where
  "entry_ok e \<longleftrightarrow> unat (e_priority e) < EMOS_TASK_PRIORITY_NUMBER \<and> e_task_entry e \<noteq> NULL"

definition table_ok :: "emos_entry list \<Rightarrow> bool" where
  "table_ok es \<longleftrightarrow> es \<noteq> [] \<and> length es < 256 \<and> list_all entry_ok es \<and> distinct (map e_task_id es)"

locale entry_backend =
  fixes find :: "byte \<Rightarrow> 's \<Rightarrow> emos_entry option"
    and get :: "nat \<Rightarrow> 's \<Rightarrow> emos_entry option"
    and init :: "emos_entry list option \<Rightarrow> nat \<Rightarrow> 's \<Rightarrow> (errno + nat) \<times> 's"
    and caller_ok :: "emos_entry list option \<Rightarrow> nat \<Rightarrow> bool"
    and holds :: "'s \<Rightarrow> emos_entry list \<Rightarrow> bool"
  assumes find_law: "holds s es \<Longrightarrow> find t s = List.find (\<lambda>e. e_task_id e = t) es"
    and get_law: "holds s es \<Longrightarrow> get i s = (if i < length es then Some (es ! i) else None)"
    and init_ok: "caller_ok tbl n \<Longrightarrow> init tbl n s = (Inr c, s') \<Longrightarrow>
      \<exists>es. holds s' es \<and> table_ok es \<and> c = length es"
    and init_bad: "caller_ok tbl n \<Longrightarrow> init tbl n s = (Inl e, s') \<Longrightarrow>
      e \<in> {EINVAL, EALREADY, ENODEV}"
begin

lemma find_unique:
  assumes "holds s es" "table_ok es" "e \<in> set es"
  shows "find (e_task_id e) s = Some e"
proof -
  obtain i where i: "i < length es" "e = es ! i" using assms(3) by (auto simp: in_set_conv_nth)
  have "e_task_id (es ! j) \<noteq> e_task_id e" if "j < i" for j
    using assms(2) i that nth_eq_iff_index_eq [of "map e_task_id es" j i]
    by (auto simp: table_ok_def)
  then show ?thesis using i by (auto simp: find_law [OF assms(1)] find_Some_iff)
qed

lemma find_member:
  assumes "holds s es" "find t s = Some e"
  shows "e \<in> set es \<and> e_task_id e = t"
  using assms(2) by (auto simp: find_law [OF assms(1)] find_Some_iff)

lemma find_unknown:
  "holds s es \<Longrightarrow> find t s = None \<longleftrightarrow> t \<notin> e_task_id ` set es"
  by (auto simp: find_law find_None_iff)

lemma init_registers:
  assumes "caller_ok tbl n" "init tbl n s = (Inr c, s')" "i < c"
  shows "\<exists>e. get i s' = Some e \<and> find (e_task_id e) s' = Some e \<and> entry_ok e"
proof -
  obtain es where es: "holds s' es" "table_ok es" "c = length es"
    using init_ok [OF assms(1,2)] by auto
  with assms(3) have "get i s' = Some (es ! i)" "es ! i \<in> set es" by (auto simp: get_law)
  with find_unique [OF es(1,2)] es(2) show ?thesis by (auto simp: table_ok_def list_all_iff)
qed

end

section \<open>What the loops compute\<close>

abbreviation same_id :: "emos_entry list \<Rightarrow> byte \<Rightarrow> nat" where
  "same_id es t \<equiv> length (filter (\<lambda>e. e_task_id e = t) es)"

lemma distinct_ids:
  "distinct (map e_task_id es) \<longleftrightarrow> (\<forall>e \<in> set es. same_id es (e_task_id e) \<le> 1)"
proof (induction es)
  case Nil
  then show ?case by simp
next
  case (Cons a es)
  show ?case
  proof (cases "e_task_id a \<in> e_task_id ` set es")
    case True
    then obtain b where "b \<in> set es" "e_task_id b = e_task_id a" by auto
    then have "filter (\<lambda>e. e_task_id e = e_task_id a) es \<noteq> []" by (auto simp: filter_empty_conv)
    then have "\<not> same_id (a # es) (e_task_id a) \<le> 1" by simp
    then show ?thesis using True by auto
  next
    case False
    then have "filter (\<lambda>e. e_task_id e = e_task_id a) es = []"
      by (metis (mono_tags, lifting) filter_False image_eqI)
    moreover have "e_task_id a \<noteq> e_task_id e" if "e \<in> set es" for e using False that by auto
    ultimately show ?thesis using Cons False by auto
  qed
qed

lemma take_drop_Suc: "i + Suc n \<le> length xs \<Longrightarrow> take (Suc n) (drop i xs) = xs ! i # take n (drop (i + 1) xs)"
  by (simp add: Cons_nth_drop_Suc [symmetric])

lemma tbl_find_loop_eq:
  "i + n \<le> length tbl \<Longrightarrow>
   tbl_find_loop tbl t i n = List.find (\<lambda>e. e_task_id e = t) (take n (drop i tbl))"
  by (induction n arbitrary: i) (auto simp: take_drop_Suc)

lemma tbl_matches_loop_eq:
  "i + n \<le> length tbl \<Longrightarrow> m < 256 \<Longrightarrow>
   tbl_matches_loop tbl t i n m = (m + same_id (take n (drop i tbl)) t) mod 256"
  by (induction n arbitrary: i m) (auto simp: take_drop_Suc mod_add_left_eq)

lemma tbl_init_loop_ok:
  "i + n \<le> length tbl \<Longrightarrow>
   tbl_init_loop tbl c i n = ok \<longleftrightarrow>
   (\<forall>e \<in> set (take n (drop i tbl)). entry_ok e \<and> \<not> tbl_entry_id_is_duplicate tbl c e)"
  by (induction n arbitrary: i) (auto simp: take_drop_Suc entry_ok_def not_less)

lemma tbl_init_loop_bad: "tbl_init_loop tbl c i n = Inl e \<Longrightarrow> e = EINVAL \<or> e = EALREADY"
  by (induction n arbitrary: i) (auto split: if_splits)

lemma tbl_duplicate_eq:
  "c \<le> length tbl \<Longrightarrow> c < 256 \<Longrightarrow>
   tbl_entry_id_is_duplicate tbl c e \<longleftrightarrow> 1 < same_id (take c tbl) (e_task_id e)"
proof -
  assume c: "c \<le> length tbl" "c < 256"
  have "same_id (take c tbl) (e_task_id e) < 256"
    using length_filter_le [of "\<lambda>x. e_task_id x = e_task_id e" "take c tbl"] c by simp
  then show ?thesis
    using c by (simp add: tbl_entry_id_is_duplicate_def tbl_matches_loop_eq)
qed

lemma tbl_init_ok_iff:
  assumes "0 < c" "c \<le> length tbl" "c < 256"
  shows "tbl_init_loop tbl c 0 c = ok \<longleftrightarrow> table_ok (take c tbl)"
  using assms tbl_duplicate_eq [OF assms(2,3)]
  by (auto simp: tbl_init_loop_ok table_ok_def list_all_iff distinct_ids not_less)

lemma itr_entry_find_eq: "itr_entry_find sec t = List.find (\<lambda>e. e_task_id e = t) sec"
  by (induction sec t rule: itr_entry_find.induct) auto

lemma itr_get_loop_eq:
  "c + length es < 257 \<Longrightarrow> c \<le> ix \<Longrightarrow>
   itr_get_loop es c ix = (if ix - c < length es then Some (es ! (ix - c)) else None)"
proof (induction es arbitrary: c)
  case Nil
  then show ?case by simp
next
  case (Cons e es)
  show ?case
  proof (cases "c = ix")
    case True
    then show ?thesis by simp
  next
    case False
    then have ix: "ix - c = Suc (ix - (c + 1))" "c + 1 \<le> ix" using Cons.prems by auto
    show ?thesis
    proof (cases "es = []")
      case True
      then show ?thesis using False ix by simp
    next
      case f: False
      then have "(c + 1) mod 256 = c + 1" using Cons.prems by (cases es) auto
      then show ?thesis using Cons.IH [of "c + 1"] Cons.prems ix False by simp
    qed
  qed
qed

lemma itr_matches_loop_eq:
  "m < 256 \<Longrightarrow> itr_matches_loop es t m = (m + same_id es t) mod 256"
  by (induction es arbitrary: m) (auto simp: mod_add_left_eq)

lemma itr_init_loop_ok:
  "f < 256 \<Longrightarrow>
   (\<exists>c. itr_init_loop sec es f = Inr c) \<longleftrightarrow>
     (\<forall>e \<in> set es. entry_ok e \<and> \<not> itr_entry_id_is_duplicate sec e)"
  by (induction es arbitrary: f) (auto simp: entry_ok_def not_less)

lemma itr_init_loop_count:
  "itr_init_loop sec es f = Inr c \<Longrightarrow> f < 256 \<Longrightarrow> c = (f + length es) mod 256"
proof (induction es arbitrary: f)
  case Nil
  then show ?case by simp
next
  case (Cons e es)
  then have "itr_init_loop sec es ((f + 1) mod 256) = Inr c" by (auto split: if_splits)
  from Cons.IH [OF this] have "c = ((f + 1) mod 256 + length es) mod 256" by simp
  then show ?case by (simp add: mod_add_left_eq)
qed

lemma itr_init_loop_bad: "itr_init_loop sec es f = Inl e \<Longrightarrow> e = EINVAL \<or> e = EALREADY"
  by (induction es arbitrary: f) (auto split: if_splits)

lemma itr_duplicate_eq:
  "length sec < 256 \<Longrightarrow>
   itr_entry_id_is_duplicate sec e \<longleftrightarrow> 1 < same_id sec (e_task_id e)"
proof -
  assume c: "length sec < 256"
  have "same_id sec (e_task_id e) < 256"
    using length_filter_le c by (rule le_less_trans)
  then show ?thesis by (simp add: itr_entry_id_is_duplicate_def itr_matches_loop_eq)
qed

lemma itr_init_ok_iff:
  assumes "length sec < 256"
  shows "itr_entries_init sec = Inr c \<longleftrightarrow> table_ok sec \<and> c = length sec"
proof -
  have "(\<exists>c. itr_init_loop sec sec 0 = Inr c) \<longleftrightarrow> list_all entry_ok sec \<and> distinct (map e_task_id sec)"
    using itr_init_loop_ok [of 0 sec sec] itr_duplicate_eq [OF assms]
    by (auto simp: list_all_iff distinct_ids not_less)
  moreover have "c = length sec" if "itr_init_loop sec sec 0 = Inr c" for c
    using itr_init_loop_count [OF that] assms by simp
  ultimately show ?thesis
    using assms by (auto simp: itr_entries_init_def table_ok_def split: sum.splits)
qed

section \<open>Both backends meet the contract\<close>

fun backend_holds :: "backend \<Rightarrow> 'a entries_scheme \<Rightarrow> emos_entry list \<Rightarrow> bool" where
  "backend_holds Entry_Table s es \<longleftrightarrow>
     (\<exists>tbl. registered_entries s = Some tbl \<and> registered_entry_count s \<le> length tbl \<and>
        es = take (registered_entry_count s) tbl)"
| "backend_holds (Entry_Section sec) s es \<longleftrightarrow> es = sec \<and> length sec < 256"

fun backend_caller :: "backend \<Rightarrow> emos_entry list option \<Rightarrow> nat \<Rightarrow> bool" where
  "backend_caller Entry_Table tbl n \<longleftrightarrow> n < 256 \<and> (\<forall>t. tbl = Some t \<longrightarrow> n \<le> length t)"
| "backend_caller (Entry_Section sec) tbl n \<longleftrightarrow> length sec < 256"

interpretation eb: entry_backend "emos_entry_find be" "emos_entry_get_by_index be"
  "emos_entries_init be" "backend_caller be" "backend_holds be" for be
proof unfold_locales
  fix s s' :: "'a entries_scheme" and es t i tbl n c e
  show "emos_entry_find be t s = List.find (\<lambda>e. e_task_id e = t) es" if "backend_holds be s es"
    using that
    by (cases be) (auto simp: tbl_entry_find_def tbl_find_loop_eq itr_entry_find_eq)
  show "emos_entry_get_by_index be i s = (if i < length es then Some (es ! i) else None)"
    if "backend_holds be s es"
    using that
    by (cases be) (auto simp: tbl_entry_get_by_index_def itr_entry_get_by_index_def itr_get_loop_eq)
  show "\<exists>es. backend_holds be s' es \<and> table_ok es \<and> c = length es"
    if "backend_caller be tbl n" "emos_entries_init be tbl n s = (Inr c, s')"
  proof (cases be)
    case Entry_Table
    with that show ?thesis
      by (auto simp: tbl_entries_init_def Let_def tbl_init_ok_iff split: option.splits if_splits sum.splits)
  next
    case (Entry_Section sec)
    with that show ?thesis by (auto simp: itr_init_ok_iff)
  qed
  show "e \<in> {EINVAL, EALREADY, ENODEV}"
    if "backend_caller be tbl n" "emos_entries_init be tbl n s = (Inl e, s')"
    using that
    by (cases be)
      (auto simp: tbl_entries_init_def itr_entries_init_def Let_def
        dest!: tbl_init_loop_bad itr_init_loop_bad split: option.splits if_splits sum.splits)
qed

section \<open>Properties\<close>

definition demo_entries :: "emos_entry list" where
  "demo_entries = [EMOS_TASK_ENTRY 7 0 0x101, EMOS_TASK_ENTRY_POLL 9 2 0x201, EMOS_TASK_ENTRY 4 1 0x301]"

lemma demo_entries_ok: "table_ok demo_entries"
  by (simp add: demo_entries_def table_ok_def entry_ok_def EMOS_TASK_ENTRY_def
      EMOS_TASK_ENTRY_POLL_def EMOS_TASK_PRIORITY_NUMBER_def)

lemma demo_entries_length: "length demo_entries = 3" "demo_entries \<noteq> []"
  by (simp_all add: demo_entries_def)

definition boot_entries :: entries where
  "boot_entries = pools.extend demo_pool \<lparr>registered_entries = None, registered_entry_count = 0\<rparr>"

text \<open>Registering a table succeeds exactly when it is well-formed (every priority below
  \<open>EMOS_TASK_PRIORITY_NUMBER\<close>, every handler present, no task id twice), and then all its entries
  are registered; otherwise nothing stays registered and the error is \<open>EINVAL\<close> or
  \<open>EALREADY\<close>.\<close>

theorem entries_init_validates:
  assumes "0 < n" "n \<le> length tbl" "n < 256"
  shows "if table_ok (take n tbl)
    then emos_entries_init Entry_Table (Some tbl) n s =
      (Inr n, s\<lparr>registered_entries := Some tbl, registered_entry_count := n\<rparr>)
    else emos_entries_init Entry_Table (Some tbl) n s \<in>
      {(Inl EINVAL, emos_entries_reset Entry_Table s), (Inl EALREADY, emos_entries_reset Entry_Table s)}"
proof (cases "tbl_init_loop tbl n 0 n")
  case (Inl e)
  then have "\<not> table_ok (take n tbl)" using tbl_init_ok_iff [OF assms] by auto
  with Inl tbl_init_loop_bad [OF Inl] assms(1) show ?thesis
    by (auto simp: tbl_entries_init_def tbl_entries_reset_def)
next
  case (Inr u)
  then have "table_ok (take n tbl)" using tbl_init_ok_iff [OF assms] by auto
  with Inr assms(1) show ?thesis by (simp add: tbl_entries_init_def)
qed

theorem entries_init_validates_witness:
  "fst (emos_entries_init Entry_Table (Some demo_entries) 3 boot_entries) = Inr 3"
  using entries_init_validates [of 3 demo_entries boot_entries] demo_entries_ok
  by (simp add: demo_entries_def)

text \<open>Whichever backend is built, after a successful initialisation each index below the
  reported count yields a valid entry, and looking its task id up finds that same entry.\<close>

theorem entries_lookup_after_init:
  assumes "backend_caller be tbl n" "emos_entries_init be tbl n s = (Inr c, s')" "i < c"
  shows "\<exists>e. emos_entry_get_by_index be i s' = Some e \<and>
    emos_entry_find be (e_task_id e) s' = Some e \<and> entry_ok e"
  using eb.init_registers [OF assms] .

theorem entries_lookup_after_init_witness:
  "\<exists>e. emos_entry_get_by_index (Entry_Section demo_entries) 2 boot_entries = Some e \<and>
    emos_entry_find (Entry_Section demo_entries) (e_task_id e) boot_entries = Some e"
proof -
  have "itr_entries_init demo_entries = Inr 3"
    using itr_init_ok_iff [of demo_entries 3] demo_entries_ok by (simp add: demo_entries_length)
  then show ?thesis
    using entries_lookup_after_init [of "Entry_Section demo_entries" None 0 boot_entries 3 boot_entries 2]
    by (auto simp: demo_entries_length)
qed

text \<open>C40: the two backends are interchangeable: over the same entries (at most 255) they accept the
  same tables, report the same count and answer every lookup alike.\<close>

theorem backends_equivalent:
  assumes "es \<noteq> []" "length es < 256"
  shows "(\<forall>c. fst (emos_entries_init Entry_Table (Some es) (length es) s) = Inr c \<longleftrightarrow>
      fst (emos_entries_init (Entry_Section es) tbl n s) = Inr c) \<and>
    (\<forall>c s'. emos_entries_init Entry_Table (Some es) (length es) s = (Inr c, s') \<longrightarrow>
      (\<forall>t. emos_entry_find Entry_Table t s' = emos_entry_find (Entry_Section es) t s') \<and>
      (\<forall>i. emos_entry_get_by_index Entry_Table i s' = emos_entry_get_by_index (Entry_Section es) i s'))"
proof (intro conjI allI impI)
  fix c s' t i
  show "fst (emos_entries_init Entry_Table (Some es) (length es) s) = Inr c \<longleftrightarrow>
      fst (emos_entries_init (Entry_Section es) tbl n s) = Inr c"
    using assms tbl_init_ok_iff [of "length es" es] itr_init_ok_iff [OF assms(2), of c]
    by (cases "tbl_init_loop es (length es) 0 (length es)")
      (auto simp: tbl_entries_init_def Let_def)
  assume "emos_entries_init Entry_Table (Some es) (length es) s = (Inr c, s')"
  then have "backend_holds Entry_Table s' es"
    using assms by (auto simp: tbl_entries_init_def Let_def split: sum.splits)
  moreover have "backend_holds (Entry_Section es) s' es" using assms by simp
  ultimately show "emos_entry_find Entry_Table t s' = emos_entry_find (Entry_Section es) t s'"
    "emos_entry_get_by_index Entry_Table i s' = emos_entry_get_by_index (Entry_Section es) i s'"
    using eb.find_law eb.get_law by metis+
qed

theorem backends_equivalent_witness:
  "fst (emos_entries_init (Entry_Section demo_entries) None 0 boot_entries) = Inr 3"
proof -
  have "fst (emos_entries_init Entry_Table (Some demo_entries) 3 boot_entries) = Inr 3"
    using tbl_init_ok_iff [of 3 demo_entries] demo_entries_ok
    by (simp add: demo_entries_length tbl_entries_init_def)
  then show ?thesis
    using backends_equivalent [of demo_entries boot_entries None 0]
    by (auto simp: demo_entries_length)
qed

text \<open>The section backend counts in a \<open>uint8_t\<close>: a section of 256 well-formed tasks with all
  task ids different is reported as empty, \<open>ENODEV\<close>.\<close>

theorem section_count_wraps:
  assumes "length sec = 256" "list_all entry_ok sec" "distinct (map e_task_id sec)"
  shows "emos_entries_init (Entry_Section sec) tbl n s = (Inl ENODEV, s)"
proof -
  have "\<not> itr_entry_id_is_duplicate sec e" if "e \<in> set sec" for e
  proof -
    have "same_id sec (e_task_id e) \<le> 1" using assms(3) that by (simp add: distinct_ids)
    then show ?thesis by (simp add: itr_entry_id_is_duplicate_def itr_matches_loop_eq)
  qed
  then obtain c where c: "itr_init_loop sec sec 0 = Inr c"
    using itr_init_loop_ok [of 0 sec sec] assms(2) by (auto simp: list_all_iff)
  with itr_init_loop_count [OF c] assms(1) show ?thesis by (simp add: itr_entries_init_def)
qed

theorem section_count_wraps_witness:
  "emos_entries_init (Entry_Section (map (\<lambda>i. EMOS_TASK_ENTRY (of_nat i) 0 4) [0..<256])) None 0
     boot_entries = (Inl ENODEV, boot_entries)"
proof (rule section_count_wraps)
  show "distinct (map e_task_id (map (\<lambda>i. EMOS_TASK_ENTRY (of_nat i) 0 4) [0..<256]))"
    by (auto simp: distinct_map EMOS_TASK_ENTRY_def comp_def inj_on_def of_nat_eq_iff
        dest!: arg_cong [where f = unat] simp: unat_of_nat)
qed (simp_all add: list_all_iff entry_ok_def EMOS_TASK_ENTRY_def EMOS_TASK_PRIORITY_NUMBER_def)

end
