(* ===== verification/Emos.thy ===== *)
theory Emos
  imports Entries
begin

text \<open>
  The event core, \<open>zephyr/modules/rtbus/src/emos.c\<close> and the context-id macros of
  \<open>include/emos.h\<close>: three priority queues of pool-allocated messages, posting, initialisation, and
  one step of processing (asynchronous posts, then one queued event, then one poll event).

  The static \<open>param[0]\<close> and the runtime's event semaphore extend the pool and the registered
  table.  The core is compiled into \<open>rtbus.c\<close> with \<open>EMOS_POST_AFTER = rtbus_post_after\<close>, which
  \<open>rtbus_event.c\<close> defines to give the semaphore.  Task handlers are application code behind a
  function pointer, the parameter \<open>call\<close> (function pointer, context as the handler reads it,
  state; \<open>None\<close> when it does not return); \<open>EMOS_PROCESS_ASYNC_POSTS\<close> is the parameter \<open>async\<close>.

  The abstract specification is a function from priority to the list of pending messages;
  \<open>emos_rep\<close> relates the two and also says that nothing else is allocated.
\<close>

section \<open>Context identifiers\<close>

definition CTX_APP_MASK :: "32 word" where "CTX_APP_MASK = push_bit 28 1 - 1"
definition CTX_SYS_MASK :: "32 word" where "CTX_SYS_MASK = push_bit 4 1 - 1"

definition CTX_APP_SHIFT :: "32 word \<Rightarrow> 32 word" where
  "CTX_APP_SHIFT x = push_bit 0 (x AND CTX_APP_MASK)"

definition CTX_SYS_SHIFT :: "32 word \<Rightarrow> 32 word" where
  "CTX_SYS_SHIFT x = push_bit 28 (x AND CTX_SYS_MASK)"

definition CTX_APP_ID :: "32 word \<Rightarrow> 32 word" where
  "CTX_APP_ID x = drop_bit 0 x AND CTX_APP_MASK"

definition CTX_SYS_ID :: "32 word \<Rightarrow> 32 word" where
  "CTX_SYS_ID x = drop_bit 28 x AND CTX_SYS_MASK"

definition EMOS_CTX_ID :: "32 word \<Rightarrow> 32 word \<Rightarrow> 32 word" where
  "EMOS_CTX_ID sys_id app_id = CTX_SYS_SHIFT sys_id OR CTX_APP_SHIFT app_id"

definition EMOS_SYS_NONE :: "32 word" where "EMOS_SYS_NONE = 0"
definition EMOS_SYS_INIT :: "32 word" where "EMOS_SYS_INIT = 1"
definition EMOS_SYS_POLL :: "32 word" where "EMOS_SYS_POLL = 2"

definition SYS_EVT :: "32 word \<Rightarrow> 32 word" where "SYS_EVT sys_id = EMOS_CTX_ID sys_id 0"
definition APP_EVT :: "32 word \<Rightarrow> 32 word" where "APP_EVT app_id = EMOS_CTX_ID EMOS_SYS_NONE app_id"

section \<open>State and messages\<close>

record emos = entries +
  task_tbl :: "nat \<Rightarrow> nat"
  entry_count :: nat
  poll_next_index :: nat
  event_sem :: nat

record emos_ctx =
  ctx_task_id :: byte
  ctx_id :: "32 word"
  ctx_payload :: "byte list"

text \<open>\<open>emos_ctx_t\<close> in memory: the task id at offset 0, the id at 4, the payload length at 8 and
  the payload at 12; the node of the queue holds it behind its link.\<close>

definition PROC_SIZE :: nat where [layout_defs]: "PROC_SIZE = 4"
definition CTX_SIZE :: nat where [layout_defs]: "CTX_SIZE = 12"

definition read_ctx :: "mem \<Rightarrow> nat \<Rightarrow> emos_ctx" where
  "read_ctx m c =
     \<lparr>ctx_task_id = m c, ctx_id = of_nat (ld32 m (c + 4)),
      ctx_payload = rd m (c + CTX_SIZE) (ld32 m (c + 8))\<rparr>"

definition write_ctx :: "nat \<Rightarrow> byte \<Rightarrow> 32 word \<Rightarrow> byte list option \<Rightarrow> nat \<Rightarrow> mem \<Rightarrow> mem" where
  "write_ctx c task_id cid payload payload_len m =
     (let m = m(c := task_id);
          m = st32 m (c + 4) (unat cid);
          m = st32 m (c + 8) payload_len
      in case payload of
           None \<Rightarrow> m
         | Some p \<Rightarrow> if payload_len \<noteq> 0 then wr m (c + CTX_SIZE) (take payload_len p) else m)"

section \<open>The event semaphore\<close>

text \<open>\<open>K_SEM_DEFINE(runtime_event_sem, 0, 1)\<close>: giving saturates at the limit.\<close>

definition runtime_event_signal :: "'a emos_scheme \<Rightarrow> 'a emos_scheme" where
  "runtime_event_signal s = s\<lparr>event_sem := min 1 (event_sem s + 1)\<rparr>"

definition rtbus_post_after ::
    "byte \<Rightarrow> 32 word \<Rightarrow> byte list option \<Rightarrow> nat \<Rightarrow> 'a emos_scheme \<Rightarrow> 'a emos_scheme" where
  "rtbus_post_after task_id cid payload payload_len s = runtime_event_signal s"

section \<open>Posting\<close>

definition emos_post ::
    "backend \<Rightarrow> byte \<Rightarrow> 32 word \<Rightarrow> byte list option \<Rightarrow> nat \<Rightarrow> 'a emos_scheme \<Rightarrow>
     (rc \<times> 'a emos_scheme) option" where
  "emos_post be task_id cid payload payload_len s =
     (if entry_count s = 0 then Some (Inl ENODEV, s)
      else case emos_entry_find be task_id s of
        None \<Rightarrow> Some (Inl ENOENT, s)
      | Some entry \<Rightarrow>
          if payload_len \<noteq> 0 \<and> payload = None then Some (Inl EINVAL, s)
          else
            let task_priority = unat (e_priority entry);
                alloc_len = u32 (PROC_SIZE + CTX_SIZE + payload_len)
            in if EMOS_TASK_PRIORITY_NUMBER \<le> task_priority then Some (Inl EINVAL, s)
            else if 65535 < alloc_len then Some (Inl ENOMEM, s)
            else do {
              (s, head, new_task) \<leftarrow> linklist_new 0 (Some (task_tbl s task_priority)) alloc_len s;
              let s = (case head of
                         None \<Rightarrow> s
                       | Some h \<Rightarrow> s\<lparr>task_tbl := (task_tbl s)(task_priority := h)\<rparr>);
              if new_task = NULL then Some (Inl ENOMEM, s)
              else
                let s = s\<lparr>pool_mem := write_ctx (new_task + PROC_SIZE) task_id cid payload payload_len
                                       (pool_mem s)\<rparr>
                in Some (ok, rtbus_post_after task_id cid payload payload_len s)
            })"

section \<open>Initialisation\<close>

definition emos_init_pool ::
    "backend \<Rightarrow> nat \<Rightarrow> nat \<Rightarrow> 'a emos_scheme \<Rightarrow> rc \<times> 'a emos_scheme" where
  "emos_init_pool be pool_addr pool_size s =
     (let s = s\<lparr>task_tbl := (\<lambda>_. NULL)\<rparr>;
          s = emos_entries_reset be s;
          s = s\<lparr>entry_count := 0, poll_next_index := 0\<rparr>
      in if pool_addr = NULL \<or> pool_size = 0 then (Inl EINVAL, s)
         else (ok, init_mem_pool 0 pool_addr pool_size s))"

fun emos_init_loop :: "backend \<Rightarrow> nat \<Rightarrow> nat \<Rightarrow> 'a emos_scheme \<Rightarrow> (rc \<times> 'a emos_scheme) option" where
  "emos_init_loop be i 0 s = Some (ok, s)"
| "emos_init_loop be i (Suc n) s =
     (case emos_entry_get_by_index be i s of
        None \<Rightarrow> Some (Inl EINVAL, s)
      | Some entry \<Rightarrow>
          if e_init entry then do {
            (ret, s) \<leftarrow> emos_post be (e_task_id entry) (CTX_SYS_SHIFT EMOS_SYS_INIT) None 0 s;
            if ret \<noteq> ok then Some (ret, s) else emos_init_loop be (i + 1) n s
          }
          else emos_init_loop be (i + 1) n s)"

definition emos_init ::
    "backend \<Rightarrow> nat \<Rightarrow> nat \<Rightarrow> emos_entry list option \<Rightarrow> nat \<Rightarrow> 'a emos_scheme \<Rightarrow>
     (rc \<times> 'a emos_scheme) option" where
  "emos_init be pool_addr pool_size new_entry_tbl new_entry_count s =
     (let (ret, s) = emos_init_pool be pool_addr pool_size s
      in if ret \<noteq> ok then Some (ret, s)
      else case emos_entries_init be new_entry_tbl new_entry_count s of
        (Inl e, s) \<Rightarrow> Some (Inl e, s)
      | (Inr registered_count, s) \<Rightarrow>
          let s = s\<lparr>entry_count := registered_count\<rparr>
          in emos_init_loop be 0 (entry_count s) s)"

section \<open>Processing\<close>

type_synonym 's handlers = "nat \<Rightarrow> emos_ctx \<Rightarrow> 's \<Rightarrow> 's option"

text \<open>\<open>linklist_remove\<close> on the head of a queue.\<close>

definition queue_remove :: "nat \<Rightarrow> nat \<Rightarrow> 'a emos_scheme \<Rightarrow> 'a emos_scheme option" where
  "queue_remove task_priority emos_proc s = do {
     (s, head) \<leftarrow> linklist_remove 0 (task_tbl s task_priority) emos_proc s;
     Some (s\<lparr>task_tbl := (task_tbl s)(task_priority := head)\<rparr>)
   }"

text \<open>The priorities from \<open>task_priority\<close> on, \<open>n\<close> of them: the inner \<open>while\<close> always returns.\<close>

fun emos_queued_loop ::
    "backend \<Rightarrow> 'a emos_scheme handlers \<Rightarrow> nat \<Rightarrow> nat \<Rightarrow> 'a emos_scheme \<Rightarrow>
     (nat \<times> 'a emos_scheme) option" where
  "emos_queued_loop be call task_priority 0 s = Some (0, s)"
| "emos_queued_loop be call task_priority (Suc n) s =
     (if task_tbl s task_priority \<noteq> NULL then
        let emos_proc = task_tbl s task_priority;
            p_ctx = read_ctx (pool_mem s) (emos_proc + PROC_SIZE)
        in case emos_entry_find be (ctx_task_id p_ctx) s of
             None \<Rightarrow> do { s \<leftarrow> queue_remove task_priority emos_proc s; Some (1, s) }
           | Some this_task \<Rightarrow> do {
               s \<leftarrow> (if e_task_entry this_task \<noteq> NULL then call (e_task_entry this_task) p_ctx s
                     else Some s);
               s \<leftarrow> queue_remove task_priority emos_proc s;
               Some (1, s)
             }
      else emos_queued_loop be call (task_priority + 1) n s)"

definition emos_process_queued_event ::
    "backend \<Rightarrow> 'a emos_scheme handlers \<Rightarrow> 'a emos_scheme \<Rightarrow> (nat \<times> 'a emos_scheme) option" where
  "emos_process_queued_event be call s = emos_queued_loop be call 0 EMOS_TASK_PRIORITY_NUMBER s"

fun emos_poll_loop ::
    "backend \<Rightarrow> 'a emos_scheme handlers \<Rightarrow> nat \<Rightarrow> nat \<Rightarrow> 'a emos_scheme \<Rightarrow>
     (nat \<times> 'a emos_scheme) option" where
  "emos_poll_loop be call i 0 s = Some (0, s)"
| "emos_poll_loop be call i (Suc n) s =
     (let index = (poll_next_index s + i) mod entry_count s mod 256
      in case emos_entry_get_by_index be index s of
           None \<Rightarrow> Some (0, s)
         | Some entry \<Rightarrow>
             if \<not> e_always entry \<or> e_task_entry entry = NULL then emos_poll_loop be call (i + 1) n s
             else do {
               s \<leftarrow> call (e_task_entry entry)
                     \<lparr>ctx_task_id = e_task_id entry, ctx_id = SYS_EVT EMOS_SYS_POLL, ctx_payload = []\<rparr> s;
               Some (1, s\<lparr>poll_next_index := (index + 1) mod entry_count s mod 256\<rparr>)
             })"

definition emos_process_poll_event ::
    "backend \<Rightarrow> 'a emos_scheme handlers \<Rightarrow> 'a emos_scheme \<Rightarrow> (nat \<times> 'a emos_scheme) option" where
  "emos_process_poll_event be call s = emos_poll_loop be call 0 (entry_count s) s"

definition emos_process ::
    "backend \<Rightarrow> 'a emos_scheme handlers \<Rightarrow> ('a emos_scheme \<Rightarrow> (rc \<times> 'a emos_scheme) option) \<Rightarrow>
     'a emos_scheme \<Rightarrow> ((errno + nat) \<times> 'a emos_scheme) option" where
  "emos_process be call async s =
     (if entry_count s = 0 then Some (Inr 0, s)
      else do {
        (ret, s) \<leftarrow> async s;
        case ret of
          Inl e \<Rightarrow> Some (Inl e, s)
        | Inr _ \<Rightarrow> do {
            (ret, s) \<leftarrow> emos_process_queued_event be call s;
            if ret \<noteq> 0 then Some (Inr ret, s)
            else do {
              (ret, s) \<leftarrow> emos_process_poll_event be call s;
              Some (Inr ret, s)
            }
          }
      })"

section \<open>Messages in memory\<close>

abbreviation node_msg :: "mem \<Rightarrow> nat \<Rightarrow> emos_ctx" where
  "node_msg m p \<equiv> read_ctx m (p + PROC_SIZE)"

definition node_ok :: "mem \<Rightarrow> (nat \<rightharpoonup> nat) \<Rightarrow> nat \<Rightarrow> bool" where
  "node_ok m A p \<longleftrightarrow> (\<exists>n. A p = Some n \<and> 16 + ld32 m (p + 12) \<le> n)"

lemma msg_frame:
  assumes "A p = Some n" "node_ok m A p" "rd m' (p + 4) (n - 4) = rd m (p + 4) (n - 4)" "A' p = Some n"
  shows "node_msg m' p = node_msg m p" "node_ok m' A' p"
proof -
  have n: "16 + ld32 m (p + 12) \<le> n" using assms(1,2) by (auto simp: node_ok_def)
  have sub: "rd m' a k = rd m a k" if "p + 4 \<le> a" "a + k \<le> p + n" for a k
    using rd_sub [OF assms(3), of a k] that n by auto
  have len: "ld32 m' (p + 12) = ld32 m (p + 12)" and id: "ld32 m' (p + 8) = ld32 m (p + 8)"
    using n by (auto intro!: ld32_cong sub)
  have t: "m' (p + 4) = m (p + 4)" using sub [of "p + 4" 1] n by (simp add: rd_def)
  show "node_msg m' p = node_msg m p"
    using n len id t sub [of "p + 16" "ld32 m (p + 12)"]
    by (simp add: read_ctx_def PROC_SIZE_def CTX_SIZE_def ac_simps)
  show "node_ok m' A' p" using n len assms(4) by (auto simp: node_ok_def)
qed

lemma write_ctx_outside:
  assumes "\<And>p. payload = Some p \<Longrightarrow> plen \<le> length p" "x < c \<or> c + 12 + plen \<le> x"
  shows "write_ctx c t cid payload plen m x = m x"
  using assms by (auto simp: write_ctx_def Let_def CTX_SIZE_def mem_simps wr_at_other split: option.split)

lemma write_ctx_read:
  assumes "\<And>p. payload = Some p \<Longrightarrow> plen \<le> length p" "payload = None \<Longrightarrow> plen = 0" "plen < 4294967296"
  shows "read_ctx (write_ctx c t cid payload plen m) c =
    \<lparr>ctx_task_id = t, ctx_id = cid,
     ctx_payload = (case payload of None \<Rightarrow> [] | Some p \<Rightarrow> take plen p)\<rparr>"
    "ld32 (write_ctx c t cid payload plen m) (c + 8) = plen"
proof -
  have u: "unat cid < 4294967296" using unsigned_less [of cid] by simp
  let ?m = "write_ctx c t cid payload plen m"
  show len: "ld32 ?m (c + 8) = plen"
    using assms by (auto simp: write_ctx_def Let_def CTX_SIZE_def mem_simps split: option.split)
  have "ld32 ?m (c + 4) = unat cid"
    using u by (auto simp: write_ctx_def Let_def CTX_SIZE_def mem_simps split: option.split)
  moreover have "?m c = t"
    by (auto simp: write_ctx_def Let_def CTX_SIZE_def mem_simps wr_at_other split: option.split)
  moreover have "rd ?m (c + 12) plen = (case payload of None \<Rightarrow> [] | Some p \<Rightarrow> take plen p)"
    using assms by (auto simp: write_ctx_def Let_def CTX_SIZE_def wr_same split: option.split)
  ultimately show "read_ctx ?m c = \<lparr>ctx_task_id = t, ctx_id = cid,
     ctx_payload = (case payload of None \<Rightarrow> [] | Some p \<Rightarrow> take plen p)\<rparr>"
    using len by (simp add: read_ctx_def CTX_SIZE_def)
qed

section \<open>Representation\<close>

lemma pool_inv_cong:
  assumes "pool_mem s' = pool_mem s" "heap_of_memory s' i = heap_of_memory s i"
    "last_heap_object s' i = last_heap_object s i" "top_of_heap s' i = top_of_heap s i"
    "this_active s' i = this_active s i"
  shows "pool_inv i s' bs = pool_inv i s bs" "high_water i s' = high_water i s"
  using assms by (simp_all add: pool_inv_def high_water_def)

lemma pool_inv_updates [simp]:
  fixes s :: "'a emos_scheme"
  shows "pool_inv i (s\<lparr>task_tbl := t\<rparr>) bs = pool_inv i s bs"
    "pool_inv i (s\<lparr>entry_count := c\<rparr>) bs = pool_inv i s bs"
    "pool_inv i (s\<lparr>poll_next_index := c\<rparr>) bs = pool_inv i s bs"
    "pool_inv i (s\<lparr>event_sem := c\<rparr>) bs = pool_inv i s bs"
    "pool_inv i (emos.more_update f s) bs = pool_inv i s bs"
  by (rule pool_inv_cong; simp)+

definition emos_rep :: "'a emos_scheme \<Rightarrow> block list \<Rightarrow> (nat \<Rightarrow> nat list) \<Rightarrow> bool" where
  "emos_rep s bs N \<longleftrightarrow>
     pool_inv 0 s bs \<and>
     (\<forall>k < 3. plist 0 s bs (task_tbl s k) (N k)) \<and> (\<forall>k \<ge> 3. N k = []) \<and>
     (\<forall>k. \<forall>p \<in> set (N k). node_ok (pool_mem s) (live 0 s bs) p) \<and>
     (\<forall>j k. j \<noteq> k \<longrightarrow> set (N j) \<inter> set (N k) = {}) \<and>
     dom (live 0 s bs) = (\<Union>k. set (N k))"

definition queues :: "'a emos_scheme \<Rightarrow> (nat \<Rightarrow> nat list) \<Rightarrow> nat \<Rightarrow> emos_ctx list" where
  "queues s N k = map (node_msg (pool_mem s)) (N k)"

lemma emos_repD:
  assumes "emos_rep s bs N"
  shows "pool_inv 0 s bs" "k < 3 \<Longrightarrow> plist 0 s bs (task_tbl s k) (N k)" "3 \<le> k \<Longrightarrow> N k = []"
    "p \<in> set (N k) \<Longrightarrow> node_ok (pool_mem s) (live 0 s bs) p"
    "j \<noteq> k \<Longrightarrow> set (N j) \<inter> set (N k) = {}" "dom (live 0 s bs) = (\<Union>k. set (N k))"
  using assms by (auto simp: emos_rep_def)

text \<open>Rebuilding the representation after a change of one queue: the old nodes that stay keep
  their contents behind the link, and the nodes of the other queues keep their link too.\<close>

lemma emos_rep_step:
  assumes rep: "emos_rep s bs N" and k: "k < 3" and inv: "pool_inv 0 s' bs'"
    and pl: "plist 0 s' bs' (task_tbl s' k) xs"
    and tbl: "\<And>j. j < 3 \<Longrightarrow> j \<noteq> k \<Longrightarrow> task_tbl s' j = task_tbl s j"
    and keep: "\<And>q n. live 0 s bs q = Some n \<Longrightarrow> q \<in> \<Union> ((\<lambda>j. set (N j)) ` (- {k})) \<or> q \<in> set xs \<Longrightarrow>
        live 0 s' bs' q = Some n \<and> rd (pool_mem s') (q + 4) (n - 4) = rd (pool_mem s) (q + 4) (n - 4)"
    and other: "\<And>q n. live 0 s bs q = Some n \<Longrightarrow> q \<notin> set (N k) \<Longrightarrow>
        rd (pool_mem s') q n = rd (pool_mem s) q n"
    and new: "\<And>q. q \<in> set xs \<Longrightarrow> q \<notin> set (N k) \<Longrightarrow>
        live 0 s bs q = None \<and> node_ok (pool_mem s') (live 0 s' bs') q"
    and dom: "dom (live 0 s' bs') = \<Union> ((\<lambda>j. set (N j)) ` (- {k})) \<union> set xs"
  shows "emos_rep s' bs' (N(k := xs))" "j \<noteq> k \<Longrightarrow> queues s' (N(k := xs)) j = queues s N j"
    "q \<in> set (N k) \<Longrightarrow> q \<in> set xs \<Longrightarrow> node_msg (pool_mem s') q = node_msg (pool_mem s) q"
proof -
  note R = emos_repD [OF rep]
  have mem: "\<exists>n. live 0 s bs q = Some n" if "q \<in> set (N j)" for q j
    using R(6) that by blast
  have msg: "node_msg (pool_mem s') q = node_msg (pool_mem s) q \<and>
      node_ok (pool_mem s') (live 0 s' bs') q"
    if q: "q \<in> set (N j)" "j \<noteq> k \<or> q \<in> set xs" for q j
  proof -
    obtain n where n: "live 0 s bs q = Some n" using mem q(1) by blast
    have "q \<in> \<Union> ((\<lambda>j. set (N j)) ` (- {k})) \<or> q \<in> set xs" using q by auto
    note K = keep [OF n this]
    from msg_frame [where A = "live 0 s bs" and A' = "live 0 s' bs'", OF n R(4) [OF q(1)] conjunct2 [OF K] conjunct1 [OF K]] show ?thesis ..
  qed
  have notk: "q \<notin> set (N k)" if "q \<in> set (N j)" "j \<noteq> k" for q j
    using R(5) [OF that(2)] that(1) by auto
  have newfresh: "q \<notin> set (N j)" if "q \<in> set xs" "j \<noteq> k" for q j
    using new [OF that(1)] mem [of q j] notk [OF _ that(2)] by (metis option.distinct(1))
  show "emos_rep s' bs' (N(k := xs))"
    unfolding emos_rep_def
  proof (intro conjI allI impI ballI)
    show "plist 0 s' bs' (task_tbl s' j) ((N(k := xs)) j)" if "j < 3" for j
    proof (cases "j = k")
      case True
      then show ?thesis using pl by simp
    next
      case False
      have "plist 0 s' bs' (task_tbl s j) (N j)"
      proof (rule plist_frame [OF R(2) [OF that]])
        fix x n assume "x \<in> set (N j)" "live 0 s bs x = Some n"
        moreover from this have "x \<in> \<Union> ((\<lambda>j. set (N j)) ` (- {k}))" using False by auto
        ultimately show "live 0 s' bs' x = Some n \<and> rd (pool_mem s') x n = rd (pool_mem s) x n"
          using keep other notk [OF _ False] by blast
      qed
      then show ?thesis using tbl [OF that False] False by simp
    qed
    show "node_ok (pool_mem s') (live 0 s' bs') p" if "p \<in> set ((N(k := xs)) j)" for j p
      using that msg [of p j] msg [of p k] new [of p] by (cases "j = k") auto
    show "set ((N(k := xs)) i) \<inter> set ((N(k := xs)) j) = {}" if "i \<noteq> j" for i j
      using that R(5) newfresh by (cases "i = k"; cases "j = k") auto
    show "dom (live 0 s' bs') = (\<Union>j. set ((N(k := xs)) j))"
      using dom by (auto split: if_splits)
  qed (use inv R(3) k in auto)
  show "j \<noteq> k \<Longrightarrow> queues s' (N(k := xs)) j = queues s N j"
    using msg by (auto simp: queues_def)
  show "q \<in> set (N k) \<Longrightarrow> q \<in> set xs \<Longrightarrow> node_msg (pool_mem s') q = node_msg (pool_mem s) q"
    using msg by blast
qed

section \<open>What posting does\<close>

text \<open>The bus state as its clients see it: the task table and the pending messages.\<close>

definition emos_bus :: "backend \<Rightarrow> 'a emos_scheme \<Rightarrow> emos_entry list \<Rightarrow> block list \<Rightarrow> (nat \<Rightarrow> nat list) \<Rightarrow> bool" where
  "emos_bus be s es bs N \<longleftrightarrow>
     emos_rep s bs N \<and> backend_holds be s es \<and> table_ok es \<and> entry_count s = length es"

definition post_ctx :: "byte \<Rightarrow> 32 word \<Rightarrow> byte list option \<Rightarrow> nat \<Rightarrow> emos_ctx" where
  "post_ctx t cid payload plen =
     \<lparr>ctx_task_id = t, ctx_id = cid, ctx_payload = (case payload of None \<Rightarrow> [] | Some p \<Rightarrow> take plen p)\<rparr>"

lemma backend_holds_cong:
  "registered_entries s' = registered_entries s \<Longrightarrow>
   registered_entry_count s' = registered_entry_count s \<Longrightarrow>
   backend_holds be s' es = backend_holds be s es"
  by (cases be) simp_all

text \<open>Fields of the bus that the allocator leaves alone.\<close>

lemma pool_step_fields:
  fixes s s' :: "'a emos_scheme"
  assumes "s' = s\<lparr>pool_mem := m, last_heap_object := l\<rparr>"
  shows "heap_of_memory s' = heap_of_memory s" "top_of_heap s' = top_of_heap s"
    "this_active s' = this_active s" "registered_entries s' = registered_entries s"
    "registered_entry_count s' = registered_entry_count s" "task_tbl s' = task_tbl s"
    "entry_count s' = entry_count s" "poll_next_index s' = poll_next_index s"
    "event_sem s' = event_sem s" "emos.more s' = emos.more s"
  using assms by simp_all

definition pool_has_room :: "'a pools_scheme \<Rightarrow> block list \<Rightarrow> nat \<Rightarrow> bool" where
  "pool_has_room s bs n \<longleftrightarrow>
     round_up4 n + 8 \<le> top_of_heap s 0 - high_water 0 s \<or> (\<exists>(k, b) \<in> set bs. \<not> b \<and> round_up4 n \<le> k)"

text \<open>A successful allocation had room.\<close>

lemma bmalloc_room:
  assumes "pool_inv 0 s bs" "0 < n" "n < 4294967280" "bmalloc 0 n s = Some (s', p)" "p \<noteq> NULL"
  shows "pool_has_room s bs n"
proof (rule ccontr)
  assume no: "\<not> pool_has_room s bs n"
  note I = pool_invD [OF assms(1)]
  have "bmalloc_find (pool_mem s) (heap_of_memory s 0) (high_water 0 s) (round_up4 n) = Some NULL"
    using I chain_high_water_less [OF assms(1)] no
    by (intro find_none [of _ _ _ bs]) (auto simp: pool_has_room_def not_le)
  with no assms(4,5) show False
    by (simp add: bmalloc_unfold [OF assms(1-3)] pool_has_room_def)
qed

lemma linklist_new_some:
  "linklist_new i (Some h) n s = Some (s', src, p) \<Longrightarrow> p \<noteq> NULL \<Longrightarrow> \<exists>s1. bmalloc i n s = Some (s1, p)"
  by (auto simp: linklist_new_def bind_eq_Some_conv Let_def split: if_splits)

text \<open>What \<open>memcpy\<close> relies on: the payload has at least the announced length.\<close>

definition payload_ok :: "byte list option \<Rightarrow> nat \<Rightarrow> bool" where
  "payload_ok payload plen \<longleftrightarrow> (case payload of None \<Rightarrow> True | Some p \<Rightarrow> plen \<le> length p)"

lemma emos_post_cases:
  fixes s :: "'a emos_scheme"
  assumes bus: "emos_bus be s es bs N"
    and e: "emos_entry_find be t s = Some e" and pri: "k = unat (e_priority e)"
    and pok: "payload_ok payload plen" and none: "payload = None \<longrightarrow> plen = 0"
    and plen: "plen \<le> 65519"
  obtains (full) "emos_post be t cid payload plen s = Some (Inl ENOMEM, with_mark 0 s)"
      "top_of_heap s 0 - high_water 0 s < round_up4 (16 + plen) + 8"
      "\<forall>(n, b) \<in> set bs. b \<or> n < round_up4 (16 + plen)"
  | (fit) s' bs' r where "emos_post be t cid payload plen s = Some (ok, s')"
      "k < 3" "pool_has_room s bs (16 + plen)" "emos_bus be s' es bs' (N(k := N k @ [r]))"
      "queues s' (N(k := N k @ [r])) = (queues s N)(k := queues s N k @ [post_ctx t cid payload plen])"
      "event_sem s' = 1" "poll_next_index s' = poll_next_index s" "emos.more s' = emos.more s"
      "registered_entries s' = registered_entries s"
      "registered_entry_count s' = registered_entry_count s" "entry_count s' = entry_count s"
proof -
  have pay: "\<And>p. payload = Some p \<Longrightarrow> plen \<le> length p" "payload = None \<Longrightarrow> plen = 0"
    using pok none by (auto simp: payload_ok_def)
  note B = bus [unfolded emos_bus_def]
  have rep: "emos_rep s bs N" using B by simp
  note R = emos_repD [OF rep]
  have holds: "backend_holds be s es" using B by simp
  have "e \<in> set es" "entry_count s \<noteq> 0"
    using eb.find_member [OF holds e] B by (auto simp: table_ok_def)
  then have k: "k < 3"
    using B pri by (auto simp: table_ok_def list_all_iff entry_ok_def EMOS_TASK_PRIORITY_NUMBER_def)
  have len: "u32 (PROC_SIZE + CTX_SIZE + plen) = 16 + plen"
    using plen by (simp add: PROC_SIZE_def CTX_SIZE_def)
  define fin where "fin = (\<lambda>(s :: 'a emos_scheme, head, new_task).
      let s = (case head of None \<Rightarrow> s | Some h \<Rightarrow> s\<lparr>task_tbl := (task_tbl s)(k := h)\<rparr>)
      in if new_task = NULL then Some (Inl ENOMEM, s)
         else
           let s = s\<lparr>pool_mem := write_ctx (new_task + PROC_SIZE) t cid payload plen (pool_mem s)\<rparr>
           in Some (ok, rtbus_post_after t cid payload plen s))"
  have code: "emos_post be t cid payload plen s = Option.bind
      (linklist_new 0 (Some (task_tbl s k)) (16 + plen) s) fin"
    using \<open>entry_count s \<noteq> 0\<close> e pay(2) k plen
    by (auto simp: emos_post_def pri [symmetric] len EMOS_TASK_PRIORITY_NUMBER_def Let_def fin_def)
  have d: "4 \<le> 16 + plen" "16 + plen < 4294967280" using plen by simp_all
  from R(1) R(2) [OF k] d show thesis
  proof (cases rule: linklist_new_cases)
    case full
    then show thesis using code by (intro that(1)) (simp_all add: fin_def with_mark_def Let_def)
  next
    case (fit s1 r bs1 n)
    note A = fit
    let ?h = "if N k = [] then r else task_tbl s k"
    define m where "m = write_ctx (r + PROC_SIZE) t cid payload plen (pool_mem s1)"
    define s2 where "s2 = s1\<lparr>task_tbl := (task_tbl s1)(k := ?h), pool_mem := m\<rparr>"
    note F = pool_step_fields [OF A(6)]
    have room: "pool_has_room s bs (16 + plen)"
      using linklist_new_some [OF A(1,2)] bmalloc_room [OF R(1), of "16 + plen"] A(2) d by auto
    have lr: "live 0 s1 bs1 r = Some n" using A(8) by simp
    have out: "m x = pool_mem s1 x" if "x < r + 4 \<or> r + 16 + plen \<le> x" for x
      unfolding m_def by (rule write_ctx_outside) (use pay that in \<open>auto simp: PROC_SIZE_def\<close>)
    have inv: "pool_inv 0 s2 bs1"
    proof -
      have "pool_inv 0 (s1\<lparr>pool_mem := m\<rparr>) bs1"
        by (rule pool_inv_payload [OF A(4) lr]) (use out A(5) in auto)
      moreover have "pool_inv 0 s2 bs1 = pool_inv 0 (s1\<lparr>pool_mem := m\<rparr>) bs1"
        by (rule pool_inv_cong) (simp_all add: s2_def)
      ultimately show ?thesis by simp
    qed
    have lv: "live 0 s2 bs1 = (live 0 s bs)(r \<mapsto> n)"
      using A(8) F(1) by (simp add: s2_def)
    have old: "live 0 s bs q = Some j \<Longrightarrow> q \<noteq> r \<and> (q + j \<le> r \<or> r + n \<le> q)" for q j
    proof -
      assume q: "live 0 s bs q = Some j"
      then have "q \<noteq> r" using A(7) by auto
      then have "live 0 s1 bs1 q = Some j" using q A(8) by simp
      with amap_disjoint [OF this lr \<open>q \<noteq> r\<close>] \<open>q \<noteq> r\<close> show ?thesis by auto
    qed
    have rdm: "rd m a j = rd (pool_mem s1) a j" if "a + j \<le> r + 4 \<or> r + n \<le> a" for a j
      by (rule rd_eqI) (use out that A(5) in auto)
    have pl: "plist 0 s2 bs1 ?h (N k @ [r])"
    proof -
      have "lseg (pool_mem s1) ?h NULL (N k @ [r])" using A(9) by (simp add: plist_def)
      then have "lseg m ?h NULL (N k @ [r])"
      proof (rule lseg_frame)
        fix x assume "x \<in> set (N k @ [r])"
        then have "x + 4 \<le> r \<or> x = r \<or> r + n \<le> x"
          using R(2) [OF k] old by (fastforce simp: plist_def)
        then show "node_next m x = node_next (pool_mem s1) x"
          unfolding node_next_def by (intro ld32_cong rdm) auto
      qed
      then show ?thesis using A(9) F(1) by (simp add: plist_def s2_def)
    qed
    have keep: "live 0 s2 bs1 q = Some j \<and> rd (pool_mem s2) (q + 4) (j - 4) = rd (pool_mem s) (q + 4) (j - 4)"
      if q: "live 0 s bs q = Some j" for q j
    proof -
      have "rd (pool_mem s1) (q + 4) (j - 4) = rd (pool_mem s) (q + 4) (j - 4)"
      proof (cases "q \<in> set (N k)")
        case True
        then show ?thesis using A(11) [OF q] by simp
      next
        case False
        then have "N k = [] \<or> q \<noteq> last (N k)" using last_in_set by metis
        then have "rd (pool_mem s1) q j = rd (pool_mem s) q j" using A(10) [OF q] by simp
        then show ?thesis by (cases "4 \<le> j") (auto intro: rd_sub)
      qed
      moreover have "rd m (q + 4) (j - 4) = rd (pool_mem s1) (q + 4) (j - 4)"
        using old [OF q] by (cases "4 \<le> j") (auto intro!: rdm)
      ultimately show ?thesis using old [OF q] q lv by (simp add: s2_def)
    qed
    have other: "rd (pool_mem s2) q j = rd (pool_mem s) q j"
      if "live 0 s bs q = Some j" "q \<notin> set (N k)" for q j
    proof -
      have "N k = [] \<or> q \<noteq> last (N k)" using that(2) last_in_set by metis
      then have "rd (pool_mem s1) q j = rd (pool_mem s) q j" using A(10) [OF that(1)] by simp
      then show ?thesis using old [OF that(1)] rdm [of q j] by (auto simp: s2_def)
    qed
    have msg: "node_msg m r = post_ctx t cid payload plen" "ld32 m (r + 12) = plen"
      using write_ctx_read [of payload plen "r + PROC_SIZE" t cid "pool_mem s1"] pay plen
      by (auto simp: m_def post_ctx_def PROC_SIZE_def ac_simps)
    have new: "live 0 s bs q = None \<and> node_ok (pool_mem s2) (live 0 s2 bs1) q"
      if "q \<in> set (N k @ [r])" "q \<notin> set (N k)" for q
      using that A(5,7) lv msg(2) by (auto simp: node_ok_def s2_def)
    have dom: "dom (live 0 s2 bs1) = \<Union> ((\<lambda>j. set (N j)) ` (- {k})) \<union> set (N k @ [r])"
      using R(6) lv by auto
    have step: "emos_rep s2 bs1 (N(k := N k @ [r]))"
        "\<And>j. j \<noteq> k \<Longrightarrow> queues s2 (N(k := N k @ [r])) j = queues s N j"
        "\<And>q. q \<in> set (N k) \<Longrightarrow> q \<in> set (N k @ [r]) \<Longrightarrow> node_msg (pool_mem s2) q = node_msg (pool_mem s) q"
      by (rule emos_rep_step [OF rep k inv _ _ _ _ new dom];
          use pl keep other F(6) in \<open>simp add: s2_def\<close>)+
    let ?s = "runtime_event_signal s2"
    have eq: "queues ?s = queues s2" "emos_rep ?s = emos_rep s2"
      by (simp_all add: fun_eq_iff queues_def emos_rep_def plist_def runtime_event_signal_def)
    have q: "queues s2 (N(k := N k @ [r])) = (queues s N)(k := queues s N k @ [post_ctx t cid payload plen])"
    proof (rule ext)
      fix j
      show "queues s2 (N(k := N k @ [r])) j = ((queues s N)(k := queues s N k @ [post_ctx t cid payload plen])) j"
        using step(2) [of j] step(3) msg by (cases "j = k") (auto simp: queues_def s2_def)
    qed
    show thesis
    proof (rule that(2) [of ?s bs1 r])
      show "emos_post be t cid payload plen s = Some (ok, ?s)"
        using code A(1,2) by (simp add: fin_def rtbus_post_after_def s2_def m_def)
      show "emos_bus be ?s es bs1 (N(k := N k @ [r]))"
      proof -
        have "backend_holds be ?s es"
          using holds backend_holds_cong [of ?s s be es] F(4,5)
          by (simp add: runtime_event_signal_def s2_def)
        moreover have "entry_count ?s = entry_count s"
          using F(7) by (simp add: runtime_event_signal_def s2_def)
        ultimately show ?thesis using step(1) B by (simp add: emos_bus_def eq)
      qed
      show "queues ?s (N(k := N k @ [r])) = (queues s N)(k := queues s N k @ [post_ctx t cid payload plen])"
        using q by (simp add: eq)
    qed (use k room F in \<open>simp_all add: runtime_event_signal_def s2_def\<close>)
  qed
qed

section \<open>Taking the head of a queue\<close>

lemma queue_remove_head:
  fixes s :: "'a emos_scheme"
  assumes bus: "emos_bus be s es bs N" and k: "k < 3" and N: "N k = p # ps"
  obtains s' bs' where "queue_remove k p s = Some s'" "emos_bus be s' es bs' (N(k := ps))"
    "queues s' (N(k := ps)) = (queues s N)(k := tl (queues s N k))"
    "poll_next_index s' = poll_next_index s" "event_sem s' = event_sem s"
    "emos.more s' = emos.more s"
proof -
  note B = bus [unfolded emos_bus_def]
  have rep: "emos_rep s bs N" and holds: "backend_holds be s es" using B by simp_all
  note R = emos_repD [OF rep]
  have xs: "plist 0 s bs (task_tbl s k) ([] @ p # ps)" using R(2) [OF k] N by simp
  from R(1) xs show thesis
  proof (cases rule: linklist_remove_spec)
    case (1 s1 bs1 h)
    note A = 1
    note F = pool_step_fields [OF A(5)]
    define s2 where "s2 = s1\<lparr>task_tbl := (task_tbl s1)(k := h)\<rparr>"
    have lv: "live 0 s2 bs1 = (live 0 s bs)(p := None)" using A(3) by (simp add: s2_def)
    have dist: "distinct (p # ps)" using R(2) [OF k] N by (simp add: plist_def)
    have "plist 0 s1 bs1 h ps" using A(4) by simp
    then have pl: "plist 0 s2 bs1 (task_tbl s2 k) ps" by (simp add: s2_def plist_def)
    have apart: "p \<notin> set (N j)" if "j \<noteq> k" for j using R(5) [OF that] N by auto
    have rd: "rd (pool_mem s2) q n = rd (pool_mem s) q n" if "live 0 s bs q = Some n" "q \<noteq> p" for q n
      using A(6) [OF that] by (simp add: s2_def)
    have keep: "live 0 s2 bs1 q = Some n \<and> rd (pool_mem s2) (q + 4) (n - 4) = rd (pool_mem s) (q + 4) (n - 4)"
      if "live 0 s bs q = Some n" "q \<in> \<Union> ((\<lambda>j. set (N j)) ` (- {k})) \<or> q \<in> set ps" for q n
    proof -
      have "q \<noteq> p" using that(2) apart dist by auto
      with rd [OF that(1)] show ?thesis
        using that(1) lv by (cases "4 \<le> n") (auto intro: rd_sub)
    qed
    have other: "rd (pool_mem s2) q n = rd (pool_mem s) q n"
      if "live 0 s bs q = Some n" "q \<notin> set (N k)" for q n
      using rd [OF that(1)] that(2) N by auto
    have dom: "dom (live 0 s2 bs1) = \<Union> ((\<lambda>j. set (N j)) ` (- {k})) \<union> set ps"
    proof -
      have "dom (live 0 s2 bs1) = (\<Union>j. set (N j)) - {p}" using R(6) lv by auto
      also have "(\<Union>j. set (N j)) = \<Union> ((\<lambda>j. set (N j)) ` (- {k})) \<union> set (N k)" by auto
      finally show ?thesis using N dist apart by auto
    qed
    have inv: "pool_inv 0 s2 bs1" using A(2) by (simp add: s2_def)
    note step = emos_rep_step [OF rep k inv pl _ keep other _ dom]
    have rep2: "emos_rep s2 bs1 (N(k := ps))"
      and q2: "\<And>j. j \<noteq> k \<Longrightarrow> queues s2 (N(k := ps)) j = queues s N j"
      and q3: "\<And>q. q \<in> set ps \<Longrightarrow> node_msg (pool_mem s2) q = node_msg (pool_mem s) q"
      using step N F(6) by (simp_all add: s2_def)
    show thesis
    proof (rule that [of s2 bs1])
      show "queue_remove k p s = Some s2"
        using A(1) F(6) by (simp add: queue_remove_def s2_def)
      show "emos_bus be s2 es bs1 (N(k := ps))"
        using rep2 B F(4,5,7) backend_holds_cong [of s2 s be es] by (simp add: emos_bus_def s2_def)
      show "queues s2 (N(k := ps)) = (queues s N)(k := tl (queues s N k))"
        using q2 q3 N by (auto simp: fun_eq_iff queues_def)
    qed (use F in \<open>simp_all add: s2_def\<close>)
  qed
qed

section \<open>Handlers and the processing step\<close>

text \<open>What the core relies on of a handler: it returns, and as far as the bus is concerned it has
  only posted: every queue is extended at its end.\<close>

locale bus_handlers =
  fixes be :: backend and call :: "'a emos_scheme handlers"
  assumes handler_posts: "emos_bus be s es bs N \<Longrightarrow>
    \<exists>s' bs' N'. call f c s = Some s' \<and> emos_bus be s' es bs' (\<lambda>k. N k @ N' k) \<and>
      (\<forall>k. \<exists>ms. queues s' (\<lambda>k. N k @ N' k) k = queues s N k @ ms) \<and>
      poll_next_index s' = poll_next_index s"

text \<open>The queue that is served next.\<close>

definition next_prio :: "(nat \<Rightarrow> 'm list) \<Rightarrow> nat option" where
  "next_prio Q = (if Q 0 \<noteq> [] then Some 0 else if Q 1 \<noteq> [] then Some 1
                  else if Q 2 \<noteq> [] then Some 2 else None)"

lemma rep_empty_queue: "emos_rep s bs N \<Longrightarrow> k < 3 \<Longrightarrow> task_tbl s k = NULL \<longleftrightarrow> queues s N k = []"
  by (auto simp: emos_rep_def plist_def queues_def dest!: spec [of _ k] dest: lseg_head lseg_nonnull
      split: if_splits) (metis lseg_NULL)

lemma queued_loop_next:
  assumes "emos_rep s bs N"
  shows "emos_process_queued_event be call s =
    (case next_prio (queues s N) of None \<Rightarrow> Some (0, s) | Some k \<Rightarrow> emos_queued_loop be call k 1 s)"
    "next_prio (queues s N) = Some k \<Longrightarrow> k < 3 \<and> task_tbl s k \<noteq> NULL \<and> queues s N k \<noteq> []"
proof -
  have z: "task_tbl s 0 = NULL \<longleftrightarrow> queues s N 0 = []" "task_tbl s (Suc 0) = NULL \<longleftrightarrow> queues s N (Suc 0) = []"
    "task_tbl s 2 = NULL \<longleftrightarrow> queues s N 2 = []"
    using rep_empty_queue [OF assms] by simp_all
  have three: "EMOS_TASK_PRIORITY_NUMBER = Suc (Suc (Suc 0))"
    by (simp add: EMOS_TASK_PRIORITY_NUMBER_def)
  show "emos_process_queued_event be call s =
    (case next_prio (queues s N) of None \<Rightarrow> Some (0, s) | Some k \<Rightarrow> emos_queued_loop be call k 1 s)"
    using z unfolding emos_process_queued_event_def three
    by (simp add: next_prio_def numeral_2_eq_2)
  show "next_prio (queues s N) = Some k \<Longrightarrow> k < 3 \<and> task_tbl s k \<noteq> NULL \<and> queues s N k \<noteq> []"
    using z by (auto simp: next_prio_def numeral_2_eq_2 split: if_splits)
qed

lemma emos_bus_find:
  assumes "emos_bus be s es bs N" "emos_entry_find be t s = Some e"
  shows "e \<in> set es" "e_task_id e = t" "e_task_entry e \<noteq> NULL" "unat (e_priority e) < 3"
proof -
  have holds: "backend_holds be s es" and ok: "table_ok es" using assms(1) by (simp_all add: emos_bus_def)
  have m: "e \<in> set es \<and> e_task_id e = t" using eb.find_member [OF holds assms(2)] .
  with ok have "entry_ok e" by (auto simp: table_ok_def list_all_iff)
  with m show "e \<in> set es" "e_task_id e = t" "e_task_entry e \<noteq> NULL" "unat (e_priority e) < 3"
    by (auto simp: entry_ok_def EMOS_TASK_PRIORITY_NUMBER_def)
qed

text \<open>The call a processing step makes for a queued message.\<close>

definition dispatches ::
    "backend \<Rightarrow> 'a emos_scheme handlers \<Rightarrow> emos_ctx \<Rightarrow> 'a emos_scheme \<Rightarrow> 'a emos_scheme \<Rightarrow> bool" where
  "dispatches be call c s s1 \<longleftrightarrow>
     (case emos_entry_find be (ctx_task_id c) s of
        None \<Rightarrow> s1 = s
      | Some e \<Rightarrow> call (e_task_entry e) c s = Some s1)"

context bus_handlers
begin

lemma dispatch_total:
  assumes "emos_bus be s es bs N"
  shows "\<exists>s1 bs1 N1. dispatches be call c s s1 \<and> emos_bus be s1 es bs1 (\<lambda>k. N k @ N1 k) \<and>
    (\<forall>k. \<exists>ms. queues s1 (\<lambda>k. N k @ N1 k) k = queues s N k @ ms) \<and>
    poll_next_index s1 = poll_next_index s"
proof (cases "emos_entry_find be (ctx_task_id c) s")
  case None
  with assms show ?thesis
    by (intro exI [of _ s] exI [of _ bs] exI [of _ "\<lambda>_. []"]) (auto simp: dispatches_def)
next
  case (Some e)
  with handler_posts [OF assms, of "e_task_entry e" c] show ?thesis
    by (simp add: dispatches_def)
qed

lemma queued_step:
  assumes bus: "emos_bus be s es bs N" and next_k: "next_prio (queues s N) = Some k"
  shows "\<exists>s1 s' bs' N'. emos_process_queued_event be call s = Some (1, s') \<and>
    dispatches be call (hd (queues s N k)) s s1 \<and> queue_remove k (task_tbl s k) s1 = Some s' \<and>
    emos_bus be s' es bs' N' \<and>
    (\<forall>j. \<exists>ms. queues s' N' j = (if j = k then tl (queues s N k) else queues s N j) @ ms) \<and>
    poll_next_index s' = poll_next_index s \<and> emos.more s' = emos.more s1"
proof -
  have rep: "emos_rep s bs N" using bus by (simp add: emos_bus_def)
  have k: "k < 3" "task_tbl s k \<noteq> NULL" "queues s N k \<noteq> []"
    using queued_loop_next(2) [OF rep next_k] by auto
  obtain p ps where N: "N k = p # ps" using k(3) by (cases "N k") (auto simp: queues_def)
  have p: "task_tbl s k = p" using emos_repD(2) [OF rep k(1)] N by (auto dest: plist_head)
  let ?c = "node_msg (pool_mem s) p"
  have c: "hd (queues s N k) = ?c" using N by (simp add: queues_def)
  from dispatch_total [OF bus, of ?c] obtain s1 bs1 N1 where D: "dispatches be call ?c s s1"
    "emos_bus be s1 es bs1 (\<lambda>k. N k @ N1 k)"
    "\<And>k. \<exists>ms. queues s1 (\<lambda>k. N k @ N1 k) k = queues s N k @ ms"
    "poll_next_index s1 = poll_next_index s"
    by blast
  have N1: "(\<lambda>k. N k @ N1 k) k = p # (ps @ N1 k)" using N by simp
  from D(2) k(1) N1 show ?thesis
  proof (cases rule: queue_remove_head)
    case (1 s' bs')
    note 2 = 1
    have "emos_process_queued_event be call s = emos_queued_loop be call k 1 s"
      using queued_loop_next(1) [OF rep, of be call] next_k by simp
    also have "\<dots> = Some (1, s')"
      using D(1) 2(1) k(2) p emos_bus_find(3) [OF bus]
      by (auto simp: dispatches_def Let_def split: option.splits)
    finally have run: "emos_process_queued_event be call s = Some (1, s')" .
    have q: "\<exists>ms. queues s' ((\<lambda>k. N k @ N1 k)(k := ps @ N1 k)) j =
        (if j = k then tl (queues s N k) else queues s N j) @ ms" for j
      using D(3) [of j] k(3) 2(3) by (auto simp: fun_eq_iff)
    show ?thesis
      by (rule exI [of _ s1], rule exI [of _ s'], rule exI [of _ bs'],
          rule exI [of _ "(\<lambda>k. N k @ N1 k)(k := ps @ N1 k)"]) (use run q D 2 p c in simp)
  qed
qed

end

section \<open>Posting, all cases\<close>

lemma with_mark_fields [simp]:
  fixes s :: "'a emos_scheme"
  shows "task_tbl (with_mark 0 s) = task_tbl s"
    "poll_next_index (with_mark 0 s) = poll_next_index s" "entry_count (with_mark 0 s) = entry_count s"
    "event_sem (with_mark 0 s) = event_sem s" "emos.more (with_mark 0 s) = emos.more s"
    "registered_entries (with_mark 0 s) = registered_entries s"
    "registered_entry_count (with_mark 0 s) = registered_entry_count s"
  by (simp_all add: with_mark_def)

lemma emos_bus_with_mark [simp]:
  fixes s :: "'a emos_scheme"
  shows "queues (with_mark 0 s) N = queues s N"
    "emos_bus be (with_mark 0 s) es bs N = emos_bus be s es bs N"
proof -
  show "queues (with_mark 0 s) N = queues s N" by (simp add: fun_eq_iff queues_def)
  have "emos_rep (with_mark 0 s) bs N = emos_rep s bs N" by (simp add: emos_rep_def plist_def)
  moreover have "backend_holds be (with_mark 0 s) es = backend_holds be s es"
    by (rule backend_holds_cong) simp_all
  ultimately show "emos_bus be (with_mark 0 s) es bs N = emos_bus be s es bs N"
    by (simp add: emos_bus_def)
qed

text \<open>The effect of a post on the abstract queues: the result and the new queues, where \<open>room\<close> says
  whether the pool can serve the message.\<close>

definition spec_post ::
    "emos_entry list \<Rightarrow> bool \<Rightarrow> byte \<Rightarrow> 32 word \<Rightarrow> byte list option \<Rightarrow> nat \<Rightarrow>
     (nat \<Rightarrow> emos_ctx list) \<Rightarrow> rc \<times> (nat \<Rightarrow> emos_ctx list)" where
  "spec_post es room t cid payload plen Q =
     (case List.find (\<lambda>e. e_task_id e = t) es of
        None \<Rightarrow> (Inl ENOENT, Q)
      | Some e \<Rightarrow>
          if plen \<noteq> 0 \<and> payload = None then (Inl EINVAL, Q)
          else if 65519 < plen \<or> \<not> room then (Inl ENOMEM, Q)
          else (ok, Q(unat (e_priority e) :=
                        Q (unat (e_priority e)) @ [post_ctx t cid payload plen])))"

lemma emos_post_total:
  fixes s :: "'a emos_scheme"
  assumes bus: "emos_bus be s es bs N"
    and pay: "payload_ok payload plen" and plen: "plen < 4294967280"
  shows "\<exists>r s' bs' N'. emos_post be t cid payload plen s = Some (r, s') \<and> emos_bus be s' es bs' N' \<and>
    (r, queues s' N') =
      spec_post es (pool_has_room s bs (16 + plen)) t cid payload plen (queues s N) \<and>
    (\<forall>k. \<exists>xs. N' k = N k @ xs) \<and>
    poll_next_index s' = poll_next_index s \<and> emos.more s' = emos.more s \<and>
    event_sem s' = (if r = ok then 1 else event_sem s) \<and>
    (r \<noteq> ok \<longrightarrow> pool_has_room s' bs' = pool_has_room s bs)"
proof -
  have holds: "backend_holds be s es" "table_ok es" "entry_count s = length es"
    and rep: "emos_rep s bs N" using bus by (simp_all add: emos_bus_def)
  have find: "emos_entry_find be t s = List.find (\<lambda>e. e_task_id e = t) es"
    using eb.find_law [OF holds(1)] .
  have ec: "entry_count s \<noteq> 0" using holds by (simp add: table_ok_def)
  have same: ?thesis
    if "emos_post be t cid payload plen s = Some (r, s)"
      "spec_post es (pool_has_room s bs (16 + plen)) t cid payload plen (queues s N) = (r, queues s N)"
      "r \<noteq> ok" for r
    using that bus by (intro exI [of _ r] exI [of _ s] exI [of _ bs] exI [of _ N]) simp
  show ?thesis
  proof (cases "List.find (\<lambda>e. e_task_id e = t) es")
    case None
    then show ?thesis using find ec
      by (intro same [of "Inl ENOENT"]) (simp_all add: emos_post_def spec_post_def)
  next
    case (Some e)
    then have e: "emos_entry_find be t s = Some e" using find by simp
    have pri: "unat (e_priority e) < 3" using emos_bus_find(4) [OF bus e] .
    consider (null) "plen \<noteq> 0" "payload = None" | (big) "plen \<noteq> 0 \<longrightarrow> payload \<noteq> None" "65519 < plen"
      | (fine) "payload = None \<longrightarrow> plen = 0" "plen \<le> 65519" by fastforce
    then show ?thesis
    proof cases
      case null
      then show ?thesis using e ec Some
        by (intro same [of "Inl EINVAL"]) (simp_all add: emos_post_def spec_post_def)
    next
      case big
      have "65535 < u32 (PROC_SIZE + CTX_SIZE + plen)"
        using big plen by (simp add: PROC_SIZE_def CTX_SIZE_def)
      then show ?thesis using e ec Some big pri
        by (intro same [of "Inl ENOMEM"])
          (auto simp: emos_post_def spec_post_def EMOS_TASK_PRIORITY_NUMBER_def Let_def)
    next
      case fine
      from bus e refl pay fine show ?thesis
      proof (cases rule: emos_post_cases [where cid = cid])
        case full
        then have "\<not> pool_has_room s bs (16 + plen)" by (auto simp: pool_has_room_def)
        then show ?thesis using full(1) bus Some fine
          by (intro exI [of _ "Inl ENOMEM"] exI [of _ "with_mark 0 s"] exI [of _ bs] exI [of _ N])
            (auto simp: spec_post_def pool_has_room_def fun_eq_iff)
      next
        case (fit s' bs' r)
        show ?thesis using fit Some fine
          by (intro exI [of _ ok] exI [of _ s'] exI [of _ bs']
              exI [of _ "N(unat (e_priority e) := N (unat (e_priority e)) @ [r])"])
            (auto simp: spec_post_def)
      qed
    qed
  qed
qed

lemma spec_post_extends:
  "(r, Q') = spec_post es room t cid payload plen Q \<Longrightarrow> \<exists>ms. Q' k = Q k @ ms"
  by (auto simp: spec_post_def split: option.splits if_splits)

section \<open>Handlers that post\<close>

text \<open>A handler that logs its context in the record's extension and then posts a list of messages
  (payloads up to 65535 bytes), ignoring the results; it is the model of an application task.\<close>

fun run_posts ::
    "backend \<Rightarrow> (byte \<times> 32 word \<times> byte list) list \<Rightarrow> 'a emos_scheme \<Rightarrow> 'a emos_scheme option" where
  "run_posts be [] s = Some s"
| "run_posts be ((t, cid, p) # ms) s = do {
     (_, s) \<leftarrow> emos_post be t cid (Some (take 65535 p)) (length (take 65535 p)) s;
     run_posts be ms s
   }"

definition post_handlers ::
    "backend \<Rightarrow> (nat \<Rightarrow> emos_ctx \<Rightarrow> (byte \<times> 32 word \<times> byte list) list) \<Rightarrow>
     (emos_ctx list) emos_scheme handlers" where
  "post_handlers be h f c s = run_posts be (h f c) (emos.more_update (\<lambda>l. l @ [c]) s)"

lemma run_posts_spec:
  fixes s :: "'a emos_scheme"
  assumes "emos_bus be s es bs N"
  shows "\<exists>s' bs' N'. run_posts be ms s = Some s' \<and> emos_bus be s' es bs' N' \<and>
    (\<forall>k. \<exists>xs. N' k = N k @ xs) \<and> (\<forall>k. \<exists>xs. queues s' N' k = queues s N k @ xs) \<and>
    poll_next_index s' = poll_next_index s \<and> emos.more s' = emos.more s"
  using assms
proof (induction ms arbitrary: s bs N)
  case Nil
  then show ?case by (intro exI [of _ s] exI [of _ bs] exI [of _ N]) simp
next
  case (Cons m ms)
  obtain t cid p where m: "m = (t, cid, p)" by (cases m) auto
  let ?p = "take 65535 p"
  have pok: "payload_ok (Some ?p) (length ?p)" by (simp add: payload_ok_def)
  have len: "length ?p < 4294967280" by simp
  obtain r s1 bs1 N1 where
    P: "emos_post be t cid (Some ?p) (length ?p) s = Some (r, s1)" "emos_bus be s1 es bs1 N1"
      "(r, queues s1 N1) = spec_post es (pool_has_room s bs (16 + length ?p)) t cid (Some ?p) (length ?p) (queues s N)"
      "\<forall>k. \<exists>xs. N1 k = N k @ xs" "poll_next_index s1 = poll_next_index s" "emos.more s1 = emos.more s"
    using emos_post_total [OF Cons.prems pok len, of t cid] by blast
  obtain s' bs' N' where
    Q: "run_posts be ms s1 = Some s'" "emos_bus be s' es bs' N'"
      "\<forall>k. \<exists>xs. N' k = N1 k @ xs" "\<forall>k. \<exists>xs. queues s' N' k = queues s1 N1 k @ xs"
      "poll_next_index s' = poll_next_index s1" "emos.more s' = emos.more s1"
    using Cons.IH [OF P(2)] by blast
  have "\<exists>xs. N' k = N k @ xs" for k
    using P(4) [rule_format, of k] Q(3) [rule_format, of k] by auto
  moreover have "\<exists>xs. queues s' N' k = queues s N k @ xs" for k
    using spec_post_extends [OF P(3), of k] Q(4) [rule_format, of k] by auto
  moreover have "run_posts be (m # ms) s = Some s'" using P(1) Q(1) by (simp add: m)
  ultimately show ?case using Q(2,5,6) P(5,6) by metis
qed

lemma emos_bus_more [simp]:
  fixes s :: "'a emos_scheme"
  shows "emos_bus be (emos.more_update f s) es bs N = emos_bus be s es bs N"
    "queues (emos.more_update f s) N = queues s N"
proof -
  have "emos_rep (emos.more_update f s) bs N = emos_rep s bs N" by (simp add: emos_rep_def plist_def)
  moreover have "backend_holds be (emos.more_update f s) es = backend_holds be s es"
    by (rule backend_holds_cong) simp_all
  ultimately show "emos_bus be (emos.more_update f s) es bs N = emos_bus be s es bs N"
    by (simp add: emos_bus_def)
  show "queues (emos.more_update f s) N = queues s N" by (simp add: fun_eq_iff queues_def)
qed

lemma extend_fun: "\<forall>k. \<exists>xs. N' k = N k @ (xs :: 'x list) \<Longrightarrow> \<exists>M. N' = (\<lambda>k. N k @ M k)"
  by (drule choice) (auto simp: fun_eq_iff)

lemma post_handlers_spec:
  assumes "emos_bus be s es bs N"
  shows "\<exists>s' bs' N'. post_handlers be h f c s = Some s' \<and>
    emos_bus be s' es bs' (\<lambda>k. N k @ N' k) \<and>
    (\<forall>k. \<exists>ms. queues s' (\<lambda>k. N k @ N' k) k = queues s N k @ ms) \<and>
    poll_next_index s' = poll_next_index s \<and> emos.more s' = emos.more s @ [c]"
proof -
  have "emos_bus be (emos.more_update (\<lambda>l. l @ [c]) s) es bs N" using assms by simp
  from run_posts_spec [OF this, of "h f c"] obtain s' bs' N' where
    A: "run_posts be (h f c) (emos.more_update (\<lambda>l. l @ [c]) s) = Some s'" "emos_bus be s' es bs' N'"
      "\<forall>k. \<exists>xs. N' k = N k @ xs" "\<forall>k. \<exists>xs. queues s' N' k = queues s N k @ xs"
      "poll_next_index s' = poll_next_index s" "emos.more s' = emos.more s @ [c]"
    by auto
  from extend_fun [OF A(3)] obtain M where M: "N' = (\<lambda>k. N k @ M k)" by blast
  show ?thesis
    using A unfolding M post_handlers_def
    by (intro exI [of _ s'] exI [of _ bs'] exI [of _ M]) simp
qed

interpretation ph: bus_handlers be "post_handlers be h" for be h
proof
  fix s :: "(emos_ctx list) emos_scheme" and es bs N f c
  assume "emos_bus be s es bs N"
  from post_handlers_spec [OF this, of h f c]
  show "\<exists>s' bs' N'. post_handlers be h f c s = Some s' \<and> emos_bus be s' es bs' (\<lambda>k. N k @ N' k) \<and>
      (\<forall>k. \<exists>ms. queues s' (\<lambda>k. N k @ N' k) k = queues s N k @ ms) \<and>
      poll_next_index s' = poll_next_index s"
    by blast
qed

section \<open>Initialisation\<close>

lemma emos_bus_boot:
  fixes s :: "'a emos_scheme"
  assumes "pool_addr mod 4 = 0" "0 < pool_addr" "8 < pool_size" "pool_addr + pool_size < 4294967296"
    and "backend_caller be tbl n"
    and "emos_init_pool be pool_addr pool_size s = (r1, s1)"
    and "emos_entries_init be tbl n s1 = (Inr c, s2)"
  shows "r1 = ok"
    "\<exists>es. emos_bus be (s2\<lparr>entry_count := c\<rparr>) es [] (\<lambda>_. []) \<and>
       backend_holds be (s2\<lparr>entry_count := c\<rparr>) es \<and> c = length es"
proof -
  obtain s0 :: "'a emos_scheme" where s0: "r1 = ok" "s1 = init_mem_pool 0 pool_addr pool_size s0"
    "task_tbl s0 = (\<lambda>_. NULL)"
    using assms(2,3,6) by (cases be) (auto simp: emos_init_pool_def tbl_entries_reset_def Let_def)
  then show "r1 = ok" by simp
  have inv: "pool_inv 0 s1 []"
    unfolding s0(2) by (rule init_mem_pool_inv) (use assms in \<open>auto simp: POOL_NUM_MAX_def\<close>)
  have t1: "task_tbl s1 = (\<lambda>_. NULL)" using s0 by (simp add: init_mem_pool_def Let_def)
  have s2: "s2 = s1\<lparr>registered_entries := registered_entries s2,
      registered_entry_count := registered_entry_count s2\<rparr>"
    using assms(7) by (cases be)
      (auto simp: tbl_entries_init_def tbl_entries_reset_def Let_def split: option.splits if_splits sum.splits)
  have inv2: "pool_inv 0 s2 []"
    using inv by (subst s2, subst pool_inv_cong(1) [of _ s1]) simp_all
  have t2: "task_tbl s2 = (\<lambda>_. NULL)" using t1 by (subst s2) simp
  obtain es where es: "backend_holds be s2 es" "table_ok es" "c = length es"
    using eb.init_ok [OF assms(5,7)] by blast
  have "emos_rep (s2\<lparr>entry_count := c\<rparr>) [] (\<lambda>_. [])"
    using inv2 t2 by (simp add: emos_rep_def)
  moreover have "backend_holds be (s2\<lparr>entry_count := c\<rparr>) es"
    using es(1) backend_holds_cong [of "s2\<lparr>entry_count := c\<rparr>" s2 be es] by simp
  ultimately show "\<exists>es. emos_bus be (s2\<lparr>entry_count := c\<rparr>) es [] (\<lambda>_. []) \<and>
       backend_holds be (s2\<lparr>entry_count := c\<rparr>) es \<and> c = length es"
    using es by (auto simp: emos_bus_def)
qed

definition init_msg :: "emos_entry \<Rightarrow> emos_ctx" where
  "init_msg e = post_ctx (e_task_id e) (CTX_SYS_SHIFT EMOS_SYS_INIT) None 0"

lemma find_nth_distinct:
  "distinct (map e_task_id es) \<Longrightarrow> i < length es \<Longrightarrow>
   List.find (\<lambda>e. e_task_id e = e_task_id (es ! i)) es = Some (es ! i)"
proof (induction es arbitrary: i)
  case Nil
  then show ?case by simp
next
  case (Cons e es)
  then show ?case by (cases i) (auto dest!: nth_mem)
qed

lemma emos_init_loop_spec:
  fixes s :: "'a emos_scheme"
  assumes "emos_bus be s es bs N" "i + n = length es"
  shows "\<exists>r s' bs' N'. emos_init_loop be i n s = Some (r, s') \<and> emos_bus be s' es bs' N' \<and>
    (r = ok \<and> (\<forall>k. queues s' N' k = queues s N k @
        map init_msg (filter (\<lambda>e. e_init e \<and> unat (e_priority e) = k) (drop i es))) \<or>
     r = Inl ENOMEM) \<and> emos.more s' = emos.more s \<and> poll_next_index s' = poll_next_index s"
  using assms
proof (induction n arbitrary: i s bs N)
  case 0
  then show ?case
    by (intro exI [of _ ok] exI [of _ s] exI [of _ bs] exI [of _ N]) simp
next
  case (Suc n)
  have holds: "backend_holds be s es" and ok: "table_ok es" using Suc.prems(1) by (simp_all add: emos_bus_def)
  let ?e = "es ! i"
  have get: "emos_entry_get_by_index be i s = Some ?e"
    using eb.get_law [OF holds, of i] Suc.prems(2) by simp
  have drop: "drop i es = ?e # drop (i + 1) es"
    using Suc.prems(2) by (simp add: Cons_nth_drop_Suc)
  show ?case
  proof (cases "e_init ?e")
    case False
    then show ?thesis using Suc.IH [OF Suc.prems(1), of "i + 1"] Suc.prems(2) get drop by simp
  next
    case True
    have pok: "payload_ok None 0" by (simp add: payload_ok_def)
    obtain r s1 bs1 N1 where
      P: "emos_post be (e_task_id ?e) (CTX_SYS_SHIFT EMOS_SYS_INIT) None 0 s = Some (r, s1)"
        "emos_bus be s1 es bs1 N1"
        "(r, queues s1 N1) = spec_post es (pool_has_room s bs (16 + 0)) (e_task_id ?e)
           (CTX_SYS_SHIFT EMOS_SYS_INIT) None 0 (queues s N)"
        "poll_next_index s1 = poll_next_index s" "emos.more s1 = emos.more s"
      using emos_post_total [OF Suc.prems(1) pok, of "e_task_id ?e" "CTX_SYS_SHIFT EMOS_SYS_INIT"] by auto
    have find: "List.find (\<lambda>e. e_task_id e = e_task_id ?e) es = Some ?e"
      using find_nth_distinct [of es i] ok Suc.prems(2) by (simp add: table_ok_def)
    show ?thesis
    proof (cases "r = ok")
      case False
      then have "r = Inl ENOMEM"
        using P(3) find by (auto simp: spec_post_def split: if_splits)
      then show ?thesis using P get True False
        by (intro exI [of _ r] exI [of _ s1] exI [of _ bs1] exI [of _ N1]) simp
    next
      case r: True
      have q: "queues s1 N1 = (queues s N)(unat (e_priority ?e) := queues s N (unat (e_priority ?e)) @ [init_msg ?e])"
        using P(3) find r by (auto simp: spec_post_def init_msg_def split: if_splits)
      have q2: "queues s1 N1 k @ map init_msg (filter (\<lambda>e. e_init e \<and> unat (e_priority e) = k) (drop (i + 1) es)) =
          queues s N k @ map init_msg (filter (\<lambda>e. e_init e \<and> unat (e_priority e) = k) (drop i es))" for k
        using True by (simp add: q drop)
      have "emos_init_loop be i (Suc n) s = emos_init_loop be (i + 1) n s1"
        using P(1) get True r by simp
      with Suc.IH [OF P(2), of "i + 1"] Suc.prems(2) P(4,5) show ?thesis
        by (simp only: q2)
    qed
  qed
qed

section \<open>Draining the bus\<close>

text \<open>\<open>n\<close> calls of \<open>emos_process\<close> in a row, their return values ignored.\<close>

fun emos_run ::
    "nat \<Rightarrow> backend \<Rightarrow> 'a emos_scheme handlers \<Rightarrow> ('a emos_scheme \<Rightarrow> (rc \<times> 'a emos_scheme) option) \<Rightarrow>
     'a emos_scheme \<Rightarrow> 'a emos_scheme option" where
  "emos_run 0 be call async s = Some s"
| "emos_run (Suc n) be call async s = do {
     (_, s) \<leftarrow> emos_process be call async s;
     emos_run n be call async s
   }"

definition no_async :: "'a emos_scheme \<Rightarrow> (rc \<times> 'a emos_scheme) option" where
  "no_async s = Some (ok, s)"

text \<open>All pending messages in the order they are due: by priority, first in first out.\<close>

definition pending :: "(nat \<Rightarrow> 'm list) \<Rightarrow> 'm list" where
  "pending Q = Q 0 @ Q 1 @ Q 2"

lemma pending_next:
  "pending Q = (case next_prio Q of None \<Rightarrow> [] | Some k \<Rightarrow> hd (Q k) # pending (Q(k := tl (Q k))))"
  by (auto simp: pending_def next_prio_def)

definition known :: "emos_entry list \<Rightarrow> emos_ctx \<Rightarrow> bool" where
  "known es c \<longleftrightarrow> ctx_task_id c \<in> e_task_id ` set es"

abbreviation silent :: "nat \<Rightarrow> emos_ctx \<Rightarrow> (byte \<times> 32 word \<times> byte list) list" where
  "silent \<equiv> \<lambda>f c. []"

lemma silent_handler:
  "post_handlers be silent f c s = Some (emos.more_update (\<lambda>l. l @ [c]) s)"
  by (simp add: post_handlers_def)

lemma emos_process_eq:
  assumes "emos_bus be s es bs N"
  shows "emos_process be call no_async s = do {
      (ret, s) \<leftarrow> emos_process_queued_event be call s;
      if ret \<noteq> 0 then Some (Inr ret, s)
      else do { (ret, s) \<leftarrow> emos_process_poll_event be call s; Some (Inr ret, s) } }"
  using assms by (auto simp: emos_process_def no_async_def emos_bus_def table_ok_def)

lemma emos_process_silent:
  assumes bus: "emos_bus be s es bs N" and k: "next_prio (queues s N) = Some k"
  shows "\<exists>s' bs' N'. emos_process be (post_handlers be silent) no_async s = Some (Inr 1, s') \<and>
    emos_bus be s' es bs' N' \<and> queues s' N' = (queues s N)(k := tl (queues s N k)) \<and>
    emos.more s' = emos.more s @ filter (known es) [hd (queues s N k)] \<and>
    poll_next_index s' = poll_next_index s"
proof -
  let ?call = "post_handlers be silent" and ?c = "hd (queues s N k)"
  have holds: "backend_holds be s es" and rep: "emos_rep s bs N" using bus by (simp_all add: emos_bus_def)
  obtain s1 s' where
    A: "emos_process_queued_event be ?call s = Some (1, s')"
      "dispatches be ?call ?c s s1" "queue_remove k (task_tbl s k) s1 = Some s'"
    using ph.queued_step [OF bus k, of silent] by blast
  define f where "f = (\<lambda>l. l @ filter (known es) [?c])"
  have s1: "s1 = emos.more_update f s"
  proof (cases "emos_entry_find be (ctx_task_id ?c) s")
    case None
    then have "\<not> known es ?c" using eb.find_unknown [OF holds] by (simp add: known_def)
    then show ?thesis using A(2) None by (simp add: dispatches_def f_def)
  next
    case (Some e)
    then have "known es ?c" using eb.find_member [OF holds Some] by (metis known_def imageI)
    then show ?thesis using A(2) Some by (simp add: dispatches_def silent_handler f_def)
  qed
  have kk: "k < 3" "queues s N k \<noteq> []" using queued_loop_next(2) [OF rep k] by auto
  obtain p ps where N: "N k = p # ps" using kk(2) by (cases "N k") (auto simp: queues_def)
  have p: "task_tbl s k = p" using emos_repD(2) [OF rep kk(1)] N by (auto dest: plist_head)
  have bus1: "emos_bus be s1 es bs N" using bus by (simp add: s1)
  from bus1 kk(1) N show ?thesis
  proof (cases rule: queue_remove_head)
    case (1 s2 bs2)
    then have "s2 = s'" using A(3) p by simp
    moreover have "emos_process be ?call no_async s = Some (Inr 1, s')"
      using A(1) by (simp add: emos_process_eq [OF bus])
    ultimately show ?thesis using 1
      by (intro exI [of _ s'] exI [of _ bs2] exI [of _ "N(k := ps)"]) (simp add: s1 f_def)
  qed
qed

lemma drain_spec:
  assumes "emos_bus be s es bs N" "length (pending (queues s N)) = n"
  shows "\<exists>s' bs' N'. emos_run n be (post_handlers be silent) no_async s = Some s' \<and>
    emos_bus be s' es bs' N' \<and> pending (queues s' N') = [] \<and>
    emos.more s' = emos.more s @ filter (known es) (pending (queues s N))"
  using assms
proof (induction n arbitrary: s bs N)
  case 0
  then show ?case by (intro exI [of _ s] exI [of _ bs] exI [of _ N]) simp
next
  case (Suc n)
  have pn: "pending (queues s N) \<noteq> []" using Suc.prems(2) by auto
  obtain k where k: "next_prio (queues s N) = Some k"
    using pn pending_next [of "queues s N"] by (cases "next_prio (queues s N)") auto
  from emos_process_silent [OF Suc.prems(1) k] obtain s1 bs1 N1 where
    A: "emos_process be (post_handlers be silent) no_async s = Some (Inr 1, s1)"
      "emos_bus be s1 es bs1 N1" "queues s1 N1 = (queues s N)(k := tl (queues s N k))"
      "emos.more s1 = emos.more s @ filter (known es) [hd (queues s N k)]" by blast
  have p: "pending (queues s N) = hd (queues s N k) # pending (queues s1 N1)"
    using pending_next [of "queues s N"] k A(3) by simp
  with Suc.prems(2) have "length (pending (queues s1 N1)) = n" by simp
  from Suc.IH [OF A(2) this] obtain s' bs' N' where
    "emos_run n be (post_handlers be silent) no_async s1 = Some s'"
    "emos_bus be s' es bs' N'" "pending (queues s' N') = []"
    "emos.more s' = emos.more s1 @ filter (known es) (pending (queues s1 N1))" by blast
  then show ?case using A(1,4) p
    by (intro exI [of _ s'] exI [of _ bs'] exI [of _ N']) simp
qed

lemma pending_empty_pool:
  assumes "emos_bus be s es bs N" "pending (queues s N) = []"
  shows "bs = []" "high_water 0 s = heap_of_memory s 0"
proof -
  have rep: "emos_rep s bs N" using assms(1) by (simp add: emos_bus_def)
  have "N k = []" for k
  proof (cases "k < 3")
    case True
    then have "k = 0 \<or> k = 1 \<or> k = 2" by auto
    then show ?thesis using assms(2) by (auto simp: pending_def queues_def)
  qed (use emos_repD(3) [OF rep] in simp)
  then have "live 0 s bs = Map.empty" using emos_repD(6) [OF rep] by auto
  then show bs: "bs = []" using no_live_empty pool_invD(8) [OF emos_repD(1) [OF rep]] by blast
  then show "high_water 0 s = heap_of_memory s 0" using pool_invD(10) [OF emos_repD(1) [OF rep]] by simp
qed

section \<open>Polling\<close>

definition poll_ctx :: "emos_entry \<Rightarrow> emos_ctx" where
  "poll_ctx e = \<lparr>ctx_task_id = e_task_id e, ctx_id = SYS_EVT EMOS_SYS_POLL, ctx_payload = []\<rparr>"

text \<open>The loop looks at the table rotated to \<open>poll_next_index\<close> and serves its first poll entry.\<close>

lemma poll_loop_skip:
  assumes bus: "emos_bus be s es bs N" and m: "poll_next_index s < length es"
    and us: "rotate (poll_next_index s) es = us @ vs" "\<forall>u \<in> set us. \<not> e_always u"
    and i: "i \<le> length us"
  shows "emos_poll_loop be call i (length es - i) s = emos_poll_loop be call (length us) (length vs) s"
  using i
proof (induction "length us - i" arbitrary: i)
  case 0
  have "length es = length us + length vs" using us(1) by (metis length_append length_rotate)
  with 0 show ?case by simp
next
  case (Suc d)
  have holds: "backend_holds be s es" and ec: "entry_count s = length es" "length es < 256"
    using bus by (simp_all add: emos_bus_def table_ok_def)
  have len: "length es = length us + length vs" using us(1) by (metis length_append length_rotate)
  have i: "i < length us" using Suc by simp
  let ?ix = "(poll_next_index s + i) mod length es"
  have ix: "?ix < length es" using m by (intro mod_less_divisor) linarith
  have "us ! i = rotate (poll_next_index s) es ! i" using i us(1) by (simp add: nth_append)
  also have "\<dots> = es ! ?ix" using i len by (simp add: nth_rotate)
  finally have nth: "es ! ?ix = us ! i" ..
  have get: "emos_entry_get_by_index be ?ix s = Some (us ! i)"
    using eb.get_law [OF holds, of ?ix] ix nth by simp
  have "\<not> e_always (us ! i)" using us(2) i by simp
  moreover have "?ix mod 256 = ?ix" using ix ec by simp
  moreover have "length es - i = Suc (length es - (i + 1))" using i len by simp
  ultimately have "emos_poll_loop be call i (length es - i) s =
      emos_poll_loop be call (i + 1) (length es - (i + 1)) s"
    using get ec by (simp add: Let_def)
  with Suc.hyps(1) [of "i + 1"] Suc.hyps(2) i show ?case by simp
qed

lemma poll_event_none:
  assumes bus: "emos_bus be s es bs N" and m: "poll_next_index s < length es"
    and no: "\<forall>e \<in> set es. \<not> e_always e"
  shows "emos_process_poll_event be call s = Some (0, s)"
  using poll_loop_skip [OF bus m, of "rotate (poll_next_index s) es" "[]" 0 call] no bus
  by (simp add: emos_process_poll_event_def emos_bus_def)

lemma poll_event_some:
  assumes bus: "emos_bus be s es bs N" and m: "poll_next_index s < length es"
    and us: "rotate (poll_next_index s) es = us @ e # vs" "\<forall>u \<in> set us. \<not> e_always u" "e_always e"
    and call: "call (e_task_entry e) (poll_ctx e) s = Some s1" "emos_bus be s1 es bs1 N1"
  shows "\<exists>ix. emos_process_poll_event be call s = Some (1, s1\<lparr>poll_next_index := ix\<rparr>) \<and>
    ix < length es \<and> rotate ix es = vs @ us @ [e]"
proof -
  have holds: "backend_holds be s es" and ec: "entry_count s = length es" "length es < 256"
    and ok: "table_ok es" using bus by (simp_all add: emos_bus_def table_ok_def)
  have ec1: "entry_count s1 = length es" using call(2) by (simp add: emos_bus_def)
  have len: "length es = length us + Suc (length vs)" using us(1) by (metis length_append length_rotate length_Cons)
  let ?ix = "(poll_next_index s + length us) mod length es"
  have ix: "?ix < length es" using m by (intro mod_less_divisor) linarith
  have "e = rotate (poll_next_index s) es ! length us" using us(1) by simp
  also have "\<dots> = es ! ?ix" using len by (simp add: nth_rotate)
  finally have nth: "es ! ?ix = e" ..
  have get: "emos_entry_get_by_index be ?ix s = Some e"
    using eb.get_law [OF holds, of ?ix] ix nth by simp
  have hn: "e_task_entry e \<noteq> NULL"
    using ok ix nth by (metis entry_ok_def list_all_length table_ok_def)
  have n1: "(?ix + 1) mod length es < length es" using m by (intro mod_less_divisor) linarith
  have small: "?ix mod 256 = ?ix" "(?ix + 1) mod length es mod 256 = (?ix + 1) mod length es"
    using ix n1 ec by (intro mod_less; linarith)+
  have "emos_poll_loop be call (length us) (Suc (length vs)) s =
      Some (1, s1\<lparr>poll_next_index := (?ix + 1) mod length es\<rparr>)"
    using hn small get ec ec1 us(3) call(1) by (simp add: Let_def poll_ctx_def)
  moreover have "emos_process_poll_event be call s = emos_poll_loop be call (length us) (Suc (length vs)) s"
    using poll_loop_skip [OF bus m us(1,2), of 0 call] ec by (simp add: emos_process_poll_event_def)
  moreover have "rotate ((?ix + 1) mod length es) es = vs @ us @ [e]"
  proof -
    have "(?ix + 1) mod length es = (poll_next_index s + length us + 1) mod length es"
      by (simp add: mod_Suc_eq)
    then have "rotate ((?ix + 1) mod length es) es = rotate (poll_next_index s + length us + 1) es"
      by (metis rotate_conv_mod)
    also have "\<dots> = rotate (length us + 1) (rotate (poll_next_index s) es)"
      by (simp add: rotate_rotate add.commute add.left_commute)
    also have "\<dots> = vs @ us @ [e]"
      using rotate_append [of "us @ [e]" vs] us(1) by simp
    finally show ?thesis .
  qed
  ultimately show ?thesis using n1 by (intro exI [of _ "(?ix + 1) mod length es"]) simp
qed

lemma emos_bus_poll_index [simp]:
  fixes s :: "'a emos_scheme"
  shows "emos_bus be (s\<lparr>poll_next_index := i\<rparr>) es bs N = emos_bus be s es bs N"
    "queues (s\<lparr>poll_next_index := i\<rparr>) N = queues s N"
proof -
  have "emos_rep (s\<lparr>poll_next_index := i\<rparr>) bs N = emos_rep s bs N" by (simp add: emos_rep_def plist_def)
  moreover have "backend_holds be (s\<lparr>poll_next_index := i\<rparr>) es = backend_holds be s es"
    by (rule backend_holds_cong) simp_all
  ultimately show "emos_bus be (s\<lparr>poll_next_index := i\<rparr>) es bs N = emos_bus be s es bs N"
    by (simp add: emos_bus_def)
  show "queues (s\<lparr>poll_next_index := i\<rparr>) N = queues s N" by (simp add: fun_eq_iff queues_def)
qed

lemma first_always:
  assumes "filter e_always xs = e # L"
  obtains us vs where "xs = us @ e # vs" "\<forall>u \<in> set us. \<not> e_always u" "e_always e" "L = filter e_always vs"
  using assms by (auto simp: filter_eq_Cons_iff)

lemma length_filter_rotate: "length (filter P (rotate k xs)) = length (filter P xs)"
proof (induction k)
  case (Suc k)
  then show ?case by (cases "rotate k xs") (simp_all split: if_splits)
qed simp

lemma poll_run:
  assumes "emos_bus be s es bs N" "pending (queues s N) = []" "poll_next_index s < length es"
    and "j \<le> length (filter e_always es)"
  shows "\<exists>s'. emos_run j be (post_handlers be silent) no_async s = Some s' \<and>
    emos_bus be s' es bs N \<and> pending (queues s' N) = [] \<and> poll_next_index s' < length es \<and>
    emos.more s' = emos.more s @
      map poll_ctx (take j (filter e_always (rotate (poll_next_index s) es)))"
  using assms
proof (induction j arbitrary: s)
  case 0
  then show ?case by simp
next
  case (Suc j)
  let ?call = "post_handlers be silent" and ?R = "rotate (poll_next_index s) es"
  have rep: "emos_rep s bs N" using Suc.prems(1) by (simp add: emos_bus_def)
  have quiet: "emos_process_queued_event be ?call s = Some (0, s)"
    using queued_loop_next(1) [OF rep, of be ?call] Suc.prems(2) pending_next [of "queues s N"]
    by (auto split: option.splits)
  have lenR: "length (filter e_always ?R) = length (filter e_always es)"
    by (rule length_filter_rotate)
  then obtain e L where eL: "filter e_always ?R = e # L"
    using Suc.prems(4) by (cases "filter e_always ?R") auto
  then obtain us vs where us: "?R = us @ e # vs" "\<forall>u \<in> set us. \<not> e_always u" "e_always e"
    "L = filter e_always vs" by (rule first_always)
  define s1 where "s1 = emos.more_update (\<lambda>l. l @ [poll_ctx e]) s"
  have c1: "?call (e_task_entry e) (poll_ctx e) s = Some s1" by (simp add: silent_handler s1_def)
  have b1: "emos_bus be s1 es bs N" using Suc.prems(1) by (simp add: s1_def)
  obtain ix where ix: "emos_process_poll_event be ?call s = Some (1, s1\<lparr>poll_next_index := ix\<rparr>)"
    "ix < length es" "rotate ix es = vs @ us @ [e]"
    using poll_event_some [where call = ?call, OF Suc.prems(1,3) us(1-3) c1 b1] by blast
  define s2 where "s2 = s1\<lparr>poll_next_index := ix\<rparr>"
  have run: "emos_process be ?call no_async s = Some (Inr 1, s2)"
    using quiet ix(1) by (simp add: emos_process_eq [OF Suc.prems(1)] s2_def)
  have next_R: "filter e_always (rotate (poll_next_index s2) es) = L @ [e]"
    using ix(3) us by (simp add: s2_def)
  have b2: "emos_bus be s2 es bs N" "pending (queues s2 N) = []" "poll_next_index s2 < length es"
    using b1 ix(2) Suc.prems(2) by (simp_all add: s2_def s1_def)
  have j: "j \<le> length (filter e_always es)" "j \<le> length L"
    using Suc.prems(4) lenR eL by simp_all
  from Suc.IH [OF b2 j(1)] obtain s' where
    "emos_run j be ?call no_async s2 = Some s'" "emos_bus be s' es bs N"
    "pending (queues s' N) = []" "poll_next_index s' < length es"
    "emos.more s' = emos.more s2 @ map poll_ctx (take j (L @ [e]))" by (auto simp: next_R)
  then show ?case using run eL j(2) by (auto simp: s2_def s1_def)
qed

section \<open>Properties\<close>

text \<open>A bus over the demo pool with the three demo tasks registered and an empty log.\<close>

definition demo_bus :: "(emos_ctx list) emos_scheme" where
  "demo_bus = \<lparr>pool_mem = pool_mem demo_pool, last_heap_object = last_heap_object demo_pool,
     heap_of_memory = heap_of_memory demo_pool, top_of_heap = top_of_heap demo_pool,
     this_active = this_active demo_pool, registered_entries = Some demo_entries,
     registered_entry_count = 3, task_tbl = (\<lambda>_. NULL), entry_count = 3, poll_next_index = 0,
     event_sem = 0, \<dots> = []\<rparr>"

lemma demo_bus_ok:
  "emos_bus Entry_Table demo_bus demo_entries [] (\<lambda>_. [])" "queues demo_bus (\<lambda>_. []) = (\<lambda>_. [])"
proof -
  have "pool_inv 0 demo_bus []"
    by (rule pool_inv_cong(1) [THEN iffD2, OF _ _ _ _ _ demo_pool_inv]) (simp_all add: demo_bus_def)
  then have "emos_rep demo_bus [] (\<lambda>_. [])" by (simp add: emos_rep_def demo_bus_def)
  then show "emos_bus Entry_Table demo_bus demo_entries [] (\<lambda>_. [])"
    using demo_entries_ok by (simp add: emos_bus_def demo_bus_def demo_entries_length)
  show "queues demo_bus (\<lambda>_. []) = (\<lambda>_. [])" by (simp add: queues_def fun_eq_iff)
qed

text \<open>The context-id macros pack a 4-bit system id and a 28-bit application id: unpacking gives
  back the packed ids cut to their width, and packing the two parts of any id gives it back.\<close>

theorem ctx_id_roundtrip:
  "CTX_SYS_ID (EMOS_CTX_ID sys app) = sys AND 15 \<and>
   CTX_APP_ID (EMOS_CTX_ID sys app) = app AND 268435455 \<and>
   EMOS_CTX_ID (CTX_SYS_ID x) (CTX_APP_ID x) = x"
proof -
  have masks: "CTX_APP_MASK = mask 28" "CTX_SYS_MASK = mask 4" "(15 :: 32 word) = mask 4"
    "(268435455 :: 32 word) = mask 28"
    by (simp_all add: CTX_APP_MASK_def CTX_SYS_MASK_def mask_eq_exp_minus_1 push_bit_eq_mult)
  show ?thesis
    unfolding CTX_SYS_ID_def CTX_APP_ID_def EMOS_CTX_ID_def CTX_SYS_SHIFT_def CTX_APP_SHIFT_def masks
    by (intro conjI; rule bit_eqI) (auto simp: bit_simps)
qed

text \<open>C3: posting refines the abstract post on per-priority queues.  It always returns; an unknown
  task, a missing payload, a payload that does not fit 16 bits or a full pool is refused with the
  matching error and leaves every queue as it was; otherwise exactly one message, with the given
  task, id and payload bytes, is appended to the queue of the task's priority.  The semaphore is
  given exactly on success, and the representation invariant (nothing allocated but the queued
  messages) is kept.\<close>

theorem emos_post_refines:
  fixes s :: "'a emos_scheme"
  assumes "emos_bus be s es bs N" "payload_ok payload plen" "plen < 4294967280"
  shows "\<exists>r s' bs' N'. emos_post be t cid payload plen s = Some (r, s') \<and> emos_bus be s' es bs' N' \<and>
    (r, queues s' N') =
      spec_post es (pool_has_room s bs (16 + plen)) t cid payload plen (queues s N) \<and>
    event_sem s' = (if r = ok then 1 else event_sem s)"
  using emos_post_total [OF assms, of t cid] by blast

theorem emos_post_refines_witness:
  "\<exists>s' bs' N'. emos_post Entry_Table 9 5 (Some [1, 2]) 2 demo_bus = Some (ok, s') \<and>
     emos_bus Entry_Table s' demo_entries bs' N' \<and>
     queues s' N' 2 = [\<lparr>ctx_task_id = 9, ctx_id = 5, ctx_payload = [1, 2]\<rparr>]"
proof -
  have room: "pool_has_room demo_bus [] 18"
    using pool_inv_cong(2) [of demo_bus demo_pool 0]
    by (simp add: pool_has_room_def demo_bus_def demo_pool_fields round_up4_def)
  have "payload_ok (Some [1, 2]) 2" by (simp add: payload_ok_def)
  from emos_post_refines [OF demo_bus_ok(1) this, of 9 5] obtain r s' bs' N' where
    P: "emos_post Entry_Table 9 5 (Some [1, 2]) 2 demo_bus = Some (r, s')"
      "emos_bus Entry_Table s' demo_entries bs' N'"
      "(r, queues s' N') = spec_post demo_entries True 9 5 (Some [1, 2]) 2 (\<lambda>_. [])"
    using room demo_bus_ok(2) by auto
  have "spec_post demo_entries True 9 5 (Some [1, 2]) 2 (\<lambda>_. []) =
      (ok, (\<lambda>_. [])(2 := [\<lparr>ctx_task_id = 9, ctx_id = 5, ctx_payload = [1, 2]\<rparr>]))"
    by (simp add: spec_post_def demo_entries_def EMOS_TASK_ENTRY_def EMOS_TASK_ENTRY_POLL_def post_ctx_def)
  with P(3) have "r = ok" "queues s' N' 2 = [\<lparr>ctx_task_id = 9, ctx_id = 5, ctx_payload = [1, 2]\<rparr>]" by auto
  with P show ?thesis by (intro exI [of _ s'] exI [of _ bs'] exI [of _ N']) simp
qed

text \<open>Initialisation over an aligned pool returns.  It fails without a pool or with a rejected
  table; otherwise the bus is in order, and on success exactly one \<open>EMOS_SYS_INIT\<close> message is
  pending for every task that asks for it, in table order within each priority.\<close>

theorem emos_init_posts_init_events:
  assumes "pool_addr mod 4 = 0" "0 < pool_addr" "8 < pool_size" "pool_addr + pool_size < 4294967296"
    and "backend_caller be tbl n"
  shows "\<exists>r s'. emos_init be pool_addr pool_size tbl n s = Some (r, s') \<and>
    (r \<in> {Inl EINVAL, Inl EALREADY, Inl ENODEV} \<or>
     (\<exists>es bs N. emos_bus be s' es bs N \<and>
        (r = Inl ENOMEM \<or>
         r = ok \<and> (\<forall>k. queues s' N k =
           map init_msg (filter (\<lambda>e. e_init e \<and> unat (e_priority e) = k) es)))))"
proof -
  obtain r1 s1 where p: "emos_init_pool be pool_addr pool_size s = (r1, s1)" by force
  obtain r2 s2 where e: "emos_entries_init be tbl n s1 = (r2, s2)" by force
  show ?thesis
  proof (cases r2)
    case (Inl er)
    have "r1 = ok" using p assms by (auto simp: emos_init_pool_def Let_def)
    then have "emos_init be pool_addr pool_size tbl n s = Some (Inl er, s2)"
      using p e Inl by (simp add: emos_init_def)
    moreover have "er \<in> {EINVAL, EALREADY, ENODEV}"
      using eb.init_bad [OF assms(5) e [unfolded Inl]] .
    ultimately show ?thesis by auto
  next
    case (Inr c)
    obtain es where es: "r1 = ok" "emos_bus be (s2\<lparr>entry_count := c\<rparr>) es [] (\<lambda>_. [])" "c = length es"
      using emos_bus_boot [OF assms p e [unfolded Inr]] by auto
    have code: "emos_init be pool_addr pool_size tbl n s = emos_init_loop be 0 c (s2\<lparr>entry_count := c\<rparr>)"
      using p e Inr es(1) by (simp add: emos_init_def)
    obtain r s' bs' N' where "emos_init_loop be 0 c (s2\<lparr>entry_count := c\<rparr>) = Some (r, s')"
      "emos_bus be s' es bs' N'"
      "r = ok \<and> (\<forall>k. queues s' N' k = map init_msg (filter (\<lambda>e. e_init e \<and> unat (e_priority e) = k) es)) \<or>
       r = Inl ENOMEM"
      using emos_init_loop_spec [OF es(2), of 0 c] es(3) by (auto simp: queues_def)
    then show ?thesis using code by auto
  qed
qed

theorem emos_init_posts_init_events_witness:
  "\<exists>r s'. emos_init Entry_Table 0x20000000 256 (Some demo_entries) 3 demo_bus = Some (r, s')"
  using emos_init_posts_init_events [of "0x20000000" 256 Entry_Table "Some demo_entries" 3 demo_bus]
  by (auto simp: demo_entries_length)

text \<open>One processing step serves the first message of the most urgent non-empty queue: its
  registered handler is called on the message's contents (a message for an unknown task is
  dropped), the message is removed and its block freed, no other message is lost, changed or
  reordered, and what the handler posts goes to the ends of the queues.\<close>

theorem process_serves_most_urgent:
  assumes "bus_handlers be call" "emos_bus be s es bs N" "next_prio (queues s N) = Some k"
  shows "\<exists>s1 s' bs' N'. emos_process be call no_async s = Some (Inr 1, s') \<and>
    dispatches be call (hd (queues s N k)) s s1 \<and> emos_bus be s' es bs' N' \<and>
    (\<forall>j. \<exists>ms. queues s' N' j = (if j = k then tl (queues s N k) else queues s N j) @ ms)"
proof -
  obtain s1 s' bs' N' where
    "emos_process_queued_event be call s = Some (1, s')"
    "dispatches be call (hd (queues s N k)) s s1" "emos_bus be s' es bs' N'"
    "\<forall>j. \<exists>ms. queues s' N' j = (if j = k then tl (queues s N k) else queues s N j) @ ms"
    using bus_handlers.queued_step [OF assms] by blast
  then show ?thesis
    by (intro exI [of _ s1] exI [of _ s'] exI [of _ bs'] exI [of _ N'])
      (simp add: emos_process_eq [OF assms(2)])
qed

lemma demo_bus_one:
  "\<exists>(s :: (emos_ctx list) emos_scheme) bs N. emos_bus Entry_Table s demo_entries bs N \<and>
     queues s N = (\<lambda>_. [])(2 := [\<lparr>ctx_task_id = 9, ctx_id = 5, ctx_payload = [1, 2]\<rparr>]) \<and>
     emos.more s = [] \<and> poll_next_index s = 0"
proof -
  have room: "pool_has_room demo_bus [] 18"
    using pool_inv_cong(2) [of demo_bus demo_pool 0]
    by (simp add: pool_has_room_def demo_bus_def demo_pool_fields round_up4_def)
  have "payload_ok (Some [1, 2]) 2" by (simp add: payload_ok_def)
  moreover have f: "emos.more demo_bus = []" "poll_next_index demo_bus = 0"
    by (simp_all add: demo_bus_def)
  ultimately obtain r and s' :: "(emos_ctx list) emos_scheme" and bs' N' where
    "emos_bus Entry_Table s' demo_entries bs' N'"
    "(r, queues s' N') = spec_post demo_entries True 9 5 (Some [1, 2]) 2 (\<lambda>_. [])"
    "emos.more s' = []" "poll_next_index s' = 0"
    using room demo_bus_ok(2) emos_post_total [OF demo_bus_ok(1), of "Some [1, 2]" 2 9 5] by auto
  moreover have "spec_post demo_entries True 9 5 (Some [1, 2]) 2 (\<lambda>_. []) =
      (ok, (\<lambda>_. [])(2 := [\<lparr>ctx_task_id = 9, ctx_id = 5, ctx_payload = [1, 2]\<rparr>]))"
    by (simp add: spec_post_def demo_entries_def EMOS_TASK_ENTRY_def EMOS_TASK_ENTRY_POLL_def post_ctx_def)
  ultimately show ?thesis by auto
qed

theorem process_serves_most_urgent_witness:
  "\<exists>s s'. emos_process Entry_Table (post_handlers Entry_Table silent) no_async s = Some (Inr 1, s')"
proof -
  obtain s :: "(emos_ctx list) emos_scheme" and bs N where s: "emos_bus Entry_Table s demo_entries bs N"
    "queues s N = (\<lambda>_. [])(2 := [\<lparr>ctx_task_id = 9, ctx_id = 5, ctx_payload = [1, 2]\<rparr>])"
    using demo_bus_one by blast
  have "next_prio (queues s N) = Some 2" by (simp add: s(2) next_prio_def)
  from process_serves_most_urgent [OF ph.bus_handlers_axioms s(1) this] show ?thesis by blast
qed

text \<open>C4: every queued message is served, in order, and its memory comes back.  With handlers that
  do not post, as many processing steps as there are pending messages call the handlers of all of
  them, by priority and first in first out within a priority, and leave the queues empty and the
  pool without a single block.\<close>

theorem bus_drains_in_order:
  assumes "emos_bus be s es bs N" "length (pending (queues s N)) = n"
  shows "\<exists>s' N'. emos_run n be (post_handlers be silent) no_async s = Some s' \<and>
    emos_bus be s' es [] N' \<and> pending (queues s' N') = [] \<and>
    high_water 0 s' = heap_of_memory s' 0 \<and>
    emos.more s' = emos.more s @ filter (known es) (pending (queues s N))"
  using drain_spec [OF assms] pending_empty_pool by (metis (no_types, lifting))

theorem bus_drains_in_order_witness:
  "\<exists>s s'. emos_run 1 Entry_Table (post_handlers Entry_Table silent) no_async s = Some s' \<and>
     emos.more s' = [\<lparr>ctx_task_id = 9, ctx_id = 5, ctx_payload = [1, 2]\<rparr>] \<and>
     high_water 0 s' = heap_of_memory s' 0"
proof -
  let ?c = "\<lparr>ctx_task_id = 9, ctx_id = 5, ctx_payload = [1, 2 :: byte]\<rparr>"
  obtain s :: "(emos_ctx list) emos_scheme" and bs N where s: "emos_bus Entry_Table s demo_entries bs N"
    "queues s N = (\<lambda>_. [])(2 := [?c])" "emos.more s = []"
    using demo_bus_one by blast
  have p: "pending (queues s N) = [?c]" by (simp add: s(2) pending_def)
  then have "length (pending (queues s N)) = 1" by simp
  moreover have "known demo_entries ?c"
    by (simp add: known_def demo_entries_def EMOS_TASK_ENTRY_def EMOS_TASK_ENTRY_POLL_def)
  ultimately show ?thesis using bus_drains_in_order [OF s(1), of 1] s(3) p by auto
qed

text \<open>Polling is fair.  With nothing queued, as many processing steps as there are poll tasks
  call each of them exactly once, starting after the task that was polled last.\<close>

theorem polling_round_robin:
  assumes "emos_bus be s es bs N" "pending (queues s N) = []" "poll_next_index s < length es"
  shows "\<exists>s'. emos_run (length (filter e_always es)) be (post_handlers be silent) no_async s = Some s' \<and>
    emos.more s' = emos.more s @ map poll_ctx (filter e_always (rotate (poll_next_index s) es))"
  using poll_run [OF assms le_refl] by (auto simp: length_filter_rotate)

theorem polling_round_robin_witness:
  "\<exists>s'. emos_run 1 Entry_Table (post_handlers Entry_Table silent) no_async demo_bus = Some s' \<and>
     emos.more s' = [\<lparr>ctx_task_id = 9, ctx_id = 0x20000000, ctx_payload = []\<rparr>]"
proof -
  have "pending (queues demo_bus (\<lambda>_. [])) = []" by (simp add: demo_bus_ok(2) pending_def)
  moreover have "poll_next_index demo_bus = 0" "emos.more demo_bus = []" by (simp_all add: demo_bus_def)
  moreover have "filter e_always demo_entries = [EMOS_TASK_ENTRY_POLL 9 2 0x201]"
    by (simp add: demo_entries_def EMOS_TASK_ENTRY_def EMOS_TASK_ENTRY_POLL_def)
  moreover have "poll_ctx (EMOS_TASK_ENTRY_POLL 9 2 0x201) =
      \<lparr>ctx_task_id = 9, ctx_id = 0x20000000, ctx_payload = []\<rparr>"
    by (simp add: poll_ctx_def EMOS_TASK_ENTRY_POLL_def SYS_EVT_def EMOS_CTX_ID_def CTX_SYS_SHIFT_def
        CTX_APP_SHIFT_def EMOS_SYS_POLL_def CTX_SYS_MASK_def CTX_APP_MASK_def)
  ultimately show ?thesis
    using polling_round_robin [OF demo_bus_ok(1)] by (simp add: demo_entries_length)
qed

text \<open>A payload length within 16 bytes of 4 GiB wraps the allocation size: the message is
  accepted with a block smaller than its own header, so the copy runs past the block.\<close>

theorem emos_post_size_wrap:
  assumes "entry_count s \<noteq> 0" "emos_entry_find be t s = Some e"
    and "unat (e_priority e) < EMOS_TASK_PRIORITY_NUMBER"
    and "4294967284 \<le> plen" "plen < 4294967296" "payload \<noteq> None"
    and "linklist_new 0 (Some (task_tbl s (unat (e_priority e)))) (plen - 4294967280) s = Some (s1, h, p)"
    and "p \<noteq> NULL"
  shows "\<exists>s'. emos_post be t cid payload plen s = Some (ok, s') \<and> plen - 4294967280 < 16"
proof -
  have "u32 (PROC_SIZE + CTX_SIZE + plen) = plen - 4294967280"
    using assms(4,5) by (simp add: PROC_SIZE_def CTX_SIZE_def u32_def le_mod_geq)
  moreover have "\<not> 65535 < plen - 4294967280" "plen - 4294967280 < 16" using assms(4,5) by arith+
  ultimately show ?thesis
    using assms(1-3,6-8) by (simp add: emos_post_def Let_def)
qed

theorem emos_post_size_wrap_witness:
  "\<exists>s'. emos_post Entry_Table 9 5 (Some []) 4294967290 demo_bus = Some (ok, s')"
proof -
  have inv: "pool_inv 0 demo_bus []" and pl: "plist 0 demo_bus [] NULL []"
    using demo_bus_ok(1) by (simp_all add: emos_bus_def emos_rep_def)
  have hw: "high_water 0 demo_bus = 536870912" "top_of_heap demo_bus 0 = 536871167"
    using pool_inv_cong(2) [of demo_bus demo_pool 0] by (simp_all add: demo_bus_def demo_pool_fields)
  have "\<exists>s1 h q. linklist_new 0 (Some NULL) 10 demo_bus = Some (s1, h, q) \<and> q \<noteq> NULL"
    by (rule linklist_new_cases [OF inv pl, of 10]) (use hw in \<open>auto simp: round_up4_def\<close>)
  then obtain s1 h q where l: "linklist_new 0 (Some NULL) 10 demo_bus = Some (s1, h, q)" "q \<noteq> NULL"
    by blast
  have e: "emos_entry_find Entry_Table 9 demo_bus = Some (EMOS_TASK_ENTRY_POLL 9 2 0x201)"
    by (simp add: tbl_entry_find_def demo_bus_def demo_entries_def EMOS_TASK_ENTRY_def
        EMOS_TASK_ENTRY_POLL_def numeral_3_eq_3)
  have pri: "unat (e_priority (EMOS_TASK_ENTRY_POLL 9 2 0x201)) = 2"
    by (simp add: EMOS_TASK_ENTRY_POLL_def)
  have "\<exists>s'. emos_post Entry_Table 9 5 (Some []) 4294967290 demo_bus = Some (ok, s') \<and>
      4294967290 - 4294967280 < (16 :: nat)"
    by (rule emos_post_size_wrap [OF _ e])
      (use l pri in \<open>simp_all add: EMOS_TASK_PRIORITY_NUMBER_def demo_bus_def\<close>)
  then show ?thesis by blast
qed

end
