(* ===== verification/Rtbus.thy ===== *)
theory Rtbus
  imports Emos
begin

text \<open>
  The public facade \<open>zephyr/modules/rtbus/src/rtbus.c\<close> with its delayed events, the event
  semaphore of \<open>services/rtbus_event.c\<close> and the runtime thread of \<open>services/rtbus_runtime.c\<close>.

  \<open>k_uptime_get_32\<close> is an argument \<open>now\<close>, a 32-bit millisecond counter that wraps.  The runtime
  loop is modelled one iteration at a time, over the list of clock readings its iterations make;
  a wait that would block is an outcome.
\<close>

section \<open>State\<close>

definition DELAYED_EVENT_DEPTH :: nat where [layout_defs]: "DELAYED_EVENT_DEPTH = 8"
definition DELAYED_EVENT_PAYLOAD_MAX :: nat where [layout_defs]: "DELAYED_EVENT_PAYLOAD_MAX = 32"

record rtbus_delayed_event =
  used :: bool
  d_task_id :: byte
  d_ctx_id :: "32 word"
  d_payload_len :: nat
  due_ms :: "32 word"
  d_payload :: "byte list"

record rtbus = emos +
  delayed_events :: "rtbus_delayed_event list"

definition zero_event :: rtbus_delayed_event where
  "zero_event = \<lparr>used = False, d_task_id = 0, d_ctx_id = 0, d_payload_len = 0, due_ms = 0,
     d_payload = replicate DELAYED_EVENT_PAYLOAD_MAX 0\<rparr>"

section \<open>Operations\<close>

definition rtbus_due_reached :: "32 word \<Rightarrow> 32 word \<Rightarrow> bool" where
  "rtbus_due_reached now due \<longleftrightarrow> 0 \<le> sint (now - due)"

definition rtbus_timeout_until :: "32 word \<Rightarrow> 32 word \<Rightarrow> int" where
  "rtbus_timeout_until now due =
     (let timeout_ms = sint (due - now) in if timeout_ms < 0 then 0 else timeout_ms)"

definition rtbus_reset_delayed_events :: "'a rtbus_scheme \<Rightarrow> 'a rtbus_scheme" where
  "rtbus_reset_delayed_events s =
     s\<lparr>delayed_events := replicate DELAYED_EVENT_DEPTH zero_event\<rparr>"

definition rtbus_init ::
    "backend \<Rightarrow> nat \<Rightarrow> nat \<Rightarrow> emos_entry list option \<Rightarrow> nat \<Rightarrow> 'a rtbus_scheme \<Rightarrow>
     (rc \<times> 'a rtbus_scheme) option" where
  "rtbus_init be pool_addr pool_size entry_tbl n s = do {
     let s = rtbus_reset_delayed_events s;
     (rc, s) \<leftarrow> emos_init be pool_addr pool_size entry_tbl n s;
     let s = (if rc \<noteq> ok then rtbus_reset_delayed_events s else s);
     Some (rc, s)
   }"

definition rtbus_post ::
    "backend \<Rightarrow> byte \<Rightarrow> 32 word \<Rightarrow> byte list option \<Rightarrow> nat \<Rightarrow> 'a emos_scheme \<Rightarrow>
     (rc \<times> 'a emos_scheme) option" where
  "rtbus_post be task_id cid payload payload_len s = do {
     (rc, s) \<leftarrow> emos_post be task_id cid payload payload_len s;
     if rc = Inl ENOENT then Some (Inl ENOTSUP, s) else Some (rc, s)
   }"

text \<open>The first free slot, from index \<open>i\<close> on.\<close>

fun free_slot :: "rtbus_delayed_event list \<Rightarrow> nat \<Rightarrow> nat option" where
  "free_slot [] i = None"
| "free_slot (ev # evs) i = (if \<not> used ev then Some i else free_slot evs (i + 1))"

definition rtbus_post_delay ::
    "backend \<Rightarrow> byte \<Rightarrow> 32 word \<Rightarrow> byte list option \<Rightarrow> nat \<Rightarrow> 32 word \<Rightarrow> 32 word \<Rightarrow>
     'a rtbus_scheme \<Rightarrow> (rc \<times> 'a rtbus_scheme) option" where
  "rtbus_post_delay be task_id cid payload payload_len delay_ms now s =
     (if delay_ms = 0 then rtbus_post be task_id cid payload payload_len s
      else if payload_len \<noteq> 0 \<and> payload = None then Some (Inl EINVAL, s)
      else if DELAYED_EVENT_PAYLOAD_MAX < payload_len then Some (Inl EMSGSIZE, s)
      else case free_slot (delayed_events s) 0 of
        None \<Rightarrow> Some (Inl ENOMEM, s)
      | Some i \<Rightarrow>
          let event = (delayed_events s ! i)
                \<lparr>used := True, d_task_id := task_id, d_ctx_id := cid,
                 d_payload_len := payload_len, due_ms := now + delay_ms\<rparr>;
              event = (case payload of
                  None \<Rightarrow> event
                | Some p \<Rightarrow>
                    if payload_len \<noteq> 0
                    then event\<lparr>d_payload := take payload_len p @ drop payload_len (d_payload event)\<rparr>
                    else event);
              s = s\<lparr>delayed_events := (delayed_events s)[i := event]\<rparr>
          in Some (ok, rtbus_post_after task_id cid payload payload_len s))"

fun next_timeout_loop :: "32 word \<Rightarrow> rtbus_delayed_event list \<Rightarrow> bool \<Rightarrow> int \<Rightarrow> bool \<times> int" where
  "next_timeout_loop now [] found next_timeout_ms = (found, next_timeout_ms)"
| "next_timeout_loop now (ev # evs) found next_timeout_ms =
     (if \<not> used ev then next_timeout_loop now evs found next_timeout_ms
      else
        let timeout_ms = rtbus_timeout_until now (due_ms ev)
        in if \<not> found \<or> timeout_ms < next_timeout_ms
           then next_timeout_loop now evs True timeout_ms
           else next_timeout_loop now evs found next_timeout_ms)"

definition rtbus_next_timeout_ms :: "32 word \<Rightarrow> 'a rtbus_scheme \<Rightarrow> int" where
  "rtbus_next_timeout_ms now s =
     (let (found, next_timeout_ms) = next_timeout_loop now (delayed_events s) False 0
      in if found then next_timeout_ms else -1)"

fun move_due_loop ::
    "backend \<Rightarrow> 32 word \<Rightarrow> nat \<Rightarrow> nat \<Rightarrow> 'a rtbus_scheme \<Rightarrow> (rc \<times> 'a rtbus_scheme) option" where
  "move_due_loop be now i 0 s = Some (ok, s)"
| "move_due_loop be now i (Suc n) s =
     (let event = delayed_events s ! i
      in if \<not> used event \<or> \<not> rtbus_due_reached now (due_ms event) then move_due_loop be now (i + 1) n s
      else do {
        (rc, s) \<leftarrow> emos_post be (d_task_id event) (d_ctx_id event)
                    (if d_payload_len event = 0 then None else Some (d_payload event))
                    (d_payload_len event) s;
        if rc \<noteq> ok then Some (rc, s)
        else move_due_loop be now (i + 1) n
               (s\<lparr>delayed_events := (delayed_events s)[i := zero_event]\<rparr>)
      })"

definition rtbus_move_due_events ::
    "backend \<Rightarrow> 32 word \<Rightarrow> 'a rtbus_scheme \<Rightarrow> (rc \<times> 'a rtbus_scheme) option" where
  "rtbus_move_due_events be now s = move_due_loop be now 0 DELAYED_EVENT_DEPTH s"

definition rtbus_process ::
    "backend \<Rightarrow> 'a rtbus_scheme handlers \<Rightarrow> ('a rtbus_scheme \<Rightarrow> (rc \<times> 'a rtbus_scheme) option) \<Rightarrow>
     32 word \<Rightarrow> 'a rtbus_scheme \<Rightarrow> ((errno + nat) \<times> 'a rtbus_scheme) option" where
  "rtbus_process be call async now s = do {
     (rc, s) \<leftarrow> rtbus_move_due_events be now s;
     case rc of
       Inl e \<Rightarrow> Some (Inl e, s)
     | Inr _ \<Rightarrow> emos_process be call async s
   }"

section \<open>The runtime thread\<close>

text \<open>\<open>k_sem_take\<close> with a timeout: taken at once, or the thread blocks for up to that time.\<close>

datatype wait = Taken | Blocks int

definition runtime_event_wait :: "int \<Rightarrow> 'a emos_scheme \<Rightarrow> wait \<times> 'a emos_scheme" where
  "runtime_event_wait timeout_ms s =
     (if 0 < event_sem s then (Taken, s\<lparr>event_sem := event_sem s - 1\<rparr>) else (Blocks timeout_ms, s))"

text \<open>One round of the loop, with the two clock readings it makes and
  \<open>CONFIG_RTBUS_RUNTIME_TIMEOUT_MAX_MS\<close>.\<close>

definition runtime_round ::
    "backend \<Rightarrow> 'a rtbus_scheme handlers \<Rightarrow> ('a rtbus_scheme \<Rightarrow> (rc \<times> 'a rtbus_scheme) option) \<Rightarrow>
     int \<Rightarrow> 32 word \<Rightarrow> 32 word \<Rightarrow> 'a rtbus_scheme \<Rightarrow> (wait \<times> 'a rtbus_scheme) option" where
  "runtime_round be call async timeout_max now now2 s = do {
     (ret, s) \<leftarrow> rtbus_process be call async now s;
     let timeout_ms = rtbus_next_timeout_ms now2 s;
     let timeout_ms = (if timeout_ms < 0 \<or> timeout_max < timeout_ms then timeout_max else timeout_ms);
     Some (runtime_event_wait timeout_ms s)
   }"

fun runtime_rounds ::
    "backend \<Rightarrow> 'a rtbus_scheme handlers \<Rightarrow> ('a rtbus_scheme \<Rightarrow> (rc \<times> 'a rtbus_scheme) option) \<Rightarrow>
     int \<Rightarrow> (32 word \<times> 32 word) list \<Rightarrow> 'a rtbus_scheme \<Rightarrow> (wait list \<times> 'a rtbus_scheme) option" where
  "runtime_rounds be call async timeout_max [] s = Some ([], s)"
| "runtime_rounds be call async timeout_max ((now, now2) # clock) s = do {
     (w, s) \<leftarrow> runtime_round be call async timeout_max now now2 s;
     (ws, s) \<leftarrow> runtime_rounds be call async timeout_max clock s;
     Some (w # ws, s)
   }"

text \<open>The thread: it ends when initialisation fails and otherwise runs its loop.\<close>

definition rtbus_runtime_thread_entry ::
    "backend \<Rightarrow> 'a rtbus_scheme handlers \<Rightarrow> ('a rtbus_scheme \<Rightarrow> (rc \<times> 'a rtbus_scheme) option) \<Rightarrow>
     int \<Rightarrow> nat \<Rightarrow> nat \<Rightarrow> (32 word \<times> 32 word) list \<Rightarrow> 'a rtbus_scheme \<Rightarrow>
     (wait list \<times> 'a rtbus_scheme) option" where
  "rtbus_runtime_thread_entry be call async timeout_max pool_addr pool_size clock s = do {
     (ret, s) \<leftarrow> rtbus_init be pool_addr pool_size None 0 s;
     if ret \<noteq> ok then Some ([], s) else runtime_rounds be call async timeout_max clock s
   }"

section \<open>Delayed events\<close>

definition delayed_ok :: "'a rtbus_scheme \<Rightarrow> bool" where
  "delayed_ok s \<longleftrightarrow> length (delayed_events s) = DELAYED_EVENT_DEPTH \<and>
     (\<forall>ev \<in> set (delayed_events s).
        length (d_payload ev) = DELAYED_EVENT_PAYLOAD_MAX \<and> d_payload_len ev \<le> DELAYED_EVENT_PAYLOAD_MAX)"

text \<open>The message a delayed event stands for, and whether it is to be moved.\<close>

definition event_msg :: "rtbus_delayed_event \<Rightarrow> emos_ctx" where
  "event_msg ev = \<lparr>ctx_task_id = d_task_id ev, ctx_id = d_ctx_id ev,
     ctx_payload = take (d_payload_len ev) (d_payload ev)\<rparr>"

definition is_due :: "32 word \<Rightarrow> rtbus_delayed_event \<Rightarrow> bool" where
  "is_due now ev \<longleftrightarrow> used ev \<and> rtbus_due_reached now (due_ms ev)"

definition clear_due :: "32 word \<Rightarrow> rtbus_delayed_event \<Rightarrow> rtbus_delayed_event" where
  "clear_due now ev = (if is_due now ev then zero_event else ev)"

text \<open>The messages of a priority among the due events.\<close>

definition due_msgs :: "emos_entry list \<Rightarrow> 32 word \<Rightarrow> rtbus_delayed_event list \<Rightarrow> nat \<Rightarrow> emos_ctx list" where
  "due_msgs es now evs k =
     map event_msg (filter (\<lambda>ev. is_due now ev \<and>
       (\<exists>e \<in> set es. e_task_id e = d_task_id ev \<and> unat (e_priority e) = k)) evs)"

lemma more_fields:
  fixes s s' :: "'a rtbus_scheme"
  assumes "emos.more s' = emos.more s"
  shows "delayed_events s' = delayed_events s" "rtbus.more s' = rtbus.more s"
  using assms by (cases s; cases s'; simp)+

lemma emos_bus_delayed [simp]:
  fixes s :: "'a rtbus_scheme"
  shows "emos_bus be (s\<lparr>delayed_events := d\<rparr>) es bs N = emos_bus be s es bs N"
    "queues (s\<lparr>delayed_events := d\<rparr>) N = queues s N"
proof -
  have "pool_inv 0 (s\<lparr>delayed_events := d\<rparr>) bs = pool_inv 0 s bs" by (rule pool_inv_cong) simp_all
  then have "emos_rep (s\<lparr>delayed_events := d\<rparr>) bs N = emos_rep s bs N"
    by (simp add: emos_rep_def plist_def)
  moreover have "backend_holds be (s\<lparr>delayed_events := d\<rparr>) es = backend_holds be s es"
    by (rule backend_holds_cong) simp_all
  ultimately show "emos_bus be (s\<lparr>delayed_events := d\<rparr>) es bs N = emos_bus be s es bs N"
    by (simp add: emos_bus_def)
  show "queues (s\<lparr>delayed_events := d\<rparr>) N = queues s N" by (simp add: fun_eq_iff queues_def)
qed

lemma find_table:
  assumes "table_ok es" "List.find (\<lambda>e. e_task_id e = t) es = Some e"
  shows "e \<in> set es" "e_task_id e = t"
    "(\<exists>x \<in> set es. e_task_id x = t \<and> unat (e_priority x) = k) \<longleftrightarrow> unat (e_priority e) = k"
proof -
  show e: "e \<in> set es" "e_task_id e = t" using assms(2) by (auto simp: find_Some_iff)
  have "x = e" if "x \<in> set es" "e_task_id x = t" for x
    using assms(1) that e by (metis distinct_map inj_onD table_ok_def)
  with e show "(\<exists>x \<in> set es. e_task_id x = t \<and> unat (e_priority x) = k) \<longleftrightarrow> unat (e_priority e) = k"
    by blast
qed

text \<open>The loop of \<open>rtbus_move_due_events\<close> over the slots \<open>evs\<close> it started with: it stops at some
  slot \<open>j\<close>, everything due before \<open>j\<close> has moved to its queue, everything else is in place.\<close>

lemma move_due_loop_spec:
  fixes s :: "'a rtbus_scheme"
  assumes "emos_bus be s es bs N" "i + n = length evs"
    and "delayed_events s = map (clear_due now) (take i evs) @ drop i evs"
    and "\<forall>ev \<in> set evs. length (d_payload ev) = DELAYED_EVENT_PAYLOAD_MAX \<and>
      d_payload_len ev \<le> DELAYED_EVENT_PAYLOAD_MAX"
  shows "\<exists>r s' bs' N' j. move_due_loop be now i n s = Some (r, s') \<and> emos_bus be s' es bs' N' \<and>
    i \<le> j \<and> j \<le> length evs \<and> delayed_events s' = map (clear_due now) (take j evs) @ drop j evs \<and>
    (\<forall>k. queues s' N' k = queues s N k @ due_msgs es now (drop i (take j evs)) k) \<and>
    (if r = ok then j = length evs else j < length evs \<and> is_due now (evs ! j) \<and>
       (r = Inl ENOENT \<and> d_task_id (evs ! j) \<notin> e_task_id ` set es \<or>
        r = Inl ENOMEM \<and> \<not> pool_has_room s' bs' (16 + d_payload_len (evs ! j)))) \<and>
    poll_next_index s' = poll_next_index s \<and> rtbus.more s' = rtbus.more s"
  using assms(1-3)
proof (induction n arbitrary: i s bs N)
  case 0
  then show ?case
    by (intro exI [of _ ok] exI [of _ s] exI [of _ bs] exI [of _ N] exI [of _ i])
      (simp add: due_msgs_def)
next
  case (Suc n)
  let ?ev = "evs ! i"
  have i: "i < length evs" using Suc.prems(2) by simp
  have ev: "delayed_events s ! i = ?ev" using i by (simp add: Suc.prems(3) nth_append)
  have take: "take (Suc i) evs = take i evs @ [?ev]" "drop i evs = ?ev # drop (Suc i) evs"
    using i by (simp_all add: take_Suc_conv_app_nth Cons_nth_drop_Suc)
  have dt: "drop i (take j evs) = ?ev # drop (Suc i) (take j evs)" if "Suc i \<le> j" for j
    using i that by (simp add: Cons_nth_drop_Suc [symmetric])
  show ?case
  proof (cases "is_due now ?ev")
    case False
    have prem: "delayed_events s = map (clear_due now) (take (Suc i) evs) @ drop (Suc i) evs"
      using Suc.prems(3) False take by (simp add: clear_due_def)
    have run: "move_due_loop be now i (Suc n) s = move_due_loop be now (Suc i) n s"
      using False ev by (simp add: is_due_def)
    have "due_msgs es now (drop i (take j evs)) k = due_msgs es now (drop (Suc i) (take j evs)) k"
      if "Suc i \<le> j" for j k
      using dt [OF that] False by (simp add: due_msgs_def)
    with Suc.IH [OF Suc.prems(1) _ prem] Suc.prems(2) run show ?thesis
      by (metis Suc_leD add_Suc_shift)
  next
    case True
    let ?pay = "if d_payload_len ?ev = 0 then None else Some (d_payload ?ev)"
    have len: "length (d_payload ?ev) = 32" "d_payload_len ?ev \<le> 32"
      using assms(4) i by (auto simp: DELAYED_EVENT_PAYLOAD_MAX_def)
    have pok: "payload_ok ?pay (d_payload_len ?ev)" "d_payload_len ?ev < 4294967280"
      using len by (auto simp: payload_ok_def)
    obtain r s1 bs1 N1 where
      P: "emos_post be (d_task_id ?ev) (d_ctx_id ?ev) ?pay (d_payload_len ?ev) s = Some (r, s1)"
        "emos_bus be s1 es bs1 N1"
        "(r, queues s1 N1) = spec_post es (pool_has_room s bs (16 + d_payload_len ?ev)) (d_task_id ?ev)
           (d_ctx_id ?ev) ?pay (d_payload_len ?ev) (queues s N)"
        "poll_next_index s1 = poll_next_index s" "emos.more s1 = emos.more s"
        "r \<noteq> ok \<longrightarrow> pool_has_room s1 bs1 = pool_has_room s bs"
      using emos_post_total [OF Suc.prems(1) pok, of "d_task_id ?ev" "d_ctx_id ?ev"] by blast
    let ?k = "\<lambda>e. unat (e_priority e)"
    have msg: "post_ctx (d_task_id ?ev) (d_ctx_id ?ev) ?pay (d_payload_len ?ev) = event_msg ?ev"
      by (simp add: post_ctx_def event_msg_def)
    have ok_es: "table_ok es" using Suc.prems(1) by (simp add: emos_bus_def)
    have code: "move_due_loop be now i (Suc n) s = (if r \<noteq> ok then Some (r, s1)
        else move_due_loop be now (i + 1) n (s1\<lparr>delayed_events := (delayed_events s1)[i := zero_event]\<rparr>))"
      using True ev P(1) by (simp add: is_due_def)
    show ?thesis
    proof (cases "r = ok")
      case False
      then have q: "queues s1 N1 = queues s N" and
        r: "r = Inl ENOENT \<and> d_task_id ?ev \<notin> e_task_id ` set es \<or>
            r = Inl ENOMEM \<and> \<not> pool_has_room s bs (16 + d_payload_len ?ev)"
        using P(3) len by (auto simp: spec_post_def find_None_iff split: option.splits if_splits)
      have "delayed_events s1 = delayed_events s" using more_fields(1) [OF P(5)] .
      then show ?thesis
        using code False q r P(2,4,6) True i Suc.prems(3) more_fields(2) [OF P(5)]
        by (intro exI [of _ r] exI [of _ s1] exI [of _ bs1] exI [of _ N1] exI [of _ i])
          (simp add: due_msgs_def)
    next
      case r: True
      then obtain e where e: "List.find (\<lambda>e. e_task_id e = d_task_id ?ev) es = Some e"
        "queues s1 N1 = (queues s N)(?k e := queues s N (?k e) @ [event_msg ?ev])"
        using P(3) msg by (auto simp: spec_post_def split: option.splits if_splits)
      note F = find_table [OF ok_es e(1)]
      define s2 where "s2 = s1\<lparr>delayed_events := (delayed_events s1)[i := zero_event]\<rparr>"
      have d2: "delayed_events s2 = map (clear_due now) (take (Suc i) evs) @ drop (Suc i) evs"
      proof -
        have "clear_due now ?ev = zero_event" using True by (simp add: clear_due_def)
        moreover have "length (map (clear_due now) (take i evs)) = i" using i by simp
        ultimately show ?thesis
          using more_fields(1) [OF P(5)] Suc.prems(3) take
          by (simp add: s2_def list_update_append)
      qed
      have b2: "emos_bus be s2 es bs1 N1" using P(2) by (simp add: s2_def)
      have q2: "queues s2 N1 k @ due_msgs es now (drop (Suc i) (take j evs)) k =
          queues s N k @ due_msgs es now (drop i (take j evs)) k" if "Suc i \<le> j" for k j
        using e(2) F(3) [of k] dt [OF that] True by (auto simp: s2_def due_msgs_def)
      obtain r' s' bs' N' j where IH: "move_due_loop be now (Suc i) n s2 = Some (r', s')"
        "emos_bus be s' es bs' N'" "Suc i \<le> j" "j \<le> length evs"
        "delayed_events s' = map (clear_due now) (take j evs) @ drop j evs"
        "\<forall>k. queues s' N' k = queues s2 N1 k @ due_msgs es now (drop (Suc i) (take j evs)) k"
        "if r' = ok then j = length evs else j < length evs \<and> is_due now (evs ! j) \<and>
           (r' = Inl ENOENT \<and> d_task_id (evs ! j) \<notin> e_task_id ` set es \<or>
            r' = Inl ENOMEM \<and> \<not> pool_has_room s' bs' (16 + d_payload_len (evs ! j)))"
        "poll_next_index s' = poll_next_index s2" "rtbus.more s' = rtbus.more s2"
        using Suc.IH [OF b2 _ d2] Suc.prems(2) by auto
      show ?thesis
        using IH code r q2 [OF IH(3)] P(4) more_fields(2) [OF P(5)]
        by (intro exI [of _ r'] exI [of _ s'] exI [of _ bs'] exI [of _ N'] exI [of _ j])
          (simp add: s2_def)
    qed
  qed
qed

lemma next_timeout_loop_spec:
  "next_timeout_loop now evs f v =
    (let ts = map (\<lambda>ev. rtbus_timeout_until now (due_ms ev)) (filter used evs)
     in (f \<or> ts \<noteq> [], if f then fold min ts v else if ts = [] then v else fold min (tl ts) (hd ts)))"
proof (induction now evs f v rule: next_timeout_loop.induct)
  case (1 now f v)
  then show ?case by simp
next
  case (2 now ev evs f v)
  then show ?case by (auto simp: Let_def min_def)
qed

lemma fold_min_Min: "fold min ts (t :: int) = Min (set (t # ts))"
  by (simp only: Min.set_eq_fold)

lemma free_slot_spec:
  "case free_slot evs i of
     None \<Rightarrow> \<forall>ev \<in> set evs. used ev
   | Some j \<Rightarrow> i \<le> j \<and> j < i + length evs \<and> \<not> used (evs ! (j - i)) \<and> (\<forall>k < j - i. used (evs ! k))"
proof (induction evs arbitrary: i)
  case Nil
  then show ?case by simp
next
  case (Cons ev evs)
  show ?case
  proof (cases "used ev")
    case False
    then show ?thesis by simp
  next
    case True
    then show ?thesis using Cons [of "Suc i"]
      by (auto split: option.splits simp: nth_Cons' less_Suc_eq_0_disj)
  qed
qed

definition idle_handlers :: "'s handlers" where
  "idle_handlers f c s = Some s"

lemma idle_step:
  fixes s :: "'a emos_scheme"
  assumes bus: "emos_bus be s es bs N" and k: "next_prio (queues s N) = Some k"
  shows "\<exists>s' bs' N'. emos_process be idle_handlers no_async s = Some (Inr 1, s') \<and>
    emos_bus be s' es bs' N' \<and> queues s' N' = (queues s N)(k := tl (queues s N k)) \<and>
    event_sem s' = event_sem s \<and> emos.more s' = emos.more s"
proof -
  have idle: "bus_handlers be (idle_handlers :: 'a emos_scheme handlers)"
  proof
    fix s :: "'a emos_scheme" and es bs N f c
    assume "emos_bus be s es bs N"
    then show "\<exists>s' bs' N'. idle_handlers f c s = Some s' \<and> emos_bus be s' es bs' (\<lambda>k. N k @ N' k) \<and>
        (\<forall>k. \<exists>ms. queues s' (\<lambda>k. N k @ N' k) k = queues s N k @ ms) \<and>
        poll_next_index s' = poll_next_index s"
      by (intro exI [of _ s] exI [of _ bs] exI [of _ "\<lambda>_. []"]) (simp add: idle_handlers_def)
  qed
  have rep: "emos_rep s bs N" using bus by (simp add: emos_bus_def)
  obtain s1 s' where A: "emos_process_queued_event be idle_handlers s = Some (1, s')"
      "dispatches be idle_handlers (hd (queues s N k)) s s1" "queue_remove k (task_tbl s k) s1 = Some s'"
    using bus_handlers.queued_step [OF idle bus k] by blast
  have s1: "s1 = s" using A(2) by (auto simp: dispatches_def idle_handlers_def split: option.splits)
  have kk: "k < 3" "queues s N k \<noteq> []" using queued_loop_next(2) [OF rep k] by auto
  obtain p ps where N: "N k = p # ps" using kk(2) by (cases "N k") (auto simp: queues_def)
  have p: "task_tbl s k = p" using emos_repD(2) [OF rep kk(1)] N by (auto dest: plist_head)
  from bus kk(1) N show ?thesis
  proof (cases rule: queue_remove_head)
    case (1 s2 bs2)
    then have "s2 = s'" using A(3) p s1 by simp
    moreover have "emos_process be idle_handlers no_async s = Some (Inr 1, s')"
      using A(1) by (simp add: emos_process_eq [OF bus])
    ultimately show ?thesis using 1
      by (intro exI [of _ s'] exI [of _ bs2] exI [of _ "N(k := ps)"]) simp
  qed
qed

lemma emos_bus_sem [simp]:
  fixes s :: "'a emos_scheme"
  shows "emos_bus be (s\<lparr>event_sem := c\<rparr>) es bs N = emos_bus be s es bs N"
    "queues (s\<lparr>event_sem := c\<rparr>) N = queues s N"
proof -
  have "emos_rep (s\<lparr>event_sem := c\<rparr>) bs N = emos_rep s bs N" by (simp add: emos_rep_def plist_def)
  moreover have "backend_holds be (s\<lparr>event_sem := c\<rparr>) es = backend_holds be s es"
    by (rule backend_holds_cong) simp_all
  ultimately show "emos_bus be (s\<lparr>event_sem := c\<rparr>) es bs N = emos_bus be s es bs N"
    by (simp add: emos_bus_def)
  show "queues (s\<lparr>event_sem := c\<rparr>) N = queues s N" by (simp add: fun_eq_iff queues_def)
qed

lemma no_due_events:
  assumes "delayed_ok s" "\<forall>ev \<in> set (delayed_events s). \<not> used ev"
  shows "rtbus_move_due_events be now s = Some (ok, s)" "rtbus_next_timeout_ms now s = -1"
proof -
  have "move_due_loop be now i n s = Some (ok, s)" if "i + n = length (delayed_events s)" for i n
    using that
  proof (induction n arbitrary: i)
    case (Suc n)
    then have "\<not> used (delayed_events s ! i)" using assms(2) by simp
    then show ?case using Suc by simp
  qed simp
  then show "rtbus_move_due_events be now s = Some (ok, s)"
    using assms(1) by (simp add: rtbus_move_due_events_def delayed_ok_def)
  have "filter used (delayed_events s) = []" using assms(2) by (simp add: filter_empty_conv)
  then show "rtbus_next_timeout_ms now s = -1"
    by (simp add: rtbus_next_timeout_ms_def next_timeout_loop_spec Let_def)
qed

lemma sint_range: "-2147483648 \<le> k \<Longrightarrow> k < 2147483648 \<Longrightarrow> sint (word_of_int k :: 32 word) = k"
  by (simp add: signed_of_int signed_take_bit_int_eq_self)

section \<open>Properties\<close>

text \<open>A running bus with empty queues and no delayed events.\<close>

definition demo_rtbus :: rtbus where
  "demo_rtbus = \<lparr>pool_mem = pool_mem demo_pool, last_heap_object = last_heap_object demo_pool,
     heap_of_memory = heap_of_memory demo_pool, top_of_heap = top_of_heap demo_pool,
     this_active = this_active demo_pool, registered_entries = Some demo_entries,
     registered_entry_count = 3, task_tbl = (\<lambda>_. NULL), entry_count = 3, poll_next_index = 0,
     event_sem = 0, delayed_events = replicate 8 zero_event\<rparr>"

lemma demo_rtbus_ok:
  "emos_bus Entry_Table demo_rtbus demo_entries [] (\<lambda>_. [])" "queues demo_rtbus (\<lambda>_. []) = (\<lambda>_. [])"
  "delayed_ok demo_rtbus"
proof -
  have "pool_inv 0 demo_rtbus []"
    by (rule pool_inv_cong(1) [THEN iffD2, OF _ _ _ _ _ demo_pool_inv]) (simp_all add: demo_rtbus_def)
  then have "emos_rep demo_rtbus [] (\<lambda>_. [])" by (simp add: emos_rep_def demo_rtbus_def)
  then show "emos_bus Entry_Table demo_rtbus demo_entries [] (\<lambda>_. [])"
    using demo_entries_ok by (simp add: emos_bus_def demo_rtbus_def demo_entries_length)
  show "queues demo_rtbus (\<lambda>_. []) = (\<lambda>_. [])" by (simp add: queues_def fun_eq_iff)
  show "delayed_ok demo_rtbus"
    by (simp add: delayed_ok_def demo_rtbus_def zero_event_def DELAYED_EVENT_DEPTH_def)
qed

text \<open>C39: no delayed event is lost or duplicated.  Moving the due events returns, and whatever the
  outcome every due event up to the slot it stopped at is now at the end of its queue and its slot
  is free, and every other slot is untouched; on success it went through all slots, and an error is
  an unknown task or a full pool at the slot it stopped at.\<close>

theorem due_events_move_to_queues:
  assumes "emos_bus be s es bs N" "delayed_ok s"
  shows "\<exists>r s' bs' N' j. rtbus_move_due_events be now s = Some (r, s') \<and> emos_bus be s' es bs' N' \<and>
    j \<le> DELAYED_EVENT_DEPTH \<and>
    delayed_events s' = map (clear_due now) (take j (delayed_events s)) @ drop j (delayed_events s) \<and>
    (\<forall>k. queues s' N' k = queues s N k @ due_msgs es now (take j (delayed_events s)) k) \<and>
    (if r = ok then j = DELAYED_EVENT_DEPTH
     else j < DELAYED_EVENT_DEPTH \<and> is_due now (delayed_events s ! j) \<and>
       (r = Inl ENOENT \<and> d_task_id (delayed_events s ! j) \<notin> e_task_id ` set es \<or>
        r = Inl ENOMEM \<and> \<not> pool_has_room s' bs' (16 + d_payload_len (delayed_events s ! j))))"
proof -
  have len: "0 + DELAYED_EVENT_DEPTH = length (delayed_events s)"
    and all: "\<forall>ev \<in> set (delayed_events s). length (d_payload ev) = DELAYED_EVENT_PAYLOAD_MAX \<and>
      d_payload_len ev \<le> DELAYED_EVENT_PAYLOAD_MAX"
    using assms(2) by (auto simp: delayed_ok_def)
  have init: "delayed_events s =
      map (clear_due now) (take 0 (delayed_events s)) @ drop 0 (delayed_events s)" by simp
  from move_due_loop_spec [OF assms(1) len init all] show ?thesis
    unfolding rtbus_move_due_events_def len [symmetric] drop_0 add_0 by blast
qed

theorem due_events_move_to_queues_witness:
  "\<exists>r s'. rtbus_move_due_events Entry_Table 5 demo_rtbus = Some (r, s')"
  using due_events_move_to_queues [OF demo_rtbus_ok(1,3), of 5] by blast

text \<open>A delayed post with a non-zero delay takes the first free slot, due at now plus the delay
  modulo 2^32, and holds exactly the given bytes; with a missing or too long payload, or all slots
  taken, it fails and changes nothing.  The queues are untouched in every case.\<close>

theorem post_delay_takes_slot:
  assumes "emos_bus be s es bs N" "delayed_ok s" "payload_ok payload plen" "delay \<noteq> 0"
  shows "\<exists>r s'. rtbus_post_delay be t cid payload plen delay now s = Some (r, s') \<and>
    emos_bus be s' es bs N \<and> queues s' N = queues s N \<and> delayed_ok s' \<and>
    (if plen \<noteq> 0 \<and> payload = None then r = Inl EINVAL \<and> s' = s
     else if 32 < plen then r = Inl EMSGSIZE \<and> s' = s
     else if list_all used (delayed_events s) then r = Inl ENOMEM \<and> s' = s
     else r = ok \<and> event_sem s' = 1 \<and>
       (\<exists>i ev. i < 8 \<and> \<not> used (delayed_events s ! i) \<and> (\<forall>k < i. used (delayed_events s ! k)) \<and>
          delayed_events s' = (delayed_events s)[i := ev] \<and> used ev \<and> due_ms ev = now + delay \<and>
          event_msg ev = post_ctx t cid payload plen))"
proof -
  consider (null) "plen \<noteq> 0 \<and> payload = None" | (big) "\<not> (plen \<noteq> 0 \<and> payload = None)" "32 < plen"
    | (fine) "\<not> (plen \<noteq> 0 \<and> payload = None)" "plen \<le> 32" by fastforce
  then show ?thesis
  proof cases
    case null
    then show ?thesis using assms by (simp add: rtbus_post_delay_def)
  next
    case big
    then show ?thesis using assms by (auto simp: rtbus_post_delay_def DELAYED_EVENT_PAYLOAD_MAX_def)
  next
    case fine
    have len: "length (delayed_events s) = 8" using assms(2) by (simp add: delayed_ok_def DELAYED_EVENT_DEPTH_def)
    show ?thesis
    proof (cases "free_slot (delayed_events s) 0")
      case None
      then have "list_all used (delayed_events s)"
        using free_slot_spec [of "delayed_events s" 0] by (simp add: list_all_iff)
      with None fine assms show ?thesis by (auto simp: rtbus_post_delay_def DELAYED_EVENT_PAYLOAD_MAX_def)
    next
      case (Some i)
      then have i: "i < 8" "\<not> used (delayed_events s ! i)" "\<forall>k < i. used (delayed_events s ! k)"
        using free_slot_spec [of "delayed_events s" 0] len by simp_all
      then have nall: "\<not> list_all used (delayed_events s)" using len by (auto simp: list_all_length)
      let ?old = "delayed_events s ! i"
      have old: "length (d_payload ?old) = 32"
        using assms(2) i(1) len by (auto simp: delayed_ok_def DELAYED_EVENT_PAYLOAD_MAX_def)
      define base where "base = ?old\<lparr>used := True, d_task_id := t, d_ctx_id := cid,
        d_payload_len := plen, due_ms := now + delay\<rparr>"
      define ev where "ev = (case payload of None \<Rightarrow> base
        | Some p \<Rightarrow> if plen \<noteq> 0 then base\<lparr>d_payload := take plen p @ drop plen (d_payload base)\<rparr> else base)"
      have F: "used ev" "due_ms ev = now + delay" "event_msg ev = post_ctx t cid payload plen"
        "length (d_payload ev) = 32" "d_payload_len ev = plen"
        using old fine assms(3)
        by (auto simp: ev_def base_def event_msg_def post_ctx_def payload_ok_def split: option.splits)
      define s1 where "s1 = s\<lparr>delayed_events := (delayed_events s)[i := ev]\<rparr>"
      let ?s = "runtime_event_signal s1"
      have run: "rtbus_post_delay be t cid payload plen delay now s = Some (ok, ?s)"
        using Some fine assms(4)
        by (cases payload) (auto simp: rtbus_post_delay_def DELAYED_EVENT_PAYLOAD_MAX_def Let_def
            rtbus_post_after_def s1_def ev_def base_def)
      have b1: "emos_bus be s1 es bs N" "queues s1 N = queues s N"
        using assms(1) by (simp_all add: s1_def)
      have "emos_bus be ?s es bs N"
      proof -
        have "backend_holds be ?s es = backend_holds be s1 es"
          by (rule backend_holds_cong) (simp_all add: runtime_event_signal_def)
        then show ?thesis using b1(1)
          by (simp add: emos_bus_def emos_rep_def plist_def runtime_event_signal_def)
      qed
      moreover have "queues ?s N = queues s N"
        using b1(2) by (simp add: fun_eq_iff queues_def runtime_event_signal_def)
      moreover have "delayed_events ?s = (delayed_events s)[i := ev]"
        by (simp add: runtime_event_signal_def s1_def)
      moreover from this have "delayed_ok ?s"
        using assms(2) F(4,5) fine(2)
        by (auto simp: delayed_ok_def DELAYED_EVENT_PAYLOAD_MAX_def dest!: set_update_subset_insert [THEN subsetD])
      moreover have "event_sem ?s = 1" by (simp add: runtime_event_signal_def)
      ultimately show ?thesis using run fine nall i F by auto
    qed
  qed
qed

theorem post_delay_takes_slot_witness:
  "\<exists>s'. rtbus_post_delay Entry_Table 4 7 (Some [3]) 1 100 0xFFFFFFF0 demo_rtbus = Some (ok, s') \<and>
     (\<exists>ev \<in> set (delayed_events s'). used ev \<and> due_ms ev = 84)"
proof -
  have "payload_ok (Some [3]) 1" by (simp add: payload_ok_def)
  moreover have "\<not> list_all used (delayed_events demo_rtbus)"
    by (simp add: demo_rtbus_def zero_event_def numeral_eq_Suc)
  moreover have "length (delayed_events demo_rtbus) = 8" by (simp add: demo_rtbus_def)
  moreover have "(0xFFFFFFF0 :: 32 word) + 100 = 84" by simp
  ultimately obtain s' i ev where
    "rtbus_post_delay Entry_Table 4 7 (Some [3]) 1 100 0xFFFFFFF0 demo_rtbus = Some (ok, s')"
    "i < length (delayed_events demo_rtbus)" "delayed_events s' = (delayed_events demo_rtbus)[i := ev]"
    "used ev" "due_ms ev = 84"
    using post_delay_takes_slot [OF demo_rtbus_ok(1,3), of "Some [3]" 1 100 4 7 "0xFFFFFFF0"]
    by auto
  moreover from this have "ev \<in> set (delayed_events s')" by (simp add: set_update_memI)
  ultimately show ?thesis by blast
qed

text \<open>The timeout the runtime sleeps for is never too long.  It is -1 exactly when nothing is
  delayed; otherwise it is the smallest time to a due moment (0 when one has passed), so no pending
  event comes due before the sleep ends, and it is the exact wait of one of them.\<close>

theorem next_timeout_is_minimum:
  "(if filter used (delayed_events s) = [] then rtbus_next_timeout_ms now s = -1
    else rtbus_next_timeout_ms now s =
      Min (set (map (\<lambda>ev. max 0 (sint (due_ms ev - now))) (filter used (delayed_events s)))))"
proof -
  define ts where "ts = map (\<lambda>ev. rtbus_timeout_until now (due_ms ev)) (filter used (delayed_events s))"
  have eq: "ts = map (\<lambda>ev. max 0 (sint (due_ms ev - now))) (filter used (delayed_events s))"
    by (simp add: ts_def rtbus_timeout_until_def Let_def max_def)
  have "rtbus_next_timeout_ms now s = (if ts = [] then -1 else fold min (tl ts) (hd ts))"
    by (simp add: rtbus_next_timeout_ms_def next_timeout_loop_spec ts_def Let_def)
  moreover have "ts = [] \<longleftrightarrow> filter used (delayed_events s) = []" by (simp add: ts_def)
  moreover have "fold min (tl ts) (hd ts) = Min (set ts)" if "ts \<noteq> []"
    using that fold_min_Min [of "tl ts" "hd ts"] by simp
  ultimately show ?thesis unfolding eq by auto
qed

text \<open>A delayed event for a task that is not registered wedges the bus.  \<open>rtbus_post_delay\<close>
  accepts it; from the moment it is due (and first among the due ones) every \<open>rtbus_process\<close> fails
  with \<open>ENOENT\<close> and changes nothing, so no queued message is ever served again.\<close>

theorem unknown_delayed_task_wedges:
  assumes "emos_bus be s es bs N" "delayed_ok s" "j < DELAYED_EVENT_DEPTH"
    and "d_task_id (delayed_events s ! j) \<notin> e_task_id ` set es"
    and "\<And>now. now \<in> set clock \<Longrightarrow> is_due now (delayed_events s ! j) \<and>
      (\<forall>i < j. \<not> is_due now (delayed_events s ! i))"
  shows "\<forall>now \<in> set clock. rtbus_process be call async now s = Some (Inl ENOENT, s)"
proof
  fix now assume "now \<in> set clock"
  then have due: "is_due now (delayed_events s ! j)" "\<forall>i < j. \<not> is_due now (delayed_events s ! i)"
    using assms(5) by auto
  have find: "emos_entry_find be (d_task_id (delayed_events s ! j)) s = None"
    using eb.find_unknown [of be s es] assms(1,4) by (simp add: emos_bus_def)
  have ec: "entry_count s \<noteq> 0" using assms(1) by (auto simp: emos_bus_def table_ok_def)
  have "move_due_loop be now i (Suc (j - i + n)) s = Some (Inl ENOENT, s)" if "i \<le> j" for i n
    using that
  proof (induction "j - i" arbitrary: i)
    case 0
    then show ?case using due(1) find ec by (simp add: is_due_def emos_post_def)
  next
    case (Suc d)
    then have "\<not> is_due now (delayed_events s ! i)" using due(2) by simp
    moreover have "j - i + n = Suc (j - Suc i + n)" using Suc.hyps(2) by simp
    ultimately show ?case using Suc.hyps(1) [of "Suc i"] Suc.hyps(2)
      by (simp add: is_due_def)
  qed
  from this [of 0 "DELAYED_EVENT_DEPTH - Suc j"]
  have "rtbus_move_due_events be now s = Some (Inl ENOENT, s)"
    using assms(3) by (simp add: rtbus_move_due_events_def)
  then show "rtbus_process be call async now s = Some (Inl ENOENT, s)"
    by (simp add: rtbus_process_def)
qed

lemma demo_wedged:
  fixes d :: rtbus_delayed_event
  defines "d \<equiv> zero_event\<lparr>used := True, d_task_id := 1, due_ms := 10\<rparr>"
  shows "emos_bus Entry_Table (demo_rtbus\<lparr>delayed_events := d # replicate 7 zero_event\<rparr>) demo_entries [] (\<lambda>_. [])"
    "delayed_ok (demo_rtbus\<lparr>delayed_events := d # replicate 7 zero_event\<rparr>)"
    "is_due 10 d" "is_due 1000 d" "d_task_id d \<notin> e_task_id ` set demo_entries"
  using demo_rtbus_ok(1)
  by (simp_all add: delayed_ok_def d_def zero_event_def DELAYED_EVENT_DEPTH_def is_due_def
      rtbus_due_reached_def demo_entries_def EMOS_TASK_ENTRY_def EMOS_TASK_ENTRY_POLL_def)

theorem unknown_delayed_task_wedges_witness:
  "\<exists>s. \<forall>now \<in> set [10, 1000]. rtbus_process Entry_Table idle_handlers no_async now s =
     Some (Inl ENOENT, s :: rtbus)"
proof -
  let ?d = "zero_event\<lparr>used := True, d_task_id := 1, due_ms := 10\<rparr>"
  let ?s = "demo_rtbus\<lparr>delayed_events := ?d # replicate 7 zero_event\<rparr>"
  have "\<forall>now \<in> set [10, 1000]. rtbus_process Entry_Table idle_handlers no_async now ?s =
      Some (Inl ENOENT, ?s)"
    by (rule unknown_delayed_task_wedges [OF demo_wedged(1,2), of 0])
      (use demo_wedged(3-5) in \<open>auto simp: DELAYED_EVENT_DEPTH_def\<close>)
  then show ?thesis by blast
qed

text \<open>A delay of at most 2^31 ms is reached exactly when the clock has advanced by it (for the
  next 2^31 ms), also across the wrap of the 32-bit clock; a longer delay is due at once.\<close>

theorem delay_reached_exactly:
  "if unat delay \<le> 2147483648
   then \<forall>elapsed < 2147483648. rtbus_due_reached (now + of_nat elapsed) (now + delay) \<longleftrightarrow> unat delay \<le> elapsed
   else rtbus_due_reached now (now + delay)"
proof -
  have d: "delay = word_of_int (int (unat delay))" by simp
  show ?thesis
  proof (cases "unat delay \<le> 2147483648")
    case True
    have "rtbus_due_reached (now + of_nat elapsed) (now + delay) \<longleftrightarrow> unat delay \<le> elapsed"
      if "elapsed < 2147483648" for elapsed
    proof -
      have eq: "now + of_nat elapsed - (now + delay) = word_of_int (int elapsed - int (unat delay))"
        by (subst (1) d) (simp add: of_int_diff del: of_nat_unat)
      have "-2147483648 \<le> int elapsed - int (unat delay)" "int elapsed - int (unat delay) < 2147483648"
        using True that by linarith+
      then have "rtbus_due_reached (now + of_nat elapsed) (now + delay) \<longleftrightarrow>
          0 \<le> int elapsed - int (unat delay)"
        unfolding rtbus_due_reached_def eq by (simp only: sint_range)
      then show ?thesis by linarith
    qed
    then show ?thesis using True by simp
  next
    case False
    have "unat delay < 4294967296" using unsigned_less [of delay] by simp
    moreover have eq: "now - (now + delay) = word_of_int (4294967296 - int (unat delay))"
      by (subst (1) d) (simp add: of_int_diff del: of_nat_unat)
    moreover have "-2147483648 \<le> 4294967296 - int (unat delay)" "4294967296 - int (unat delay) < 2147483648"
      using False \<open>unat delay < 4294967296\<close> by linarith+
    ultimately have "rtbus_due_reached now (now + delay) \<longleftrightarrow> 0 \<le> 4294967296 - int (unat delay)"
      unfolding rtbus_due_reached_def eq by (simp only: sint_range)
    then have "rtbus_due_reached now (now + delay)"
      using \<open>unat delay < 4294967296\<close> by linarith
    then show ?thesis using False by simp
  qed
qed

theorem delay_reached_exactly_witness:
  "rtbus_due_reached (7 + 100) (7 + 100) \<and> \<not> rtbus_due_reached (7 + 99) (7 + 100)"
  using delay_reached_exactly [of 100 7]
  by (auto dest: spec [where x = 99] spec [where x = 100])

text \<open>The runtime serves one queued message per wake-up.  A round of the loop handles exactly
  the first pending message, and when the semaphore is not set it then blocks for the full
  timeout, however many messages are still pending.\<close>

theorem runtime_one_message_per_wakeup:
  assumes "emos_bus be s es bs N" "pending (queues s N) \<noteq> []" "event_sem s = 0"
    and "delayed_ok s" "\<forall>ev \<in> set (delayed_events s). \<not> used ev"
  shows "\<exists>s' bs' N'. runtime_round be idle_handlers no_async timeout_max now now2 s =
      Some (Blocks timeout_max, s') \<and> emos_bus be s' es bs' N' \<and>
    pending (queues s' N') = tl (pending (queues s N))"
proof -
  obtain k where k: "next_prio (queues s N) = Some k"
    using assms(2) pending_next [of "queues s N"] by (cases "next_prio (queues s N)") auto
  obtain s' bs' N' where A: "emos_process be idle_handlers no_async s = Some (Inr 1, s')"
    "emos_bus be s' es bs' N'" "queues s' N' = (queues s N)(k := tl (queues s N k))"
    "event_sem s' = event_sem s" "emos.more s' = emos.more s"
    using idle_step [OF assms(1) k] by blast
  have d: "delayed_ok s'" "\<forall>ev \<in> set (delayed_events s'). \<not> used ev"
    using more_fields(1) [OF A(5)] assms(4,5) by (simp_all add: delayed_ok_def)
  have "pending (queues s' N') = tl (pending (queues s N))"
    using pending_next [of "queues s N"] k A(3) by simp
  moreover have "runtime_round be idle_handlers no_async timeout_max now now2 s =
      Some (Blocks timeout_max, s')"
    using A(1,4) assms(3) no_due_events(1) [OF assms(4,5)] no_due_events(2) [OF d]
    by (simp add: runtime_round_def rtbus_process_def runtime_event_wait_def)
  ultimately show ?thesis using A(2) by blast
qed

theorem runtime_one_message_per_wakeup_witness:
  "\<exists>s s'. runtime_round Entry_Table idle_handlers no_async 100 0 0 (s :: rtbus) = Some (Blocks 100, s')"
proof -
  have room: "pool_has_room demo_rtbus [] 16"
    using pool_inv_cong(2) [of demo_rtbus demo_pool 0]
    by (simp add: pool_has_room_def demo_rtbus_def demo_pool_fields round_up4_def)
  have "payload_ok None 0" by (simp add: payload_ok_def)
  from emos_post_total [OF demo_rtbus_ok(1) this, of 9 5] room obtain r and s1 :: rtbus and bs1 N1 where
    s1: "emos_bus Entry_Table s1 demo_entries bs1 N1"
      "(r, queues s1 N1) = spec_post demo_entries True 9 5 None 0 (\<lambda>_. [])"
      "emos.more s1 = emos.more demo_rtbus"
    by (auto simp: demo_rtbus_ok(2))
  have "queues s1 N1 2 \<noteq> []"
    using s1(2) by (simp add: spec_post_def demo_entries_def EMOS_TASK_ENTRY_def EMOS_TASK_ENTRY_POLL_def)
  then have p: "pending (queues (s1\<lparr>event_sem := 0\<rparr>) N1) \<noteq> []" by (simp add: pending_def)
  have d: "delayed_events s1 = replicate 8 zero_event"
    using more_fields(1) [OF s1(3)] by (simp add: demo_rtbus_def)
  then have d2: "delayed_ok (s1\<lparr>event_sem := 0\<rparr>)"
    "\<forall>ev \<in> set (delayed_events (s1\<lparr>event_sem := 0\<rparr>)). \<not> used ev"
    by (simp_all add: delayed_ok_def zero_event_def DELAYED_EVENT_DEPTH_def)
  have b: "emos_bus Entry_Table (s1\<lparr>event_sem := 0\<rparr>) demo_entries bs1 N1" using s1(1) by simp
  have "event_sem (s1\<lparr>event_sem := 0\<rparr>) = 0" by simp
  from runtime_one_message_per_wakeup [OF b p this d2] show ?thesis by blast
qed

end
