(* ===== verification/Image.thy ===== *)
theory Image
  imports Prelude
begin

text \<open>
  The image store and the image slot: \<open>zephyr/modules/rtbus/services/rtbus_image.c\<close>.

  Flash areas, the device tree and the CRC routine are outside the sources.  They are the record
  \<open>image_env\<close>, an argument of every definition: the partition ids and sizes, the Kconfig limits,
  and the operations of the flash map (\<open>area_open\<close>, \<open>area_read\<close>, \<open>area_write\<close>,
  \<open>area_flatten\<close>) over a flash state.  \<open>flash_laws\<close> states what the code relies on of them.
  Closing an area has no effect the code can see and is left out.

  The lemmas show the store's invariant (flash and the pending buffer together hold exactly what
  was written), that a finished upload leaves in the slot the bytes that were sent, and that an
  upload that is not accepted never touches a slot that has a separate store area.
\<close>

section \<open>Header\<close>

definition IMAGE_HEADER_SIZE :: nat where [layout_defs]: "IMAGE_HEADER_SIZE = 128"
definition IMAGE_NAME_MAX :: nat where [layout_defs]: "IMAGE_NAME_MAX = 64"
definition IMAGE_VERSION_MAX :: nat where [layout_defs]: "IMAGE_VERSION_MAX = 16"
definition IMAGE_MAGIC :: nat where [layout_defs]: "IMAGE_MAGIC = 0x5746434d"
definition IMAGE_HEADER_VERSION :: nat where [layout_defs]: "IMAGE_HEADER_VERSION = 2"

record rtbus_image_header =
  h_magic :: nat
  h_header_version :: nat
  h_header_size :: nat
  h_payload_size :: nat
  h_payload_crc32 :: nat
  h_version :: "byte list"
  h_name :: "byte list"
  h_required_ram_size :: nat
  h_flags :: nat
  h_reserved :: "byte list"

text \<open>The packed little-endian layout of the structure in its 128 bytes.\<close>

definition slice :: "nat \<Rightarrow> nat \<Rightarrow> byte list \<Rightarrow> byte list" where
  "slice off n bs = take n (drop off bs)"

definition header_of_bytes :: "byte list \<Rightarrow> rtbus_image_header" where
  "header_of_bytes bs =
     \<lparr>h_magic = un_le (slice 0 4 bs), h_header_version = un_le (slice 4 2 bs),
      h_header_size = un_le (slice 6 2 bs), h_payload_size = un_le (slice 8 4 bs),
      h_payload_crc32 = un_le (slice 12 4 bs), h_version = slice 16 IMAGE_VERSION_MAX bs,
      h_name = slice 32 IMAGE_NAME_MAX bs, h_required_ram_size = un_le (slice 96 4 bs),
      h_flags = un_le (slice 100 4 bs), h_reserved = slice 104 24 bs\<rparr>"

text \<open>The bytes of a header whose fields are given, and reading them back.\<close>

definition header_bytes ::
    "nat \<Rightarrow> nat \<Rightarrow> nat \<Rightarrow> nat \<Rightarrow> nat \<Rightarrow> byte list \<Rightarrow> byte list \<Rightarrow> nat \<Rightarrow> nat \<Rightarrow> byte list \<Rightarrow> byte list"
  where
  "header_bytes m hv hs ps crc ver nm ram fl res =
     le32 m @ le16 hv @ le16 hs @ le32 ps @ le32 crc @ ver @ nm @ le32 ram @ le32 fl @ res"

lemma slice_0: "n \<le> length x \<Longrightarrow> slice 0 n (x @ ys) = take n x"
  by (simp add: slice_def)

lemma slice_skip: "length x \<le> off \<Longrightarrow> slice off n (x @ ys) = slice (off - length x) n ys"
  by (simp add: slice_def)

lemma header_of_header_bytes:
  assumes "length ver = 16" "length nm = 64" "length res = 24"
    and "m < 4294967296" "hv < 65536" "hs < 65536" "ps < 4294967296" "crc < 4294967296"
      "ram < 4294967296" "fl < 4294967296"
  shows "length (header_bytes m hv hs ps crc ver nm ram fl res) = 128"
    and "header_of_bytes (header_bytes m hv hs ps crc ver nm ram fl res) =
      \<lparr>h_magic = m, h_header_version = hv, h_header_size = hs, h_payload_size = ps,
       h_payload_crc32 = crc, h_version = ver, h_name = nm, h_required_ram_size = ram,
       h_flags = fl, h_reserved = res\<rparr>"
  using assms
  by (simp_all add: header_bytes_def header_of_bytes_def slice_0 slice_skip un_le32
      IMAGE_VERSION_MAX_def IMAGE_NAME_MAX_def)
     (simp add: slice_def)

record native_metadata =
  entry_offset :: nat
  data_load_offset :: nat
  data_ram_offset :: nat
  data_size :: nat
  bss_ram_offset :: nat
  bss_size :: nat

definition metadata_of_bytes :: "byte list \<Rightarrow> native_metadata" where
  "metadata_of_bytes bs =
     \<lparr>entry_offset = un_le (slice 0 4 bs), data_load_offset = un_le (slice 4 4 bs),
      data_ram_offset = un_le (slice 8 4 bs), data_size = un_le (slice 12 4 bs),
      bss_ram_offset = un_le (slice 16 4 bs), bss_size = un_le (slice 20 4 bs)\<rparr>"

record image_status =
  st_valid :: bool
  st_name :: "byte list"
  st_version :: "byte list"
  st_payload_size :: nat
  st_payload_crc32 :: nat
  st_required_ram_size :: nat
  st_flags :: nat

section \<open>Environment and state\<close>

record 'f image_env =
  slot_area_id :: nat
  direct_store_area_id :: nat
  slot_partition_size :: nat
  pending_max :: nat
  image_ram_max :: nat
  area_size :: "nat \<Rightarrow> nat"
  area_align :: "nat \<Rightarrow> nat"
  area_open :: "nat \<Rightarrow> 'f \<Rightarrow> rc"
  area_ready :: "nat \<Rightarrow> 'f \<Rightarrow> bool"
  area_read :: "nat \<Rightarrow> nat \<Rightarrow> nat \<Rightarrow> 'f \<Rightarrow> errno + byte list"
  area_write :: "nat \<Rightarrow> nat \<Rightarrow> byte list \<Rightarrow> 'f \<Rightarrow> rc \<times> 'f"
  area_flatten :: "nat \<Rightarrow> nat \<Rightarrow> nat \<Rightarrow> 'f \<Rightarrow> rc \<times> 'f"
  crc32_ieee_update :: "nat \<Rightarrow> byte list \<Rightarrow> nat"

record 'f store =
  flash :: 'f
  flash_area :: "nat option"
  flash_write_offset :: nat
  flash_align :: nat
  flash_pending :: "byte list"
  flash_pending_len :: nat
  expected_size :: nat
  written :: nat
  active :: bool

text \<open>\<open>memset(&store_ctx, 0, sizeof(store_ctx))\<close>.\<close>

definition store_clear :: "'f image_env \<Rightarrow> 'f store \<Rightarrow> 'f store" where
  "store_clear E s = s\<lparr>flash_area := None, flash_write_offset := 0, flash_align := 0,
     flash_pending := replicate (pending_max E) 0, flash_pending_len := 0, expected_size := 0,
     written := 0, active := False\<rparr>"

definition ROUND_UP :: "nat \<Rightarrow> nat \<Rightarrow> nat" where
  "ROUND_UP x a = (x + (a - 1)) div a * a"

section \<open>Reading headers\<close>

definition payload_capacity :: "'f image_env \<Rightarrow> nat \<Rightarrow> nat" where
  "payload_capacity E a =
     (if area_size E a \<le> IMAGE_HEADER_SIZE then 0 else area_size E a - IMAGE_HEADER_SIZE)"

definition store_read :: "'f image_env \<Rightarrow> nat \<Rightarrow> nat \<Rightarrow> 'f store \<Rightarrow> errno + byte list" where
  "store_read E off n s =
     (if written s < off \<or> written s - off < n then Inl EINVAL
      else case flash_area s of
        None \<Rightarrow> Inl EINVAL
      | Some a \<Rightarrow>
          if area_size E a < off \<or> area_size E a - off < n then Inl EINVAL
          else area_read E a off n (flash s))"

definition bad_header :: "rtbus_image_header \<Rightarrow> nat \<Rightarrow> bool" where
  "bad_header h limit \<longleftrightarrow>
     h_magic h \<noteq> IMAGE_MAGIC \<or> h_header_version h \<noteq> IMAGE_HEADER_VERSION \<or>
     h_header_size h \<noteq> IMAGE_HEADER_SIZE \<or> h_payload_size h = 0 \<or> limit < h_payload_size h"

definition read_header_from_area ::
    "'f image_env \<Rightarrow> nat \<Rightarrow> 'f \<Rightarrow> errno + rtbus_image_header" where
  "read_header_from_area E a f =
     (case area_read E a 0 IMAGE_HEADER_SIZE f of
        Inl e \<Rightarrow> Inl e
      | Inr bs \<Rightarrow>
          let h = header_of_bytes bs
          in if bad_header h (payload_capacity E a) then Inl ENODATA else Inr h)"

definition read_header_from_store :: "'f image_env \<Rightarrow> 'f store \<Rightarrow> errno + rtbus_image_header" where
  "read_header_from_store E s =
     (case store_read E 0 IMAGE_HEADER_SIZE s of
        Inl _ \<Rightarrow> Inl ENODATA
      | Inr bs \<Rightarrow>
          let h = header_of_bytes bs
          in if bad_header h (psub (expected_size s) IMAGE_HEADER_SIZE) then Inl ENODATA else Inr h)"

section \<open>CRC over the payload\<close>

text \<open>The loop of both CRC functions: \<open>rdf\<close> reads a chunk at an absolute offset.\<close>

function crc_loop ::
    "(nat \<Rightarrow> byte list \<Rightarrow> nat) \<Rightarrow> (nat \<Rightarrow> nat \<Rightarrow> errno + byte list) \<Rightarrow> nat \<Rightarrow> nat \<Rightarrow> nat \<Rightarrow> errno + nat"
  where
  "crc_loop upd rdf payload_size off crc =
     (if off < payload_size then
        let read_len = min 128 (payload_size - off)
        in case rdf (IMAGE_HEADER_SIZE + off) read_len of
             Inl e \<Rightarrow> Inl e
           | Inr buf \<Rightarrow> crc_loop upd rdf payload_size (off + read_len) (upd crc buf)
      else Inr crc)"
  by pat_completeness auto
termination by (relation "measure (\<lambda>(_, _, size, off, _). size - off)") auto

declare crc_loop.simps [simp del]

definition calculate_payload_crc :: "'f image_env \<Rightarrow> nat \<Rightarrow> nat \<Rightarrow> 'f \<Rightarrow> errno + nat" where
  "calculate_payload_crc E a payload_size f =
     crc_loop (crc32_ieee_update E) (\<lambda>off n. area_read E a off n f) payload_size 0 0"

definition calculate_store_payload_crc :: "'f image_env \<Rightarrow> nat \<Rightarrow> 'f store \<Rightarrow> errno + nat" where
  "calculate_store_payload_crc E payload_size s =
     crc_loop (crc32_ieee_update E) (\<lambda>off n. store_read E off n s) payload_size 0 0"

section \<open>Writing\<close>

text \<open>The copy loop of the commit, from the store area \<open>src\<close> to the slot.  \<open>memset\<close> past the
  128-byte buffer, when the slot's alignment does not divide 128, is the caller's undefined
  behaviour; the bytes are written as the code computes them.\<close>

function commit_loop ::
    "'f image_env \<Rightarrow> nat \<Rightarrow> nat \<Rightarrow> nat \<Rightarrow> nat \<Rightarrow> nat \<Rightarrow> 'f \<Rightarrow> rc \<times> 'f" where
  "commit_loop E src slot slot_align expected off f =
     (if off < expected then
        let read_len = min 128 (expected - off);
            write_len = ROUND_UP read_len slot_align
        in case area_read E src off read_len f of
             Inl e \<Rightarrow> (Inl e, f)
           | Inr buf \<Rightarrow>
               let (rc, f) = area_write E slot off (buf @ replicate (write_len - read_len) 0xff) f
               in if rc \<noteq> ok then (rc, f)
                  else commit_loop E src slot slot_align expected (off + read_len) f
      else (ok, f))"
  by pat_completeness auto
termination by (relation "measure (\<lambda>(_, _, _, _, size, off, _). size - off)") auto

declare commit_loop.simps [simp del]

definition commit_store_to_slot :: "'f image_env \<Rightarrow> 'f store \<Rightarrow> rc \<times> 'f store" where
  "commit_store_to_slot E s =
     (case flash_area s of
        None \<Rightarrow> (Inl EINVAL, s)
      | Some a \<Rightarrow>
          if written s \<noteq> expected_size s then (Inl EINVAL, s)
          else if a = slot_area_id E then (ok, s)
          else let slot = slot_area_id E; rc = area_open E slot (flash s)
          in if rc \<noteq> ok then (rc, s)
          else if area_size E slot < expected_size s then (Inl EFBIG, s)
          else if area_align E slot = 0 \<or> 128 < area_align E slot then (Inl EINVAL, s)
          else
            let (rc, f) = area_flatten E slot 0 (area_size E slot) (flash s)
            in if rc \<noteq> ok then (rc, s\<lparr>flash := f\<rparr>)
               else
                 let (rc, f) = commit_loop E a slot (area_align E slot) (expected_size s) 0 f
                 in (rc, s\<lparr>flash := f\<rparr>))"

definition store_flush_flash :: "'f image_env \<Rightarrow> bool \<Rightarrow> 'f store \<Rightarrow> rc \<times> 'f store" where
  "store_flush_flash E final s =
     (case flash_area s of
        None \<Rightarrow> (Inl EINVAL, s)
      | Some a \<Rightarrow>
          if flash_align s = 0 \<or> pending_max E < flash_align s \<or>
             pending_max E mod flash_align s \<noteq> 0 then (Inl EINVAL, s)
          else if flash_pending_len s = 0 then (ok, s)
          else if \<not> final \<and> flash_pending_len s < pending_max E then (ok, s)
          else
            let write_len = (if final then ROUND_UP (flash_pending_len s) (flash_align s)
                             else pending_max E);
                s = s\<lparr>flash_pending := take (flash_pending_len s) (flash_pending s) @
                        replicate (write_len - flash_pending_len s) 0xff @
                        drop write_len (flash_pending s)\<rparr>;
                (rc, f) = area_write E a (flash_write_offset s)
                            (take write_len (flash_pending s)) (flash s);
                s = s\<lparr>flash := f\<rparr>
            in if rc \<noteq> ok then (rc, s)
               else (ok, s\<lparr>flash_write_offset := flash_write_offset s + write_len,
                           flash_pending_len := 0\<rparr>))"

partial_function (option) store_write_loop ::
    "'f image_env \<Rightarrow> byte list \<Rightarrow> nat \<Rightarrow> 'f store \<Rightarrow> (rc \<times> 'f store) option" where
  "store_write_loop E data sz s =
     (if 0 < sz then
        let copy_len = min sz (pending_max E - flash_pending_len s);
            s = s\<lparr>flash_pending := take (flash_pending_len s) (flash_pending s) @ take copy_len data @
                     drop (flash_pending_len s + copy_len) (flash_pending s),
                   flash_pending_len := flash_pending_len s + copy_len\<rparr>;
            (rc, s) = store_flush_flash E False s
        in if rc \<noteq> ok then Some (rc, s)
           else store_write_loop E (drop copy_len data) (sz - copy_len) s
      else Some (ok, s))"

definition store_write_flash ::
    "'f image_env \<Rightarrow> nat \<Rightarrow> byte list option \<Rightarrow> nat \<Rightarrow> 'f store \<Rightarrow> (rc \<times> 'f store) option" where
  "store_write_flash E off data sz s =
     (case (flash_area s, data) of
        (Some _, Some d) \<Rightarrow>
          if off \<noteq> written s then Some (Inl EINVAL, s) else store_write_loop E d sz s
      | _ \<Rightarrow> Some (Inl EINVAL, s))"

section \<open>The store operations\<close>

definition rtbus_image_store_begin :: "'f image_env \<Rightarrow> nat option \<Rightarrow> 'f store \<Rightarrow> rc \<times> 'f store" where
  "rtbus_image_store_begin E info s =
     (case info of
        None \<Rightarrow> (Inl EINVAL, s)
      | Some image_size \<Rightarrow>
          if image_size < IMAGE_HEADER_SIZE then (Inl EINVAL, s)
          else if active s then (Inl EBUSY, s)
          else
            let s = store_clear E s; area = direct_store_area_id E
            in if slot_partition_size E < image_size then (Inl EFBIG, s)
            else let rc = area_open E area (flash s)
            in if rc \<noteq> ok then (rc, store_clear E s)
            else if \<not> area_ready E area (flash s) then (Inl ENODEV, store_clear E s)
            else if area_size E area < image_size then (Inl EFBIG, store_clear E s)
            else
              let s = s\<lparr>flash_align := area_align E area\<rparr>
              in if flash_align s = 0 \<or> pending_max E < flash_align s
                 then (Inl EINVAL, store_clear E s)
                 else
                   let (rc, f) = area_flatten E area 0 (area_size E area) (flash s);
                       s = s\<lparr>flash := f\<rparr>
                   in if rc \<noteq> ok then (rc, store_clear E s)
                      else (ok, s\<lparr>flash_area := Some area, expected_size := image_size,
                                  active := True, flash_pending := replicate (pending_max E) 0xff\<rparr>))"

definition rtbus_image_store_write ::
    "'f image_env \<Rightarrow> nat \<Rightarrow> byte list option \<Rightarrow> nat \<Rightarrow> 'f store \<Rightarrow> (rc \<times> 'f store) option" where
  "rtbus_image_store_write E off data sz s =
     (if \<not> active s \<or> data = None then Some (Inl EINVAL, s)
      else if off \<noteq> written s then Some (Inl EINVAL, s)
      else if psub (expected_size s) (written s) < sz then Some (Inl EFBIG, s)
      else do {
        (rc, s) \<leftarrow> store_write_flash E off data sz s;
        if rc \<noteq> ok then Some (rc, s) else Some (ok, s\<lparr>written := written s + sz\<rparr>)
      })"

text \<open>The steps of \<open>rtbus_image_store_finish\<close> up to its \<open>out\<close> label.\<close>

definition store_verify_commit :: "'f image_env \<Rightarrow> 'f store \<Rightarrow> rc \<times> 'f store" where
  "store_verify_commit E s =
     (let (rc, s) = store_flush_flash E True s
      in if rc \<noteq> ok then (rc, s)
      else case read_header_from_store E s of
        Inl e \<Rightarrow> (Inl e, s)
      | Inr header \<Rightarrow>
          if psub (expected_size s) IMAGE_HEADER_SIZE < h_payload_size header then (Inl EBADMSG, s)
          else if image_ram_max E < h_required_ram_size header then (Inl ENOMEM, s)
          else case calculate_store_payload_crc E (h_payload_size header) s of
            Inl e \<Rightarrow> (Inl e, s)
          | Inr crc \<Rightarrow>
              if crc \<noteq> h_payload_crc32 header then (Inl EBADMSG, s)
              else commit_store_to_slot E s)"

definition rtbus_image_store_finish :: "'f image_env \<Rightarrow> rc \<Rightarrow> 'f store \<Rightarrow> rc \<times> 'f store" where
  "rtbus_image_store_finish E status s =
     (if \<not> active s then (Inl EINVAL, s)
      else
        let status = (if status = ok \<and> written s \<noteq> expected_size s then Inl EIO else status);
            (rc, s) = (if status \<noteq> ok then (status, s) else store_verify_commit E s)
        in (rc, store_clear E s))"

section \<open>The slot\<close>

text \<open>\<open>strncpy(dst, src, n)\<close> into a zeroed array of \<open>n + 1\<close> bytes.\<close>

definition strncpy_field :: "nat \<Rightarrow> byte list \<Rightarrow> byte list" where
  "strncpy_field n src =
     (let c = take n (takeWhile (\<lambda>b. b \<noteq> 0) src) in c @ replicate (n + 1 - length c) 0)"

definition zero_status :: image_status where
  "zero_status = \<lparr>st_valid = False, st_name = replicate IMAGE_NAME_MAX 0,
     st_version = replicate IMAGE_VERSION_MAX 0, st_payload_size = 0, st_payload_crc32 = 0,
     st_required_ram_size = 0, st_flags = 0\<rparr>"

definition rtbus_image_get_status :: "'f image_env \<Rightarrow> 'f \<Rightarrow> rc \<times> image_status" where
  "rtbus_image_get_status E f =
     (let slot = slot_area_id E; rc = area_open E slot f
      in if rc \<noteq> ok then (rc, zero_status)
      else case read_header_from_area E slot f of
        Inl e \<Rightarrow> (Inl e, zero_status)
      | Inr header \<Rightarrow>
          (case calculate_payload_crc E slot (h_payload_size header) f of
             Inl e \<Rightarrow> (Inl e, zero_status)
           | Inr crc \<Rightarrow>
               let valid = (crc = h_payload_crc32 header)
               in (if valid then ok else Inl EBADMSG,
                   \<lparr>st_valid = valid, st_name = strncpy_field (IMAGE_NAME_MAX - 1) (h_name header),
                    st_version = strncpy_field (IMAGE_VERSION_MAX - 1) (h_version header),
                    st_payload_size = h_payload_size header,
                    st_payload_crc32 = h_payload_crc32 header,
                    st_required_ram_size = h_required_ram_size header, st_flags = h_flags header\<rparr>)))"

definition IMAGE_FLAG_NATIVE :: nat where [layout_defs]: "IMAGE_FLAG_NATIVE = 1"

definition rtbus_image_get_native_metadata :: "'f image_env \<Rightarrow> 'f \<Rightarrow> errno + native_metadata" where
  "rtbus_image_get_native_metadata E f =
     (let slot = slot_area_id E
      in case area_open E slot f of
        Inl e \<Rightarrow> Inl e
      | Inr _ \<Rightarrow>
          (case read_header_from_area E slot f of
             Inl e \<Rightarrow> Inl e
           | Inr header \<Rightarrow>
               if and (h_flags header) IMAGE_FLAG_NATIVE = 0 then Inl ENOTSUP
               else Inr (metadata_of_bytes (h_reserved header))))"

definition rtbus_image_read_payload :: "'f image_env \<Rightarrow> nat \<Rightarrow> nat \<Rightarrow> 'f \<Rightarrow> errno + byte list" where
  "rtbus_image_read_payload E off sz f =
     (let slot = slot_area_id E
      in case area_open E slot f of
        Inl e \<Rightarrow> Inl e
      | Inr _ \<Rightarrow>
          (case read_header_from_area E slot f of
             Inl e \<Rightarrow> Inl e
           | Inr header \<Rightarrow>
               if h_payload_size header \<le> off then Inr []
               else area_read E slot (IMAGE_HEADER_SIZE + off) (min sz (h_payload_size header - off)) f))"

section \<open>What the code relies on\<close>

text \<open>\<open>view a f\<close> is the contents of area \<open>a\<close> in the flash state \<open>f\<close>.  An access that succeeds was
  inside the area; a read returns the contents; a write to erased bytes stores them; flattening
  leaves erased bytes; no operation touches another area, successful or not.\<close>

definition flash_laws :: "'f image_env \<Rightarrow> (nat \<Rightarrow> 'f \<Rightarrow> mem) \<Rightarrow> bool" where
  "flash_laws E view \<longleftrightarrow>
     (\<forall>a off n f bs. area_read E a off n f = Inr bs \<longrightarrow>
        off + n \<le> area_size E a \<and> bs = rd (view a f) off n) \<and>
     (\<forall>a off bs f r f'. area_write E a off bs f = (r, f') \<longrightarrow>
        (\<forall>b. b \<noteq> a \<longrightarrow> view b f' = view b f) \<and>
        (r = ok \<longrightarrow> off + length bs \<le> area_size E a \<and>
           ((\<forall>x. off \<le> x \<and> x < off + length bs \<longrightarrow> view a f x = 0xff) \<longrightarrow>
              view a f' = wr (view a f) off bs))) \<and>
     (\<forall>a off n f r f'. area_flatten E a off n f = (r, f') \<longrightarrow>
        (\<forall>b. b \<noteq> a \<longrightarrow> view b f' = view b f) \<and>
        (r = ok \<longrightarrow> (\<forall>x. off \<le> x \<and> x < off + n \<longrightarrow> view a f' x = 0xff)))"

text \<open>The CRC is an update function: feeding chunks is feeding their concatenation.\<close>

definition crc_laws :: "'f image_env \<Rightarrow> bool" where
  "crc_laws E \<longleftrightarrow> crc32_ieee_update E 0 [] = 0 \<and>
     (\<forall>c xs ys. crc32_ieee_update E c (xs @ ys) = crc32_ieee_update E (crc32_ieee_update E c xs) ys)"

lemma flash_lawsD:
  assumes "flash_laws E view"
  shows "area_read E a off n f = Inr bs \<Longrightarrow> off + n \<le> area_size E a"
    "area_read E a off n f = Inr bs \<Longrightarrow> bs = rd (view a f) off n"
    "area_write E a off ws f = (r, f') \<Longrightarrow> b \<noteq> a \<Longrightarrow> view b f' = view b f"
    "area_write E a off ws f = (ok, f') \<Longrightarrow> off + length ws \<le> area_size E a"
    "area_write E a off ws f = (ok, f') \<Longrightarrow>
       (\<And>x. off \<le> x \<Longrightarrow> x < off + length ws \<Longrightarrow> view a f x = 0xff) \<Longrightarrow> view a f' = wr (view a f) off ws"
    "area_flatten E a off n f = (r, f') \<Longrightarrow> b \<noteq> a \<Longrightarrow> view b f' = view b f"
    "area_flatten E a off n f = (ok, f') \<Longrightarrow> off \<le> x \<Longrightarrow> x < off + n \<Longrightarrow> view a f' x = 0xff"
  using assms by (auto simp: flash_laws_def)

section \<open>The CRC loop\<close>

lemma crc_loop_spec:
  assumes "\<And>o' n bs. rdf o' n = Inr bs \<Longrightarrow> bs = rd m o' n"
    and "\<And>c xs ys. upd c (xs @ ys) = upd (upd c xs) ys"
  shows "upd crc [] = crc \<Longrightarrow> crc_loop upd rdf sz off crc = Inr c \<Longrightarrow> c = upd crc (rd m (128 + off) (sz - off))"
proof (induction "sz - off" arbitrary: off crc rule: less_induct)
  case less
  show ?case
  proof (cases "off < sz")
    case False
    then show ?thesis using less.prems by (simp add: crc_loop.simps)
  next
    case True
    define k where "k = min 128 (sz - off)"
    have k: "0 < k" "k \<le> sz - off" using True by (auto simp: k_def)
    obtain bs where bs: "rdf (128 + off) k = Inr bs"
      and rest: "crc_loop upd rdf sz (off + k) (upd crc bs) = Inr c"
      using less.prems True
      by (subst (asm) crc_loop.simps) (auto simp: Let_def k_def IMAGE_HEADER_SIZE_def split: sum.splits)
    have "c = upd (upd crc bs) (rd m (128 + (off + k)) (sz - (off + k)))"
      using less.hyps [OF _ _ rest] k True assms(2) [of crc bs "[]"] by simp
    moreover have "rd m (128 + off) (sz - off) = bs @ rd m (128 + (off + k)) (sz - (off + k))"
      using rd_add [of m "128 + off" k "sz - off - k"] k assms(1) [OF bs] by (simp add: add.assoc)
    ultimately show ?thesis using assms(2) by simp
  qed
qed

section \<open>The buffered writer\<close>

text \<open>Flash and pending buffer together hold \<open>data\<close>; the area is erased behind it.\<close>

definition buf_inv :: "'f image_env \<Rightarrow> (nat \<Rightarrow> 'f \<Rightarrow> mem) \<Rightarrow> nat \<Rightarrow> byte list \<Rightarrow> 'f store \<Rightarrow> bool" where
  "buf_inv E view a data s \<longleftrightarrow>
     flash_area s = Some a \<and> length (flash_pending s) = pending_max E \<and> 0 < pending_max E \<and>
     flash_pending_len s \<le> pending_max E \<and>
     flash_write_offset s + flash_pending_len s = length data \<and>
     rd (view a (flash s)) 0 (flash_write_offset s) = take (flash_write_offset s) data \<and>
     take (flash_pending_len s) (flash_pending s) = drop (flash_write_offset s) data \<and>
     (\<forall>x. flash_write_offset s \<le> x \<and> x < area_size E a \<longrightarrow> view a (flash s) x = 0xff)"

text \<open>The fields a flush or a write loop leaves alone, and the areas.\<close>

definition kept :: "(nat \<Rightarrow> 'f \<Rightarrow> mem) \<Rightarrow> nat \<Rightarrow> 'f store \<Rightarrow> 'f store \<Rightarrow> bool" where
  "kept view a s s' \<longleftrightarrow> flash_area s' = flash_area s \<and> flash_align s' = flash_align s \<and>
     expected_size s' = expected_size s \<and> written s' = written s \<and> active s' = active s \<and>
     (\<forall>b. b \<noteq> a \<longrightarrow> view b (flash s') = view b (flash s))"

lemma kept_refl [simp]: "kept view a s s"
  by (simp add: kept_def)

lemma kept_trans: "kept view a s s' \<Longrightarrow> kept view a s' s'' \<Longrightarrow> kept view a s s''"
  by (simp add: kept_def)

lemma round_up_ge: "0 < a \<Longrightarrow> x \<le> ROUND_UP x a"
proof -
  assume a: "0 < a"
  have "(x + (a - 1)) mod a < a" using a by simp
  moreover have "(x + (a - 1)) div a * a + (x + (a - 1)) mod a = x + (a - 1)" by simp
  ultimately show "x \<le> ROUND_UP x a" unfolding ROUND_UP_def by linarith
qed

lemma round_up_le:
  assumes "x \<le> m" "m mod a = 0" "0 < a"
  shows "ROUND_UP x a \<le> m"
proof -
  obtain q where q: "m = a * q" using assms(2) by (metis dvd_def mod_eq_0_iff_dvd)
  have "(x + (a - 1)) div a \<le> (a * q + (a - 1)) div a" using assms(1) q by (intro div_le_mono) simp
  also have "\<dots> = q" using assms(3) div_mult_self2 [of a "a - 1" q] by (simp add: add.commute)
  finally have "(x + (a - 1)) div a * a \<le> q * a" by (rule mult_le_mono1)
  then show ?thesis using q by (metis ROUND_UP_def mult.commute)
qed

lemma flush_spec:
  assumes laws: "flash_laws E view" and inv: "buf_inv E view a data s"
    and run: "store_flush_flash E final s = (r, s')"
  shows "kept view a s s'"
    "r = ok \<Longrightarrow> \<not> final \<Longrightarrow> buf_inv E view a data s' \<and> flash_pending_len s' < pending_max E"
    "r = ok \<Longrightarrow> final \<Longrightarrow> rd (view a (flash s')) 0 (length data) = data"
proof -
  note I = inv [unfolded buf_inv_def]
  let ?n = "flash_pending_len s" and ?w = "flash_write_offset s" and ?p = "flash_pending s"
  define wl where "wl = (if final then ROUND_UP ?n (flash_align s) else pending_max E)"
  define p where "p = take ?n ?p @ replicate (wl - ?n) 0xff @ drop wl ?p"
  obtain rc f where W: "area_write E a ?w (take wl p) (flash s) = (rc, f)" by force
  have whole: "rd (view a (flash s)) 0 ?w @ take ?n ?p = data"
    using I by (metis append_take_drop_id)
  have D: "(r = Inl EINVAL \<and> s' = s) \<or> (r = ok \<and> s' = s \<and> ?n = 0 \<and> flash_align s \<noteq> 0) \<or>
      (r = ok \<and> s' = s \<and> \<not> final \<and> ?n < pending_max E) \<or>
      (0 < ?n \<and> (final \<or> ?n = pending_max E) \<and> flash_align s \<noteq> 0 \<and> pending_max E mod flash_align s = 0 \<and>
       r = rc \<and> s' = (if rc = ok then s\<lparr>flash_pending := p, flash := f, flash_write_offset := ?w + wl,
           flash_pending_len := 0\<rparr> else s\<lparr>flash_pending := p, flash := f\<rparr>))"
      using run I W unfolding store_flush_flash_def wl_def p_def
      by (auto simp: Let_def split: if_splits prod.splits)
  from D have "kept view a s s' \<and>
    (r = ok \<and> \<not> final \<longrightarrow> buf_inv E view a data s' \<and> flash_pending_len s' < pending_max E) \<and>
    (r = ok \<and> final \<longrightarrow> rd (view a (flash s')) 0 (length data) = data)"
  proof (elim disjE, goal_cases)
    case 1
    then show ?case by simp
  next
    case 2
    then show ?case using inv I whole by auto
  next
    case 3
    then show ?case using inv by simp
  next
    case 4
    then have store: "0 < ?n" "final \<or> ?n = pending_max E" "flash_align s \<noteq> 0"
      "pending_max E mod flash_align s = 0" "r = rc"
      "s' = (if rc = ok then s\<lparr>flash_pending := p, flash := f, flash_write_offset := ?w + wl,
           flash_pending_len := 0\<rparr> else s\<lparr>flash_pending := p, flash := f\<rparr>)" by blast+
    have kept: "kept view a s s'"
      using store(6) flash_lawsD(3) [OF laws W] by (auto simp: kept_def)
    show ?case
    proof (cases "rc = ok")
      case False
      then show ?thesis using kept store(5) by simp
    next
      case True
      have n: "?n \<le> wl" "wl \<le> pending_max E"
        using store I round_up_ge [of "flash_align s" ?n] round_up_le [of ?n "pending_max E" "flash_align s"]
        by (auto simp: wl_def)
      have lenp: "length (take wl p) = wl" "take wl p = take ?n ?p @ replicate (wl - ?n) 0xff"
        using n I by (auto simp: p_def)
      have inb: "?w + wl \<le> area_size E a" using flash_lawsD(4) [OF laws W [unfolded True]] lenp by simp
      have v: "view a f = wr (view a (flash s)) ?w (take wl p)"
        by (rule flash_lawsD(5) [OF laws W [unfolded True]]) (use I inb lenp in auto)
      have "rd (view a f) 0 (?w + ?n) = rd (view a f) 0 ?w @ rd (view a f) ?w ?n"
        using rd_add [of "view a f" 0 ?w ?n] by simp
      also have "rd (view a f) 0 ?w = rd (view a (flash s)) 0 ?w"
        unfolding v by (rule wr_other) simp
      also have "rd (view a f) ?w ?n = take ?n ?p"
      proof -
        have "rd (view a f) ?w wl = take wl p" unfolding v by (rule wr_same) (simp only: lenp(1))
        then have "take ?n (rd (view a f) ?w wl) = take ?n ?p"
          using lenp(2) I n by (simp, linarith)
        moreover have "take ?n (rd (view a f) ?w wl) = rd (view a f) ?w ?n"
          using rd_add [of "view a f" ?w ?n "wl - ?n"] n by simp
        ultimately show ?thesis by simp
      qed
      finally have all: "rd (view a f) 0 (length data) = data" using whole I by simp
      moreover have "buf_inv E view a data s' \<and> flash_pending_len s' < pending_max E" if "\<not> final"
      proof -
        have wn: "wl = ?n" "?n = pending_max E" using that store(2) by (auto simp: wl_def)
        have "length p = pending_max E" using I wn by (simp add: p_def, linarith)
        moreover have "view a f x = 0xff" if "?w + wl \<le> x" "x < area_size E a" for x
          using that I lenp by (simp add: v wr_at_other)
        ultimately show ?thesis
          using store(6) True I wn all by (auto simp: buf_inv_def)
      qed
      ultimately show ?thesis using kept store(6) True by simp
    qed
  qed
  then show "kept view a s s'"
    "r = ok \<Longrightarrow> \<not> final \<Longrightarrow> buf_inv E view a data s' \<and> flash_pending_len s' < pending_max E"
    "r = ok \<Longrightarrow> final \<Longrightarrow> rd (view a (flash s')) 0 (length data) = data"
    by blast+
qed

text \<open>Copying bytes into the pending buffer.\<close>

lemma buf_inv_append:
  assumes inv: "buf_inv E view a data s" and k: "k \<le> length d" "flash_pending_len s + k \<le> pending_max E"
  shows "buf_inv E view a (data @ take k d)
    (s\<lparr>flash_pending := take (flash_pending_len s) (flash_pending s) @ take k d @
         drop (flash_pending_len s + k) (flash_pending s),
       flash_pending_len := flash_pending_len s + k\<rparr>)"
proof -
  let ?n = "flash_pending_len s" and ?p = "flash_pending s"
  note I = inv [unfolded buf_inv_def]
  have tk: "length (take k d) = k" using k by simp
  have "take (?n + k) (take ?n ?p @ take k d @ drop (?n + k) ?p) = take ?n ?p @ take k d"
  proof -
    have "length ?p = pending_max E" using I by blast
    then have "length (take ?n ?p @ take k d) = ?n + k" using tk k by simp
    then show ?thesis by (metis append.assoc append_eq_conv_conj)
  qed
  moreover have "drop (flash_write_offset s) (data @ take k d) = drop (flash_write_offset s) data @ take k d"
    "take (flash_write_offset s) (data @ take k d) = take (flash_write_offset s) data"
    using I by simp_all
  ultimately show ?thesis using I k tk by (simp add: buf_inv_def)
qed

lemma write_loop_spec:
  assumes laws: "flash_laws E view"
  shows "buf_inv E view a data s \<Longrightarrow> flash_pending_len s < pending_max E \<Longrightarrow> sz \<le> length d \<Longrightarrow>
    \<exists>r s'. store_write_loop E d sz s = Some (r, s') \<and> kept view a s s' \<and>
      (r = ok \<longrightarrow> buf_inv E view a (data @ take sz d) s' \<and> flash_pending_len s' < pending_max E)"
proof (induction sz arbitrary: d data s rule: less_induct)
  case (less sz)
  note I = less.prems(1) [unfolded buf_inv_def]
  show ?case
  proof (cases "0 < sz")
    case False
    then show ?thesis using less.prems by (subst store_write_loop.simps) simp
  next
    case True
    let ?n = "flash_pending_len s" and ?p = "flash_pending s"
    define k where "k = min sz (pending_max E - ?n)"
    have k: "0 < k" "k \<le> sz" "?n + k \<le> pending_max E" using True less.prems(2) by (auto simp: k_def)
    define s1 where "s1 = s\<lparr>flash_pending := take ?n ?p @ take k d @ drop (?n + k) ?p,
      flash_pending_len := ?n + k\<rparr>"
    have inv1: "buf_inv E view a (data @ take k d) s1"
      unfolding s1_def by (rule buf_inv_append [OF less.prems(1)]) (use k less.prems(3) in auto)
    have kept1: "kept view a s s1" by (simp add: kept_def s1_def)
    obtain r2 s2 where F: "store_flush_flash E False s1 = (r2, s2)" by force
    note S = flush_spec [OF laws inv1 F]
    have code: "store_write_loop E d sz s = (if r2 \<noteq> ok then Some (r2, s2)
        else store_write_loop E (drop k d) (sz - k) s2)"
      using True F by (subst store_write_loop.simps) (simp add: Let_def k_def [symmetric] s1_def)
    show ?thesis
    proof (cases "r2 = ok")
      case False
      then show ?thesis using code S(1) kept_trans [OF kept1] by auto
    next
      case ok2: True
      have "sz - k < sz" "sz - k \<le> length (drop k d)" using k True less.prems(3) by auto
      from less.IH [OF this(1) _ _ this(2), of "data @ take k d" s2] S(2) [OF ok2]
      obtain r s' where R: "store_write_loop E (drop k d) (sz - k) s2 = Some (r, s')" "kept view a s2 s'"
        "r = ok \<longrightarrow> buf_inv E view a ((data @ take k d) @ take (sz - k) (drop k d)) s' \<and>
           flash_pending_len s' < pending_max E" by auto
      have "take k d @ take (sz - k) (drop k d) = take sz d"
        using k(2) by (metis le_add_diff_inverse take_add)
      then show ?thesis using code ok2 R kept_trans [OF kept1 kept_trans [OF S(1) R(2)]] by simp
    qed
  qed
qed

section \<open>An upload from beginning to end\<close>

text \<open>The state of an active store into which \<open>data\<close> has been written.\<close>

definition store_inv :: "'f image_env \<Rightarrow> (nat \<Rightarrow> 'f \<Rightarrow> mem) \<Rightarrow> byte list \<Rightarrow> 'f store \<Rightarrow> bool" where
  "store_inv E view data s \<longleftrightarrow>
     active s \<and> buf_inv E view (direct_store_area_id E) data s \<and>
     flash_pending_len s < pending_max E \<and> written s = length data \<and>
     length data \<le> expected_size s \<and> 128 \<le> expected_size s \<and> expected_size s < 4294967296"

lemma begin_spec:
  assumes "flash_laws E view" "0 < pending_max E" "n < 4294967296"
    and "rtbus_image_store_begin E (Some n) s = (r, s')"
  shows "r = ok \<Longrightarrow> store_inv E view [] s' \<and> expected_size s' = n"
    "b \<noteq> direct_store_area_id E \<Longrightarrow> view b (flash s') = view b (flash s)"
    "active s' \<longleftrightarrow> active s \<or> r = ok"
proof -
  let ?a = "direct_store_area_id E"
  obtain rf f where fl: "area_flatten E ?a 0 (area_size E ?a) (flash s) = (rf, f)" by force
  have fl': "area_flatten E ?a 0 (area_size E ?a) (flash (store_clear E s)) = (rf, f)"
    using fl by (simp add: store_clear_def)
  show "b \<noteq> ?a \<Longrightarrow> view b (flash s') = view b (flash s)"
    using assms(4) fl flash_lawsD(6) [OF assms(1) fl]
    by (auto simp: rtbus_image_store_begin_def Let_def store_clear_def split: if_splits)
  show "active s' \<longleftrightarrow> active s \<or> r = ok"
    using assms(4) fl
    by (auto simp: rtbus_image_store_begin_def Let_def store_clear_def split: if_splits)
  show "store_inv E view [] s' \<and> expected_size s' = n" if r: "r = ok"
  proof -
    have c: "IMAGE_HEADER_SIZE \<le> n" "n \<le> area_size E ?a" "rf = ok"
      and s': "s' = (store_clear E s)\<lparr>flash_align := area_align E ?a, flash := f, flash_area := Some ?a,
        expected_size := n, active := True, flash_pending := replicate (pending_max E) 0xff\<rparr>"
      using assms(4) fl r
      by (auto simp: rtbus_image_store_begin_def Let_def store_clear_def split: if_splits)
    have "view ?a f x = 0xff" if "x < area_size E ?a" for x
      using flash_lawsD(7) [OF assms(1) fl [unfolded c(3)], of x] that by simp
    then show ?thesis using c assms(2,3)
      by (simp add: s' store_inv_def buf_inv_def store_clear_def IMAGE_HEADER_SIZE_def)
  qed
qed

lemma store_write_spec:
  assumes laws: "flash_laws E view" and inv: "store_inv E view data s"
  shows "\<exists>r s'. rtbus_image_store_write E (length data) (Some d) (length d) s = Some (r, s') \<and>
    kept view (direct_store_area_id E) (s\<lparr>written := written s'\<rparr>) s' \<and>
    (r = ok \<longrightarrow> store_inv E view (data @ d) s') \<and>
    (expected_size s < length data + length d \<longrightarrow> r = Inl EFBIG \<and> s' = s)"
proof -
  let ?a = "direct_store_area_id E"
  note I = inv [unfolded store_inv_def]
  have ps: "psub (expected_size s) (written s) = expected_size s - length data" using I by simp
  show ?thesis
  proof (cases "expected_size s < length data + length d")
    case True
    then have "rtbus_image_store_write E (length data) (Some d) (length d) s = Some (Inl EFBIG, s)"
      using I ps by (auto simp: rtbus_image_store_write_def)
    then show ?thesis using True by simp
  next
    case False
    have b: "buf_inv E view ?a data s" using I by simp
    then have fa: "flash_area s = Some ?a" by (simp add: buf_inv_def)
    obtain r s1 where W: "store_write_loop E d (length d) s = Some (r, s1)" "kept view ?a s s1"
      "r = ok \<longrightarrow> buf_inv E view ?a (data @ d) s1 \<and> flash_pending_len s1 < pending_max E"
      using write_loop_spec [OF laws b, of "length d" d] I by auto
    have run: "rtbus_image_store_write E (length data) (Some d) (length d) s =
        Some (if r = ok then (ok, s1\<lparr>written := written s1 + length d\<rparr>) else (r, s1))"
      using I ps W(1) fa False by (auto simp: rtbus_image_store_write_def store_write_flash_def)
    have k: "kept view ?a (s\<lparr>written := w\<rparr>) (s1\<lparr>written := w\<rparr>)" for w
      using W(2) by (simp add: kept_def)
    show ?thesis
    proof (cases "r = ok")
      case True
      have "store_inv E view (data @ d) (s1\<lparr>written := written s1 + length d\<rparr>)"
        using W I True False by (auto simp: store_inv_def kept_def buf_inv_def)
      then show ?thesis using run True k [of "written s1 + length d"] False by auto
    next
      case f: False
      then show ?thesis using run k [of "written s1"] False by auto
    qed
  qed
qed

text \<open>What \<open>rtbus_image_store_finish\<close> demands of an image of these bytes.\<close>

definition image_ok :: "'f image_env \<Rightarrow> byte list \<Rightarrow> bool" where
  "image_ok E data \<longleftrightarrow>
     (let h = header_of_bytes (take 128 data)
      in \<not> bad_header h (length data - 128) \<and> h_required_ram_size h \<le> image_ram_max E \<and>
         crc32_ieee_update E 0 (slice 128 (h_payload_size h) data) = h_payload_crc32 h)"

lemma rd_slice: "rd m 0 (length data) = data \<Longrightarrow> off + n \<le> length data \<Longrightarrow> rd m off n = slice off n data"
proof -
  assume a: "rd m 0 (length data) = data" "off + n \<le> length data"
  have "rd m 0 off @ rd m off n @ rd m (off + n) (length data - off - n) = data"
    using a rd_add [of m 0 off "length data - off"] rd_add [of m off n "length data - off - n"] by simp
  then have "drop off data = rd m off n @ rd m (off + n) (length data - off - n)"
    by (metis append_eq_conv_conj length_rd)
  then show ?thesis by (simp add: slice_def)
qed

lemma commit_loop_spec:
  assumes laws: "flash_laws E view" and ne: "src \<noteq> slot" and al: "0 < al" "128 mod al = 0"
    and src: "length data = sz"
  shows "commit_loop E src slot al sz off f = (ok, f') \<Longrightarrow> rd (view src f) 0 sz = data \<Longrightarrow>
    off \<le> sz \<Longrightarrow> rd (view slot f) 0 off = take off data \<Longrightarrow>
    (\<And>x. off \<le> x \<Longrightarrow> x < area_size E slot \<Longrightarrow> view slot f x = 0xff) \<Longrightarrow>
    rd (view slot f') 0 sz = data"
proof (induction "sz - off" arbitrary: off f rule: less_induct)
  case less
  show ?case
  proof (cases "off < sz")
    case False
    then have "off = sz" using less.prems(3) by simp
    then show ?thesis using less.prems(1,4) src by (simp add: commit_loop.simps)
  next
    case True
    define k where "k = min 128 (sz - off)"
    define wl where "wl = ROUND_UP k al"
    have k: "0 < k" "k \<le> sz - off" "k \<le> 128" using True by (auto simp: k_def)
    have wl: "k \<le> wl" "wl \<le> 128" using round_up_ge [OF al(1)] round_up_le [OF k(3) al(2,1)] by (auto simp: wl_def)
    obtain buf where R: "area_read E src off k f = Inr buf"
      using less.prems(1) True by (subst (asm) commit_loop.simps) (auto simp: k_def Let_def split: sum.splits)
    obtain f1 where W: "area_write E slot off (buf @ replicate (wl - k) 0xff) f = (ok, f1)"
      and rest: "commit_loop E src slot al sz (off + k) f1 = (ok, f')"
      using less.prems(1) True R
      by (subst (asm) commit_loop.simps) (auto simp: k_def wl_def Let_def split: prod.splits if_splits)
    have buf: "buf = slice off k data"
      using flash_lawsD(2) [OF laws R] rd_slice [of "view src f" data off k] less.prems(2) src k True by simp
    then have lb: "length buf = k" using src k True by (simp add: slice_def)
    let ?ws = "buf @ replicate (wl - k) 0xff"
    have lw: "length ?ws = wl" using lb wl by simp
    have inb: "off + wl \<le> area_size E slot" using flash_lawsD(4) [OF laws W] lw by simp
    have v: "view slot f1 = wr (view slot f) off ?ws"
      by (rule flash_lawsD(5) [OF laws W]) (use less.prems(5) inb lw in auto)
    have src1: "rd (view src f1) 0 sz = data"
      using flash_lawsD(3) [OF laws W ne] less.prems(2) by simp
    have got: "rd (view slot f1) 0 (off + k) = take (off + k) data"
    proof -
      have "rd (view slot f1) off wl = ?ws" unfolding v by (rule wr_same) (simp only: lw)
      moreover have "rd (view slot f1) off wl = rd (view slot f1) off k @ rd (view slot f1) (off + k) (wl - k)"
        using rd_add [of "view slot f1" off k "wl - k"] wl by simp
      ultimately have "rd (view slot f1) off k = buf" using lb by (metis append_eq_append_conv length_rd)
      moreover have "rd (view slot f1) 0 off = take off data"
        using less.prems(4) unfolding v by (subst wr_other) auto
      ultimately show ?thesis
        using rd_add [of "view slot f1" 0 off k] buf by (simp add: slice_def take_add)
    qed
    show ?thesis
    proof (cases "off + k = sz")
      case True
      then show ?thesis using rest got src by (simp add: commit_loop.simps)
    next
      case False
      then have k128: "k = 128" using k by (auto simp: k_def)
      then have "wl = 128" using wl by simp
      then have "view slot f1 x = 0xff" if "off + k \<le> x" "x < area_size E slot" for x
        using that less.prems(5) lw k128 by (simp add: v wr_at_other)
      then show ?thesis
        using less.hyps [OF _ rest src1 _ got] k True by auto
    qed
  qed
qed

lemma read_header_spec:
  assumes laws: "flash_laws E view" and s: "flash_area s = Some a" "written s = length data"
    "rd (view a (flash s)) 0 (length data) = data" "length data = expected_size s"
    "128 \<le> length data" "length data < 4294967296"
    and h: "read_header_from_store E s = Inr h"
  shows "h = header_of_bytes (take 128 data)" "\<not> bad_header h (length data - 128)"
proof -
  obtain bs where bs: "store_read E 0 128 s = Inr bs" "h = header_of_bytes bs"
    "\<not> bad_header h (psub (expected_size s) 128)"
    using h by (auto simp: read_header_from_store_def IMAGE_HEADER_SIZE_def Let_def split: sum.splits if_splits)
  have "area_read E a 0 128 (flash s) = Inr bs"
    using bs(1) s(1) by (auto simp: store_read_def split: if_splits)
  then have "bs = rd (view a (flash s)) 0 128" by (rule flash_lawsD(2) [OF laws])
  also have "\<dots> = take 128 data" using rd_slice [OF s(3), of 0 128] s(5) by (simp add: slice_def)
  finally show "h = header_of_bytes (take 128 data)" using bs(2) by simp
  show "\<not> bad_header h (length data - 128)" using bs(3) s(4-6) by simp
qed

lemma store_crc_spec:
  assumes laws: "flash_laws E view" "crc_laws E" and s: "flash_area s = Some a"
    "rd (view a (flash s)) 0 (length data) = data" "128 + n \<le> length data"
    and c: "calculate_store_payload_crc E n s = Inr c"
  shows "c = crc32_ieee_update E 0 (slice 128 n data)"
proof -
  have rdf: "\<And>o' n bs. store_read E o' n s = Inr bs \<Longrightarrow> bs = rd (view a (flash s)) o' n"
    using s(1) flash_lawsD(2) [OF laws(1)] by (auto simp: store_read_def split: if_splits)
  have "c = crc32_ieee_update E 0 (rd (view a (flash s)) (128 + 0) (n - 0))"
    using c unfolding calculate_store_payload_crc_def
    by (rule crc_loop_spec [rotated -1]) (use rdf laws(2) in \<open>auto simp: crc_laws_def\<close>)
  then show ?thesis using rd_slice [OF s(2,3)] by simp
qed

lemma commit_spec:
  assumes laws: "flash_laws E view" and s: "flash_area s = Some a" "written s = length data"
    "rd (view a (flash s)) 0 (length data) = data" "length data = expected_size s"
    and al: "128 mod area_align E (slot_area_id E) = 0"
    and run: "commit_store_to_slot E s = (ok, s')"
  shows "rd (view (slot_area_id E) (flash s')) 0 (length data) = data"
proof (cases "a = slot_area_id E")
  case True
  then show ?thesis using run s by (simp add: commit_store_to_slot_def)
next
  case False
  let ?slot = "slot_area_id E"
  obtain f1 f2 where F: "area_flatten E ?slot 0 (area_size E ?slot) (flash s) = (ok, f1)"
    "commit_loop E a ?slot (area_align E ?slot) (expected_size s) 0 f1 = (ok, f2)" "flash s' = f2"
    "area_align E ?slot \<noteq> 0"
    using run s False by (auto simp: commit_store_to_slot_def Let_def split: if_splits prod.splits)
  have "rd (view a f1) 0 (expected_size s) = data"
    using flash_lawsD(6) [OF laws F(1) False] s by simp
  moreover have "view ?slot f1 x = 0xff" if "x < area_size E ?slot" for x
    using flash_lawsD(7) [OF laws F(1), of x] that by simp
  ultimately show ?thesis
    using commit_loop_spec [OF laws False _ al _ F(2), of data] F(3,4) s(4) by simp
qed

lemma finish_spec:
  assumes laws: "flash_laws E view" "crc_laws E" and inv: "store_inv E view data s"
    and full: "length data = expected_size s"
    and run: "rtbus_image_store_finish E ok s = (r, s')"
  shows "r = ok \<Longrightarrow> image_ok E data"
    "r = ok \<Longrightarrow> 128 mod area_align E (slot_area_id E) = 0 \<Longrightarrow>
       rd (view (slot_area_id E) (flash s')) 0 (length data) = data"
    "direct_store_area_id E \<noteq> slot_area_id E \<Longrightarrow> \<not> image_ok E data \<Longrightarrow>
       r \<noteq> ok \<and> view (slot_area_id E) (flash s') = view (slot_area_id E) (flash s)"
proof -
  let ?d = "direct_store_area_id E" and ?slot = "slot_area_id E"
  note I = inv [unfolded store_inv_def]
  obtain r2 s2 where V: "store_verify_commit E s = (r2, s2)" by force
  have out: "r = r2" "flash s' = flash s2"
    using run V I full by (auto simp: rtbus_image_store_finish_def store_clear_def)
  obtain r1 s1 where F: "store_flush_flash E True s = (r1, s1)" by force
  have b: "buf_inv E view ?d data s" using I by simp
  note S = flush_spec [OF laws(1) b F]
  have s1: "flash_area s1 = Some ?d" "written s1 = length data" "length data = expected_size s1"
    "128 \<le> length data" "length data < 4294967296" "?d \<noteq> ?slot \<longrightarrow> view ?slot (flash s1) = view ?slot (flash s)"
    using S(1) b I full by (auto simp: kept_def buf_inv_def)
  have bad: "r2 \<noteq> ok \<and> flash s2 = flash s1"
    if "\<not> (r1 = ok \<and> (\<exists>h c. read_header_from_store E s1 = Inr h \<and>
        \<not> psub (expected_size s1) IMAGE_HEADER_SIZE < h_payload_size h \<and>
        h_required_ram_size h \<le> image_ram_max E \<and>
        calculate_store_payload_crc E (h_payload_size h) s1 = Inr c \<and> c = h_payload_crc32 h))"
    using V F that unfolding store_verify_commit_def
    by (cases "r1 = ok"; cases "read_header_from_store E s1")
      (auto simp: Let_def split: if_splits sum.splits)
  have good: "image_ok E data \<and> commit_store_to_slot E s1 = (r2, s2) \<and>
      rd (view ?d (flash s1)) 0 (length data) = data"
    if r1: "r1 = ok" and h: "read_header_from_store E s1 = Inr h"
      "\<not> psub (expected_size s1) IMAGE_HEADER_SIZE < h_payload_size h"
      "h_required_ram_size h \<le> image_ram_max E"
      "calculate_store_payload_crc E (h_payload_size h) s1 = Inr c" "c = h_payload_crc32 h" for h c
  proof -
    have d: "rd (view ?d (flash s1)) 0 (length data) = data" using S(3) [OF r1] by simp
    note H = read_header_spec [OF laws(1) s1(1,2) d s1(3-5) h(1)]
    have n: "128 + h_payload_size h \<le> length data"
      using H(2) s1(4) by (simp add: bad_header_def, linarith)
    have "c = crc32_ieee_update E 0 (slice 128 (h_payload_size h) data)"
      by (rule store_crc_spec [OF laws s1(1) d n h(4)])
    then have "image_ok E data" using H h(3,5) by (simp add: image_ok_def Let_def)
    moreover have "commit_store_to_slot E s1 = (r2, s2)"
      using V F r1 h by (simp add: store_verify_commit_def)
    ultimately show ?thesis using d by simp
  qed
  show "r = ok \<Longrightarrow> image_ok E data" using bad good out by blast
  show "rd (view ?slot (flash s')) 0 (length data) = data"
    if "r = ok" "128 mod area_align E ?slot = 0"
  proof -
    have "commit_store_to_slot E s1 = (ok, s2)" "rd (view ?d (flash s1)) 0 (length data) = data"
      using that bad good out by blast+
    from commit_spec [OF laws(1) s1(1,2) this(2) s1(3) that(2) this(1)] show ?thesis using out by simp
  qed
  show "?d \<noteq> ?slot \<Longrightarrow> \<not> image_ok E data \<Longrightarrow> r \<noteq> ok \<and> view ?slot (flash s') = view ?slot (flash s)"
    using bad good out s1(6) by metis
qed

section \<open>Sessions\<close>

text \<open>How the receiver drives the store: begin, write the chunks in order, finish with the result.\<close>

fun store_upload ::
    "'f image_env \<Rightarrow> byte list list \<Rightarrow> nat \<Rightarrow> 'f store \<Rightarrow> (rc \<times> 'f store) option" where
  "store_upload E [] off s = Some (ok, s)"
| "store_upload E (c # cs) off s = do {
     (rc, s) \<leftarrow> rtbus_image_store_write E off (Some c) (length c) s;
     if rc \<noteq> ok then Some (rc, s) else store_upload E cs (off + length c) s
   }"

definition image_session ::
    "'f image_env \<Rightarrow> nat \<Rightarrow> byte list list \<Rightarrow> 'f store \<Rightarrow> (rc \<times> 'f store) option" where
  "image_session E n chunks s =
     (let (rc, s) = rtbus_image_store_begin E (Some n) s
      in if rc \<noteq> ok then Some (rc, s)
         else do {
           (rc, s) \<leftarrow> store_upload E chunks 0 s;
           Some (rtbus_image_store_finish E rc s)
         })"

lemma upload_spec:
  assumes laws: "flash_laws E view"
  shows "store_inv E view data s \<Longrightarrow>
    \<exists>r s'. store_upload E chunks (length data) s = Some (r, s') \<and>
      active s' \<and> expected_size s' = expected_size s \<and>
      (\<forall>b. b \<noteq> direct_store_area_id E \<longrightarrow> view b (flash s') = view b (flash s)) \<and>
      (r = ok \<longrightarrow> store_inv E view (data @ concat chunks) s')"
proof (induction chunks arbitrary: data s)
  case Nil
  then show ?case by (intro exI [of _ ok] exI [of _ s]) (simp add: store_inv_def)
next
  case (Cons c cs)
  obtain r s1 where W: "rtbus_image_store_write E (length data) (Some c) (length c) s = Some (r, s1)"
    "kept view (direct_store_area_id E) (s\<lparr>written := written s1\<rparr>) s1"
    "r = ok \<longrightarrow> store_inv E view (data @ c) s1"
    using store_write_spec [OF laws Cons.prems, of c] by blast
  have k: "active s1" "expected_size s1 = expected_size s"
    "\<forall>b. b \<noteq> direct_store_area_id E \<longrightarrow> view b (flash s1) = view b (flash s)"
    using W(2) Cons.prems by (auto simp: kept_def store_inv_def)
  show ?case
  proof (cases "r = ok")
    case False
    then show ?thesis using W(1) k by auto
  next
    case True
    from Cons.IH [of "data @ c" s1] W(3) True obtain r' s' where
      "store_upload E cs (length (data @ c)) s1 = Some (r', s')" "active s'"
      "expected_size s' = expected_size s1"
      "\<forall>b. b \<noteq> direct_store_area_id E \<longrightarrow> view b (flash s') = view b (flash s1)"
      "r' = ok \<longrightarrow> store_inv E view ((data @ c) @ concat cs) s'" by blast
    then show ?thesis using W(1) True k by auto
  qed
qed

lemma session_spec:
  assumes laws: "flash_laws E view" "crc_laws E" and cfg: "0 < pending_max E" "n < 4294967296"
    and idle: "\<not> active s"
  shows "\<exists>r s'. image_session E n chunks s = Some (r, s') \<and> \<not> active s' \<and>
    (r = ok \<longrightarrow> length (concat chunks) = n \<and> image_ok E (concat chunks) \<and>
       (128 mod area_align E (slot_area_id E) = 0 \<longrightarrow>
          rd (view (slot_area_id E) (flash s')) 0 n = concat chunks)) \<and>
    (direct_store_area_id E \<noteq> slot_area_id E \<longrightarrow>
       \<not> (length (concat chunks) = n \<and> image_ok E (concat chunks)) \<longrightarrow>
       view (slot_area_id E) (flash s') = view (slot_area_id E) (flash s))"
proof -
  let ?d = "direct_store_area_id E" and ?slot = "slot_area_id E"
  obtain r0 s0 where B: "rtbus_image_store_begin E (Some n) s = (r0, s0)" by force
  note B' = begin_spec [OF laws(1) cfg B]
  show ?thesis
  proof (cases "r0 = ok")
    case False
    then show ?thesis using B B'(2,3) idle
      by (intro exI [of _ r0] exI [of _ s0]) (auto simp: image_session_def)
  next
    case True
    have inv: "store_inv E view [] s0" "expected_size s0 = n" using B'(1) True by auto
    obtain r1 s1 where U: "store_upload E chunks 0 s0 = Some (r1, s1)" "active s1" "expected_size s1 = n"
      "\<forall>b. b \<noteq> ?d \<longrightarrow> view b (flash s1) = view b (flash s0)"
      "r1 = ok \<longrightarrow> store_inv E view (concat chunks) s1"
      using upload_spec [OF laws(1) inv(1), of chunks] inv(2) by auto
    obtain r2 s2 where F: "rtbus_image_store_finish E r1 s1 = (r2, s2)" by force
    have run: "image_session E n chunks s = Some (r2, s2)"
      using B True U(1) F by (simp add: image_session_def)
    have na: "\<not> active s2"
      using F U(2) by (auto simp: rtbus_image_store_finish_def store_clear_def Let_def split: prod.splits if_splits)
    have slot: "?d \<noteq> ?slot \<longrightarrow> view ?slot (flash s1) = view ?slot (flash s)"
      using U(4) B'(2) [of ?slot] by auto
    have early: "r2 \<noteq> ok \<and> flash s2 = flash s1" if "\<not> (r1 = ok \<and> length (concat chunks) = n)"
    proof (cases "r1 = ok")
      case ok1: True
      then have "written s1 \<noteq> expected_size s1" using U(3,5) that by (simp add: store_inv_def)
      then show ?thesis using F U(2) ok1
        by (auto simp: rtbus_image_store_finish_def store_clear_def Let_def)
    next
      case False
      then show ?thesis using F U(2)
        by (auto simp: rtbus_image_store_finish_def store_clear_def Let_def)
    qed
    have late: "(r2 = ok \<longrightarrow> image_ok E (concat chunks) \<and>
        (128 mod area_align E ?slot = 0 \<longrightarrow> rd (view ?slot (flash s2)) 0 n = concat chunks)) \<and>
      (?d \<noteq> ?slot \<longrightarrow> \<not> image_ok E (concat chunks) \<longrightarrow>
        view ?slot (flash s2) = view ?slot (flash s1))"
      if "r1 = ok" "length (concat chunks) = n"
    proof -
      have i: "store_inv E view (concat chunks) s1" "length (concat chunks) = expected_size s1"
        using that U(3,5) by auto
      note S = finish_spec [OF laws i F [unfolded that(1)]]
      show ?thesis using S unfolding that(2) by simp
    qed
    show ?thesis
      using run na early late slot
      by (intro exI [of _ r2] exI [of _ s2]) (cases "r1 = ok \<and> length (concat chunks) = n"; auto)
  qed
qed

section \<open>Reading the slot back\<close>

text \<open>The slot can be opened and every access inside it succeeds.\<close>

definition slot_readable :: "'f image_env \<Rightarrow> 'f \<Rightarrow> bool" where
  "slot_readable E f \<longleftrightarrow> area_open E (slot_area_id E) f = ok \<and>
     (\<forall>off n. off + n \<le> area_size E (slot_area_id E) \<longrightarrow>
        (\<exists>bs. area_read E (slot_area_id E) off n f = Inr bs))"

lemma crc_loop_total:
  assumes "\<And>o' n. o' + n \<le> 128 + sz \<Longrightarrow> \<exists>bs. rdf o' n = Inr bs"
  shows "off \<le> sz \<Longrightarrow> \<exists>c. crc_loop upd rdf sz off crc = Inr c"
proof (induction "sz - off" arbitrary: off crc rule: less_induct)
  case less
  show ?case
  proof (cases "off < sz")
    case False
    then show ?thesis by (simp add: crc_loop.simps)
  next
    case True
    define k where "k = min 128 (sz - off)"
    have k: "0 < k" "k \<le> sz - off" using True by (auto simp: k_def)
    then have "128 + off + k \<le> 128 + sz" by simp
    then obtain bs where bs: "rdf (128 + off) k = Inr bs" using assms by blast
    have "sz - (off + k) < sz - off" "off + k \<le> sz" using k True by linarith+
    then obtain c where "crc_loop upd rdf sz (off + k) (upd crc bs) = Inr c"
      using less.hyps [of "off + k" "upd crc bs"] by blast
    then have "crc_loop upd rdf sz off crc = Inr c"
      using True bs by (subst crc_loop.simps) (simp add: Let_def k_def IMAGE_HEADER_SIZE_def)
    then show ?thesis ..
  qed
qed

lemma slot_image:
  assumes laws: "flash_laws E view" "crc_laws E" and up: "slot_readable E f"
    and img: "rd (view (slot_area_id E) f) 0 (length data) = data" "image_ok E data"
    and len: "128 \<le> length data" "length data \<le> area_size E (slot_area_id E)"
  shows "read_header_from_area E (slot_area_id E) f = Inr (header_of_bytes (take 128 data))"
    "128 + h_payload_size (header_of_bytes (take 128 data)) \<le> length data"
    "0 < h_payload_size (header_of_bytes (take 128 data))"
    "calculate_payload_crc E (slot_area_id E) (h_payload_size (header_of_bytes (take 128 data))) f =
       Inr (h_payload_crc32 (header_of_bytes (take 128 data)))"
proof -
  let ?slot = "slot_area_id E" and ?h = "header_of_bytes (take 128 data)"
  have okh: "\<not> bad_header ?h (length data - 128)"
    "crc32_ieee_update E 0 (slice 128 (h_payload_size ?h) data) = h_payload_crc32 ?h"
    using img(2) by (auto simp: image_ok_def Let_def)
  show n: "128 + h_payload_size ?h \<le> length data" "0 < h_payload_size ?h"
    using okh(1) len(1) by (auto simp: bad_header_def not_less)
  obtain bs where bs: "area_read E ?slot 0 128 f = Inr bs"
    using up [unfolded slot_readable_def] len by (metis add_0 le_trans)
  have "bs = rd (view ?slot f) 0 128" by (rule flash_lawsD(2) [OF laws(1) bs])
  also have "\<dots> = take 128 data" using rd_slice [OF img(1), of 0 128] len by (simp add: slice_def)
  finally have bs2: "bs = take 128 data" .
  have "length data - 128 \<le> payload_capacity E ?slot"
    using len by (auto simp: payload_capacity_def IMAGE_HEADER_SIZE_def)
  then have "\<not> bad_header ?h (payload_capacity E ?slot)"
    using okh(1) by (auto simp: bad_header_def)
  then show "read_header_from_area E ?slot f = Inr ?h"
    using bs bs2 by (simp add: read_header_from_area_def IMAGE_HEADER_SIZE_def Let_def)
  have rdok: "\<exists>bs. area_read E ?slot o' k f = Inr bs" if "o' + k \<le> 128 + h_payload_size ?h" for o' k
    using up that n len by (auto simp: slot_readable_def)
  then obtain c where c: "crc_loop (crc32_ieee_update E) (\<lambda>off n. area_read E ?slot off n f)
      (h_payload_size ?h) 0 0 = Inr c"
    using crc_loop_total [where rdf = "\<lambda>off n. area_read E ?slot off n f", OF rdok,
        where off = 0 and crc = 0 and upd = "crc32_ieee_update E"] by blast
  have "c = crc32_ieee_update E 0 (rd (view ?slot f) (128 + 0) (h_payload_size ?h - 0))"
    using c by (rule crc_loop_spec [rotated -1])
      (use flash_lawsD(2) [OF laws(1)] laws(2) in \<open>auto simp: crc_laws_def\<close>)
  then have "c = h_payload_crc32 ?h" using rd_slice [OF img(1) n(1)] okh(2) by simp
  then show "calculate_payload_crc E ?slot (h_payload_size ?h) f = Inr (h_payload_crc32 ?h)"
    using c by (simp add: calculate_payload_crc_def)
qed

section \<open>Properties\<close>

text \<open>A flash of two 1 KiB areas that never fails, with a checksum for the CRC.\<close>

type_synonym demo_flash = "nat \<Rightarrow> mem"

definition demo_env :: "demo_flash image_env" where
  "demo_env =
     \<lparr>slot_area_id = 1, direct_store_area_id = 2, slot_partition_size = 1024, pending_max = 256,
      image_ram_max = 8192, area_size = (\<lambda>_. 1024), area_align = (\<lambda>_. 4), area_open = (\<lambda>_ _. ok),
      area_ready = (\<lambda>_ _. True),
      area_read = (\<lambda>a off n f. if off + n \<le> 1024 then Inr (rd (f a) off n) else Inl EINVAL),
      area_write = (\<lambda>a off bs f. if off + length bs \<le> 1024
         then (ok, f(a := wr (f a) off bs)) else (Inl EINVAL, f)),
      area_flatten = (\<lambda>a off n f. if off + n \<le> 1024
         then (ok, f(a := wr (f a) off (replicate n 0xff))) else (Inl EINVAL, f)),
      crc32_ieee_update = foldl (\<lambda>c b. (c + unat b) mod 4294967296)\<rparr>"

definition demo_view :: "nat \<Rightarrow> demo_flash \<Rightarrow> mem" where
  "demo_view a f = f a"

definition demo_store :: "demo_flash store" where
  "demo_store = \<lparr>flash = (\<lambda>_ _. 0), flash_area = None, flash_write_offset = 0, flash_align = 0,
     flash_pending = [], flash_pending_len = 0, expected_size = 0, written = 0, active = False\<rparr>"

lemma demo_env_laws: "flash_laws demo_env demo_view" "crc_laws demo_env"
proof -
  show "flash_laws demo_env demo_view"
    unfolding flash_laws_def
  proof (intro conjI allI impI)
    fix a off ws f r f' b
    assume "area_write demo_env a off ws f = (r, f')"
    then show "b \<noteq> a \<Longrightarrow> demo_view b f' = demo_view b f"
      and "r = ok \<Longrightarrow> off + length ws \<le> area_size demo_env a"
      and "r = ok \<Longrightarrow> \<forall>x. off \<le> x \<and> x < off + length ws \<longrightarrow> demo_view a f x = 0xff \<Longrightarrow>
        demo_view a f' = wr (demo_view a f) off ws"
      by (auto simp: demo_env_def demo_view_def split: if_splits)
  next
    fix a off n f r f' b x
    assume "area_flatten demo_env a off n f = (r, f')"
    then show "b \<noteq> a \<Longrightarrow> demo_view b f' = demo_view b f"
      and "r = ok \<Longrightarrow> off \<le> x \<and> x < off + n \<Longrightarrow> demo_view a f' x = 0xff"
      by (auto simp: demo_env_def demo_view_def wr_def split: if_splits)
  qed (auto simp: demo_env_def demo_view_def split: if_splits)
  show "crc_laws demo_env" by (simp add: crc_laws_def demo_env_def)
qed

text \<open>C10: what the store accepts is what is in the slot.  An upload always returns and leaves the
  store idle; if it reports success, exactly \<open>n\<close> bytes were written, they form an image with a
  valid header, an acceptable RAM demand and a matching CRC, and the slot holds exactly these
  bytes (with a slot alignment that divides the 128-byte copy buffer).\<close>

theorem upload_stores_image:
  assumes "flash_laws E view" "crc_laws E" "0 < pending_max E" "n < 4294967296" "\<not> active s"
    and "128 mod area_align E (slot_area_id E) = 0"
  shows "\<exists>r s'. image_session E n chunks s = Some (r, s') \<and> \<not> active s' \<and>
    (r = ok \<longrightarrow> length (concat chunks) = n \<and> image_ok E (concat chunks) \<and>
       rd (view (slot_area_id E) (flash s')) 0 n = concat chunks)"
proof -
  obtain r s' where S: "image_session E n chunks s = Some (r, s')" "\<not> active s'"
    "r = ok \<longrightarrow> length (concat chunks) = n \<and> image_ok E (concat chunks) \<and>
       (128 mod area_align E (slot_area_id E) = 0 \<longrightarrow>
          rd (view (slot_area_id E) (flash s')) 0 n = concat chunks)"
    using session_spec [OF assms(1-5), of chunks] by metis
  then show ?thesis using assms(6) by (intro exI [of _ r] exI [of _ s']) simp
qed

theorem upload_stores_image_witness:
  "\<exists>r s'. image_session demo_env 200 [replicate 150 1, replicate 50 2] demo_store = Some (r, s')"
proof -
  have "0 < pending_max demo_env" "\<not> active demo_store"
    "128 mod area_align demo_env (slot_area_id demo_env) = 0"
    by (simp_all add: demo_env_def demo_store_def)
  from upload_stores_image [OF demo_env_laws this(1) _ this(2,3), of 200 "[replicate 150 1, replicate 50 2]"] show ?thesis by auto
qed

text \<open>C11: a bad upload never damages the installed image.  With a store area of its own, an upload
  of the wrong length, with a bad header, too large a RAM demand or a wrong CRC leaves every byte
  of the slot as it was, whatever the flash operations report.\<close>

theorem bad_upload_keeps_slot:
  assumes "flash_laws E view" "crc_laws E" "0 < pending_max E" "n < 4294967296" "\<not> active s"
    and "direct_store_area_id E \<noteq> slot_area_id E"
    and "\<not> (length (concat chunks) = n \<and> image_ok E (concat chunks))"
  shows "\<exists>e s'. image_session E n chunks s = Some (Inl e, s') \<and>
    view (slot_area_id E) (flash s') = view (slot_area_id E) (flash s)"
proof -
  obtain r s' where S: "image_session E n chunks s = Some (r, s')"
    and S': "\<not> active s' \<and>
    (r = ok \<longrightarrow> length (concat chunks) = n \<and> image_ok E (concat chunks) \<and>
       (128 mod area_align E (slot_area_id E) = 0 \<longrightarrow>
          rd (view (slot_area_id E) (flash s')) 0 n = concat chunks)) \<and>
    (direct_store_area_id E \<noteq> slot_area_id E \<longrightarrow>
       \<not> (length (concat chunks) = n \<and> image_ok E (concat chunks)) \<longrightarrow>
       view (slot_area_id E) (flash s') = view (slot_area_id E) (flash s))"
    using session_spec [OF assms(1-5), of chunks] by (elim exE conjE) (rule that; (intro conjI)?; assumption)
  have "r \<noteq> ok" using S' assms(7) by auto
  then obtain e where "r = Inl e" by (cases r) auto
  moreover have "view (slot_area_id E) (flash s') = view (slot_area_id E) (flash s)"
    using S' assms(6,7) by simp
  ultimately show ?thesis using S by (intro exI [of _ e] exI [of _ s']) simp
qed

theorem bad_upload_keeps_slot_witness:
  "\<exists>e s'. image_session demo_env 200 [replicate 150 1, replicate 50 2] demo_store = Some (Inl e, s') \<and>
     flash s' 1 = (\<lambda>_. 0)"
proof -
  have h: "h_magic (header_of_bytes (take 128 (replicate 150 1 @ replicate 50 2))) \<noteq> IMAGE_MAGIC"
  proof -
    have "slice 0 4 (take 128 (replicate 150 1 @ replicate 50 2)) = [1, 1, 1, 1 :: byte]"
      by (simp add: slice_def numeral_eq_Suc)
    then have "h_magic (header_of_bytes (take 128 (replicate 150 1 @ replicate 50 2))) =
        un_le [1, 1, 1, 1 :: byte]"
      by (simp add: header_of_bytes_def)
    also have "\<dots> = 16843009" by simp
    finally show ?thesis by (simp add: IMAGE_MAGIC_def)
  qed
  have c: "0 < pending_max demo_env" "\<not> active demo_store"
    "direct_store_area_id demo_env \<noteq> slot_area_id demo_env"
    by (simp_all add: demo_env_def demo_store_def)
  have "\<not> image_ok demo_env (concat [replicate 150 1, replicate 50 2])"
    using h by (simp add: image_ok_def bad_header_def Let_def)
  with bad_upload_keeps_slot [OF demo_env_laws c(1) _ c(2,3), of 200 "[replicate 150 1, replicate 50 2]"]
  show ?thesis by (auto simp: demo_view_def demo_env_def demo_store_def)
qed

text \<open>An image in the slot is reported as it was sent: the status is valid with the header's
  sizes, CRC and flags, and reading the payload at any offset gives the sent bytes, cut at the
  payload's end.\<close>

theorem slot_reports_image:
  assumes "flash_laws E view" "crc_laws E" "slot_readable E f"
    and "rd (view (slot_area_id E) f) 0 (length data) = data" "image_ok E data"
    and "128 \<le> length data" "length data \<le> area_size E (slot_area_id E)"
    and "h = header_of_bytes (take 128 data)"
  shows "(\<exists>st. rtbus_image_get_status E f = (ok, st) \<and> st_valid st \<and>
      st_payload_size st = h_payload_size h \<and> st_payload_crc32 st = h_payload_crc32 h \<and>
      st_required_ram_size st = h_required_ram_size h \<and> st_flags st = h_flags h \<and>
      st_name st = strncpy_field 63 (h_name h)) \<and>
    rtbus_image_read_payload E off sz f = Inr (slice off sz (slice 128 (h_payload_size h) data))"
proof
  note S = slot_image [OF assms(1-7), folded assms(8)]
  have op: "area_open E (slot_area_id E) f = ok" using assms(3) by (simp add: slot_readable_def)
  show "\<exists>st. rtbus_image_get_status E f = (ok, st) \<and> st_valid st \<and>
      st_payload_size st = h_payload_size h \<and> st_payload_crc32 st = h_payload_crc32 h \<and>
      st_required_ram_size st = h_required_ram_size h \<and> st_flags st = h_flags h \<and>
      st_name st = strncpy_field 63 (h_name h)"
    using S op by (simp add: rtbus_image_get_status_def Let_def IMAGE_NAME_MAX_def)
  show "rtbus_image_read_payload E off sz f = Inr (slice off sz (slice 128 (h_payload_size h) data))"
  proof (cases "h_payload_size h \<le> off")
    case True
    then show ?thesis using S op by (simp add: rtbus_image_read_payload_def slice_def Let_def)
  next
    case False
    define k where "k = min sz (h_payload_size h - off)"
    have k: "128 + off + k \<le> length data" using False S(2) by (auto simp: k_def)
    then obtain bs where bs: "area_read E (slot_area_id E) (128 + off) k f = Inr bs"
      using assms(3) [unfolded slot_readable_def] assms(7) by (metis le_trans)
    have "bs = slice (128 + off) k data"
      using flash_lawsD(2) [OF assms(1) bs] rd_slice [OF assms(4) k] by simp
    also have "\<dots> = slice off sz (slice 128 (h_payload_size h) data)"
      using False by (simp add: slice_def k_def drop_take add.commute min.commute)
    finally show ?thesis using S(1) op bs False
      by (simp add: rtbus_image_read_payload_def Let_def IMAGE_HEADER_SIZE_def k_def)
  qed
qed

definition demo_header :: "byte list" where
  "demo_header = header_bytes IMAGE_MAGIC IMAGE_HEADER_VERSION IMAGE_HEADER_SIZE 1 5
     (replicate 16 49) (replicate 64 65) 4096 33554433 (replicate 24 0)"

lemma demo_header_fields:
  "length demo_header = 128"
  "header_of_bytes demo_header =
     \<lparr>h_magic = IMAGE_MAGIC, h_header_version = IMAGE_HEADER_VERSION,
      h_header_size = IMAGE_HEADER_SIZE, h_payload_size = 1, h_payload_crc32 = 5,
      h_version = replicate 16 49, h_name = replicate 64 65, h_required_ram_size = 4096,
      h_flags = 33554433, h_reserved = replicate 24 0\<rparr>"
  unfolding demo_header_def
  by (subst header_of_header_bytes; simp add: layout_defs)+

lemma demo_image_ok: "image_ok demo_env (demo_header @ [5])"
  using demo_header_fields
  by (simp add: image_ok_def bad_header_def slice_def demo_env_def Let_def)

theorem slot_reports_image_witness:
  "let f = (\<lambda>_ _. 0)(1 := wr (\<lambda>_. 0) 0 (demo_header @ [5])) in
   (\<exists>st. rtbus_image_get_status demo_env f = (ok, st) \<and> st_valid st \<and> st_payload_size st = 1) \<and>
   rtbus_image_read_payload demo_env 0 10 f = Inr [5]"
proof -
  define f :: demo_flash where "f = (\<lambda>_ _. 0)(1 := wr (\<lambda>_. 0) 0 (demo_header @ [5]))"
  have slot: "slot_area_id demo_env = 1" by (simp add: demo_env_def)
  have rdb: "slot_readable demo_env f" by (auto simp: slot_readable_def demo_env_def)
  have img: "rd (demo_view (slot_area_id demo_env) f) 0 (length (demo_header @ [5])) = demo_header @ [5]"
    by (simp only: slot demo_view_def f_def fun_upd_same) (rule wr_same; simp)
  have len: "128 \<le> length (demo_header @ [5])"
      "length (demo_header @ [5]) \<le> area_size demo_env (slot_area_id demo_env)"
    using demo_header_fields(1) by (auto simp: demo_env_def)
  have tk: "header_of_bytes demo_header = header_of_bytes (take 128 (demo_header @ [5]))"
    using demo_header_fields(1) by simp
  from slot_reports_image [OF demo_env_laws rdb img demo_image_ok len tk, of 0 10]
  have "(\<exists>st. rtbus_image_get_status demo_env f = (ok, st) \<and> st_valid st \<and> st_payload_size st = 1) \<and>
    rtbus_image_read_payload demo_env 0 10 f = Inr [5]"
    using demo_header_fields by (auto simp: slice_def)
  then show ?thesis by (simp add: f_def Let_def)
qed

end
