(* ===== verification/Image_Accept.thy ===== *)
theory Image_Accept
  imports Image
begin

text \<open>
  The other direction of the image store's contract: on a flash that works, every valid image of a
  size that fits is accepted, however it is cut into chunks.

  \<open>flash_works\<close> collects what that takes of the driver (accesses inside an area succeed, writes if
  they are aligned) and of the configuration (the pending buffer and both areas are multiples of
  the write alignments, the slot's alignment divides the 128-byte copy buffer).
\<close>

definition flash_works :: "'f image_env \<Rightarrow> bool" where
  "flash_works E \<longleftrightarrow>
     (let d = direct_store_area_id E; slot = slot_area_id E in
      (\<forall>f. area_open E d f = ok) \<and> (\<forall>f. area_open E slot f = ok) \<and> (\<forall>f. area_ready E d f) \<and>
      (\<forall>a off n f. off + n \<le> area_size E a \<longrightarrow> (\<exists>bs. area_read E a off n f = Inr bs)) \<and>
      (\<forall>a off bs f. off + length bs \<le> area_size E a \<and> off mod area_align E a = 0 \<and>
         length bs mod area_align E a = 0 \<longrightarrow> (\<exists>f'. area_write E a off bs f = (ok, f'))) \<and>
      (\<forall>a f. \<exists>f'. area_flatten E a 0 (area_size E a) f = (ok, f')) \<and>
      0 < area_align E d \<and> area_align E d \<le> pending_max E \<and> pending_max E mod area_align E d = 0 \<and>
      area_size E d mod area_align E d = 0 \<and>
      0 < area_align E slot \<and> 128 mod area_align E slot = 0 \<and> area_size E slot mod area_align E slot = 0)"

lemma flash_worksD:
  assumes "flash_works E"
  shows "area_open E (direct_store_area_id E) f = ok" "area_open E (slot_area_id E) f = ok"
    "area_ready E (direct_store_area_id E) f"
    "off + n \<le> area_size E a \<Longrightarrow> \<exists>bs. area_read E a off n f = Inr bs"
    "off + length bs \<le> area_size E a \<Longrightarrow> off mod area_align E a = 0 \<Longrightarrow>
       length bs mod area_align E a = 0 \<Longrightarrow> \<exists>f'. area_write E a off bs f = (ok, f')"
    "\<exists>f'. area_flatten E a 0 (area_size E a) f = (ok, f')"
    "0 < area_align E (direct_store_area_id E)"
    "area_align E (direct_store_area_id E) \<le> pending_max E"
    "pending_max E mod area_align E (direct_store_area_id E) = 0"
    "area_size E (direct_store_area_id E) mod area_align E (direct_store_area_id E) = 0"
    "0 < area_align E (slot_area_id E)" "128 mod area_align E (slot_area_id E) = 0"
    "area_size E (slot_area_id E) mod area_align E (slot_area_id E) = 0"
    "area_align E (slot_area_id E) \<le> 128"
  using assms by (simp_all add: flash_works_def Let_def mod_eq_0_iff_dvd dvd_imp_le)

lemma round_up_mod [simp]: "ROUND_UP x a mod a = 0"
  by (simp add: ROUND_UP_def)

lemma round_up_add:
  assumes "off mod a = 0"
  shows "off + ROUND_UP x a = ROUND_UP (off + x) a"
proof (cases "a = 0")
  case True
  then show ?thesis using assms by (simp add: ROUND_UP_def)
next
  case False
  obtain q where q: "off = a * q" using assms by (metis dvd_def mod_eq_0_iff_dvd)
  have "(off + x + (a - 1)) div a = q + (x + (a - 1)) div a"
  proof -
    have "off + x + (a - 1) = x + (a - 1) + a * q" by (simp add: q)
    then show ?thesis by (simp only: div_mult_self2 [OF False])
  qed
  then show ?thesis using q by (simp add: ROUND_UP_def add_mult_distrib)
qed

text \<open>Between writes the flash offset is a multiple of the pending buffer's size.\<close>

definition aligned :: "'f image_env \<Rightarrow> 'f store \<Rightarrow> bool" where
  "aligned E s \<longleftrightarrow> flash_align s = area_align E (direct_store_area_id E) \<and>
     flash_write_offset s mod pending_max E = 0"

lemma mod_mod_0: "(x :: nat) mod m = 0 \<Longrightarrow> m mod a = 0 \<Longrightarrow> x mod a = 0"
  by (meson dvd_trans mod_eq_0_iff_dvd)

lemma flush_works:
  assumes works: "flash_works E" and inv: "buf_inv E view (direct_store_area_id E) data s" "aligned E s"
    and len: "length data \<le> area_size E (direct_store_area_id E)"
    and F: "store_flush_flash E final s = (r, s')"
  shows "r = ok" "\<not> final \<Longrightarrow> aligned E s'"
proof -
  let ?d = "direct_store_area_id E" and ?n = "flash_pending_len s" and ?w = "flash_write_offset s"
  note I = inv(1) [unfolded buf_inv_def] and W = flash_worksD [OF works]
  define wl where "wl = (if final then ROUND_UP ?n (flash_align s) else pending_max E)"
  define ws where "ws = take wl (take ?n (flash_pending s) @ replicate (wl - ?n) 0xff @ drop wl (flash_pending s))"
  have al: "flash_align s = area_align E ?d" "?w mod area_align E ?d = 0"
    using inv(2) mod_mod_0 [OF _ W(9)] by (auto simp: aligned_def)
  have wl_al: "wl mod area_align E ?d = 0" using W(9) al(1) by (auto simp: wl_def)
  have wr: "\<exists>f. area_write E ?d ?w ws (flash s) = (ok, f)" if "final \<or> ?n = pending_max E"
  proof -
    have wl: "?n \<le> wl" "wl \<le> pending_max E"
      using that I W(7,9) al(1) round_up_ge [of "flash_align s" ?n] round_up_le [of ?n "pending_max E" "flash_align s"]
      by (auto simp: wl_def)
    have "length ws = wl" using wl I by (auto simp: ws_def)
    moreover have "?w + wl \<le> area_size E ?d"
    proof (cases final)
      case True
      then have "?w + wl = ROUND_UP (length data) (area_align E ?d)"
        using round_up_add [OF al(2), of ?n] al(1) I by (simp add: wl_def)
      then show ?thesis using round_up_le [OF len W(10) W(7)] by simp
    next
      case False
      then show ?thesis using that I len by (auto simp: wl_def)
    qed
    ultimately show ?thesis using W(5) al(2) wl_al by simp
  qed
  have lenmod: "length data mod pending_max E = 0" if "?n = pending_max E"
  proof -
    have "length data = ?w + pending_max E" using I that by simp
    then show ?thesis using inv(2) by (simp add: aligned_def)
  qed
  show "r = ok"
    using F I al(1) W(7,8,9) wr
    by (auto simp: store_flush_flash_def Let_def wl_def [symmetric] ws_def split: if_splits prod.splits)
  show "\<not> final \<Longrightarrow> aligned E s'"
    using F I inv(2) wr lenmod
    by (auto simp: aligned_def store_flush_flash_def Let_def split: if_splits prod.splits)
qed

lemma write_loop_works:
  assumes laws: "flash_laws E view" and works: "flash_works E"
  shows "buf_inv E view (direct_store_area_id E) data s \<Longrightarrow> aligned E s \<Longrightarrow>
    flash_pending_len s < pending_max E \<Longrightarrow> sz \<le> length d \<Longrightarrow>
    length data + sz \<le> area_size E (direct_store_area_id E) \<Longrightarrow>
    \<exists>s'. store_write_loop E d sz s = Some (ok, s') \<and> aligned E s'"
proof (induction sz arbitrary: d data s rule: less_induct)
  case (less sz)
  note I = less.prems(1) [unfolded buf_inv_def]
  show ?case
  proof (cases "0 < sz")
    case False
    then show ?thesis using less.prems by (subst store_write_loop.simps) simp
  next
    case True
    let ?n = "flash_pending_len s" and ?p = "flash_pending s"
    define k where "k = min sz (pending_max E - ?n)"
    have k: "0 < k" "k \<le> sz" "?n + k \<le> pending_max E" using True less.prems(3) by (auto simp: k_def)
    define s1 where "s1 = s\<lparr>flash_pending := take ?n ?p @ take k d @ drop (?n + k) ?p,
      flash_pending_len := ?n + k\<rparr>"
    have inv1: "buf_inv E view (direct_store_area_id E) (data @ take k d) s1"
      unfolding s1_def by (rule buf_inv_append [OF less.prems(1)]) (use k less.prems(4) in auto)
    have al1: "aligned E s1" using less.prems(2) by (simp add: aligned_def s1_def)
    obtain r2 s2 where F: "store_flush_flash E False s1 = (r2, s2)" by force
    have len1: "length (data @ take k d) \<le> area_size E (direct_store_area_id E)"
      using less.prems(4,5) k by simp
    note A = flush_works [OF works inv1 al1 len1 F]
    note S = flush_spec(2) [OF laws inv1 F A(1)]
    have code: "store_write_loop E d sz s = store_write_loop E (drop k d) (sz - k) s2"
      using True F A(1) by (subst store_write_loop.simps) (simp add: Let_def k_def [symmetric] s1_def)
    show ?thesis unfolding code
      by (rule less.IH [of _ "data @ take k d"]) (use S A(2) k less.prems(4,5) in auto)
  qed
qed

lemma begin_works:
  assumes works: "flash_works E" and n: "128 \<le> n" "n \<le> slot_partition_size E"
    "n \<le> area_size E (direct_store_area_id E)" and idle: "\<not> active s"
    and B: "rtbus_image_store_begin E (Some n) s = (r, s')"
  shows "r = ok" "aligned E s'"
proof -
  note W = flash_worksD [OF works]
  obtain f where "area_flatten E (direct_store_area_id E) 0 (area_size E (direct_store_area_id E)) (flash s) = (ok, f)"
    using W(6) by blast
  then show "r = ok" "aligned E s'"
    using B W(1,3,7,8) n idle
    by (auto simp: rtbus_image_store_begin_def Let_def store_clear_def IMAGE_HEADER_SIZE_def aligned_def
        split: if_splits)
qed

lemma upload_works:
  assumes laws: "flash_laws E view" and works: "flash_works E"
  shows "store_inv E view data s \<Longrightarrow> aligned E s \<Longrightarrow> length data + length (concat chunks) \<le> expected_size s \<Longrightarrow>
    expected_size s \<le> area_size E (direct_store_area_id E) \<Longrightarrow>
    \<exists>s'. store_upload E chunks (length data) s = Some (ok, s') \<and> aligned E s'"
proof (induction chunks arbitrary: data s)
  case Nil
  then show ?case by simp
next
  case (Cons c cs)
  note I = Cons.prems(1) [unfolded store_inv_def]
  obtain s1 where L: "store_write_loop E c (length c) s = Some (ok, s1)" "aligned E s1"
    using write_loop_works [OF laws works, of data s "length c" c] I Cons.prems by auto
  have fl: "flash_area s = Some (direct_store_area_id E)" using I by (simp add: buf_inv_def)
  have W: "rtbus_image_store_write E (length data) (Some c) (length c) s =
      Some (ok, s1\<lparr>written := written s1 + length c\<rparr>)"
    using L(1) I fl Cons.prems(3) by (simp add: rtbus_image_store_write_def store_write_flash_def)
  have inv2: "store_inv E view (data @ c) (s1\<lparr>written := written s1 + length c\<rparr>)"
    "expected_size s1 = expected_size s"
    using store_write_spec [OF laws Cons.prems(1), of c] W I
    by (auto simp: kept_def)
  have "\<exists>s'. store_upload E cs (length (data @ c)) (s1\<lparr>written := written s1 + length c\<rparr>) = Some (ok, s') \<and> aligned E s'"
    by (rule Cons.IH [OF inv2(1)]) (use L(2) inv2(2) Cons.prems(3,4) in \<open>auto simp: aligned_def\<close>)
  then show ?case using W by simp
qed

lemma crc_loop_works:
  assumes "\<And>o' n. o' + n \<le> 128 + sz \<Longrightarrow> \<exists>bs. rdf o' n = Inr bs"
  shows "\<exists>c. crc_loop upd rdf sz 0 0 = Inr c"
  using crc_loop_total [where rdf = rdf and sz = sz and off = 0 and crc = 0 and upd = upd] assms by blast

lemma commit_loop_works:
  assumes laws: "flash_laws E view" and works: "flash_works E" and ne: "src \<noteq> slot_area_id E"
    and fits: "expected \<le> area_size E src" "expected \<le> area_size E (slot_area_id E)"
  shows "off mod 128 = 0 \<Longrightarrow>
    \<exists>f'. commit_loop E src (slot_area_id E) (area_align E (slot_area_id E)) expected off f = (ok, f')"
proof (induction "expected - off" arbitrary: off f rule: less_induct)
  case less
  note W = flash_worksD [OF works]
  let ?slot = "slot_area_id E"
  show ?case
  proof (cases "off < expected")
    case False
    then show ?thesis by (simp add: commit_loop.simps)
  next
    case True
    define k where "k = min 128 (expected - off)"
    define wl where "wl = ROUND_UP k (area_align E ?slot)"
    have k: "0 < k" "off + k \<le> expected" using True by (auto simp: k_def)
    obtain buf where buf: "area_read E src off k f = Inr buf"
      using W(4) [of off k src f] k fits by auto
    have lb: "k \<le> wl" using round_up_ge [OF W(11)] by (simp add: wl_def)
    have wl_al: "wl mod area_align E ?slot = 0" by (simp add: wl_def)
    have off: "off mod area_align E ?slot = 0" using mod_mod_0 [OF less.prems W(12)] .
    have "off + wl = ROUND_UP (off + k) (area_align E ?slot)"
      using round_up_add [OF off] by (simp add: wl_def)
    then have inb: "off + wl \<le> area_size E ?slot"
      using round_up_le [OF _ W(13,11), of "off + k"] k fits by simp
    obtain f1 where f1: "area_write E ?slot off (buf @ replicate (wl - k) 0xff) f = (ok, f1)"
      using W(5) [of off "buf @ replicate (wl - k) 0xff" ?slot f] inb lb off wl_al
        flash_lawsD(2) [OF laws buf] by auto
    have step: "commit_loop E src ?slot (area_align E ?slot) expected off f =
        commit_loop E src ?slot (area_align E ?slot) expected (off + k) f1"
      using True buf f1 by (subst commit_loop.simps) (simp add: Let_def k_def [symmetric] wl_def [symmetric])
    show ?thesis
    proof (cases "k = 128")
      case True
      then show ?thesis unfolding step using k less.prems by (intro less.hyps) (auto simp: mod_add_eq)
    next
      case False
      then have "off + k = expected" using k by (auto simp: k_def min_def split: if_splits)
      then show ?thesis unfolding step by (simp add: commit_loop.simps)
    qed
  qed
qed

lemma verify_commit_works:
  assumes laws: "flash_laws E view" "crc_laws E" and works: "flash_works E"
    and inv: "store_inv E view data s" "aligned E s" "length data = expected_size s"
    and fits: "length data \<le> area_size E (direct_store_area_id E)" "length data \<le> area_size E (slot_area_id E)"
    and img: "image_ok E data"
    and V: "store_verify_commit E s = (r, s')"
  shows "r = ok"
proof -
  let ?d = "direct_store_area_id E" and ?slot = "slot_area_id E" and ?h = "header_of_bytes (take 128 data)"
  note W = flash_worksD [OF works] and I = inv(1) [unfolded store_inv_def]
  have b: "buf_inv E view ?d data s" using I by simp
  obtain r1 s1 where F: "store_flush_flash E True s = (r1, s1)" by force
  have r1: "r1 = ok" by (rule flush_works(1) [OF works b inv(2) fits(1) F])
  note S = flush_spec [OF laws(1) b F]
  have d: "rd (view ?d (flash s1)) 0 (length data) = data" using S(3) r1 by simp
  have s1: "flash_area s1 = Some ?d" "written s1 = length data" "expected_size s1 = length data"
    "128 \<le> length data" "length data < 4294967296"
    using S(1) b I inv(3) by (auto simp: kept_def buf_inv_def)
  have rd_ok: "store_read E off n s1 = Inr (slice off n data)" if "off + n \<le> length data" for off n
  proof -
    have "off + n \<le> area_size E ?d" using that fits by simp
    then obtain bs where bs: "area_read E ?d off n (flash s1) = Inr bs" using W(4) by blast
    moreover have "bs = slice off n data"
      using flash_lawsD(2) [OF laws(1) bs] rd_slice [OF d that] by simp
    ultimately show ?thesis using that s1 fits by (auto simp: store_read_def)
  qed
  have hd: "\<not> bad_header ?h (length data - 128)" "h_required_ram_size ?h \<le> image_ram_max E"
    "crc32_ieee_update E 0 (slice 128 (h_payload_size ?h) data) = h_payload_crc32 ?h"
    using img by (auto simp: image_ok_def Let_def)
  have h: "read_header_from_store E s1 = Inr ?h"
    using rd_ok [of 0 128] s1 hd(1)
    by (simp add: read_header_from_store_def IMAGE_HEADER_SIZE_def slice_def Let_def)
  have n: "128 + h_payload_size ?h \<le> length data" using hd(1) s1(4) by (simp add: bad_header_def, linarith)
  obtain c where c: "calculate_store_payload_crc E (h_payload_size ?h) s1 = Inr c"
    using crc_loop_works [of "h_payload_size ?h" "\<lambda>off n. store_read E off n s1" "crc32_ieee_update E"] rd_ok n
    by (auto simp: calculate_store_payload_crc_def)
  have ceq: "c = h_payload_crc32 ?h" using store_crc_spec [OF laws s1(1) d n c] hd(3) by simp
  have n': "\<not> length data - 128 < h_payload_size ?h" using n by linarith
  have C: "commit_store_to_slot E s1 = (r, s')"
    using V F r1 h c ceq n' s1 hd(2)
    by (simp add: store_verify_commit_def IMAGE_HEADER_SIZE_def)
  show ?thesis
  proof (cases "?d = ?slot")
    case True
    then show ?thesis using C s1 by (simp add: commit_store_to_slot_def)
  next
    case False
    obtain f1 where f1: "area_flatten E ?slot 0 (area_size E ?slot) (flash s1) = (ok, f1)" using W(6) by blast
    obtain f2 where f2: "commit_loop E ?d ?slot (area_align E ?slot) (expected_size s1) 0 f1 = (ok, f2)"
      using commit_loop_works [OF laws(1) works False, of "expected_size s1" 0 f1] fits s1(3) by auto
    have "\<not> area_size E ?slot < expected_size s1" using s1(3) fits(2) by simp
    then show ?thesis using C s1(1-3) False W(2,11,14) f1 f2
      by (auto simp: commit_store_to_slot_def Let_def)
  qed
qed

text \<open>A valid image that fits is accepted.\<close>

lemma session_works:
  assumes laws: "flash_laws E view" "crc_laws E" and works: "flash_works E"
    and idle: "\<not> active s" and img: "image_ok E (concat chunks)"
    and n: "n = length (concat chunks)" "128 \<le> n" "n \<le> slot_partition_size E" "n < 4294967296"
      "n \<le> area_size E (direct_store_area_id E)" "n \<le> area_size E (slot_area_id E)"
  shows "\<exists>s'. image_session E n chunks s = Some (ok, s')"
proof -
  let ?d = "direct_store_area_id E"
  have pm: "0 < pending_max E" using flash_worksD(7,8) [OF works] by simp
  obtain r0 s0 where B: "rtbus_image_store_begin E (Some n) s = (r0, s0)" by force
  note B' = begin_works [OF works n(2,3,5) idle B]
  have inv: "store_inv E view [] s0" "expected_size s0 = n"
    using begin_spec(1) [OF laws(1) pm n(4) B B'(1)] by auto
  obtain s1 where U: "store_upload E chunks 0 s0 = Some (ok, s1)" "aligned E s1"
    using upload_works [OF laws(1) works inv(1) B'(2), of chunks] inv(2) n by auto
  have inv1: "store_inv E view (concat chunks) s1" "expected_size s1 = n"
    using upload_spec [OF laws(1) inv(1), of chunks] U(1) inv(2) by auto
  obtain r2 s2 where V: "store_verify_commit E s1 = (r2, s2)" by force
  have r2: "r2 = ok"
    by (rule verify_commit_works [OF laws works inv1(1) U(2) _ _ _ img V]) (use inv1(2) n in auto)
  have "rtbus_image_store_finish E ok s1 = (ok, store_clear E s2)"
    using V r2 inv1 n(1) by (auto simp: rtbus_image_store_finish_def store_inv_def)
  then show ?thesis using B B'(1) U(1) by (simp add: image_session_def)
qed

section \<open>Properties\<close>

lemma demo_env_works: "flash_works demo_env"
  by (auto simp: flash_works_def demo_env_def Let_def)

lemma demo_fields:
  "slot_area_id demo_env = 1" "slot_partition_size demo_env = 1024" "area_size demo_env a = 1024"
  by (simp_all add: demo_env_def)

lemma demo_store_idle: "\<not> active demo_store"
  by (simp add: demo_store_def)

text \<open>C12: every valid image is accepted.  On a flash that works, with sizes that fit, an upload of a
  valid image succeeds however it is cut into chunks, leaves the store idle and the slot with
  exactly the sent bytes.\<close>

theorem good_upload_accepted:
  assumes "flash_laws E view" "crc_laws E" "flash_works E" "\<not> active s" "image_ok E (concat chunks)"
    and "n = length (concat chunks)" "128 \<le> n" "n \<le> slot_partition_size E" "n < 4294967296"
    and "n \<le> area_size E (direct_store_area_id E)" "n \<le> area_size E (slot_area_id E)"
  shows "\<exists>s'. image_session E n chunks s = Some (ok, s') \<and> \<not> active s' \<and>
    rd (view (slot_area_id E) (flash s')) 0 n = concat chunks"
proof -
  obtain s' where "image_session E n chunks s = Some (ok, s')" using session_works [OF assms] by blast
  moreover have "0 < pending_max E" using flash_worksD(7,8) [OF assms(3)] by simp
  ultimately show ?thesis
    using session_spec [OF assms(1,2) _ assms(9,4), of chunks] flash_worksD(12) [OF assms(3)] by auto
qed

theorem good_upload_accepted_witness:
  "\<exists>s'. image_session demo_env 129 [demo_header, [5]] demo_store = Some (ok, s') \<and>
     rd (flash s' 1) 0 129 = demo_header @ [5]"
proof -
  have "image_ok demo_env (concat [demo_header, [5]])" using demo_image_ok by simp
  from good_upload_accepted [OF demo_env_laws demo_env_works demo_store_idle this, of 129] show ?thesis
    using demo_header_fields(1) by (auto simp: demo_fields demo_view_def)
qed

end
