(* ===== verification/Stdio.thy ===== *)
theory Stdio
  imports Prelude
begin

text \<open>
  What the host tools use of the C library: strings as byte sequences, the hexadecimal conversions
  of \<open>printf\<close>, line-wise reading, and files.

  A \<open>host\<close> is the file system with the answers of the operating system that the program does not
  decide: which paths open for reading or writing, which directories can be made, how many bytes
  of a write are stored, whether memory is there, whether a read ends with an error.
\<close>

section \<open>Characters and bytes\<close>

definition chars :: "string \<Rightarrow> byte list" where
  "chars = map of_char"

definition bytes_text :: "byte list \<Rightarrow> string" where
  "bytes_text = map (\<lambda>b. char_of (unat b))"

lemma length_chars [simp]: "length (chars v) = length v"
  by (simp add: chars_def)

lemma chars_append [simp]: "chars (a @ b) = chars a @ chars b"
  by (simp add: chars_def)

lemma chars_Nil [simp]: "chars [] = []"
  by (simp add: chars_def)

lemma chars_Cons: "chars (c # s) = of_char c # chars s"
  by (simp add: chars_def)

lemma unat_of_char [simp]: "unat (of_char c :: byte) = of_char c"
proof -
  have "unat (of_nat (of_char c) :: byte) = of_char c" by (simp add: unat_of_nat)
  then show ?thesis by (simp only: of_nat_of_char)
qed

lemma bytes_text_chars [simp]: "bytes_text (chars s) = s"
  by (induction s) (simp_all add: bytes_text_def chars_def)

text \<open>The string in a buffer, up to its first zero.\<close>

definition c_string :: "string \<Rightarrow> string" where
  "c_string = takeWhile (\<lambda>c. c \<noteq> CHR 0x00)"

section \<open>Hexadecimal conversions\<close>

definition hex_digit :: "bool \<Rightarrow> nat \<Rightarrow> char" where
  "hex_digit upper n = char_of (if n < 10 then 48 + n else if upper then 55 + n else 87 + n)"

text \<open>\<open>%0wX\<close> and \<open>%0wx\<close> of a value with at most \<open>w\<close> digits.\<close>

fun hex_fixed :: "bool \<Rightarrow> nat \<Rightarrow> nat \<Rightarrow> string" where
  "hex_fixed upper 0 v = []"
| "hex_fixed upper (Suc w) v = hex_fixed upper w (v div 16) @ [hex_digit upper (v mod 16)]"

definition hex_value :: "char \<Rightarrow> nat option" where
  "hex_value c =
     (let n = of_char c
      in if 48 \<le> n \<and> n \<le> 57 then Some (n - 48) else if 65 \<le> n \<and> n \<le> 70 then Some (n - 55)
         else if 97 \<le> n \<and> n \<le> 102 then Some (n - 87) else None)"

definition hex_number :: "string \<Rightarrow> nat" where
  "hex_number = foldl (\<lambda>a c. 16 * a + the (hex_value c)) 0"

lemma hex_value_digit [simp]: "n < 16 \<Longrightarrow> hex_value (hex_digit u n) = Some n"
  by (auto simp: hex_digit_def hex_value_def Let_def)

lemma length_hex_fixed [simp]: "length (hex_fixed u w v) = w"
  by (induction w arbitrary: v) auto

lemma hex_number_fixed: "v < 16 ^ w \<Longrightarrow> hex_number (hex_fixed u w v) = v"
proof (induction w arbitrary: v)
  case 0
  then show ?case by (simp add: hex_number_def)
next
  case (Suc w)
  have "hex_number (hex_fixed u w (v div 16)) = v div 16" using Suc by (intro Suc.IH) auto
  then show ?case by (simp add: hex_number_def)
qed

lemma hex_fixed_digits: "c \<in> set (hex_fixed u w v) \<Longrightarrow> hex_value c \<noteq> None"
  by (induction w arbitrary: v) auto

section \<open>Files\<close>

record host =
  files :: "string \<Rightarrow> byte list option"
  directories :: "string set"
  opens_r :: "string \<Rightarrow> bool"
  opens_w :: "string \<Rightarrow> bool"
  accepts :: "string \<Rightarrow> byte list \<Rightarrow> byte list \<Rightarrow> nat"
  makes_dir :: "string set \<Rightarrow> string \<Rightarrow> bool"
  removes :: "string \<Rightarrow> bool"
  read_error :: "string \<Rightarrow> bool"
  malloc_ok :: "nat \<Rightarrow> bool"

definition fopen_r :: "string \<Rightarrow> host \<Rightarrow> byte list option" where
  "fopen_r p h = (if opens_r h p then files h p else None)"

definition fopen_w :: "string \<Rightarrow> host \<Rightarrow> host option" where
  "fopen_w p h = (if opens_w h p then Some (h\<lparr>files := (files h)(p := Some [])\<rparr>) else None)"

text \<open>\<open>fwrite\<close> and \<open>fprintf\<close>: whether everything was stored, and the file with what was.\<close>

definition fwrite :: "string \<Rightarrow> byte list \<Rightarrow> host \<Rightarrow> bool \<times> host" where
  "fwrite p bs h =
     (let old = (case files h p of None \<Rightarrow> [] | Some c \<Rightarrow> c);
          n = min (accepts h p old bs) (length bs)
      in (n = length bs, h\<lparr>files := (files h)(p := Some (old @ take n bs))\<rparr>))"

text \<open>\<open>fgets(buf, n, fp)\<close> on the unread rest of a file.\<close>

definition fgets :: "nat \<Rightarrow> string \<Rightarrow> (string \<times> string) option" where
  "fgets n rest =
     (if rest = [] then None
      else
        let line = length (takeWhile (\<lambda>c. c \<noteq> CHR 0x0A) rest);
            k = min (n - 1) (min (line + 1) (length rest))
        in Some (take k rest, drop k rest))"

lemma fgets_shorter: "1 < n \<Longrightarrow> fgets n rest = Some (l, r) \<Longrightarrow> length r < length rest"
  by (auto simp: fgets_def Let_def split: if_splits)

lemma fgets_line:
  "CHR 0x0A \<notin> set l \<Longrightarrow> length l + 1 < n \<Longrightarrow> fgets n (l @ CHR 0x0A # rest) = Some (l @ [CHR 0x0A], rest)"
proof -
  assume a: "CHR 0x0A \<notin> set l" "length l + 1 < n"
  have "takeWhile (\<lambda>c. c \<noteq> CHR 0x0A) (l @ CHR 0x0A # rest) = l"
    using a(1) by (subst takeWhile_append2) auto
  then show ?thesis using a(2) by (simp add: fgets_def Let_def)
qed

text \<open>A host on which every write to a path is stored in full.\<close>

definition stores :: "host \<Rightarrow> string \<Rightarrow> bool" where
  "stores h p \<longleftrightarrow> opens_w h p \<and> (\<forall>old bs. length bs \<le> accepts h p old bs)"

definition set_file :: "string \<Rightarrow> byte list \<Rightarrow> host \<Rightarrow> host" where
  "set_file p c h = h\<lparr>files := (files h)(p := Some c)\<rparr>"

lemma set_file_simps [simp]:
  "files (set_file p c h) = (files h)(p := Some c)" "opens_r (set_file p c h) = opens_r h"
  "opens_w (set_file p c h) = opens_w h" "accepts (set_file p c h) = accepts h"
  "directories (set_file p c h) = directories h" "makes_dir (set_file p c h) = makes_dir h"
  "removes (set_file p c h) = removes h" "read_error (set_file p c h) = read_error h"
  "malloc_ok (set_file p c h) = malloc_ok h" "stores (set_file p c h) q = stores h q"
  "set_file p c' (set_file p c h) = set_file p c' h"
  by (simp_all add: set_file_def stores_def)

lemma fopen_w_stores: "stores h p \<Longrightarrow> fopen_w p h = Some (set_file p [] h)"
  by (simp add: fopen_w_def stores_def set_file_def)

lemma fwrite_stores: "stores h p \<Longrightarrow> fwrite p bs (set_file p c h) = (True, set_file p (c @ bs) h)"
  by (auto simp: fwrite_def stores_def set_file_def Let_def min_def intro: le_antisym)

end
