(* ===== verification/Ymodem.thy ===== *)
theory Ymodem
  imports Image_Accept Stdio
begin

text \<open>
  The YMODEM receiver \<open>services/rtbus_ymodem.c\<close> on top of the image store (theory \<open>Image\<close>).

  The serial port, the clock and sleeping are operations on a world \<open>'w\<close> that the receiver is
  given; a read returns the bytes that have arrived, at most as many as asked for.  Every loop
  of the receiver can wait for ever on a stopped clock, so they are partial functions and
  \<open>None\<close> is "does not return".  The static packet buffers are only read right after they were
  filled, so a packet is the returned list; log messages are left out.
\<close>

section \<open>Constants\<close>

definition YMODEM_SOH :: byte where [layout_defs]: "YMODEM_SOH = 0x01"
definition YMODEM_STX :: byte where [layout_defs]: "YMODEM_STX = 0x02"
definition YMODEM_EOT :: byte where [layout_defs]: "YMODEM_EOT = 0x04"
definition YMODEM_ACK :: byte where [layout_defs]: "YMODEM_ACK = 0x06"
definition YMODEM_NAK :: byte where [layout_defs]: "YMODEM_NAK = 0x15"
definition YMODEM_CAN :: byte where [layout_defs]: "YMODEM_CAN = 0x18"
definition YMODEM_CRC :: byte where [layout_defs]: "YMODEM_CRC = 0x43"
definition YMODEM_BLOCK_128 :: nat where [layout_defs]: "YMODEM_BLOCK_128 = 128"
definition YMODEM_BLOCK_1024 :: nat where [layout_defs]: "YMODEM_BLOCK_1024 = 1024"
definition YMODEM_PACKET_OVERHEAD :: nat where [layout_defs]: "YMODEM_PACKET_OVERHEAD = 4"
definition YMODEM_START_TIMEOUT_MS :: int where [layout_defs]: "YMODEM_START_TIMEOUT_MS = 30000"
definition YMODEM_BYTE_TIMEOUT_MS :: int where [layout_defs]: "YMODEM_BYTE_TIMEOUT_MS = 3000"
definition YMODEM_READY_INTERVAL_MS :: int where [layout_defs]: "YMODEM_READY_INTERVAL_MS = 1000"

section \<open>CRC-16\<close>

definition crc16_bit :: "16 word \<Rightarrow> 16 word" where
  "crc16_bit crc = (if crc AND 0x8000 \<noteq> 0 then push_bit 1 crc XOR 0x1021 else push_bit 1 crc)"

definition crc16_byte :: "16 word \<Rightarrow> byte \<Rightarrow> 16 word" where
  "crc16_byte crc b = (crc16_bit ^^ 8) (crc XOR push_bit 8 (ucast b))"

definition ymodem_crc16 :: "byte list \<Rightarrow> 16 word" where
  "ymodem_crc16 data = foldl crc16_byte 0 data"

section \<open>The line\<close>

record 'w line =
  serial_begin :: "nat \<Rightarrow> nat \<Rightarrow> 'w \<Rightarrow> rc \<times> 'w"
  serial_flush_rx :: "nat \<Rightarrow> 'w \<Rightarrow> 'w"
  serial_read :: "nat \<Rightarrow> nat \<Rightarrow> 'w \<Rightarrow> byte list \<times> 'w"
  serial_write :: "nat \<Rightarrow> byte list \<Rightarrow> 'w \<Rightarrow> 'w"
  uptime :: "'w \<Rightarrow> int \<times> 'w"
  sleep_ms :: "nat \<Rightarrow> 'w \<Rightarrow> 'w"

definition ymodem_put :: "'w line \<Rightarrow> nat \<Rightarrow> byte \<Rightarrow> 'w \<Rightarrow> 'w" where
  "ymodem_put L port b w = serial_write L port [b] w"

partial_function (option) read_byte_loop ::
    "'w line \<Rightarrow> nat \<Rightarrow> int \<Rightarrow> 'w \<Rightarrow> ((errno + byte) \<times> 'w) option" where
  "read_byte_loop L port deadline w =
     (let (now, w) = uptime L w
      in if now < deadline then
           let (got, w) = serial_read L port 1 w
           in if length got = 1 then Some (Inr (hd got), w)
              else read_byte_loop L port deadline (sleep_ms L 1 w)
         else Some (Inl ETIMEDOUT, w))"

definition ymodem_read_byte ::
    "'w line \<Rightarrow> nat \<Rightarrow> int \<Rightarrow> 'w \<Rightarrow> ((errno + byte) \<times> 'w) option" where
  "ymodem_read_byte L port timeout_ms w =
     (let (now, w) = uptime L w in read_byte_loop L port (now + timeout_ms) w)"

partial_function (option) read_exact_loop ::
    "'w line \<Rightarrow> nat \<Rightarrow> nat \<Rightarrow> int \<Rightarrow> byte list \<Rightarrow> int \<Rightarrow> 'w \<Rightarrow> ((errno + byte list) \<times> 'w) option"
  where
  "read_exact_loop L port len timeout_ms received deadline w =
     (if length received < len then
        let (got, w) = serial_read L port (len - length received) w
        in if got \<noteq> [] then
             let (now, w) = uptime L w
             in read_exact_loop L port len timeout_ms (received @ got) (now + timeout_ms) w
           else
             let (now, w) = uptime L w
             in if deadline \<le> now then Some (Inl ETIMEDOUT, w)
                else read_exact_loop L port len timeout_ms received deadline (sleep_ms L 1 w)
      else Some (Inr received, w))"

definition ymodem_read_exact ::
    "'w line \<Rightarrow> nat \<Rightarrow> nat \<Rightarrow> int \<Rightarrow> 'w \<Rightarrow> ((errno + byte list) \<times> 'w) option" where
  "ymodem_read_exact L port len timeout_ms w =
     (let (now, w) = uptime L w in read_exact_loop L port len timeout_ms [] (now + timeout_ms) w)"

partial_function (option) wait_header_loop ::
    "'w line \<Rightarrow> nat \<Rightarrow> int \<Rightarrow> int \<Rightarrow> 'w \<Rightarrow> ((errno + byte) \<times> 'w) option" where
  "wait_header_loop L port deadline next_ready w =
     (let (now, w) = uptime L w
      in if now < deadline then
           let (now, w) = uptime L w;
               (next_ready, w) =
                 (if next_ready \<le> now then
                    let w = ymodem_put L port YMODEM_CRC w; (now, w) = uptime L w
                    in (now + YMODEM_READY_INTERVAL_MS, w)
                  else (next_ready, w));
               (got, w) = serial_read L port 1 w
           in if length got = 1 then Some (Inr (hd got), w)
              else wait_header_loop L port deadline next_ready (sleep_ms L 1 w)
         else Some (Inl ETIMEDOUT, w))"

definition ymodem_wait_header :: "'w line \<Rightarrow> nat \<Rightarrow> 'w \<Rightarrow> ((errno + byte) \<times> 'w) option" where
  "ymodem_wait_header L port w =
     (let (now, w) = uptime L w in wait_header_loop L port (now + YMODEM_START_TIMEOUT_MS) 0 w)"

section \<open>Packets\<close>

text \<open>The checks on the bytes of a packet after its start byte.\<close>

definition check_packet :: "nat \<Rightarrow> byte list \<Rightarrow> errno + (byte \<times> byte list)" where
  "check_packet payload_len packet =
     (if packet ! 0 + packet ! 1 \<noteq> 0xFF then Inl EBADMSG
      else
        let expected_crc = push_bit 8 (ucast (packet ! (payload_len + 2))) OR ucast (packet ! (payload_len + 3));
            actual_crc = ymodem_crc16 (take payload_len (drop 2 packet))
        in if actual_crc \<noteq> expected_crc then Inl EBADMSG
           else Inr (packet ! 0, take payload_len (drop 2 packet)))"

definition ymodem_read_packet ::
    "'w line \<Rightarrow> nat \<Rightarrow> byte \<Rightarrow> 'w \<Rightarrow> ((errno + (byte \<times> byte list)) \<times> 'w) option" where
  "ymodem_read_packet L port header w =
     (if header \<noteq> YMODEM_SOH \<and> header \<noteq> YMODEM_STX then Some (Inl EINVAL, w)
      else do {
        let payload_len = (if header = YMODEM_SOH then YMODEM_BLOCK_128 else YMODEM_BLOCK_1024);
        (r, w) \<leftarrow> ymodem_read_exact L port (payload_len + YMODEM_PACKET_OVERHEAD) YMODEM_BYTE_TIMEOUT_MS w;
        Some (case r of Inl e \<Rightarrow> Inl e | Inr packet \<Rightarrow> check_packet payload_len packet, w)
      })"

text \<open>\<open>strtoul(s, NULL, 10)\<close> with a 32-bit \<open>unsigned long\<close>.\<close>

definition is_blank :: "byte \<Rightarrow> bool" where
  "is_blank b \<longleftrightarrow> b = 32 \<or> 9 \<le> b \<and> b \<le> 13"

definition is_digit10 :: "byte \<Rightarrow> bool" where
  "is_digit10 b \<longleftrightarrow> 48 \<le> b \<and> b \<le> 57"

definition strtoul10 :: "byte list \<Rightarrow> nat" where
  "strtoul10 s =
     (let s = dropWhile is_blank s;
          neg = (s \<noteq> [] \<and> hd s = 45);
          s = (if s \<noteq> [] \<and> (hd s = 45 \<or> hd s = 43) then tl s else s);
          v = foldl (\<lambda>a b. 10 * a + (unat b - 48)) 0 (takeWhile is_digit10 s)
      in if 2 ^ 32 \<le> v then 2 ^ 32 - 1 else if neg then psub 0 v else v)"

text \<open>The size after the file name.  Digits that run to the last byte of the block end there (the C
  code would read on into its buffer).\<close>

definition ymodem_parse_file_size :: "byte list \<Rightarrow> nat" where
  "ymodem_parse_file_size block =
     (let pos = length (takeWhile (\<lambda>b. b \<noteq> 0) block)
      in if length block \<le> pos \<or> length block \<le> pos + 1 \<or> block ! (pos + 1) = 0 then 0
         else strtoul10 (drop (pos + 1) block))"

section \<open>The receiver\<close>

record ymodem_state =
  expected_file_size :: nat
  received_size :: nat
  expected_block :: byte
  got_metadata :: bool
  store_active :: bool
  eot_seen :: bool

definition ymodem_start :: ymodem_state where
  "ymodem_start = \<lparr>expected_file_size = 0, received_size = 0, expected_block = 1,
     got_metadata = False, store_active = False, eot_seen = False\<rparr>"

text \<open>A round of the loop ends the transfer (\<open>Inl\<close>) or goes on (\<open>Inr\<close>).\<close>

type_synonym ('w, 'f) ymodem_round = "rc \<times> 'w \<times> 'f store + ymodem_state \<times> 'w \<times> 'f store"

text \<open>A good packet before the metadata.\<close>

definition ymodem_metadata ::
    "'w line \<Rightarrow> 'f image_env \<Rightarrow> nat \<Rightarrow> byte \<Rightarrow> byte list \<Rightarrow> ymodem_state \<Rightarrow> 'w \<Rightarrow> 'f store \<Rightarrow>
     ('w, 'f) ymodem_round" where
  "ymodem_metadata L E port block_no data st w s =
     (if block_no \<noteq> 0 then Inr (st, ymodem_put L port YMODEM_NAK w, s)
      else
        let st = st\<lparr>got_metadata := True, expected_file_size := ymodem_parse_file_size data\<rparr>
        in if expected_file_size st = 0 then Inl (Inl EINVAL, ymodem_put L port YMODEM_NAK w, s)
        else
          let w = ymodem_put L port YMODEM_CRC (ymodem_put L port YMODEM_ACK w);
              (ret, s) = rtbus_image_store_begin E (Some (expected_file_size st)) s
          in if ret \<noteq> ok then Inl (ret, ymodem_put L port YMODEM_CAN w, s)
             else Inr (st\<lparr>store_active := True\<rparr>, w, s))"

text \<open>A good packet after it.\<close>

definition ymodem_block ::
    "'w line \<Rightarrow> 'f image_env \<Rightarrow> nat \<Rightarrow> byte \<Rightarrow> byte list \<Rightarrow> ymodem_state \<Rightarrow> 'w \<Rightarrow> 'f store \<Rightarrow>
     ('w, 'f) ymodem_round option" where
  "ymodem_block L E port block_no data st w s =
     (if eot_seen st \<and> block_no = 0 then
        let (ret, s) = rtbus_image_store_finish E ok s
        in if ret \<noteq> ok then Some (Inl (ret, ymodem_put L port YMODEM_CAN w, s))
           else Some (Inl (ok, ymodem_put L port YMODEM_ACK w, s))
      else if block_no \<noteq> expected_block st then Some (Inr (st, ymodem_put L port YMODEM_NAK w, s))
      else
        let write_len = length data;
            write_len = (if psub (expected_file_size st) (received_size st) < write_len
                         then psub (expected_file_size st) (received_size st) else write_len)
        in do {
          (ret, s) \<leftarrow> rtbus_image_store_write E (received_size st) (Some data) write_len s;
          if ret \<noteq> ok then
            let s = snd (rtbus_image_store_finish E ret s)
            in Some (Inl (ret, ymodem_put L port YMODEM_CAN w, s))
          else Some (Inr (st\<lparr>received_size := received_size st + write_len,
                             expected_block := expected_block st + 1\<rparr>,
                          ymodem_put L port YMODEM_ACK w, s))
        })"

definition abandon :: "'f image_env \<Rightarrow> errno \<Rightarrow> ymodem_state \<Rightarrow> 'f store \<Rightarrow> 'f store" where
  "abandon E e st s = (if store_active st then snd (rtbus_image_store_finish E (Inl e) s) else s)"

definition ymodem_round ::
    "'w line \<Rightarrow> 'f image_env \<Rightarrow> nat \<Rightarrow> ymodem_state \<Rightarrow> 'w \<Rightarrow> 'f store \<Rightarrow> ('w, 'f) ymodem_round option" where
  "ymodem_round L E port st w s = do {
     (h, w) \<leftarrow> (if \<not> got_metadata st then ymodem_wait_header L port w
                else ymodem_read_byte L port YMODEM_BYTE_TIMEOUT_MS w);
     case h of
       Inl e \<Rightarrow> Some (Inl (Inl e, w, abandon E e st s))
     | Inr header \<Rightarrow>
         if header = YMODEM_CAN then Some (Inl (Inl ECANCELED, w, abandon E ECANCELED st s))
         else if header = YMODEM_EOT then
           if \<not> eot_seen st then Some (Inr (st\<lparr>eot_seen := True\<rparr>, ymodem_put L port YMODEM_NAK w, s))
           else Some (Inr (st, ymodem_put L port YMODEM_CRC (ymodem_put L port YMODEM_ACK w), s))
         else do {
           (r, w) \<leftarrow> ymodem_read_packet L port header w;
           case r of
             Inl _ \<Rightarrow> Some (Inr (st, ymodem_put L port YMODEM_NAK w, s))
           | Inr (block_no, data) \<Rightarrow>
               if \<not> got_metadata st then Some (ymodem_metadata L E port block_no data st w s)
               else ymodem_block L E port block_no data st w s
         }
   }"

partial_function (option) ymodem_loop ::
    "'w line \<Rightarrow> 'f image_env \<Rightarrow> nat \<Rightarrow> ymodem_state \<Rightarrow> 'w \<Rightarrow> 'f store \<Rightarrow> (rc \<times> 'w \<times> 'f store) option"
  where
  "ymodem_loop L E port st w s = do {
     r \<leftarrow> ymodem_round L E port st w s;
     case r of Inl done \<Rightarrow> Some done | Inr (st, w, s) \<Rightarrow> ymodem_loop L E port st w s
   }"

definition rtbus_ymodem_recv ::
    "'w line \<Rightarrow> 'f image_env \<Rightarrow> nat \<Rightarrow> 'w \<Rightarrow> 'f store \<Rightarrow> (rc \<times> 'w \<times> 'f store) option" where
  "rtbus_ymodem_recv L E port w s =
     (let (ret, w) = serial_begin L port 115200 w
      in if ret \<noteq> ok then Some (ret, w, s)
         else ymodem_loop L E port ymodem_start (serial_flush_rx L port w) s)"

section \<open>Packets that pass the check\<close>

text \<open>The bytes of a packet after its start byte, as a sender builds them.\<close>

definition packet_body :: "byte \<Rightarrow> byte list \<Rightarrow> byte list" where
  "packet_body n data = [n, NOT n] @ data @
     [ucast (drop_bit 8 (ymodem_crc16 data)), ucast (ymodem_crc16 data)]"

lemma length_packet_body [simp]: "length (packet_body n data) = length data + 4"
  by (simp add: packet_body_def)

lemma not_complement: "n + NOT (n :: byte) = 0xFF"
  by (simp add: not_eq_complement)

lemma join16: "push_bit 8 (ucast (ucast (drop_bit 8 c) :: byte)) OR ucast (ucast c :: byte) = (c :: 16 word)"
  by (rule bit_eqI) (auto simp: bit_simps)

lemma check_packet_body: "check_packet (length data) (packet_body n data) = Inr (n, data)"
proof -
  have "packet_body n data ! (length data + 2) = ucast (drop_bit 8 (ymodem_crc16 data))"
    "packet_body n data ! (length data + 3) = ucast (ymodem_crc16 data)"
    by (simp_all add: packet_body_def nth_append numeral_eq_Suc)
  then show ?thesis
    by (simp add: check_packet_def not_complement join16) (simp add: packet_body_def)
qed

lemma crc16_bit_top: "crc AND 0x8000 \<noteq> 0 \<longleftrightarrow> bit (crc :: 16 word) 15"
  using and_exp_eq_0_iff_not_bit [of crc 15] by simp

lemma crc16_bit_inj: "crc16_bit c = crc16_bit c' \<Longrightarrow> c = c'"
proof -
  assume eq: "crc16_bit c = crc16_bit c'"
  have low: "bit (crc16_bit c) 0 \<longleftrightarrow> bit c 15" for c
  proof -
    have "\<not> bit (push_bit 1 c) 0" by (simp only: bit_push_bit_iff) simp
    moreover have "bit (0x1021 :: 16 word) 0" by simp
    ultimately show ?thesis by (simp only: crc16_bit_def crc16_bit_top) (auto simp: bit_xor_iff)
  qed
  have b: "bit c 15 \<longleftrightarrow> bit c' 15" using eq low [of c] low [of c'] by simp
  have "push_bit 1 c = push_bit 1 c'"
  proof (cases "bit c 15")
    case True
    then have "push_bit 1 c XOR 0x1021 = push_bit 1 c' XOR 0x1021"
      using eq b by (simp add: crc16_bit_def crc16_bit_top)
    then show ?thesis by (simp only: xor_cancel_right)
  next
    case False
    then show ?thesis using eq b by (simp add: crc16_bit_def crc16_bit_top)
  qed
  then have s: "bit (push_bit 1 c) (Suc n) = bit (push_bit 1 c') (Suc n)" for n by simp
  have "bit c n = bit c' n" if "n < 15" for n
    using s [of n] that by (simp only: bit_push_bit_iff) simp
  then have "bit c n = bit c' n" for n
    using b bit_imp_le_length [of c n] bit_imp_le_length [of c' n] by (cases "n < 15"; cases "n = 15"; force)
  then show ?thesis by (rule bit_eqI)
qed

lemma crc16_bits_inj: "(crc16_bit ^^ n) c = (crc16_bit ^^ n) c' \<Longrightarrow> c = c'"
  by (induction n) (auto dest: crc16_bit_inj)

lemma crc16_byte_inj: "crc16_byte c b = crc16_byte c' b \<Longrightarrow> c = c'"
  unfolding crc16_byte_def by (drule crc16_bits_inj) (simp only: xor_cancel_right)

lemma crc16_byte_inj2: "crc16_byte c b = crc16_byte c b' \<Longrightarrow> b = b'"
proof -
  assume "crc16_byte c b = crc16_byte c b'"
  then have "c XOR push_bit 8 (ucast b) = c XOR push_bit 8 (ucast b')"
    unfolding crc16_byte_def by (rule crc16_bits_inj)
  then have eq: "push_bit 8 (ucast b :: 16 word) = push_bit 8 (ucast b')"
    by (simp only: xor_cancel_left)
  have "bit b n = bit b' n" for n
  proof (cases "n < 8")
    case True
    have "bit (push_bit 8 (ucast b :: 16 word)) (n + 8) = bit (push_bit 8 (ucast b' :: 16 word)) (n + 8)"
      using eq by simp
    then show ?thesis using True by (simp add: bit_simps)
  next
    case False
    then show ?thesis using bit_imp_le_length [of b n] bit_imp_le_length [of b' n] by force
  qed
  then show ?thesis by (rule bit_eqI)
qed

lemma crc16_foldl_inj: "foldl crc16_byte c xs = foldl crc16_byte c' xs \<Longrightarrow> c = c'"
  by (induction xs rule: rev_induct) (auto dest: crc16_byte_inj)

lemma crc16_one_byte: "b \<noteq> b' \<Longrightarrow> ymodem_crc16 (xs @ b # ys) \<noteq> ymodem_crc16 (xs @ b' # ys)"
  using crc16_foldl_inj crc16_byte_inj2 by (fastforce simp: ymodem_crc16_def)

lemma crc16_update_one_byte:
  assumes "i < length d" "b \<noteq> d ! i"
  shows "ymodem_crc16 (d[i := b]) \<noteq> ymodem_crc16 d"
  using crc16_one_byte [OF assms(2), of "take i d" "drop (Suc i) d"] assms(1)
  by (simp add: upd_conv_take_nth_drop id_take_nth_drop [symmetric])

lemma check_packet_parts:
  assumes "length d = m"
  shows "check_packet m (a # c # d @ [h, l]) =
    (if a + c = 0xFF \<and> ymodem_crc16 d = push_bit 8 (ucast h) OR ucast l then Inr (a, d) else Inl EBADMSG)"
proof -
  have "(a # c # d @ [h, l]) ! (m + 2) = h" "(a # c # d @ [h, l]) ! (m + 3) = l"
    using assms by (simp_all add: nth_append numeral_eq_Suc)
  then show ?thesis using assms by (simp add: check_packet_def)
qed

lemma join16_inj:
  "push_bit 8 (ucast h) OR ucast l = (push_bit 8 (ucast h') OR ucast l' :: 16 word) \<Longrightarrow>
   h = (h' :: byte) \<and> l = (l' :: byte)"
proof -
  assume eq: "push_bit 8 (ucast h) OR ucast l = (push_bit 8 (ucast h') OR ucast l' :: 16 word)"
  have "bit h n = bit h' n" for n
  proof (cases "n < 8")
    case True
    then have "\<not> bit l (n + 8)" "\<not> bit l' (n + 8)" using bit_imp_le_length by fastforce+
    moreover have "bit (push_bit 8 (ucast h) OR ucast l :: 16 word) (n + 8) =
        bit (push_bit 8 (ucast h') OR ucast l' :: 16 word) (n + 8)" using eq by simp
    ultimately show ?thesis using True by (simp add: bit_simps)
  next
    case False
    then show ?thesis using bit_imp_le_length [of h n] bit_imp_le_length [of h' n] by force
  qed
  moreover have "bit l n = bit l' n" for n
  proof (cases "n < 8")
    case True
    moreover have "bit (push_bit 8 (ucast h) OR ucast l :: 16 word) n =
        bit (push_bit 8 (ucast h') OR ucast l' :: 16 word) n" using eq by simp
    ultimately show ?thesis by (simp add: bit_simps)
  next
    case False
    then show ?thesis using bit_imp_le_length [of l n] bit_imp_le_length [of l' n] by force
  qed
  ultimately show ?thesis by (blast intro: bit_eqI)
qed

lemma check_packet_corrupted:
  assumes "i < length data + 4" "b \<noteq> packet_body n data ! i"
  shows "check_packet (length data) ((packet_body n data)[i := b]) = Inl EBADMSG"
proof -
  let ?h = "ucast (drop_bit 8 (ymodem_crc16 data)) :: byte" and ?l = "ucast (ymodem_crc16 data) :: byte"
  have body: "packet_body n data = n # NOT n # data @ [?h, ?l]" by (simp add: packet_body_def)
  have "i = 0 \<or> i = 1 \<or> (\<exists>j. i = j + 2 \<and> j < length data) \<or> i = length data + 2 \<or> i = length data + 3"
    using assms(1) by presburger
  then consider "i = 0" | "i = 1" | j where "i = j + 2" "j < length data" | "i = length data + 2" | "i = length data + 3"
    by blast
  then show ?thesis
  proof cases
    case 1
    then have "b + NOT n \<noteq> 0xFF" using assms(2) not_complement [of n] body by (metis add_right_cancel nth_Cons_0)
    then show ?thesis using 1 by (simp add: body check_packet_parts)
  next
    case 2
    then have "n + b \<noteq> 0xFF" using assms(2) not_complement [of n] body by (metis One_nat_def add_left_cancel nth_Cons_0 nth_Cons_Suc)
    then show ?thesis using 2 by (simp add: body check_packet_parts)
  next
    case 3
    have "ymodem_crc16 (data[j := b]) \<noteq> ymodem_crc16 data"
      by (rule crc16_update_one_byte [OF 3(2)]) (use assms(2) 3 in \<open>simp add: body nth_append\<close>)
    moreover have "(packet_body n data)[i := b] = n # NOT n # data[j := b] @ [?h, ?l]"
      using 3 by (simp add: body list_update_append)
    ultimately show ?thesis by (simp add: check_packet_parts join16)
  next
    case 4
    then have "b \<noteq> ?h" "(packet_body n data)[i := b] = n # NOT n # data @ [b, ?l]"
      using assms(2) by (simp_all add: body nth_append)
    moreover have "push_bit 8 (ucast b) OR ucast ?l \<noteq> ymodem_crc16 data"
      using join16_inj [of b ?l ?h ?l] join16 [of "ymodem_crc16 data"] \<open>b \<noteq> ?h\<close> by metis
    ultimately show ?thesis by (simp add: check_packet_parts)
  next
    case 5
    then have "b \<noteq> ?l" "(packet_body n data)[i := b] = n # NOT n # data @ [?h, b]"
      using assms(2) by (simp_all add: body nth_append list_update_append numeral_eq_Suc)
    moreover have "push_bit 8 (ucast ?h) OR ucast b \<noteq> ymodem_crc16 data"
      using join16_inj [of ?h b ?h ?l] join16 [of "ymodem_crc16 data"] \<open>b \<noteq> ?l\<close> by metis
    ultimately show ?thesis by (simp add: check_packet_parts)
  qed
qed

section \<open>A line that delivers\<close>

text \<open>What the receiver relies on of its port: the calls succeed, a read returns what is pending
  (\<open>pend\<close>), \<open>sent\<close> collects what is written, and no time passes except by sleeping.  All of it
  holds as long as the port is in a good state (\<open>good\<close>), which every call keeps.\<close>

locale ideal_line =
  fixes L :: "'w line" and port :: nat and good :: "'w \<Rightarrow> bool"
    and pend sent :: "'w \<Rightarrow> byte list" and clk :: "'w \<Rightarrow> int"
  assumes begins: "good w \<Longrightarrow> \<exists>w'. serial_begin L port 115200 w = (ok, w') \<and> good w' \<and>
      pend w' = pend w \<and> sent w' = sent w \<and> clk w' = clk w"
    and flushes: "good w \<Longrightarrow> good (serial_flush_rx L port w) \<and> sent (serial_flush_rx L port w) = sent w \<and>
      clk (serial_flush_rx L port w) = clk w"
    and reads: "good w \<Longrightarrow> \<exists>w'. serial_read L port n w = (take n (pend w), w') \<and> good w' \<and>
      pend w' = drop n (pend w) \<and> sent w' = sent w \<and> clk w' = clk w"
    and writes: "good w \<Longrightarrow> good (serial_write L port bs w) \<and> pend (serial_write L port bs w) = pend w \<and>
      sent (serial_write L port bs w) = sent w @ bs \<and> clk (serial_write L port bs w) = clk w"
    and tells: "good w \<Longrightarrow> \<exists>w'. uptime L w = (clk w, w') \<and> good w' \<and>
      pend w' = pend w \<and> sent w' = sent w \<and> clk w' = clk w"

context ideal_line
begin

lemma put_line:
  assumes "good w"
  shows "good (ymodem_put L port b w)" "pend (ymodem_put L port b w) = pend w"
    "sent (ymodem_put L port b w) = sent w @ [b]" "clk (ymodem_put L port b w) = clk w"
  using writes [OF assms] by (simp_all add: ymodem_put_def)

lemma read_byte_line:
  assumes i: "good w" and p: "pend w = b # r" "0 < t"
  shows "\<exists>w'. ymodem_read_byte L port t w = Some (Inr b, w') \<and> good w' \<and> pend w' = r \<and> sent w' = sent w \<and>
    clk w' = clk w"
proof -
  obtain w1 where w1: "uptime L w = (clk w, w1)" "good w1" "pend w1 = b # r" "sent w1 = sent w" "clk w1 = clk w"
    using tells [OF i] p(1) by auto
  obtain w2 where w2: "uptime L w1 = (clk w, w2)" "good w2" "pend w2 = b # r" "sent w2 = sent w" "clk w2 = clk w"
    using tells [OF w1(2)] w1(3-5) by auto
  obtain w3 where "serial_read L port 1 w2 = ([b], w3)" "good w3" "pend w3 = r" "sent w3 = sent w" "clk w3 = clk w"
    using reads [OF w2(2), of 1] w2(3-5) by auto
  then show ?thesis using p w1 w2
    by (simp add: ymodem_read_byte_def) (subst read_byte_loop.simps, simp)
qed

lemma wait_header_line:
  assumes i: "good w" and p: "pend w = b # r" "0 \<le> clk w"
  shows "\<exists>w'. ymodem_wait_header L port w = Some (Inr b, w') \<and> good w' \<and> pend w' = r \<and>
    sent w' = sent w @ [YMODEM_CRC] \<and> clk w' = clk w"
proof -
  obtain w1 where w1: "uptime L w = (clk w, w1)" "good w1" "pend w1 = b # r" "sent w1 = sent w" "clk w1 = clk w"
    using tells [OF i] p(1) by auto
  obtain w2 where w2: "uptime L w1 = (clk w, w2)" "good w2" "pend w2 = b # r" "sent w2 = sent w" "clk w2 = clk w"
    using tells [OF w1(2)] w1(3-5) by auto
  obtain w3 where w3: "uptime L w2 = (clk w, w3)" "good w3" "pend w3 = b # r" "sent w3 = sent w" "clk w3 = clk w"
    using tells [OF w2(2)] w2(3-5) by auto
  define w4 where "w4 = ymodem_put L port YMODEM_CRC w3"
  have w4': "good w4" "pend w4 = b # r" "sent w4 = sent w @ [YMODEM_CRC]" "clk w4 = clk w"
    using put_line [OF w3(2)] w3(3-5) by (simp_all add: w4_def)
  obtain w5 where w5: "uptime L w4 = (clk w, w5)" "good w5" "pend w5 = b # r" "sent w5 = sent w @ [YMODEM_CRC]"
    "clk w5 = clk w"
    using tells [OF w4'(1)] w4'(2-4) by auto
  obtain w6 where w6: "serial_read L port 1 w5 = ([b], w6)" "good w6" "pend w6 = r"
    "sent w6 = sent w @ [YMODEM_CRC]" "clk w6 = clk w"
    using reads [OF w5(2), of 1] w5(3-5) by auto
  have "wait_header_loop L port (clk w + 30000) 0 w1 = Some (Inr b, w6)"
    apply (subst wait_header_loop.simps)
    using p(2) by (simp add: w2(1) w3(1) w4_def [symmetric] w5(1) w6(1) [simplified])
  then show ?thesis
    using w1(1) w6 by (simp add: ymodem_wait_header_def YMODEM_START_TIMEOUT_MS_def)
qed

lemma read_exact_line:
  assumes i: "good w" and n: "0 < n" "n \<le> length (pend w)"
  shows "\<exists>w'. ymodem_read_exact L port n t w = Some (Inr (take n (pend w)), w') \<and> good w' \<and>
    pend w' = drop n (pend w) \<and> sent w' = sent w \<and> clk w' = clk w"
proof -
  obtain w1 where w1: "uptime L w = (clk w, w1)" "good w1" "pend w1 = pend w" "sent w1 = sent w" "clk w1 = clk w"
    using tells [OF i] by auto
  obtain w2 where w2: "serial_read L port n w1 = (take n (pend w), w2)" "good w2" "pend w2 = drop n (pend w)"
    "sent w2 = sent w" "clk w2 = clk w"
    using reads [OF w1(2), of n] w1(3-5) by auto
  obtain w3 where w3: "uptime L w2 = (clk w, w3)" "good w3" "pend w3 = drop n (pend w)" "sent w3 = sent w"
    "clk w3 = clk w"
    using tells [OF w2(2)] w2(3-5) by auto
  have len: "pend w \<noteq> []" "length (take n (pend w)) = n" using n by auto
  have "read_exact_loop L port n t (take n (pend w)) d w3 = Some (Inr (take n (pend w)), w3)" for d
    by (subst read_exact_loop.simps) (simp only: len less_irrefl if_False)
  then have "read_exact_loop L port n t [] (clk w + t) w1 = Some (Inr (take n (pend w)), w3)"
    apply (subst read_exact_loop.simps)
    using n len by (simp add: w2(1) w3(1))
  then show ?thesis using w1(1) w3 by (simp add: ymodem_read_exact_def)
qed

lemma read_packet_line:
  assumes i: "good w" and p: "pend w = packet_body n d @ r"
    and h: "header = YMODEM_SOH \<and> length d = 128 \<or> header = YMODEM_STX \<and> length d = 1024"
  shows "\<exists>w'. ymodem_read_packet L port header w = Some (Inr (n, d), w') \<and> good w' \<and> pend w' = r \<and>
    sent w' = sent w \<and> clk w' = clk w"
proof -
  obtain w' where "ymodem_read_exact L port (length d + 4) YMODEM_BYTE_TIMEOUT_MS w =
      Some (Inr (packet_body n d), w')" "good w'" "pend w' = r" "sent w' = sent w" "clk w' = clk w"
    using read_exact_line [OF i, of "length d + 4" YMODEM_BYTE_TIMEOUT_MS] p by auto
  moreover have "(if header = YMODEM_SOH then YMODEM_BLOCK_128 else YMODEM_BLOCK_1024) = length d"
    "header = YMODEM_SOH \<or> header = YMODEM_STX"
    using h by (auto simp: layout_defs)
  ultimately show ?thesis
    using check_packet_body [of d n] by (auto simp: ymodem_read_packet_def YMODEM_PACKET_OVERHEAD_def)
qed

end

section \<open>Transfers\<close>

text \<open>A write looks at no more bytes than it is asked to store.\<close>

lemma store_write_loop_take:
  "store_write_loop E d sz s = Some y \<Longrightarrow> store_write_loop E (take sz d) sz s = Some y"
proof (induction E d sz s y rule: store_write_loop.raw_induct [rotated, consumes 1, case_names step])
  case (step f E d sz s y)
  define k where "k = min sz (pending_max E - flash_pending_len s)"
  have k: "min k sz = k" "drop k (take sz d) = take (sz - k) (drop k d)"
    by (auto simp: k_def min_def drop_take)
  define s1 where "s1 = s\<lparr>flash_pending := take (flash_pending_len s) (flash_pending s) @ take k d @
      drop (flash_pending_len s + k) (flash_pending s), flash_pending_len := flash_pending_len s + k\<rparr>"
  obtain r2 s2 where F: "store_flush_flash E False s1 = (r2, s2)" by force
  have code: "store_write_loop E (take sz d) sz s = (if 0 < sz then
      if r2 \<noteq> ok then Some (r2, s2) else store_write_loop E (take (sz - k) (drop k d)) (sz - k) s2
      else Some (ok, s))"
    using F by (subst store_write_loop.simps) (simp add: Let_def k_def [symmetric] k s1_def)
  have "y = (r2, s2) \<or> f E (drop k d) (sz - k) s2 = Some y" if "0 < sz"
    using step(2) that F by (auto simp: Let_def k_def [symmetric] s1_def split: if_splits)
  then show ?case
    using step(2) F step(1) [of E "drop k d" "sz - k" s2 y]
    by (auto simp: code Let_def k_def [symmetric] s1_def [symmetric] split: if_splits)
qed

lemma store_write_take:
  assumes "rtbus_image_store_write E off (Some d) sz s = Some y"
  shows "rtbus_image_store_write E off (Some (take sz d)) sz s = Some y"
  using assms store_write_loop_take [of E d sz s]
  by (auto simp: rtbus_image_store_write_def store_write_flash_def split: option.splits if_splits bind_splits)

text \<open>The blocks of a file, and the bytes a sender puts on the line: the metadata block, the data
  blocks padded to 1024 bytes, the two end marks and the empty closing block.\<close>

function blocks :: "byte list \<Rightarrow> byte list list" where
  "blocks d = (if d = [] then [] else take 1024 d # blocks (drop 1024 d))"
  by auto
termination by (relation "measure length") auto

declare blocks.simps [simp del]

definition pad :: "byte list \<Rightarrow> byte list" where
  "pad c = c @ replicate (1024 - length c) 0x1A"

fun data_packets :: "byte \<Rightarrow> byte list list \<Rightarrow> byte list" where
  "data_packets n [] = []"
| "data_packets n (c # cs) = YMODEM_STX # packet_body n (pad c) @ data_packets (n + 1) cs"

definition closing :: "byte list" where
  "closing = [YMODEM_EOT, YMODEM_EOT] @ YMODEM_SOH # packet_body 0 (replicate 128 0)"

definition ymodem_stream :: "byte list \<Rightarrow> byte list \<Rightarrow> byte list" where
  "ymodem_stream meta d = YMODEM_SOH # packet_body 0 meta @ data_packets 1 (blocks d) @ closing"

text \<open>What the receiver answers to a transfer that it accepts.\<close>

definition ymodem_replies :: "byte list \<Rightarrow> byte list" where
  "ymodem_replies d = [YMODEM_CRC, YMODEM_ACK, YMODEM_CRC] @ replicate (length (blocks d)) YMODEM_ACK @
     [YMODEM_NAK, YMODEM_ACK, YMODEM_CRC, YMODEM_ACK]"

lemma concat_blocks: "concat (blocks d) = d"
proof (induction d rule: blocks.induct)
  case (1 d)
  then show ?case by (subst blocks.simps) simp
qed

lemma blocks_length: "c \<in> set (blocks d) \<Longrightarrow> length c \<le> 1024 \<and> c \<noteq> []"
proof (induction d rule: blocks.induct)
  case (1 d)
  then show ?case by (subst (asm) (2) blocks.simps) (auto split: if_splits)
qed

lemma loop_step:
  "ymodem_round L E port st w s = Some (Inr (st', w', s')) \<Longrightarrow>
   ymodem_loop L E port st w s = ymodem_loop L E port st' w' s'"
  "ymodem_round L E port st w s = Some (Inl r) \<Longrightarrow> ymodem_loop L E port st w s = Some r"
  by (subst ymodem_loop.simps, simp)+

lemma store_write_pad:
  assumes laws: "flash_laws E view" and inv: "store_inv E view data s"
  shows "rtbus_image_store_write E off (Some (c @ p)) (length c) s =
    rtbus_image_store_write E off (Some c) (length c) s"
proof -
  have "buf_inv E view (direct_store_area_id E) data s" "flash_pending_len s < pending_max E"
    using inv by (auto simp: store_inv_def)
  from write_loop_spec [OF laws this, of "length c" "c @ p"]
  obtain y where y: "store_write_loop E (c @ p) (length c) s = Some y" by auto
  from store_write_loop_take [OF y] have "store_write_loop E c (length c) s = Some y" by simp
  with y show ?thesis
    by (auto simp: rtbus_image_store_write_def store_write_flash_def split: option.splits)
qed

definition transferring :: "nat \<Rightarrow> nat \<Rightarrow> byte \<Rightarrow> bool \<Rightarrow> ymodem_state" where
  "transferring tot received n eot = \<lparr>expected_file_size = tot, received_size = received,
     expected_block = n, got_metadata = True, store_active = True, eot_seen = eot\<rparr>"

lemma transferring_simps [simp]:
  "expected_file_size (transferring t r n e) = t" "received_size (transferring t r n e) = r"
  "expected_block (transferring t r n e) = n" "got_metadata (transferring t r n e)"
  "store_active (transferring t r n e)" "eot_seen (transferring t r n e) = e"
  "(transferring t r n e)\<lparr>eot_seen := e'\<rparr> = transferring t r n e'"
  "(transferring t r n e)\<lparr>received_size := r', expected_block := n'\<rparr> = transferring t r' n' e"
  by (simp_all add: transferring_def)

lemma byte_codes:
  "YMODEM_SOH \<noteq> YMODEM_CAN" "YMODEM_SOH \<noteq> YMODEM_EOT" "YMODEM_STX \<noteq> YMODEM_CAN"
  "YMODEM_STX \<noteq> YMODEM_EOT" "YMODEM_EOT \<noteq> YMODEM_CAN" "YMODEM_SOH \<noteq> YMODEM_STX"
  by (simp_all add: layout_defs)

text \<open>The blocks that are left fit: all but the last have 1024 bytes.\<close>

fun full_blocks :: "byte list list \<Rightarrow> bool" where
  "full_blocks [] = True"
| "full_blocks (c # cs) \<longleftrightarrow> length c \<le> 1024 \<and> (cs = [] \<or> length c = 1024) \<and> full_blocks cs"

lemma full_blocks_blocks: "full_blocks (blocks d)"
proof (induction d rule: blocks.induct)
  case (1 d)
  then show ?case
    by (subst blocks.simps) (auto simp: blocks.simps [of "drop 1024 d"])
qed

lemma length_pad [simp]: "length c \<le> 1024 \<Longrightarrow> length (pad c) = 1024"
  by (simp add: pad_def)

lemma finish_failed:
  "active s \<Longrightarrow> e \<noteq> ok \<Longrightarrow> rtbus_image_store_finish E e s = (e, snd (rtbus_image_store_finish E e s))"
  by (simp add: rtbus_image_store_finish_def Let_def)

context ideal_line
begin

lemma eot_round:
  assumes i: "good w" and p: "pend w = YMODEM_EOT # r" "got_metadata st"
  shows "\<exists>w'. ymodem_round L E port st w s = Some (Inr (st\<lparr>eot_seen := True\<rparr>, w', s)) \<and> good w' \<and> pend w' = r \<and>
    sent w' = sent w @ (if eot_seen st then [YMODEM_ACK, YMODEM_CRC] else [YMODEM_NAK])"
proof -
  obtain w1 where w1: "ymodem_read_byte L port YMODEM_BYTE_TIMEOUT_MS w = Some (Inr YMODEM_EOT, w1)"
    "good w1" "pend w1 = r" "sent w1 = sent w"
    using read_byte_line [OF i p(1), of YMODEM_BYTE_TIMEOUT_MS] by (auto simp: YMODEM_BYTE_TIMEOUT_MS_def)
  then show ?thesis
    using p(2) put_line byte_codes by (cases "eot_seen st") (auto simp: ymodem_round_def)
qed

lemma packet_round:
  assumes i: "good w" and p: "pend w = header # packet_body n d @ r"
    and h: "header = YMODEM_SOH \<and> length d = 128 \<or> header = YMODEM_STX \<and> length d = 1024"
    and g: "got_metadata st"
  shows "\<exists>w'. ymodem_round L E port st w s = ymodem_block L E port n d st w' s \<and> good w' \<and> pend w' = r \<and>
    sent w' = sent w"
proof -
  obtain w1 where w1: "ymodem_read_byte L port YMODEM_BYTE_TIMEOUT_MS w = Some (Inr header, w1)"
    "good w1" "pend w1 = packet_body n d @ r" "sent w1 = sent w"
    using read_byte_line [OF i p, of YMODEM_BYTE_TIMEOUT_MS] by (auto simp: YMODEM_BYTE_TIMEOUT_MS_def)
  obtain w2 where "ymodem_read_packet L port header w1 = Some (Inr (n, d), w2)" "good w2" "pend w2 = r"
    "sent w2 = sent w"
    using read_packet_line [OF w1(2,3) h] w1(4) by auto
  then show ?thesis
    using w1 g h byte_codes by (auto simp: ymodem_round_def)
qed

lemma closing_phase:
  assumes i: "good w" and p: "pend w = closing"
    and F: "rtbus_image_store_finish E ok s = (r, s')"
  shows "\<exists>w'. ymodem_loop L E port (transferring t t' n False) w s = Some (r, w', s') \<and>
    (r = ok \<longrightarrow> good w' \<and> pend w' = [] \<and> sent w' = sent w @ [YMODEM_NAK, YMODEM_ACK, YMODEM_CRC, YMODEM_ACK])"
proof -
  obtain w1 where w1: "ymodem_round L E port (transferring t t' n False) w s =
      Some (Inr (transferring t t' n True, w1, s))"
    "good w1" "pend w1 = YMODEM_EOT # YMODEM_SOH # packet_body 0 (replicate 128 0)"
    "sent w1 = sent w @ [YMODEM_NAK]"
    using eot_round [OF i, of _ "transferring t t' n False" E s] p by (auto simp: closing_def)
  obtain w2 where w2: "ymodem_round L E port (transferring t t' n True) w1 s =
      Some (Inr (transferring t t' n True, w2, s))"
    "good w2" "pend w2 = YMODEM_SOH # packet_body 0 (replicate 128 0)" "sent w2 = sent w1 @ [YMODEM_ACK, YMODEM_CRC]"
    using eot_round [OF w1(2,3), of "transferring t t' n True" E s] by auto
  obtain w3 where w3: "ymodem_round L E port (transferring t t' n True) w2 s =
      ymodem_block L E port 0 (replicate 128 0) (transferring t t' n True) w3 s" "good w3" "pend w3 = []" "sent w3 = sent w2"
    using packet_round [OF w2(2), of YMODEM_SOH 0 "replicate 128 0" "[]" "transferring t t' n True" E s] w2(3) by auto
  have "ymodem_round L E port (transferring t t' n True) w2 s =
      Some (Inl (r, ymodem_put L port (if r = ok then YMODEM_ACK else YMODEM_CAN) w3, s'))"
    unfolding w3(1) using F by (simp add: ymodem_block_def)
  then have "ymodem_loop L E port (transferring t t' n False) w s =
      Some (r, ymodem_put L port (if r = ok then YMODEM_ACK else YMODEM_CAN) w3, s')"
    by (simp only: loop_step(1) [OF w1(1)] loop_step(1) [OF w2(1)] loop_step(2))
  then show ?thesis using put_line [OF w3(2)] w1 w2 w3 by auto
qed

lemma block_round:
  assumes laws: "flash_laws E view" and i: "good w"
    and store: "store_inv E view data s" and p: "pend w = YMODEM_STX # packet_body n (pad c) @ r"
    and fits: "length c \<le> 1024" "length data + length c \<le> expected_size s"
      "length c = 1024 \<or> length data + length c = expected_size s"
    and W: "rtbus_image_store_write E (length data) (Some c) (length c) s = Some (rw, s1)"
  shows "\<exists>w'. ymodem_round L E port (transferring (expected_size s) (length data) n False) w s =
      Some (if rw = ok then Inr (transferring (expected_size s) (length data + length c) (n + 1) False, w', s1)
            else Inl (rw, w', snd (rtbus_image_store_finish E rw s1))) \<and>
    good w' \<and> pend w' = r \<and> sent w' = sent w @ [if rw = ok then YMODEM_ACK else YMODEM_CAN]"
proof -
  let ?st = "transferring (expected_size s) (length data) n False"
  obtain w1 where w1: "ymodem_round L E port ?st w s = ymodem_block L E port n (pad c) ?st w1 s"
    "good w1" "pend w1 = r" "sent w1 = sent w"
    using packet_round [OF i p, of ?st E s] fits(1) by auto
  have I: "expected_size s < 4294967296" "length data \<le> expected_size s"
    using store by (auto simp: store_inv_def)
  have "psub (expected_size s) (length data) = expected_size s - length data" using I by simp
  then have len: "(if psub (expected_size s) (length data) < length (pad c)
      then psub (expected_size s) (length data) else length (pad c)) = length c"
    using fits by auto
  have "rtbus_image_store_write E (length data) (Some (pad c)) (length c) s = Some (rw, s1)"
    unfolding pad_def store_write_pad [OF laws store] by (rule W)
  then have "ymodem_block L E port n (pad c) ?st w1 s =
      Some (if rw = ok then Inr (transferring (expected_size s) (length data + length c) (n + 1) False,
              ymodem_put L port YMODEM_ACK w1, s1)
            else Inl (rw, ymodem_put L port YMODEM_CAN w1, snd (rtbus_image_store_finish E rw s1)))"
    by (simp only: ymodem_block_def Let_def transferring_simps len) simp
  then show ?thesis using w1 put_line by auto
qed

lemma data_phase:
  assumes laws: "flash_laws E view"
  shows "good w \<Longrightarrow> store_inv E view data s \<Longrightarrow> full_blocks cs \<Longrightarrow>
    length data + length (concat cs) = expected_size s \<Longrightarrow> pend w = data_packets n cs @ closing \<Longrightarrow>
    store_upload E cs (length data) s = Some (r1, s1) \<Longrightarrow>
    rtbus_image_store_finish E r1 s1 = (r, s') \<Longrightarrow>
    \<exists>w'. ymodem_loop L E port (transferring (expected_size s) (length data) n False) w s = Some (r, w', s') \<and>
      (r = ok \<longrightarrow> good w' \<and> pend w' = [] \<and>
         sent w' = sent w @ replicate (length cs) YMODEM_ACK @ [YMODEM_NAK, YMODEM_ACK, YMODEM_CRC, YMODEM_ACK])"
proof (induction cs arbitrary: data s w n)
  case Nil
  then show ?case using closing_phase [of w E s r s'] by auto
next
  case (Cons c cs)
  obtain rw s2 where W: "rtbus_image_store_write E (length data) (Some c) (length c) s = Some (rw, s2)"
    "kept view (direct_store_area_id E) (s\<lparr>written := written s2\<rparr>) s2"
    "rw = ok \<longrightarrow> store_inv E view (data @ c) s2"
    using store_write_spec [OF laws Cons.prems(2), of c] by (elim exE conjE) (rule that)
  have k: "active s2" "expected_size s2 = expected_size s"
    using W(2) Cons.prems(2) by (auto simp: kept_def store_inv_def)
  have fits: "length c \<le> 1024" "length data + length c \<le> expected_size s"
    "length c = 1024 \<or> length data + length c = expected_size s"
    using Cons.prems(3,4) by auto
  obtain w2 where R: "ymodem_round L E port (transferring (expected_size s) (length data) n False) w s =
      Some (if rw = ok then Inr (transferring (expected_size s) (length data + length c) (n + 1) False, w2, s2)
            else Inl (rw, w2, snd (rtbus_image_store_finish E rw s2)))"
    "good w2" "pend w2 = data_packets (n + 1) cs @ closing"
    "sent w2 = sent w @ [if rw = ok then YMODEM_ACK else YMODEM_CAN]"
    using block_round [OF laws Cons.prems(1,2) _ fits W(1)] Cons.prems(5) by (simp, blast)
  show ?case
  proof (cases "rw = ok")
    case True
    have up: "store_upload E cs (length (data @ c)) s2 = Some (r1, s1)"
      using Cons.prems(6) W(1) True by simp
    have "length (data @ c) + length (concat cs) = expected_size s2" "full_blocks cs"
      using Cons.prems(3,4) k by auto
    from Cons.IH [OF R(2) _ this(2,1) R(3) up Cons.prems(7)] W(3) True obtain w' where
      "ymodem_loop L E port (transferring (expected_size s2) (length (data @ c)) (n + 1) False) w2 s2 = Some (r, w', s')"
      "r = ok \<longrightarrow> good w' \<and> pend w' = [] \<and> sent w' = sent w2 @ replicate (length cs) YMODEM_ACK @
         [YMODEM_NAK, YMODEM_ACK, YMODEM_CRC, YMODEM_ACK]" by auto
    then show ?thesis using R True k loop_step(1) [of L E port _ w s] by simp
  next
    case False
    then have e: "r1 = rw" "s1 = s2" using Cons.prems(6) W(1) by auto
    then have "(r, s') = (rw, snd (rtbus_image_store_finish E rw s2))"
      using finish_failed [OF k(1) False, of E] Cons.prems(7) by simp
    then show ?thesis using R(1) False loop_step(2) [of L E port _ w s] by simp
  qed
qed

text \<open>The receiver drives the store as the session of theory \<open>Image\<close> does.\<close>

lemma recv_session:
  assumes laws: "flash_laws E view" "0 < pending_max E" and i: "good w"
    and p: "pend (serial_flush_rx L port (snd (serial_begin L port 115200 w))) = ymodem_stream meta d"
      "0 \<le> clk w" "length meta = 128"
    and m: "ymodem_parse_file_size meta = length d" "d \<noteq> []" "length d < 4294967296"
    and S: "image_session E (length d) (blocks d) s = Some (r, s')"
  shows "\<exists>w'. rtbus_ymodem_recv L E port w s = Some (r, w', s') \<and>
    (r = ok \<longrightarrow> good w' \<and> pend w' = [] \<and> sent w' = sent w @ ymodem_replies d)"
proof -
  obtain w0 where w0: "serial_begin L port 115200 w = (ok, w0)" "good w0" "sent w0 = sent w" "clk w0 = clk w"
    using begins [OF i] by auto
  define w1 where "w1 = serial_flush_rx L port w0"
  have w1: "good w1" "pend w1 = ymodem_stream meta d" "sent w1 = sent w" "0 \<le> clk w1"
    using flushes [OF w0(2)] w0 p(1,2) by (auto simp: w1_def)
  obtain w2 where w2: "ymodem_wait_header L port w1 = Some (Inr YMODEM_SOH, w2)" "good w2"
    "pend w2 = packet_body 0 meta @ data_packets 1 (blocks d) @ closing"
    "sent w2 = sent w @ [YMODEM_CRC]"
    using wait_header_line [OF w1(1) _ w1(4)] w1(2,3) by (auto simp: ymodem_stream_def)
  obtain w3 where w3: "ymodem_read_packet L port YMODEM_SOH w2 = Some (Inr (0, meta), w3)" "good w3"
    "pend w3 = data_packets 1 (blocks d) @ closing" "sent w3 = sent w @ [YMODEM_CRC]"
    using read_packet_line [OF w2(2,3), of YMODEM_SOH] w2(4) p(3) by auto
  define w4 where "w4 = ymodem_put L port YMODEM_CRC (ymodem_put L port YMODEM_ACK w3)"
  have w4: "good w4" "pend w4 = data_packets 1 (blocks d) @ closing"
    "sent w4 = sent w @ [YMODEM_CRC, YMODEM_ACK, YMODEM_CRC]"
    using put_line [OF w3(2)] put_line [OF put_line(1) [OF w3(2)]] w3 by (simp_all add: w4_def)
  obtain r0 s0 where B: "rtbus_image_store_begin E (Some (length d)) s = (r0, s0)" by force
  have round: "ymodem_round L E port ymodem_start w1 s = Some (if r0 = ok
      then Inr (transferring (length d) 0 1 False, w4, s0) else Inl (r0, ymodem_put L port YMODEM_CAN w4, s0))"
    using w2(1) w3(1) B m(1,2) byte_codes
    by (simp add: ymodem_round_def ymodem_start_def ymodem_metadata_def transferring_def w4_def)
  have recv: "rtbus_ymodem_recv L E port w s = ymodem_loop L E port ymodem_start w1 s"
    using w0(1) by (simp add: rtbus_ymodem_recv_def w1_def)
  show ?thesis
  proof (cases "r0 = ok")
    case False
    then have "(r, s') = (r0, s0)" using S B by (simp add: image_session_def)
    then show ?thesis using recv round False loop_step(2) [of L E port _ w1 s] by simp
  next
    case True
    have st: "store_inv E view [] s0" "expected_size s0 = length d"
      using begin_spec(1) [OF laws m(3) B] True by auto
    obtain r1 s1 where U: "store_upload E (blocks d) 0 s0 = Some (r1, s1)"
      "rtbus_image_store_finish E r1 s1 = (r, s')"
      using S B True by (auto simp: image_session_def split: bind_splits prod.splits)
    obtain w' where "ymodem_loop L E port (transferring (length d) 0 1 False) w4 s0 = Some (r, w', s')"
      "r = ok \<longrightarrow> good w' \<and> pend w' = [] \<and> sent w' = sent w4 @ replicate (length (blocks d)) YMODEM_ACK @
         [YMODEM_NAK, YMODEM_ACK, YMODEM_CRC, YMODEM_ACK]"
      using data_phase [OF laws(1) w4(1) st(1) full_blocks_blocks _ w4(2) _ U(2)] U(1) st(2)
      by (auto simp: concat_blocks)
    then show ?thesis using recv round True loop_step(1) [of L E port _ w1 s] w4(3)
      by (simp add: ymodem_replies_def)
  qed
qed

end

section \<open>Any line\<close>

text \<open>Between two rounds the store is idle before the metadata, and afterwards active with exactly the
  received bytes in it.\<close>

definition recv_inv :: "'f image_env \<Rightarrow> (nat \<Rightarrow> 'f \<Rightarrow> mem) \<Rightarrow> ymodem_state \<Rightarrow> 'f store \<Rightarrow> bool" where
  "recv_inv E view st s \<longleftrightarrow>
     (if got_metadata st then
        store_active st \<and> expected_size s = expected_file_size st \<and>
        (\<exists>data. store_inv E view data s \<and> length data = received_size st)
      else \<not> active s \<and> \<not> store_active st)"

text \<open>How a transfer may end: with an idle store, and successfully only with a verified image in
  the slot.\<close>

definition verified_end :: "'f image_env \<Rightarrow> (nat \<Rightarrow> 'f \<Rightarrow> mem) \<Rightarrow> rc \<Rightarrow> 'f store \<Rightarrow> bool" where
  "verified_end E view r s \<longleftrightarrow> \<not> active s \<and>
     (r = ok \<longrightarrow> (\<exists>data. image_ok E data \<and>
        (128 mod area_align E (slot_area_id E) = 0 \<longrightarrow>
           rd (view (slot_area_id E) (flash s)) 0 (length data) = data)))"

lemma finish_idle: "active s \<Longrightarrow> rtbus_image_store_finish E r s = (r', s') \<Longrightarrow> \<not> active s'"
  by (auto simp: rtbus_image_store_finish_def store_clear_def Let_def split: prod.splits if_splits)

lemma finish_idle_snd: "active s \<Longrightarrow> \<not> active (snd (rtbus_image_store_finish E r s))"
  by (rule finish_idle [of s E r]) (simp_all add: prod_eq_iff)

lemma finish_verified:
  assumes laws: "flash_laws E view" "crc_laws E" and inv: "store_inv E view data s"
    and F: "rtbus_image_store_finish E ok s = (r, s')"
  shows "verified_end E view r s'"
proof -
  have act: "active s" "written s = length data" using inv by (auto simp: store_inv_def)
  have "length data = expected_size s" if "r = ok"
    using F that act by (auto simp: rtbus_image_store_finish_def Let_def split: if_splits)
  then show ?thesis
    using finish_spec(1,2) [OF laws inv _ F] finish_idle [OF act(1) F] by (auto simp: verified_end_def)
qed

lemma abandon_idle: "recv_inv E view st s \<Longrightarrow> \<not> active (abandon E e st s)"
  using finish_idle_snd [of s E "Inl e"]
  by (auto simp: recv_inv_def abandon_def store_inv_def split: if_splits)

lemma block_inv:
  assumes laws: "flash_laws E view" "crc_laws E" and inv: "recv_inv E view st s" "got_metadata st"
    and B: "ymodem_block L E port n d st w s = Some res"
  shows "case res of Inl (r, w', s') \<Rightarrow> verified_end E view r s' | Inr (st', w', s') \<Rightarrow> recv_inv E view st' s'"
proof -
  obtain data where D: "store_inv E view data s" "length data = received_size st" "store_active st"
    "expected_size s = expected_file_size st"
    using inv by (auto simp: recv_inv_def)
  obtain rf sf where F: "rtbus_image_store_finish E ok s = (rf, sf)" by force
  define wl where "wl = (if psub (expected_file_size st) (received_size st) < length d
      then psub (expected_file_size st) (received_size st) else length d)"
  have wl: "wl \<le> length d" by (simp add: wl_def)
  obtain rw s1 where W: "rtbus_image_store_write E (length data) (Some (take wl d)) (length (take wl d)) s = Some (rw, s1)"
    "kept view (direct_store_area_id E) (s\<lparr>written := written s1\<rparr>) s1"
    "rw = ok \<longrightarrow> store_inv E view (data @ take wl d) s1"
    using store_write_spec [OF laws(1) D(1), of "take wl d"] by (elim exE conjE) (rule that)
  have W': "rtbus_image_store_write E (received_size st) (Some d) wl s = Some (rw, s1)"
    using store_write_pad [OF laws(1) D(1), of "length data" "take wl d" "drop wl d"] W(1) wl D(2) by simp
  have k: "active s1" "expected_size s1 = expected_size s"
    using W(2) D(1) by (auto simp: kept_def store_inv_def)
  consider "res = Inl (rf, ymodem_put L port (if rf = ok then YMODEM_ACK else YMODEM_CAN) w, sf)"
    | "res = Inr (st, ymodem_put L port YMODEM_NAK w, s)"
    | "rw \<noteq> ok" "res = Inl (rw, ymodem_put L port YMODEM_CAN w, snd (rtbus_image_store_finish E rw s1))"
    | w' where "rw = ok" "res = Inr (st\<lparr>received_size := received_size st + wl,
        expected_block := expected_block st + 1\<rparr>, w', s1)"
    using B F W' by (auto simp: ymodem_block_def Let_def wl_def [symmetric] split: if_splits)
  then show ?thesis
  proof cases
    case 1
    then show ?thesis using finish_verified [OF laws D(1) F] by simp
  next
    case 2
    then show ?thesis using inv(1) by simp
  next
    case 3
    then show ?thesis using finish_idle_snd [OF k(1), of E rw] by (auto simp: verified_end_def)
  next
    case 4
    then have "store_inv E view (data @ take wl d) s1" "length (data @ take wl d) = received_size st + wl"
      using W(3) D(2) wl by auto
    then show ?thesis using 4 inv(2) D(3,4) k(2) by (auto simp: recv_inv_def)
  qed
qed

lemma metadata_inv:
  assumes laws: "flash_laws E view" "0 < pending_max E" and inv: "recv_inv E view st s" "\<not> got_metadata st"
    and sz: "received_size st = 0" "ymodem_parse_file_size d < 4294967296"
  shows "case ymodem_metadata L E port n d st w s of Inl (r, w', s') \<Rightarrow> verified_end E view r s'
    | Inr (st', w', s') \<Rightarrow> recv_inv E view st' s'"
proof -
  have idle: "\<not> active s" using inv by (simp add: recv_inv_def)
  obtain r0 s0 where B: "rtbus_image_store_begin E (Some (ymodem_parse_file_size d)) s = (r0, s0)" by force
  note B' = begin_spec [OF laws sz(2) B]
  show ?thesis
    using inv B B'(1,3) idle sz(1)
    by (cases "r0 = ok") (auto simp: ymodem_metadata_def verified_end_def recv_inv_def Let_def)
qed

lemma strtoul10_bound: "strtoul10 s < 4294967296"
  by (auto simp: strtoul10_def Let_def psub_def)

lemma parse_bound: "ymodem_parse_file_size d < 4294967296"
  using strtoul10_bound by (auto simp: ymodem_parse_file_size_def Let_def)

definition round_inv :: "'f image_env \<Rightarrow> (nat \<Rightarrow> 'f \<Rightarrow> mem) \<Rightarrow> ymodem_state \<Rightarrow> 'f store \<Rightarrow> bool" where
  "round_inv E view st s \<longleftrightarrow> recv_inv E view st s \<and> (\<not> got_metadata st \<longrightarrow> received_size st = 0)"

definition round_ok :: "'f image_env \<Rightarrow> (nat \<Rightarrow> 'f \<Rightarrow> mem) \<Rightarrow> ('w, 'f) ymodem_round \<Rightarrow> bool" where
  "round_ok E view res \<longleftrightarrow>
     (case res of Inl (r, w, s) \<Rightarrow> verified_end E view r s | Inr (st, w, s) \<Rightarrow> round_inv E view st s)"

lemma round_ok_simps [simp]:
  "round_ok E view (Inl (r, w, s)) = verified_end E view r s"
  "round_ok E view (Inr (st, w, s)) = round_inv E view st s"
  by (simp_all add: round_ok_def)

lemma metadata_round_ok:
  assumes laws: "flash_laws E view" "0 < pending_max E" and inv: "round_inv E view st s" "\<not> got_metadata st"
  shows "round_ok E view (ymodem_metadata L E port n d st w s)"
  using metadata_inv [OF laws _ inv(2) _ parse_bound, of s L port n d w] inv
  by (auto simp: round_inv_def round_ok_def ymodem_metadata_def Let_def split: if_splits prod.splits)

lemma block_round_ok:
  assumes laws: "flash_laws E view" "crc_laws E" and inv: "round_inv E view st s" "got_metadata st"
    and B: "ymodem_block L E port n d st w s = Some res"
  shows "round_ok E view res"
proof -
  have "got_metadata st'" if "res = Inr (st', w2, s2)" for st' w2 s2
    using inv(2) B that by (auto simp: ymodem_block_def Let_def split: if_splits prod.splits bind_splits)
  then show ?thesis using block_inv [OF laws _ inv(2) B] inv(1)
    by (auto simp: round_inv_def round_ok_def split: sum.splits)
qed

lemma round_preserves:
  assumes laws: "flash_laws E view" "crc_laws E" "0 < pending_max E" and inv: "round_inv E view st s"
    and R: "ymodem_round L E port st w s = Some res"
  shows "round_ok E view res"
proof -
  have st: "round_inv E view (st\<lparr>eot_seen := True\<rparr>) s" using inv by (auto simp: round_inv_def recv_inv_def)
  have ab: "verified_end E view (Inl e) (abandon E e st s)" for e
    using abandon_idle [of E view st s e] inv by (auto simp: verified_end_def round_inv_def)
  obtain h w1 where H: "(if \<not> got_metadata st then ymodem_wait_header L port w
      else ymodem_read_byte L port YMODEM_BYTE_TIMEOUT_MS w) = Some (h, w1)"
    using R by (auto simp: ymodem_round_def split: bind_splits)
  show ?thesis
  proof (cases "h = Inr YMODEM_EOT \<or> h = Inr YMODEM_CAN \<or> (\<exists>e. h = Inl e)")
    case True
    then show ?thesis using R H inv st ab byte_codes
      by (auto simp: ymodem_round_def split: if_splits)
  next
    case False
    then obtain header where hd: "h = Inr header" "header \<noteq> YMODEM_EOT" "header \<noteq> YMODEM_CAN" by (cases h) auto
    then obtain pr w2 where P: "ymodem_read_packet L port header w1 = Some (pr, w2)"
      using R H by (auto simp: ymodem_round_def split: bind_splits)
    have run: "(case pr of Inl _ \<Rightarrow> Some (Inr (st, ymodem_put L port YMODEM_NAK w2, s))
         | Inr (n, d) \<Rightarrow> if \<not> got_metadata st then Some (ymodem_metadata L E port n d st w2 s)
             else ymodem_block L E port n d st w2 s) = Some res"
      using R H hd P by (simp add: ymodem_round_def)
    show ?thesis
    proof (cases pr)
      case (Inl e)
      then show ?thesis using run inv by auto
    next
      case (Inr nd)
      obtain n d where nd: "nd = (n, d)" by force
      show ?thesis
      proof (cases "got_metadata st")
        case True
        then have "ymodem_block L E port n d st w2 s = Some res" using run Inr nd by simp
        then show ?thesis by (rule block_round_ok [OF laws(1,2) inv True])
      next
        case False
        then have "res = ymodem_metadata L E port n d st w2 s" using run Inr nd by simp
        then show ?thesis using metadata_round_ok [OF laws(1,3) inv False] by simp
      qed
    qed
  qed
qed

lemma loop_verified:
  "ymodem_loop L E port st w s = Some y \<Longrightarrow> flash_laws E view \<Longrightarrow> crc_laws E \<Longrightarrow>
   0 < pending_max E \<Longrightarrow> round_inv E view st s \<Longrightarrow> verified_end E view (fst y) (snd (snd y))"
proof (induction L E port st w s y rule: ymodem_loop.raw_induct [rotated, consumes 1, case_names step])
  case (step f L E port st w s y)
  obtain res where R: "ymodem_round L E port st w s = Some res"
    "(case res of Inl d \<Rightarrow> Some d | Inr (st, w, s) \<Rightarrow> f L E port st w s) = Some y"
    using step(2) by (auto split: bind_splits)
  have ok: "round_ok E view res" by (rule round_preserves [OF step(3-6) R(1)])
  show ?case
  proof (cases res)
    case (Inl d)
    then show ?thesis using R(2) ok by (auto simp: round_ok_def)
  next
    case (Inr x)
    then obtain st' w' s' where x: "res = Inr (st', w', s')" by (cases x) auto
    then have "f L E port st' w' s' = Some y" "round_inv E view st' s'" using R(2) ok by auto
    then show ?thesis by (rule step(1) [OF _ step(3-5)])
  qed
qed

section \<open>Properties\<close>

text \<open>A line given by the bytes still to be read and the bytes written so far.\<close>

definition demo_line :: "(byte list \<times> byte list) line" where
  "demo_line = \<lparr>serial_begin = (\<lambda>_ _ w. (ok, w)), serial_flush_rx = (\<lambda>_ w. w),
     serial_read = (\<lambda>_ n (p, q). (take n p, (drop n p, q))),
     serial_write = (\<lambda>_ bs (p, q). (p, q @ bs)), uptime = (\<lambda>w. (0, w)), sleep_ms = (\<lambda>_ w. w)\<rparr>"

lemma demo_line_ideal: "ideal_line demo_line port (\<lambda>_. True) fst snd (\<lambda>_. 0)"
  by unfold_locales (auto simp: demo_line_def split: prod.splits)

lemma demo_line_flush: "serial_flush_rx demo_line port (snd (serial_begin demo_line port baud w)) = w"
  by (simp add: demo_line_def)

definition demo_file :: "byte list" where
  "demo_file = demo_header @ [5]"

definition demo_meta :: "byte list" where
  "demo_meta = [65, 0, 49, 50, 57] @ replicate 123 0"

lemma demo_meta_size: "length demo_meta = 128" "ymodem_parse_file_size demo_meta = 129"
  by (simp_all add: demo_meta_def ymodem_parse_file_size_def strtoul10_def is_blank_def is_digit10_def Let_def)

lemma demo_file_facts:
  "length demo_file = 129" "demo_file \<noteq> []" "image_ok demo_env (concat (blocks demo_file))"
  using demo_header_fields(1) demo_image_ok by (simp_all add: demo_file_def concat_blocks)

lemma demo_session: "\<exists>s'. image_session demo_env 129 (blocks demo_file) demo_store = Some (ok, s')"
  by (rule session_works [OF demo_env_laws demo_env_works demo_store_idle demo_file_facts(3)])
    (simp_all add: concat_blocks demo_file_facts demo_fields)

lemma demo_recv:
  "\<exists>w' s'. rtbus_ymodem_recv demo_line demo_env 0 (ymodem_stream demo_meta demo_file, []) demo_store = Some (ok, w', s')"
proof -
  obtain s' where "image_session demo_env (length demo_file) (blocks demo_file) demo_store = Some (ok, s')"
    using demo_session demo_file_facts(1) by auto
  from ideal_line.recv_session [OF demo_line_ideal [of 0] demo_env_laws(1) _ _ _ _ demo_meta_size(1) _ _ _ this,
      of "(ymodem_stream demo_meta demo_file, [])"]
  show ?thesis using demo_line_flush demo_meta_size(2) demo_file_facts by (auto simp: demo_env_def)
qed

text \<open>C8: whatever is received, success means a verified image.  On any line and clock, however the
  transfer goes, when the receiver returns the store is idle again; and if it reports success,
  the slot holds an image with a valid header and a matching CRC (with a slot alignment that
  divides the 128-byte copy buffer).\<close>

theorem recv_success_is_verified:
  assumes "flash_laws E view" "crc_laws E" "0 < pending_max E" "\<not> active s"
    and "rtbus_ymodem_recv L E port w s = Some (r, w', s')"
    and "128 mod area_align E (slot_area_id E) = 0"
  shows "\<not> active s' \<and> (r = ok \<longrightarrow>
    (\<exists>data. image_ok E data \<and> rd (view (slot_area_id E) (flash s')) 0 (length data) = data))"
proof -
  obtain ret w1 where B: "serial_begin L port 115200 w = (ret, w1)" by force
  show ?thesis
  proof (cases "ret = ok")
    case False
    then show ?thesis using B assms(4,5) by (auto simp: rtbus_ymodem_recv_def)
  next
    case True
    then have "ymodem_loop L E port ymodem_start (serial_flush_rx L port w1) s = Some (r, w', s')"
      using B assms(5) by (simp add: rtbus_ymodem_recv_def)
    moreover have "round_inv E view ymodem_start s"
      using assms(4) by (simp add: round_inv_def recv_inv_def ymodem_start_def)
    ultimately have "verified_end E view r s'"
      using loop_verified [of L E port ymodem_start "serial_flush_rx L port w1" s "(r, w', s')" view] assms(1-3) by simp
    then show ?thesis using assms(6) by (auto simp: verified_end_def)
  qed
qed

theorem recv_success_is_verified_witness:
  "\<exists>w' s' data. rtbus_ymodem_recv demo_line demo_env 0 (ymodem_stream demo_meta demo_file, []) demo_store =
     Some (ok, w', s') \<and> image_ok demo_env data \<and> rd (flash s' 1) 0 (length data) = data"
proof -
  obtain w' s' where R: "rtbus_ymodem_recv demo_line demo_env 0 (ymodem_stream demo_meta demo_file, []) demo_store =
      Some (ok, w', s')" using demo_recv by blast
  have c: "0 < pending_max demo_env" "128 mod area_align demo_env (slot_area_id demo_env) = 0"
    by (simp_all add: demo_env_def)
  from recv_success_is_verified [OF demo_env_laws c(1) demo_store_idle R c(2)] R show ?thesis
    by (auto simp: demo_fields demo_view_def)
qed

text \<open>A file sent without loss is stored as it was sent.  On a line that delivers the sender's
  stream, the receiver returns, drives the store exactly as one upload session over the file's
  1024-byte blocks (whose result it passes on), and when that succeeds it has read the whole
  stream and has answered it as the protocol asks; the slot then holds the file.\<close>

theorem transfer_stores_file:
  assumes "flash_laws E view" "crc_laws E" "0 < pending_max E" "\<not> active s"
    and "128 mod area_align E (slot_area_id E) = 0"
    and "ideal_line L port good pend sent clk" "good w" "0 \<le> clk w"
    and "pend (serial_flush_rx L port (snd (serial_begin L port 115200 w))) = ymodem_stream meta d"
    and "length meta = 128" "ymodem_parse_file_size meta = length d" "d \<noteq> []" "length d < 4294967296"
  shows "\<exists>r w' s'. rtbus_ymodem_recv L E port w s = Some (r, w', s') \<and>
    image_session E (length d) (blocks d) s = Some (r, s') \<and>
    (r = ok \<longrightarrow> pend w' = [] \<and> sent w' = sent w @ ymodem_replies d \<and>
       rd (view (slot_area_id E) (flash s')) 0 (length d) = d)"
proof -
  obtain r s' where S: "image_session E (length d) (blocks d) s = Some (r, s')"
    "r = ok \<longrightarrow> rd (view (slot_area_id E) (flash s')) 0 (length d) = d"
    using session_spec [OF assms(1-3,13,4), of "blocks d"] assms(5) by (auto simp: concat_blocks)
  from ideal_line.recv_session [OF assms(6,1,3,7,9,8,10-13) S(1)] S show ?thesis by blast
qed

theorem transfer_stores_file_witness:
  "\<exists>w' s'. rtbus_ymodem_recv demo_line demo_env 0 (ymodem_stream demo_meta demo_file, []) demo_store =
     Some (ok, w', s') \<and> w' = ([], ymodem_replies demo_file) \<and> rd (flash s' 1) 0 129 = demo_file"
proof -
  have c: "0 < pending_max demo_env" "128 mod area_align demo_env (slot_area_id demo_env) = 0"
    by (simp_all add: demo_env_def)
  have sz: "ymodem_parse_file_size demo_meta = length demo_file" "length demo_file < 4294967296"
    using demo_meta_size(2) demo_file_facts(1) by simp_all
  from transfer_stores_file [OF demo_env_laws c(1) demo_store_idle c(2) demo_line_ideal [of 0] _ _ _
      demo_meta_size(1) sz(1) demo_file_facts(2) sz(2), of "(ymodem_stream demo_meta demo_file, [])"]
  obtain r w' s' where
    "rtbus_ymodem_recv demo_line demo_env 0 (ymodem_stream demo_meta demo_file, []) demo_store = Some (r, w', s')"
    "r = ok \<longrightarrow> w' = ([], ymodem_replies demo_file) \<and> rd (flash s' 1) 0 129 = demo_file"
    by (auto simp: demo_line_flush demo_fields demo_view_def demo_file_facts(1) prod_eq_iff)
  then show ?thesis using demo_recv by auto
qed

text \<open>C15: a corrupted packet is never taken for a good one.  A packet of which any one byte after the
  start byte was changed fails the check, whatever its block number and contents.\<close>

theorem corrupted_packet_rejected:
  assumes "i < length data + 4" "b \<noteq> packet_body n data ! i"
  shows "check_packet (length data) (packet_body n data) = Inr (n, data) \<and>
    check_packet (length data) ((packet_body n data)[i := b]) = Inl EBADMSG"
  using check_packet_body check_packet_corrupted [OF assms] by simp

theorem corrupted_packet_rejected_witness:
  "check_packet 3 ((packet_body 1 [10, 20, 30])[3 := 21]) = Inl EBADMSG"
  using corrupted_packet_rejected [of 3 "[10, 20, 30]" 21 1]
  by (simp add: packet_body_def numeral_3_eq_3)

text \<open>A repeated block is refused for ever.  After a block was stored and its acknowledgement was
  lost, the sender repeats it; the receiver answers every copy with NAK and does not move on.\<close>

theorem repeated_block_refused:
  assumes "ideal_line L port good pend sent clk" "good w"
    and "length d = 1024" "n \<noteq> expected_block st" "got_metadata st" "\<not> eot_seen st"
    and "pend w = concat (replicate k (YMODEM_STX # packet_body n d)) @ rest"
  shows "\<exists>w'. ymodem_loop L E port st w s = ymodem_loop L E port st w' s \<and> good w' \<and> pend w' = rest \<and>
    sent w' = sent w @ replicate k YMODEM_NAK"
  using assms(2,7)
proof (induction k arbitrary: w)
  case 0
  then show ?case by auto
next
  case (Suc k)
  obtain w1 where w1: "ymodem_round L E port st w s = ymodem_block L E port n d st w1 s" "good w1"
    "pend w1 = concat (replicate k (YMODEM_STX # packet_body n d)) @ rest" "sent w1 = sent w"
    using ideal_line.packet_round [OF assms(1) Suc.prems(1), of YMODEM_STX n d _ st E s] assms(3,5) Suc.prems(2)
    by auto
  have R: "ymodem_round L E port st w s = Some (Inr (st, ymodem_put L port YMODEM_NAK w1, s))"
    using assms(4,6) w1(1) by (simp add: ymodem_block_def)
  note P = ideal_line.put_line [OF assms(1) w1(2), of YMODEM_NAK]
  from Suc.IH [OF P(1)] P w1 show ?case using loop_step(1) [OF R] by auto
qed

theorem repeated_block_refused_witness:
  "\<exists>w'. ymodem_loop demo_line demo_env 0 (transferring 4096 1024 2 False)
      (concat (replicate 3 (YMODEM_STX # packet_body 1 (replicate 1024 7))), []) demo_store =
    ymodem_loop demo_line demo_env 0 (transferring 4096 1024 2 False) w' demo_store \<and>
    w' = ([], replicate 3 YMODEM_NAK)"
  using repeated_block_refused [OF demo_line_ideal [of 0], of "replicate 1024 7" 1 "transferring 4096 1024 2 False"
      "(concat (replicate 3 (YMODEM_STX # packet_body 1 (replicate 1024 7))), [])" 3 "[]" demo_env demo_store]
  by auto

end
