(* ===== verification/Header_Format.thy ===== *)
theory Header_Format
  imports Image Stdio
begin

text \<open>
  The data part of the packaging tool \<open>system/header.c\<close>: the little-endian writers, the fixed
  strings, the CRC-32, the symbols of the linker map with their validation, and the 128-byte
  header.  C strings are lists of characters without their terminating zero; a path or a name of
  the command line is one.  \<open>uint32_t\<close> values are 32-bit words, as the header's differences of
  addresses wrap around.

  The lemmas show that the device's reader (theory \<open>Image\<close>) gets back what the tool wrote, that a
  packaged payload is an acceptable image, and that the CRC detects every change of one byte.
\<close>

section \<open>Writers\<close>

definition put_le16 :: "16 word \<Rightarrow> byte list" where
  "put_le16 v = [ucast v, ucast (drop_bit 8 v)]"

definition put_le32 :: "32 word \<Rightarrow> byte list" where
  "put_le32 v = [ucast v, ucast (drop_bit 8 v), ucast (drop_bit 16 v), ucast (drop_bit 24 v)]"

definition put_fixed_string :: "nat \<Rightarrow> string \<Rightarrow> byte list" where
  "put_fixed_string sz v =
     (let len = length v;
          len = (if sz \<le> len then sz - 1 else len)
      in take len (chars v) @ replicate (sz - len) 0)"

text \<open>Storing bytes at an offset of a buffer.\<close>

definition blit :: "byte list \<Rightarrow> nat \<times> byte list \<Rightarrow> byte list" where
  "blit buf = (\<lambda>(off, bs). take off buf @ bs @ drop (off + length bs) buf)"

section \<open>CRC\<close>

definition crc32_bit :: "32 word \<Rightarrow> 32 word" where
  "crc32_bit crc = (let mask = 0 - (crc AND 1) in drop_bit 1 crc XOR (0xedb88320 AND mask))"

definition crc32_byte :: "32 word \<Rightarrow> byte \<Rightarrow> 32 word" where
  "crc32_byte crc b = (crc32_bit ^^ 8) (crc XOR ucast b)"

definition crc32_update :: "32 word \<Rightarrow> byte list \<Rightarrow> 32 word" where
  "crc32_update crc data = NOT (foldl crc32_byte (NOT crc) data)"

section \<open>Symbols\<close>

record application_symbols =
  slot_start :: "32 word"
  flash_start :: "32 word"
  entry :: "32 word"
  data_load :: "32 word"
  data_start :: "32 word"
  data_end :: "32 word"
  bss_start :: "32 word"
  bss_end :: "32 word"
  ram_start :: "32 word"
  ram_end :: "32 word"

definition zero_symbols :: application_symbols where
  "zero_symbols = \<lparr>slot_start = 0, flash_start = 0, entry = 0, data_load = 0, data_start = 0,
     data_end = 0, bss_start = 0, bss_end = 0, ram_start = 0, ram_end = 0\<rparr>"

definition set_symbol :: "application_symbols \<Rightarrow> string \<Rightarrow> 32 word \<Rightarrow> application_symbols" where
  "set_symbol symbols name address =
     (if name = ''__module_slot_start'' then symbols\<lparr>slot_start := address\<rparr>
      else if name = ''__module_flash_start'' then symbols\<lparr>flash_start := address\<rparr>
      else if name = ''__module_entry'' then symbols\<lparr>entry := address\<rparr>
      else if name = ''__module_data_load'' then symbols\<lparr>data_load := address\<rparr>
      else if name = ''__module_data_start'' then symbols\<lparr>data_start := address\<rparr>
      else if name = ''__module_data_end'' then symbols\<lparr>data_end := address\<rparr>
      else if name = ''__module_bss_start'' then symbols\<lparr>bss_start := address\<rparr>
      else if name = ''__module_bss_end'' then symbols\<lparr>bss_end := address\<rparr>
      else if name = ''__module_ram_start'' then symbols\<lparr>ram_start := address\<rparr>
      else if name = ''__module_ram_end'' then symbols\<lparr>ram_end := address\<rparr>
      else symbols)"

text \<open>The result is the RAM size, or \<open>None\<close> for \<open>-1\<close>.\<close>

definition validate_symbols :: "application_symbols \<Rightarrow> 32 word option" where
  "validate_symbols symbols =
     (if slot_start symbols = 0 \<or> flash_start symbols = 0 \<or> entry symbols = 0 \<or>
         data_load symbols = 0 \<or> data_start symbols = 0 \<or> data_end symbols = 0 \<or>
         bss_start symbols = 0 \<or> bss_end symbols = 0 \<or> ram_start symbols = 0 \<or>
         ram_end symbols = 0 then None
      else if ram_end symbols \<le> ram_start symbols then None
      else
        let ram_size = ram_end symbols - ram_start symbols
        in if data_start symbols < ram_start symbols \<or> ram_end symbols < data_end symbols \<or>
              bss_start symbols < ram_start symbols \<or> ram_end symbols < bss_end symbols then None
           else Some ram_size)"

section \<open>Header\<close>

definition COMPONENT_MAGIC :: "32 word" where "COMPONENT_MAGIC = 0x5746434d"
definition HEADER_VERSION :: "16 word" where "HEADER_VERSION = 2"
definition HEADER_SIZE :: nat where [layout_defs]: "HEADER_SIZE = 128"
definition RTBUS_API_VERSION :: "32 word" where "RTBUS_API_VERSION = 12"

definition FLAGS_MAKE_NATIVE_ABI :: "32 word \<Rightarrow> 32 word" where
  "FLAGS_MAKE_NATIVE_ABI v = 0x00000001 OR (push_bit 24 v AND 0xff000000)"

definition build_header ::
    "application_symbols \<Rightarrow> string \<Rightarrow> string \<Rightarrow> 32 word \<Rightarrow> 32 word \<Rightarrow> 32 word \<Rightarrow> byte list" where
  "build_header symbols name version ram_size payload_size payload_crc =
     foldl blit (replicate HEADER_SIZE 0)
       [(0, put_le32 COMPONENT_MAGIC), (4, put_le16 HEADER_VERSION), (6, put_le16 (of_nat HEADER_SIZE)),
        (8, put_le32 payload_size), (12, put_le32 payload_crc),
        (16, put_fixed_string 16 version), (32, put_fixed_string 64 name),
        (96, put_le32 ram_size), (100, put_le32 (FLAGS_MAKE_NATIVE_ABI RTBUS_API_VERSION)),
        (104 + 0, put_le32 (entry symbols - flash_start symbols)),
        (104 + 4, put_le32 (data_load symbols - flash_start symbols)),
        (104 + 8, put_le32 (data_start symbols - ram_start symbols)),
        (104 + 12, put_le32 (data_end symbols - data_start symbols)),
        (104 + 16, put_le32 (bss_start symbols - ram_start symbols)),
        (104 + 20, put_le32 (bss_end symbols - bss_start symbols))]"

section \<open>What the device reads back\<close>

lemma ucast_drop_bit: "(ucast (drop_bit n v) :: byte) = of_nat (unat (v :: 'a::len word) div 2 ^ n)"
proof -
  have "(ucast (drop_bit n v) :: byte) = of_nat (unat (drop_bit n v))"
    by (simp only: of_nat_unat)
  also have "unat (drop_bit n v) = unat v div 2 ^ n"
    by (simp only: unat_drop_bit_eq) (simp only: drop_bit_eq_div)
  finally show ?thesis .
qed

lemma put_le32_le32: "put_le32 v = le32 (unat v)"
  using ucast_drop_bit [of 0 v] ucast_drop_bit [of 8 v] ucast_drop_bit [of 16 v] ucast_drop_bit [of 24 v]
  by (simp only: put_le32_def le32_def) simp

lemma put_le16_le16: "put_le16 v = le16 (unat v)"
  using ucast_drop_bit [of 0 v] ucast_drop_bit [of 8 v]
  by (simp only: put_le16_def le16_def) simp

lemma length_put_fixed_string [simp]: "0 < sz \<Longrightarrow> length (put_fixed_string sz v) = sz"
  by (auto simp: put_fixed_string_def Let_def)

lemma put_fixed_string_take:
  "put_fixed_string (Suc n) v = chars (take n v) @ replicate (Suc n - min n (length v)) 0"
  by (cases "length v \<le> n") (auto simp: put_fixed_string_def chars_def take_map min_def Suc_diff_le)

fun consecutive :: "nat \<Rightarrow> (nat \<times> byte list) list \<Rightarrow> bool" where
  "consecutive off [] = True"
| "consecutive off ((k, bs) # l) = (k = off \<and> consecutive (off + length bs) l)"

lemma foldl_blit:
  "consecutive (length p) l \<Longrightarrow> n = length (concat (map snd l)) + k \<Longrightarrow>
   foldl blit (p @ replicate n 0) l = p @ concat (map snd l) @ replicate k 0"
proof (induction l arbitrary: p n)
  case Nil
  then show ?case by simp
next
  case (Cons x l)
  obtain off bs where x: "x = (off, bs)" by force
  have "blit (p @ replicate n 0) (off, bs) = (p @ bs) @ replicate (length (concat (map snd l)) + k) 0"
    using Cons.prems x by (simp add: blit_def)
  then show ?case using Cons.IH [of "p @ bs" "length (concat (map snd l)) + k"] Cons.prems x by simp
qed

lemma build_header_bytes:
  "build_header symbols name version ram_size payload_size payload_crc =
     header_bytes IMAGE_MAGIC IMAGE_HEADER_VERSION IMAGE_HEADER_SIZE (unat payload_size)
       (unat payload_crc) (put_fixed_string 16 version) (put_fixed_string 64 name) (unat ram_size)
       (unat (FLAGS_MAKE_NATIVE_ABI RTBUS_API_VERSION))
       (le32 (unat (entry symbols - flash_start symbols)) @
        le32 (unat (data_load symbols - flash_start symbols)) @
        le32 (unat (data_start symbols - ram_start symbols)) @
        le32 (unat (data_end symbols - data_start symbols)) @
        le32 (unat (bss_start symbols - ram_start symbols)) @
        le32 (unat (bss_end symbols - bss_start symbols)))"
  unfolding build_header_def
  by (subst foldl_blit [where p = "[]" and k = 0, simplified])
    (simp_all add: put_le32_le32 put_le16_le16 HEADER_SIZE_def header_bytes_def
      COMPONENT_MAGIC_def HEADER_VERSION_def layout_defs)

lemma unat_lt32 [simp]: "unat (w :: 32 word) < 4294967296"
  using unsigned_less [of w] by simp

lemma native_flags: "FLAGS_MAKE_NATIVE_ABI RTBUS_API_VERSION = 201326593"
  by (simp add: FLAGS_MAKE_NATIVE_ABI_def RTBUS_API_VERSION_def)

lemma length_build_header [simp]: "length (build_header sy name version ram psz crc) = 128"
  unfolding build_header_bytes by (rule header_of_header_bytes) (simp_all add: layout_defs native_flags)

definition reserved_bytes :: "application_symbols \<Rightarrow> byte list" where
  "reserved_bytes sy =
     le32 (unat (entry sy - flash_start sy)) @ le32 (unat (data_load sy - flash_start sy)) @
     le32 (unat (data_start sy - ram_start sy)) @ le32 (unat (data_end sy - data_start sy)) @
     le32 (unat (bss_start sy - ram_start sy)) @ le32 (unat (bss_end sy - bss_start sy))"

lemma header_of_build_header:
  "header_of_bytes (build_header sy name version ram psz crc) =
     \<lparr>h_magic = IMAGE_MAGIC, h_header_version = IMAGE_HEADER_VERSION,
      h_header_size = IMAGE_HEADER_SIZE, h_payload_size = unat psz, h_payload_crc32 = unat crc,
      h_version = put_fixed_string 16 version, h_name = put_fixed_string 64 name,
      h_required_ram_size = unat ram, h_flags = 201326593, h_reserved = reserved_bytes sy\<rparr>"
  unfolding build_header_bytes reserved_bytes_def
  by (subst header_of_header_bytes) (simp_all add: layout_defs native_flags)

lemma metadata_of_reserved:
  "metadata_of_bytes (reserved_bytes sy) =
     \<lparr>entry_offset = unat (entry sy - flash_start sy),
      data_load_offset = unat (data_load sy - flash_start sy),
      data_ram_offset = unat (data_start sy - ram_start sy),
      data_size = unat (data_end sy - data_start sy),
      bss_ram_offset = unat (bss_start sy - ram_start sy),
      bss_size = unat (bss_end sy - bss_start sy)\<rparr>"
  by (simp add: metadata_of_bytes_def reserved_bytes_def slice_0 slice_skip un_le32)
     (simp add: slice_def un_le32)

section \<open>The CRC detects changes\<close>

lemma crc32_bit_alt:
  "crc32_bit c = (if bit c 0 then drop_bit 1 c XOR 0xedb88320 else drop_bit 1 c)"
proof -
  have "c AND 1 = (if bit c 0 then 1 else 0)"
    by (rule bit_eqI) (auto simp: bit_simps intro!: gr0I)
  then show ?thesis by (simp add: crc32_bit_def Let_def)
qed

lemma crc32_bit_inj: "crc32_bit c = crc32_bit c' \<Longrightarrow> c = c'"
proof -
  assume eq: "crc32_bit c = crc32_bit c'"
  have top: "bit (crc32_bit c) 31 \<longleftrightarrow> bit c 0" for c
    using bit_imp_le_length [of c 32] by (auto simp: crc32_bit_alt bit_simps)
  have b0: "bit c 0 \<longleftrightarrow> bit c' 0" using eq top [of c] top [of c'] by simp
  then have "drop_bit 1 c = drop_bit 1 c'"
    using eq by (auto simp: crc32_bit_alt xor_cancel_right split: if_splits)
  then have "bit c (Suc n) \<longleftrightarrow> bit c' (Suc n)" for n
    by (metis add.commute bit_drop_bit_eq comp_apply plus_1_eq_Suc)
  then show ?thesis using b0 by (intro bit_eqI) (metis not0_implies_Suc)
qed

lemma crc32_bits_inj: "(crc32_bit ^^ n) c = (crc32_bit ^^ n) c' \<Longrightarrow> c = c'"
  by (induction n) (auto dest: crc32_bit_inj)

lemma crc32_byte_inj: "crc32_byte c b = crc32_byte c' b \<Longrightarrow> c = c'"
  unfolding crc32_byte_def using crc32_bits_inj xor_cancel_right by blast

lemma crc32_byte_inj2: "crc32_byte c b = crc32_byte c b' \<Longrightarrow> b = b'"
proof -
  assume "crc32_byte c b = crc32_byte c b'"
  then have "c XOR ucast b = c XOR ucast b'" unfolding crc32_byte_def by (rule crc32_bits_inj)
  then have "(ucast b :: 32 word) = ucast b'" by (metis xor.commute xor_cancel_right)
  then have "unat (ucast b :: 32 word) = unat (ucast b' :: 32 word)" by simp
  moreover have "take_bit 32 (unat x) = unat x" for x :: byte
  proof (rule take_bit_nat_eq_self)
    have "unat x < 2 ^ LENGTH(8)" by (rule unsigned_less)
    then show "unat x < 2 ^ 32" by simp
  qed
  ultimately have "unat b = unat b'" by (simp add: unsigned_ucast_eq)
  then show ?thesis by (rule unsigned_word_eqI)
qed

lemma crc32_foldl_inj: "foldl crc32_byte c xs = foldl crc32_byte c' xs \<Longrightarrow> c = c'"
  by (induction xs rule: rev_induct) (auto dest: crc32_byte_inj)

lemma crc32_update_append: "crc32_update c (xs @ ys) = crc32_update (crc32_update c xs) ys"
  by (simp add: crc32_update_def)

lemma crc32_update_one_byte:
  assumes "b \<noteq> b'"
  shows "crc32_update c (xs @ b # ys) \<noteq> crc32_update c (xs @ b' # ys)"
proof
  assume "crc32_update c (xs @ b # ys) = crc32_update c (xs @ b' # ys)"
  then have "NOT (NOT (foldl crc32_byte (NOT c) (xs @ b # ys))) =
      NOT (NOT (foldl crc32_byte (NOT c) (xs @ b' # ys)))"
    unfolding crc32_update_def by (rule arg_cong)
  then have "foldl crc32_byte (crc32_byte (foldl crc32_byte (NOT c) xs) b) ys =
      foldl crc32_byte (crc32_byte (foldl crc32_byte (NOT c) xs) b') ys" by simp
  then show False using crc32_foldl_inj crc32_byte_inj2 assms by metis
qed

text \<open>The check value of the CRC-32: the CRC of "123456789".\<close>

lemma crc32_byte_steps:
  "crc32_byte c b = crc32_bit (crc32_bit (crc32_bit (crc32_bit
     (crc32_bit (crc32_bit (crc32_bit (crc32_bit (c XOR ucast b))))))))"
  by (simp add: crc32_byte_def eval_nat_numeral(2,3))

lemma crc32_check: "crc32_update 0 (chars ''123456789'') = 0xcbf43926"
  by (simp add: crc32_update_def crc32_byte_steps crc32_bit_def chars_def of_char_def)

text \<open>The device computes the same CRC (\<open>crc32_ieee_update\<close> of the parameter record).\<close>

definition crc_matches :: "'f image_env \<Rightarrow> bool" where
  "crc_matches E \<longleftrightarrow> (\<forall>xs. crc32_ieee_update E 0 xs = unat (crc32_update 0 xs))"

definition package :: "application_symbols \<Rightarrow> string \<Rightarrow> string \<Rightarrow> 32 word \<Rightarrow> byte list \<Rightarrow> byte list" where
  "package sy name version ram payload =
     build_header sy name version ram (of_nat (length payload)) (crc32_update 0 payload) @ payload"

lemma image_ok_package:
  assumes "crc_matches E" "0 < length payload" "length payload < 4294967296"
    and "length payload' = length payload"
  shows "image_ok E (build_header sy name version ram (of_nat (length payload)) (crc32_update 0 payload) @ payload') \<longleftrightarrow>
    unat ram \<le> image_ram_max E \<and> crc32_update 0 payload' = crc32_update 0 payload"
  using assms
  by (simp add: image_ok_def header_of_build_header bad_header_def crc_matches_def Let_def
      slice_def unat_of_nat) (metis unsigned_word_eqI)

section \<open>Properties\<close>

definition demo_symbols :: application_symbols where
  "demo_symbols = \<lparr>slot_start = 0x80000, flash_start = 0x80080, entry = 0x80101,
     data_load = 0x80200, data_start = 0x20001000, data_end = 0x20001010, bss_start = 0x20001010,
     bss_end = 0x20001100, ram_start = 0x20001000, ram_end = 0x20002000\<rparr>"

lemma demo_symbols_valid: "validate_symbols demo_symbols = Some 0x1000"
  by (simp add: validate_symbols_def demo_symbols_def Let_def)

text \<open>The demo flash of theory \<open>Image\<close> with the real CRC.\<close>

definition tool_env :: "demo_flash image_env" where
  "tool_env = demo_env\<lparr>crc32_ieee_update := (\<lambda>c bs. unat (crc32_update (of_nat c) bs))\<rparr>"

lemma tool_env_laws: "flash_laws tool_env demo_view" "crc_laws tool_env" "crc_matches tool_env"
proof -
  show "flash_laws tool_env demo_view"
    using demo_env_laws(1) by (simp add: flash_laws_def tool_env_def)
  show "crc_laws tool_env"
    by (simp add: crc_laws_def tool_env_def crc32_update_append) (simp add: crc32_update_def)
  show "crc_matches tool_env" by (simp add: crc_matches_def tool_env_def)
qed

text \<open>A packaged application is an acceptable image.  With symbols that pass the validation, a
  non-empty payload below 4 GiB and a RAM demand within the device's limit, the header written by
  the tool followed by the payload passes every check of the device.\<close>

theorem packaged_image_accepted:
  assumes "crc_matches E" "validate_symbols sy = Some ram" "unat ram \<le> image_ram_max E"
    and "0 < length payload" "length payload < 4294967296"
  shows "image_ok E (package sy name version ram payload)"
  using image_ok_package [OF assms(1,4,5) refl] assms(3) by (simp add: package_def)

theorem packaged_image_accepted_witness:
  "image_ok tool_env (package demo_symbols ''app'' ''1.0+1'' 0x1000 [1, 2, 3])"
  by (rule packaged_image_accepted [OF tool_env_laws(3) demo_symbols_valid])
    (simp_all add: tool_env_def demo_env_def)

text \<open>The device rejects a packaged image in which any one byte of the payload was changed.\<close>

theorem corrupted_payload_rejected:
  assumes "crc_matches E" "0 < length payload" "length payload < 4294967296"
    and "i < length payload" "b \<noteq> payload ! i"
  shows "\<not> image_ok E ((package sy name version ram payload)[128 + i := b])"
proof -
  have "(package sy name version ram payload)[128 + i := b] =
      build_header sy name version ram (of_nat (length payload)) (crc32_update 0 payload) @ payload[i := b]"
    by (simp add: package_def list_update_append)
  moreover have "crc32_update 0 (payload[i := b]) \<noteq> crc32_update 0 payload"
    using crc32_update_one_byte [OF assms(5), of 0 "take i payload" "drop (Suc i) payload"] assms(4)
    by (simp add: upd_conv_take_nth_drop id_take_nth_drop [symmetric])
  ultimately show ?thesis using image_ok_package [OF assms(1-3), of "payload[i := b]"] by simp
qed

theorem corrupted_payload_rejected_witness:
  "\<not> image_ok tool_env ((package demo_symbols ''app'' ''1.0+1'' 0x1000 [1, 2, 3])[129 := 0])"
  using corrupted_payload_rejected [OF tool_env_laws(3), of "[1, 2, 3]" 1 0] by simp

text \<open>The header reads back as it was built.  The device finds the magic, version and sizes, the
  payload's size and CRC, the version cut to 15 and the name cut to 63 characters, the RAM
  demand, the native flag with the ABI version, and the metadata as differences of symbols.\<close>

theorem build_header_reads_back:
  "let h = header_of_bytes (build_header sy name version ram psz crc); m = metadata_of_bytes (h_reserved h) in
     h_magic h = IMAGE_MAGIC \<and> h_header_version h = IMAGE_HEADER_VERSION \<and>
     h_header_size h = IMAGE_HEADER_SIZE \<and> h_payload_size h = unat psz \<and> h_payload_crc32 h = unat crc \<and>
     h_version h = chars (take 15 version) @ replicate (16 - min 15 (length version)) 0 \<and>
     h_name h = chars (take 63 name) @ replicate (64 - min 63 (length name)) 0 \<and>
     h_required_ram_size h = unat ram \<and> h_flags h = IMAGE_FLAG_NATIVE + 12 * 2 ^ 24 \<and>
     entry_offset m = unat (entry sy - flash_start sy) \<and>
     data_load_offset m = unat (data_load sy - flash_start sy) \<and>
     data_ram_offset m = unat (data_start sy - ram_start sy) \<and>
     data_size m = unat (data_end sy - data_start sy) \<and>
     bss_ram_offset m = unat (bss_start sy - ram_start sy) \<and>
     bss_size m = unat (bss_end sy - bss_start sy)"
  using put_fixed_string_take [of 15 version] put_fixed_string_take [of 63 name]
  by (simp add: header_of_build_header metadata_of_reserved Let_def IMAGE_FLAG_NATIVE_def)

text \<open>With section symbols in order, validated sections lie in the RAM that the header asks
  for: the data and the bss section each end within the required RAM size.\<close>

theorem validated_sections_fit:
  assumes "validate_symbols sy = Some ram" "data_start sy \<le> data_end sy" "bss_start sy \<le> bss_end sy"
    and "m = metadata_of_bytes (h_reserved (header_of_bytes (build_header sy name version ram psz crc)))"
  shows "0 < unat ram \<and> data_ram_offset m + data_size m \<le> unat ram \<and>
    bss_ram_offset m + bss_size m \<le> unat ram"
proof -
  have v: "ram_start sy < ram_end sy" "ram = ram_end sy - ram_start sy" "ram_start sy \<le> data_start sy"
      "data_end sy \<le> ram_end sy" "ram_start sy \<le> bss_start sy" "bss_end sy \<le> ram_end sy"
    using assms(1) by (auto simp: validate_symbols_def Let_def not_less not_le split: if_splits)
  then show ?thesis using assms(2,3)
    by (auto simp: assms(4) header_of_build_header metadata_of_reserved unat_sub word_le_nat_alt
        word_less_nat_alt intro: diff_le_mono)
qed

theorem validated_sections_fit_witness:
  "let m = metadata_of_bytes (h_reserved (header_of_bytes (build_header demo_symbols ''a'' ''b'' 0x1000 3 0)))
   in data_ram_offset m + data_size m \<le> 0x1000"
  using validated_sections_fit [OF demo_symbols_valid _ _ refl, of "''a''" "''b''" 3 0]
  by (simp add: demo_symbols_def Let_def)

text \<open>The validation does not look at the order of a section's symbols.  Symbols whose data section
  ends before it starts pass, and the header then asks for almost 4 GiB of data.\<close>

theorem inverted_section_passes:
  "let sy = demo_symbols\<lparr>data_end := data_start demo_symbols - 1\<rparr> in
   validate_symbols sy = Some 0x1000 \<and>
   data_size (metadata_of_bytes (h_reserved (header_of_bytes
     (build_header sy name version 0x1000 psz crc)))) = 4294967295"
  using unsigned_minus_1_eq_mask [where 'b = 32 and 'a = nat, simplified mask_eq_exp_minus_1]
  by (simp add: validate_symbols_def demo_symbols_def header_of_build_header metadata_of_reserved Let_def)

end
