(* ===== verification/Ihex.thy ===== *)
theory Ihex
  imports Header_Format
begin

text \<open>
  The Intel-HEX writer of \<open>system/header.c\<close> (\<open>write_ihex_record\<close>, \<open>write_component_ihex\<close>)
  with every write that can fail, and a reader as its specification: \<open>parse_record\<close> reads one
  line and checks its length and check sum, \<open>ihex_load\<close> executes the records as the format
  prescribes (type 4 sets the upper address, type 0 stores, type 1 ends).
\<close>

section \<open>Writer\<close>

definition IHEX_RECORD_DATA :: byte where [layout_defs]: "IHEX_RECORD_DATA = 0"
definition IHEX_RECORD_EOF :: byte where [layout_defs]: "IHEX_RECORD_EOF = 1"
definition IHEX_RECORD_EXT_LINEAR_ADDR :: byte where [layout_defs]: "IHEX_RECORD_EXT_LINEAR_ADDR = 4"
definition IHEX_ROW_SIZE :: nat where [layout_defs]: "IHEX_ROW_SIZE = 16"

text \<open>\<open>%02X\<close> of a byte.\<close>

definition hex2 :: "byte \<Rightarrow> string" where
  "hex2 b = hex_fixed True 2 (unat b)"

fun ihex_data_loop :: "string \<Rightarrow> byte list \<Rightarrow> byte \<Rightarrow> host \<Rightarrow> (byte option) \<times> host" where
  "ihex_data_loop path [] cksum h = (Some cksum, h)"
| "ihex_data_loop path (b # bs) cksum h =
     (let cksum = cksum + b;
          (w, h) = fwrite path (chars (hex2 b)) h
      in if \<not> w then (None, h) else ihex_data_loop path bs cksum h)"

definition write_ihex_record ::
    "string \<Rightarrow> byte \<Rightarrow> 16 word \<Rightarrow> byte list \<Rightarrow> host \<Rightarrow> bool \<times> host" where
  "write_ihex_record path type address bs h =
     (let len = of_nat (length bs) :: byte;
          cksum = len + ucast (drop_bit 8 address) + ucast address + type;
          (w, h) = fwrite path
            (chars (CHR '':'' # hex2 len @ hex_fixed True 4 (unat address) @ hex2 type)) h
      in if \<not> w then (False, h)
      else case ihex_data_loop path bs cksum h of
        (None, h) \<Rightarrow> (False, h)
      | (Some cksum, h) \<Rightarrow> fwrite path (chars (hex2 (0 - cksum) @ [CHR 0x0A])) h)"

text \<open>One byte of header and payload at an offset of the image.\<close>

definition source_byte :: "byte list \<Rightarrow> byte list \<Rightarrow> nat \<Rightarrow> byte" where
  "source_byte header payload source_offset =
     (if source_offset < HEADER_SIZE then header ! source_offset
      else payload ! (source_offset - HEADER_SIZE))"

function ihex_loop ::
    "string \<Rightarrow> byte list \<Rightarrow> byte list \<Rightarrow> nat \<Rightarrow> 32 word \<Rightarrow> 32 word \<Rightarrow> nat \<Rightarrow> host \<Rightarrow> bool \<times> host"
  where
  "ihex_loop path header payload total_size address current_upper off h =
     (if off < total_size then
        let row_len = total_size - off;
            upper = drop_bit 16 address;
            row_len = (if IHEX_ROW_SIZE < row_len then IHEX_ROW_SIZE else row_len);
            row = map (\<lambda>i. source_byte header payload (off + i)) [0..<row_len];
            (w, current_upper, h) =
              (if upper \<noteq> current_upper then
                 let (w, h) = write_ihex_record path IHEX_RECORD_EXT_LINEAR_ADDR 0
                       [ucast (drop_bit 8 upper), ucast upper] h
                 in (w, upper, h)
               else (True, current_upper, h))
        in if \<not> w then (False, h)
        else
          let (w, h) = write_ihex_record path IHEX_RECORD_DATA (ucast address) row h
          in if \<not> w then (False, h)
          else ihex_loop path header payload total_size (address + of_nat row_len) current_upper
                 (off + row_len) h
      else (True, h))"
  by auto
termination
  by (relation "measure (\<lambda>(path, header, payload, total_size, address, cu, off, h). total_size - off)")
    (auto simp: layout_defs)

declare ihex_loop.simps [simp del]

definition write_component_ihex ::
    "string \<Rightarrow> 32 word \<Rightarrow> byte list \<Rightarrow> byte list \<Rightarrow> host \<Rightarrow> bool \<times> host" where
  "write_component_ihex path base_addr header payload h =
     (case fopen_w path h of
        None \<Rightarrow> (False, h)
      | Some h \<Rightarrow>
          let (w, h) = ihex_loop path header payload (HEADER_SIZE + length payload) base_addr
                (- 1) 0 h
          in if \<not> w then (False, h) else write_ihex_record path IHEX_RECORD_EOF 0 [] h)"

section \<open>Reader\<close>

type_synonym ihex_record = "byte \<times> 16 word \<times> byte list"

fun hex_pairs :: "string \<Rightarrow> byte list option" where
  "hex_pairs [] = Some []"
| "hex_pairs [c] = None"
| "hex_pairs (c # d # cs) =
     (case (hex_value c, hex_value d, hex_pairs cs) of
        (Some x, Some y, Some bs) \<Rightarrow> Some (of_nat (16 * x + y) # bs)
      | _ \<Rightarrow> None)"

text \<open>A line without its end: the byte count must be right and all bytes must sum to zero.\<close>

fun check_record :: "byte list \<Rightarrow> ihex_record option" where
  "check_record (len # ah # al # t # rest) =
     (if length rest = unat len + 1 \<and> sum_list (len # ah # al # t # rest) = 0
      then Some (t, push_bit 8 (ucast ah) OR ucast al, butlast rest) else None)"
| "check_record _ = None"

fun parse_record :: "string \<Rightarrow> ihex_record option" where
  "parse_record (c # cs) = (if c = CHR '':'' then Option.bind (hex_pairs cs) check_record else None)"
| "parse_record [] = None"

fun ihex_load :: "nat \<Rightarrow> ihex_record list \<Rightarrow> (nat \<Rightarrow> byte option) \<Rightarrow> (nat \<Rightarrow> byte option) option" where
  "ihex_load upper [] m = None"
| "ihex_load upper ((t, a, bs) # rs) m =
     (if t = 0 then
        ihex_load upper rs
          (\<lambda>x. let k = upper * 65536 + unat a
               in if k \<le> x \<and> x < k + length bs then Some (bs ! (x - k)) else m x)
      else if t = 4 \<and> length bs = 2 then ihex_load (256 * unat (bs ! 0) + unat (bs ! 1)) rs m
      else if t = 1 then Some m else None)"

text \<open>The lines of a text, each ended by a newline.\<close>

fun text_lines :: "string \<Rightarrow> string \<Rightarrow> string list" where
  "text_lines line [] = []"
| "text_lines line (c # cs) =
     (if c = CHR 0x0A then rev line # text_lines [] cs else text_lines (c # line) cs)"

definition ihex_read :: "byte list \<Rightarrow> (nat \<Rightarrow> byte option) option" where
  "ihex_read file =
     Option.bind (those (map parse_record (text_lines [] (bytes_text file))))
       (\<lambda>rs. ihex_load 0 rs (\<lambda>_. None))"

section \<open>One record\<close>

definition record_bytes :: "ihex_record \<Rightarrow> byte list" where
  "record_bytes = (\<lambda>(t, a, bs).
     let body = of_nat (length bs) # ucast (drop_bit 8 a) # ucast a # t # bs
     in body @ [0 - sum_list body])"

definition record_line :: "ihex_record \<Rightarrow> string" where
  "record_line r = CHR '':'' # concat (map hex2 (record_bytes r))"

definition records_text :: "ihex_record list \<Rightarrow> string" where
  "records_text rs = concat (map (\<lambda>r. record_line r @ [CHR 0x0A]) rs)"

lemma unat_lt8 [simp]: "unat (b :: byte) < 256"
proof -
  have "unat b < 2 ^ LENGTH(8)" by (rule unsigned_less)
  then show ?thesis by simp
qed

lemma unat_lt16 [simp]: "unat (b :: 16 word) < 65536"
proof -
  have "unat b < 2 ^ LENGTH(16)" by (rule unsigned_less)
  then show ?thesis by simp
qed

lemma hex_fixed_2: "hex_fixed u 2 v = [hex_digit u (v div 16 mod 16), hex_digit u (v mod 16)]"
  by (simp add: numeral_2_eq_2)

lemma hex_fixed_4:
  "hex_fixed u 4 v = [hex_digit u (v div 16 div 16 div 16 mod 16),
     hex_digit u (v div 16 div 16 mod 16), hex_digit u (v div 16 mod 16), hex_digit u (v mod 16)]"
proof -
  have "(4 :: nat) = Suc (Suc 2)" by simp
  then show ?thesis by (simp only: hex_fixed.simps hex_fixed_2) simp
qed

lemma hex2_digits: "hex2 b = [hex_digit True (unat b div 16 mod 16), hex_digit True (unat b mod 16)]"
  by (simp add: hex2_def hex_fixed_2)

lemma unat_high_low:
  "unat (ucast (drop_bit 8 a) :: byte) = unat (a :: 16 word) div 256"
  "unat (ucast a :: byte) = unat a mod 256" "unat (drop_bit 8 a) = unat a div 256"
proof -
  show "unat (drop_bit 8 a) = unat a div 256"
    by (simp only: unat_drop_bit_eq) (simp add: drop_bit_eq_div)
  then show "unat (ucast (drop_bit 8 a) :: byte) = unat a div 256"
    using less_mult_imp_div_less [of "unat a" 256 256]
    by (simp only: unsigned_ucast_eq take_bit_eq_mod) simp
  show "unat (ucast a :: byte) = unat a mod 256"
    by (simp only: unsigned_ucast_eq take_bit_eq_mod) simp
qed

lemma hex4_hex2:
  "hex_fixed True 4 (unat a) = hex2 (ucast (drop_bit 8 (a :: 16 word))) @ hex2 (ucast a)"
proof -
  have "v div 256 div 16 mod 16 = v div 16 div 16 div 16 mod 16"
    "v div 256 mod 16 = v div 16 div 16 mod 16"
    "v mod 256 div 16 mod 16 = v div 16 mod 16" "v mod 256 mod 16 = v mod 16" for v :: nat
    using mod_mult2_eq [of v 16 16] by (simp_all add: div_mult2_eq [symmetric] mod_mod_cancel)
  then show ?thesis by (simp add: hex2_digits hex_fixed_4 unat_high_low)
qed

lemma hex_pairs_hex2: "hex_pairs (hex2 b @ cs) = map_option ((#) b) (hex_pairs cs)"
proof -
  have "16 * (unat b div 16 mod 16) + unat b mod 16 = unat b"
    using less_mult_imp_div_less [of "unat b" 16 16] by simp
  then show ?thesis by (simp add: hex2_digits split: option.split)
qed

lemma hex_pairs_concat: "hex_pairs (concat (map hex2 bs)) = Some bs"
  by (induction bs) (simp_all add: hex_pairs_hex2)

lemma check_record_bytes:
  assumes "length bs < 256"
  shows "check_record (record_bytes (t, a, bs)) = Some (t, a, bs)"
proof -
  have "push_bit 8 (ucast (ucast (drop_bit 8 a) :: byte)) OR ucast (ucast a :: byte) = a"
    by (rule bit_eqI) (auto simp: bit_simps)
  moreover have "unat (of_nat (length bs) :: byte) = length bs"
    using assms by (simp add: unat_of_nat)
  ultimately show ?thesis by (simp add: record_bytes_def Let_def)
qed

lemma parse_record_line: "length bs < 256 \<Longrightarrow> parse_record (record_line (t, a, bs)) = Some (t, a, bs)"
  by (simp add: record_line_def hex_pairs_concat check_record_bytes)

lemma ihex_data_loop_stores:
  "stores h path \<Longrightarrow> ihex_data_loop path bs acc (set_file path c h) =
     (Some (acc + sum_list bs), set_file path (c @ chars (concat (map hex2 bs))) h)"
  by (induction bs arbitrary: acc c) (simp_all add: fwrite_stores Let_def add.assoc)

lemma write_ihex_record_stores:
  assumes "stores h path"
  shows "write_ihex_record path t a bs (set_file path c h) =
    (True, set_file path (c @ chars (record_line (t, a, bs) @ [CHR 0x0A])) h)"
  using assms
  by (simp add: write_ihex_record_def fwrite_stores ihex_data_loop_stores Let_def record_line_def
      record_bytes_def hex4_hex2 ac_simps chars_def del: minus_add_distrib)

section \<open>The whole file\<close>

lemma newline_no_hex: "hex_value (CHR 0x0A) = None"
  by (simp add: hex_value_def)

lemma record_line_one_line: "CHR 0x0A \<notin> set (record_line r)"
  using hex_fixed_digits newline_no_hex by (fastforce simp: record_line_def hex2_def)

lemma text_lines_line:
  "CHR 0x0A \<notin> set l \<Longrightarrow> text_lines acc (l @ CHR 0x0A # cs) = (rev acc @ l) # text_lines [] cs"
  by (induction l arbitrary: acc) auto

lemma text_lines_records: "text_lines [] (records_text rs) = map record_line rs"
  by (induction rs) (simp_all add: records_text_def text_lines_line record_line_one_line)

lemma parse_records:
  "\<forall>(t, a, bs) \<in> set rs. length bs < 256 \<Longrightarrow>
   those (map parse_record (map record_line rs)) = Some rs"
proof (induction rs)
  case (Cons r rs)
  then show ?case by (cases r) (auto simp: parse_record_line)
qed simp

function ihex_records :: "32 word \<Rightarrow> 32 word \<Rightarrow> byte list \<Rightarrow> ihex_record list" where
  "ihex_records address cur bs =
     (if bs = [] then []
      else
        let upper = drop_bit 16 address; row = take 16 bs
        in (if upper \<noteq> cur then [(4, 0, [ucast (drop_bit 8 upper), ucast upper])] else []) @
           (0, ucast address, row) #
           ihex_records (address + of_nat (length row)) upper (drop 16 bs))"
  by auto
termination
  by (relation "measure (\<lambda>(address, cur, bs). length bs)") auto

declare ihex_records.simps [simp del]

lemma ihex_records_Nil [simp]: "ihex_records address cur [] = []"
  by (subst ihex_records.simps) simp

lemma ihex_records_short: "(t, a, row) \<in> set (ihex_records address cur bs) \<Longrightarrow> length row < 256"
proof (induction address cur bs rule: ihex_records.induct)
  case (1 address cur bs)
  then show ?case
    by (subst (asm) (2) ihex_records.simps) (auto simp: Let_def min_def split: if_splits)
qed

lemma source_row:
  assumes "length header = 128" "off + n \<le> 128 + length payload"
  shows "map (\<lambda>i. source_byte header payload (off + i)) [0..<n] = take n (drop off (header @ payload))"
proof -
  have "source_byte header payload k = (header @ payload) ! k" for k
    using assms(1) by (auto simp: source_byte_def nth_append HEADER_SIZE_def)
  moreover have "map (\<lambda>i. l ! (off + i)) [0..<n] = take n (drop off l)" if "off + n \<le> length l" for l :: "byte list"
    using that by (intro nth_equalityI) auto
  ultimately show ?thesis using assms by simp
qed

lemma records_text_Cons: "records_text (r # rs) = record_line r @ CHR 0x0A # records_text rs"
  by (simp add: records_text_def)

lemma records_text_append: "records_text (rs @ rs') = records_text rs @ records_text rs'"
  by (simp add: records_text_def)

lemma ihex_loop_stores:
  assumes st: "stores h path" and len: "length header = 128" and img: "img = header @ payload"
  shows "off \<le> length img \<Longrightarrow>
    ihex_loop path header payload (length img) address cur off (set_file path c h) =
      (True, set_file path (c @ chars (records_text (ihex_records address cur (drop off img)))) h)"
proof (induction "length img - off" arbitrary: off address cur c rule: less_induct)
  case less
  show ?case
  proof (cases "off < length img")
    case False
    then show ?thesis using less.prems by (simp add: ihex_loop.simps records_text_def)
  next
    case True
    define n where "n = min 16 (length img - off)"
    define upper where "upper = drop_bit 16 address"
    define row where "row = take 16 (drop off img)"
    define pre where "pre = (if upper \<noteq> cur then [(4, 0, [ucast (drop_bit 8 upper), ucast upper])]
        else [] :: ihex_record list)"
    have n: "0 < n" "off + n \<le> length img" "length row = n"
      using True by (auto simp: n_def row_def)
    have row: "map (\<lambda>i. source_byte header payload (off + i)) [0..<n] = row"
      using source_row [OF len, of off n payload, folded img] n(2) True len
      by (simp add: row_def n_def min_def img [symmetric]) (auto simp: img)
    have nn: "(if IHEX_ROW_SIZE < length img - off then IHEX_ROW_SIZE else length img - off) = n"
      by (auto simp: n_def IHEX_ROW_SIZE_def)
    have "ihex_loop path header payload (length img) address cur off (set_file path c h) =
        ihex_loop path header payload (length img) (address + of_nat n) upper (off + n)
          (set_file path (c @ chars (records_text (pre @ [(0, ucast address, row)]))) h)"
      using True
      apply (subst ihex_loop.simps)
      apply (simp only: True if_True nn row upper_def [symmetric] Let_def)
      by (cases "upper = cur"; simp add: write_ihex_record_stores [OF st] pre_def
          records_text_def chars_def IHEX_RECORD_DATA_def IHEX_RECORD_EXT_LINEAR_ADDR_def)
    also have "\<dots> = (True, set_file path (c @ chars (records_text (pre @ [(0, ucast address, row)])) @
        chars (records_text (ihex_records (address + of_nat n) upper (drop (off + n) img)))) h)"
      using less.hyps [of "off + n"] n True by simp
    also have "drop (off + n) img = drop 16 (drop off img)"
      using True by (simp add: n_def min_def ac_simps)
    also have "chars (records_text (pre @ [(0, ucast address, row)])) @
        chars (records_text (ihex_records (address + of_nat n) upper (drop 16 (drop off img)))) =
        chars (records_text (ihex_records address cur (drop off img)))"
      using True n(3)
      by (subst (2) ihex_records.simps)
        (simp add: Let_def upper_def [symmetric] row_def [symmetric] pre_def [symmetric]
          records_text_append records_text_Cons chars_Cons records_text_def [of "[]"])
    finally show ?thesis .
  qed
qed

text \<open>What a byte run adds to a loaded memory.\<close>

definition overlay :: "nat \<Rightarrow> byte list \<Rightarrow> (nat \<Rightarrow> byte option) \<Rightarrow> nat \<Rightarrow> byte option" where
  "overlay a bs m = (\<lambda>x. if a \<le> x \<and> x < a + length bs then Some (bs ! (x - a)) else m x)"

lemma overlay_append: "overlay (a + length xs) ys (overlay a xs m) = overlay a (xs @ ys) m"
  by (auto simp: overlay_def nth_append fun_eq_iff)

lemma ihex_load_data:
  "ihex_load u ((0, a, bs) # rs) m = ihex_load u rs (overlay (u * 65536 + unat a) bs m)"
  by (simp add: overlay_def Let_def)

lemma ihex_load_upper:
  "ihex_load u ((4, 0, [a, b]) # rs) m = ihex_load (256 * unat a + unat b) rs m"
  by simp

lemma upper_lower: "unat (drop_bit 16 a) * 65536 + unat (ucast a :: 16 word) = unat (a :: 32 word)"
  "unat (drop_bit 16 a) < 65536"
proof -
  have d: "unat (drop_bit 16 a) = unat a div 65536"
    by (simp only: unat_drop_bit_eq) (simp add: drop_bit_eq_div)
  have "unat (ucast a :: 16 word) = unat a mod 65536"
    by (simp only: unsigned_ucast_eq take_bit_eq_mod) simp
  then show "unat (drop_bit 16 a) * 65536 + unat (ucast a :: 16 word) = unat a" using d by simp
  show "unat (drop_bit 16 a) < 65536"
    using less_mult_imp_div_less [of "unat a" 65536 65536] by (simp only: d) simp
qed

lemma unat_upper_bytes:
  assumes "unat (w :: 32 word) < 65536"
  shows "256 * unat (ucast (drop_bit 8 w) :: byte) + unat (ucast w :: byte) = unat w"
proof -
  have "unat (drop_bit 8 w) = unat w div 256"
    by (simp only: unat_drop_bit_eq) (simp add: drop_bit_eq_div)
  then have "unat (ucast (drop_bit 8 w) :: byte) = unat w div 256"
    using less_mult_imp_div_less [of "unat w" 256 256] assms
    by (simp only: unsigned_ucast_eq take_bit_eq_mod) simp
  moreover have "unat (ucast w :: byte) = unat w mod 256"
    by (simp only: unsigned_ucast_eq take_bit_eq_mod) simp
  ultimately show ?thesis by simp
qed

lemma ihex_load_records:
  assumes "unat address + length bs \<le> 4294967296" "cur = drop_bit 16 address \<longrightarrow> u = unat cur"
  shows "ihex_load u (ihex_records address cur bs @ [(1, 0, [])]) m = Some (overlay (unat address) bs m)"
  using assms
proof (induction address cur bs arbitrary: u m rule: ihex_records.induct)
  case (1 address cur bs)
  show ?case
  proof (cases "bs = []")
    case True
    then show ?thesis by (auto simp: overlay_def fun_eq_iff)
  next
    case False
    define upper where "upper = drop_bit 16 address"
    define row where "row = take 16 bs"
    define rest where "rest = ihex_records (address + of_nat (length row)) upper (drop 16 bs)"
    have "ihex_load u (ihex_records address cur bs @ [(1, 0, [])]) m =
        ihex_load u ((if upper \<noteq> cur then [(4, 0, [ucast (drop_bit 8 upper), ucast upper])] else []) @
          (0, ucast address, row) # rest @ [(1, 0, [])]) m"
      using False
      by (subst ihex_records.simps) (simp add: Let_def upper_def row_def rest_def)
    also have "\<dots> = ihex_load (unat upper) ((0, ucast address, row) # rest @ [(1, 0, [])]) m"
      using unat_upper_bytes [of upper] upper_lower(2) [of address] 1(3)
      by (cases "upper = cur")
         (simp_all only: upper_def [symmetric] ihex_load_upper append.simps simp_thms if_True if_False)
    also have "\<dots> = ihex_load (unat upper) (rest @ [(1, 0, [])]) (overlay (unat address) row m)"
      using upper_lower(1) [of address] by (simp only: ihex_load_data upper_def)
    also have "\<dots> = Some (overlay (unat address) bs m)"
    proof (cases "drop 16 bs = []")
      case True
      then show ?thesis by (simp add: rest_def row_def)
    next
      case more: False
      have "length row = 16" using more by (simp add: row_def)
      then have a: "unat (address + of_nat (length row)) = unat address + length row"
        using 1(2) more by (simp add: unat_word_ariths unat_of_nat)
      have "ihex_load (unat upper) (rest @ [(1, 0, [])]) (overlay (unat address) row m) =
          Some (overlay (unat (address + of_nat (length row))) (drop 16 bs) (overlay (unat address) row m))"
        unfolding rest_def upper_def row_def
        by (rule 1(1) [OF False refl refl]) (use 1(2) a row_def more in auto)
      then show ?thesis by (simp add: a overlay_append) (simp add: row_def)
    qed
    finally show ?thesis .
  qed
qed

definition component_records :: "32 word \<Rightarrow> byte list \<Rightarrow> ihex_record list" where
  "component_records base bs = ihex_records base (- 1) bs @ [(1, 0, [])]"

lemma write_component_ihex_stores:
  assumes "stores h path" "length header = 128"
  shows "write_component_ihex path base header payload h =
    (True, set_file path (chars (records_text (component_records base (header @ payload)))) h)"
proof -
  have "ihex_loop path header payload (HEADER_SIZE + length payload) base (- 1) 0 (set_file path [] h) =
      (True, set_file path (chars (records_text (ihex_records base (- 1) (header @ payload)))) h)"
    using ihex_loop_stores [OF assms refl, of 0 payload base "- 1" "[]"] assms(2)
    by (simp add: HEADER_SIZE_def)
  then show ?thesis
    using write_ihex_record_stores [OF assms(1)] assms(1)
    by (simp add: write_component_ihex_def fopen_w_stores component_records_def records_text_append
        IHEX_RECORD_EOF_def records_text_def)
qed

lemma ihex_read_component:
  assumes "unat base + length bs \<le> 4294967296"
  shows "ihex_read (chars (records_text (component_records base bs))) = Some (overlay (unat base) bs (\<lambda>_. None))"
proof -
  have "\<forall>(t, a, row) \<in> set (component_records base bs). length row < 256"
    using ihex_records_short by (fastforce simp: component_records_def)
  note P = parse_records [OF this]
  have "(- 1 :: 32 word) \<noteq> drop_bit 16 base"
  proof
    assume "- 1 = drop_bit 16 base"
    then have "unat (- 1 :: 32 word) < 65536" using upper_lower(2) [of base] by simp
    then show False by (simp add: unsigned_minus_1_eq_mask mask_eq_exp_minus_1)
  qed
  then have "ihex_load 0 (component_records base bs) (\<lambda>_. None) = Some (overlay (unat base) bs (\<lambda>_. None))"
    unfolding component_records_def using assms by (intro ihex_load_records) auto
  then show ?thesis by (simp only: ihex_read_def bytes_text_chars text_lines_records P bind.bind_lunit)
qed

section \<open>Properties\<close>

definition demo_host :: host where
  "demo_host = \<lparr>files = (\<lambda>_. None), directories = {}, opens_r = (\<lambda>_. True), opens_w = (\<lambda>_. True),
     accepts = (\<lambda>_ _ bs. length bs), makes_dir = (\<lambda>_ _. True), removes = (\<lambda>_. True),
     read_error = (\<lambda>_. False), malloc_ok = (\<lambda>_. True)\<rparr>"

lemma demo_host_stores [simp]: "stores demo_host p"
  by (simp add: stores_def demo_host_def)

text \<open>C14: the Intel-HEX file loads back.  When the host stores what is written and the image fits below
  4 GiB, the writer succeeds, and reading its file record by record, with byte counts and check
  sums verified, gives exactly the header and the payload from the slot's address on.\<close>

theorem ihex_file_loads_back:
  assumes "stores h path" "length header = 128" "unat base + 128 + length payload \<le> 4294967296"
  shows "\<exists>h' file. write_component_ihex path base header payload h = (True, h') \<and>
    files h' path = Some file \<and>
    ihex_read file = Some (\<lambda>x. if unat base \<le> x \<and> x < unat base + 128 + length payload
      then Some ((header @ payload) ! (x - unat base)) else None)"
proof -
  have "unat base + length (header @ payload) \<le> 4294967296" using assms by simp
  from write_component_ihex_stores [OF assms(1,2), of base payload] ihex_read_component [OF this] assms(2)
  show ?thesis by (simp add: overlay_def add.assoc)
qed

theorem ihex_file_loads_back_witness:
  "\<exists>h' file. write_component_ihex ''a.hex'' 0x1fff8 (replicate 128 7) [1, 2, 3] demo_host = (True, h') \<and>
     files h' ''a.hex'' = Some file"
  using ihex_file_loads_back [OF demo_host_stores, of "replicate 128 7" "0x1fff8" "[1, 2, 3]" "''a.hex''"]
  by auto

end
