(* ===== verification/Header_Tool.thy ===== *)
theory Header_Tool
  imports Ihex
begin

text \<open>
  The packaging tool \<open>system/header.c\<close> as a whole: paths, text files, the linker map, the output
  files, the export directory and \<open>main\<close>, over the host of theory \<open>Stdio\<close>.  Messages on the
  standard streams are not modelled.  \<open>unsigned long\<close> has 64 bits, as on the build hosts.

  The lemmas show that a linker map is read to the addresses it lists and that \<open>main\<close> writes
  exactly the payload, the packaged image, its Intel-HEX form and the slot address.
\<close>

section \<open>Paths\<close>

fun strrchr :: "string \<Rightarrow> char \<Rightarrow> nat option" where
  "strrchr [] c = None"
| "strrchr (d # s) c =
     (case strrchr s c of Some i \<Rightarrow> Some (Suc i) | None \<Rightarrow> if d = c then Some 0 else None)"

definition base_name :: "string \<Rightarrow> string" where
  "base_name path =
     (let slash = strrchr path (CHR ''/'');
          backslash = strrchr path (CHR 0x5C);
          last = (case (backslash, slash) of
             (Some b, None) \<Rightarrow> Some b
           | (Some b, Some s) \<Rightarrow> if s < b then Some b else Some s
           | (None, _) \<Rightarrow> slash)
      in case last of None \<Rightarrow> path | Some i \<Rightarrow> drop (i + 1) path)"

definition PATH_BUFFER_SIZE :: nat where [layout_defs]: "PATH_BUFFER_SIZE = 1024"

definition join_path :: "nat \<Rightarrow> string \<Rightarrow> string \<Rightarrow> string option" where
  "join_path out_size dir name =
     (let sep = (if dir \<noteq> [] \<and> (last dir = CHR ''/'' \<or> last dir = CHR 0x5C) then [] else ''/'');
          path = dir @ sep @ name
      in if out_size \<le> length path then None else Some path)"

section \<open>Text files\<close>

definition read_text_trimmed :: "string \<Rightarrow> nat \<Rightarrow> host \<Rightarrow> string option" where
  "read_text_trimmed path sz h =
     (if sz = 0 then None
      else case fopen_r path h of
        None \<Rightarrow> None
      | Some content \<Rightarrow>
          (case fgets sz (bytes_text content) of
             None \<Rightarrow> None
           | Some (buf, _) \<Rightarrow>
               let trimmed = rev (dropWhile (\<lambda>c. c = CHR 0x0A \<or> c = CHR 0x0D) (rev (c_string buf)))
               in if trimmed = [] then None else Some trimmed))"

definition read_text_or_literal :: "string \<Rightarrow> nat \<Rightarrow> host \<Rightarrow> string option" where
  "read_text_or_literal val sz h =
     (case read_text_trimmed val sz h of
        Some t \<Rightarrow> Some t
      | None \<Rightarrow> if sz \<le> length val then None else if val = [] then None else Some val)"

section \<open>The linker map\<close>

definition is_space :: "char \<Rightarrow> bool" where
  "is_space c \<longleftrightarrow> c \<in> {CHR '' '', CHR 0x09, CHR 0x0A, CHR 0x0B, CHR 0x0C, CHR 0x0D}"

abbreviation skip_spaces :: "string \<Rightarrow> string" where
  "skip_spaces \<equiv> dropWhile is_space"

text \<open>\<open>%lx\<close>: an optional sign and prefix, digits, and the clamping of \<open>strtoul\<close>.\<close>

definition scan_lx :: "string \<Rightarrow> (nat \<times> string) option" where
  "scan_lx s =
     (let s = skip_spaces s;
          neg = (s \<noteq> [] \<and> hd s = CHR ''-'');
          s = (if s \<noteq> [] \<and> (hd s = CHR ''-'' \<or> hd s = CHR ''+'') then tl s else s);
          s = (if take 2 s = ''0x'' \<or> take 2 s = ''0X'' then drop 2 s else s);
          digits = takeWhile (\<lambda>c. hex_value c \<noteq> None) s;
          v = hex_number digits
      in if digits = [] then None
         else Some (if 2 ^ 64 \<le> v then 2 ^ 64 - 1 else if neg then (2 ^ 64 - v) mod 2 ^ 64 else v,
                    dropWhile (\<lambda>c. hex_value c \<noteq> None) s))"

text \<open>\<open>sscanf(line, " %lx %127s", ...) == 2\<close>.\<close>

definition scan_symbol :: "string \<Rightarrow> (nat \<times> string) option" where
  "scan_symbol line =
     (case scan_lx line of
        None \<Rightarrow> None
      | Some (address, s) \<Rightarrow>
          let s = skip_spaces s
          in if s = [] then None else Some (address, take 127 (takeWhile (\<lambda>c. \<not> is_space c) s)))"

function read_symbols_loop :: "string \<Rightarrow> application_symbols \<Rightarrow> application_symbols" where
  "read_symbols_loop rest symbols =
     (case fgets 256 rest of
        None \<Rightarrow> symbols
      | Some (line, rest) \<Rightarrow>
          read_symbols_loop rest
            (case scan_symbol (c_string line) of
               None \<Rightarrow> symbols
             | Some (address, name) \<Rightarrow> set_symbol symbols name (of_nat address)))"
  by auto
termination
  by (relation "measure (\<lambda>(rest, symbols). length rest)") (auto dest: fgets_shorter [rotated])

declare read_symbols_loop.simps [simp del]

definition read_symbols_from_map :: "string \<Rightarrow> host \<Rightarrow> application_symbols option" where
  "read_symbols_from_map path h =
     map_option (\<lambda>content. read_symbols_loop (bytes_text content) zero_symbols) (fopen_r path h)"

section \<open>Output files\<close>

definition read_file :: "string \<Rightarrow> host \<Rightarrow> byte list option" where
  "read_file path h =
     (case fopen_r path h of
        None \<Rightarrow> None
      | Some content \<Rightarrow>
          if \<not> malloc_ok h (length content) then None
          else if read_error h path then None else Some content)"

definition write_component_file :: "string \<Rightarrow> byte list \<Rightarrow> byte list \<Rightarrow> host \<Rightarrow> bool \<times> host" where
  "write_component_file path header payload h =
     (case fopen_w path h of
        None \<Rightarrow> (False, h)
      | Some h \<Rightarrow>
          let (w, h) = fwrite path (take HEADER_SIZE header) h
          in if \<not> w then (False, h) else fwrite path payload h)"

definition write_binary_file :: "string \<Rightarrow> byte list \<Rightarrow> host \<Rightarrow> bool \<times> host" where
  "write_binary_file path bs h =
     (case fopen_w path h of None \<Rightarrow> (False, h) | Some h \<Rightarrow> fwrite path bs h)"

text \<open>The result of this \<open>fprintf\<close> is not looked at.\<close>

definition write_slot_address :: "string \<Rightarrow> 32 word \<Rightarrow> host \<Rightarrow> bool \<times> host" where
  "write_slot_address path start h =
     (case fopen_w path h of
        None \<Rightarrow> (False, h)
      | Some h \<Rightarrow>
          (True, snd (fwrite path (chars (''0x'' @ hex_fixed False 8 (unat start) @ [CHR 0x0A])) h)))"

section \<open>Export\<close>

definition mkdir_one :: "string \<Rightarrow> host \<Rightarrow> bool \<times> host" where
  "mkdir_one path h =
     (if path \<in> directories h \<or> files h path \<noteq> None then (True, h)
      else if makes_dir h (directories h) path
      then (True, h\<lparr>directories := insert path (directories h)\<rparr>)
      else (False, h))"

fun mkdir_loop :: "string \<Rightarrow> nat list \<Rightarrow> host \<Rightarrow> bool \<times> host" where
  "mkdir_loop path [] h = (True, h)"
| "mkdir_loop path (i # idx) h =
     (if path ! i = CHR ''/'' \<or> path ! i = CHR 0x5C then
        let (w, h) = mkdir_one (take i path) h
        in if \<not> w then (False, h) else mkdir_loop path idx h
      else mkdir_loop path idx h)"

definition mkdir_p :: "string \<Rightarrow> host \<Rightarrow> bool \<times> host" where
  "mkdir_p path h =
     (if path = [] \<or> PATH_BUFFER_SIZE \<le> length path then (False, h)
      else
        let (w, h) = mkdir_loop path [1..<length path] h
        in if \<not> w then (False, h) else mkdir_one path h)"

function copy_loop :: "string \<Rightarrow> byte list \<Rightarrow> host \<Rightarrow> bool \<times> host" where
  "copy_loop dst rest h =
     (if rest = [] then (True, h)
      else
        let (w, h) = fwrite dst (take 32768 rest) h
        in if \<not> w then (False, h) else copy_loop dst (drop 32768 rest) h)"
  by auto
termination
  by (relation "measure (\<lambda>(dst, rest, h). length rest)") auto

declare copy_loop.simps [simp del]

text \<open>The source is read after the destination was truncated: they may be one file.\<close>

definition copy_file :: "string \<Rightarrow> string \<Rightarrow> host \<Rightarrow> bool \<times> host" where
  "copy_file src dst h =
     (case fopen_r src h of
        None \<Rightarrow> (False, h)
      | Some _ \<Rightarrow>
          (case fopen_w dst h of
             None \<Rightarrow> (False, h)
           | Some h \<Rightarrow>
               let (w, h) = copy_loop dst (the (files h src)) h
               in (w \<and> \<not> read_error h src, h)))"

definition export_file :: "string \<Rightarrow> string \<Rightarrow> host \<Rightarrow> bool \<times> host" where
  "export_file export_dir src h =
     (case join_path PATH_BUFFER_SIZE export_dir (base_name src) of
        None \<Rightarrow> (False, h)
      | Some dst \<Rightarrow> copy_file src dst h)"

definition remove_export_file :: "string \<Rightarrow> string \<Rightarrow> host \<Rightarrow> host" where
  "remove_export_file export_dir name h =
     (case join_path PATH_BUFFER_SIZE export_dir name of
        None \<Rightarrow> h
      | Some path \<Rightarrow> if removes h path then h\<lparr>files := (files h)(path := None)\<rparr> else h)"

fun export_all :: "string \<Rightarrow> string list \<Rightarrow> host \<Rightarrow> bool \<times> host" where
  "export_all export_dir [] h = (True, h)"
| "export_all export_dir (p # ps) h =
     (let (w, h) = export_file export_dir p h
      in if \<not> w then (False, h) else export_all export_dir ps h)"

definition export_outputs :: "string \<Rightarrow> string list \<Rightarrow> host \<Rightarrow> bool \<times> host" where
  "export_outputs export_dir paths h =
     (if export_dir = [] then (True, h)
      else
        let (w, h) = mkdir_p export_dir h
        in if \<not> w then (False, h)
        else
          let h = remove_export_file export_dir ''application.payload.bin'' h;
              h = remove_export_file export_dir ''application.signed.bin'' h;
              h = remove_export_file export_dir ''application.signed.hex'' h
          in export_all export_dir paths h)"

section \<open>Main\<close>

text \<open>The four output files, in their order, until one fails.\<close>

definition write_outputs ::
    "string list \<Rightarrow> application_symbols \<Rightarrow> byte list \<Rightarrow> byte list \<Rightarrow> host \<Rightarrow> bool \<times> host" where
  "write_outputs argv symbols header payload h =
     (let (w, h) = write_binary_file (argv ! 4) payload h
      in if \<not> w then (False, h)
      else let (w, h) = write_component_file (argv ! 6) header payload h
      in if \<not> w then (False, h)
      else let (w, h) = write_component_ihex (argv ! 7) (slot_start symbols) header payload h
      in if \<not> w then (False, h)
      else write_slot_address (argv ! 8) (slot_start symbols) h)"

text \<open>\<open>main(argc, argv)\<close>: the exit code and the host.\<close>

definition tool_main :: "string list \<Rightarrow> host \<Rightarrow> int \<times> host" where
  "tool_main argv h =
     (let argc = length argv
      in if argc \<noteq> 12 \<and> argc \<noteq> 13 \<and> argc \<noteq> 14 \<and> argc \<noteq> 15 then (2, h)
      else if argv ! 1 \<noteq> ''true'' \<and> argv ! 1 \<noteq> ''1'' \<and> argv ! 1 \<noteq> ''yes'' \<and> argv ! 1 \<noteq> ''on'' then (0, h)
      else case (read_text_or_literal (argv ! 10) 32 h, read_text_or_literal (argv ! 11) 32 h) of
        (Some version_base, Some version_build) \<Rightarrow>
          let version = take 63 (version_base @ ''+'' @ version_build)
          in (case read_symbols_from_map (argv ! 5) h of
                None \<Rightarrow> (1, h)
              | Some symbols \<Rightarrow>
                  (case validate_symbols symbols of
                     None \<Rightarrow> (1, h)
                   | Some ram_size \<Rightarrow>
                       (case read_file (argv ! 3) h of
                          None \<Rightarrow> (1, h)
                        | Some payload \<Rightarrow>
                            let crc = crc32_update 0 payload;
                                header = build_header symbols (argv ! 9) version ram_size
                                           (of_nat (length payload)) crc;
                                (w, h) = write_outputs argv symbols header payload h
                            in if \<not> w then (1, h)
                            else if argc = 13 then
                              let (w, h) = export_outputs (argv ! 12)
                                    [argv ! 3, argv ! 4, argv ! 5, argv ! 6, argv ! 7, argv ! 8] h
                              in (if w then 0 else 1, h)
                            else if argc = 15 then
                              let (w, h) = export_outputs (argv ! 14)
                                    [argv ! 3, argv ! 4, argv ! 5, argv ! 6, argv ! 7, argv ! 8,
                                     argv ! 12, argv ! 13] h
                              in (if w then 0 else 1, h)
                            else (0, h))))
      | _ \<Rightarrow> (1, h))"

section \<open>Reading the map\<close>

text \<open>A symbol line of the linker's map: blanks, the address in hexadecimal, blanks, the name and the
  rest of the line.\<close>

record map_line =
  indent :: nat
  address :: nat
  gap :: nat
  symbol :: string
  remark :: string

definition line_text :: "map_line \<Rightarrow> string" where
  "line_text l = replicate (indent l) CHR '' '' @ ''0x'' @ hex_fixed False 16 (address l) @
     replicate (Suc (gap l)) CHR '' '' @ symbol l @ remark l"

definition line_ok :: "map_line \<Rightarrow> bool" where
  "line_ok l \<longleftrightarrow> address l < 2 ^ 64 \<and> symbol l \<noteq> [] \<and> length (symbol l) \<le> 127 \<and>
     (\<forall>c \<in> set (symbol l). \<not> is_space c \<and> c \<noteq> CHR 0x00) \<and>
     (remark l = [] \<or> hd (remark l) = CHR '' '') \<and>
     (\<forall>c \<in> set (remark l). c \<noteq> CHR 0x0A \<and> c \<noteq> CHR 0x00) \<and> length (line_text l) \<le> 254"

lemma skip_blanks: "skip_spaces (replicate n CHR '' '' @ s) = skip_spaces s"
  by (induction n) (simp_all add: is_space_def)

lemma hex_not_space: "hex_value c \<noteq> None \<Longrightarrow> \<not> is_space c"
  by (auto simp: is_space_def hex_value_def)

lemma hex_not_blank: "hex_value (CHR '' '') = None"
  by (simp add: hex_value_def)

lemma hex_not_zero: "hex_value (CHR 0x00) = None"
  by (simp add: hex_value_def)

lemma takeWhile_hex:
  "takeWhile (\<lambda>c. hex_value c \<noteq> None) (hex_fixed u w v @ CHR '' '' # s) = hex_fixed u w v"
  "dropWhile (\<lambda>c. hex_value c \<noteq> None) (hex_fixed u w v @ CHR '' '' # s) = CHR '' '' # s"
  using hex_fixed_digits [of _ u w v] hex_not_blank
  by (simp_all add: takeWhile_append2 dropWhile_append2 del: not_None_eq)

lemma scan_lx_hex:
  assumes "v < 2 ^ 64"
  shows "scan_lx (replicate n CHR '' '' @ ''0x'' @ hex_fixed False 16 v @ CHR '' '' # s) =
    Some (v, CHR '' '' # s)"
proof -
  have "skip_spaces (CHR ''0'' # t) = CHR ''0'' # t" for t by (simp add: is_space_def)
  moreover have "hex_fixed False 16 v \<noteq> []" by (metis length_hex_fixed list.size(3) zero_neq_numeral)
  moreover have "hex_number (hex_fixed False 16 v) = v"
    using assms by (intro hex_number_fixed) simp
  ultimately show ?thesis using assms
    by (simp add: scan_lx_def skip_blanks Let_def takeWhile_hex del: not_None_eq)
qed

lemma scan_symbol_line:
  assumes "line_ok l"
  shows "scan_symbol (line_text l @ [CHR 0x0A]) = Some (address l, symbol l)"
proof -
  obtain c cs where sym: "symbol l = c # cs" "\<not> is_space c"
    using assms by (cases "symbol l") (auto simp: line_ok_def)
  have "takeWhile (\<lambda>c. \<not> is_space c) (symbol l @ remark l @ [CHR 0x0A]) = symbol l"
    using assms by (cases "remark l") (auto simp: line_ok_def takeWhile_append2 is_space_def)
  moreover have "skip_spaces (replicate (gap l) CHR '' '' @ symbol l @ remark l @ [CHR 0x0A]) =
      symbol l @ remark l @ [CHR 0x0A]"
    using sym by (simp add: skip_blanks)
  ultimately show ?thesis
    using assms sym scan_lx_hex [of "address l" "indent l" "replicate (gap l) CHR '' '' @ symbol l @ remark l @ [CHR 0x0A]"]
    by (simp add: scan_symbol_def line_text_def line_ok_def Let_def is_space_def)
qed

lemma line_text_chars:
  assumes "line_ok l"
  shows "CHR 0x0A \<notin> set (line_text l)" "CHR 0x00 \<notin> set (line_text l)"
proof -
  have h: "hex_value c \<noteq> None" if "c \<in> set (hex_fixed False 16 (address l))" for c
    using hex_fixed_digits that by blast
  show "CHR 0x0A \<notin> set (line_text l)"
    using assms h [of "CHR 0x0A"] newline_no_hex
    by (auto simp: line_text_def line_ok_def is_space_def simp del: not_None_eq)
  show "CHR 0x00 \<notin> set (line_text l)"
    using assms h [of "CHR 0x00"] hex_not_zero
    by (auto simp: line_text_def line_ok_def simp del: not_None_eq)
qed

lemma read_symbols_lines:
  "\<forall>l \<in> set ls. line_ok l \<Longrightarrow>
   read_symbols_loop (concat (map (\<lambda>l. line_text l @ [CHR 0x0A]) ls)) sy =
     foldl (\<lambda>sy l. set_symbol sy (symbol l) (of_nat (address l))) sy ls"
proof (induction ls arbitrary: sy)
  case Nil
  then show ?case by (simp add: read_symbols_loop.simps fgets_def)
next
  case (Cons l ls)
  let ?rest = "concat (map (\<lambda>l. line_text l @ [CHR 0x0A]) ls)"
  have ok: "line_ok l" using Cons.prems by simp
  have "fgets 256 (line_text l @ CHR 0x0A # ?rest) = Some (line_text l @ [CHR 0x0A], ?rest)"
    by (rule fgets_line) (use ok line_text_chars [OF ok] in \<open>auto simp: line_ok_def\<close>)
  moreover have "c_string (line_text l @ [CHR 0x0A]) = line_text l @ [CHR 0x0A]"
    using line_text_chars(2) [OF ok] by (auto simp: c_string_def takeWhile_eq_all_conv)
  ultimately show ?case
    using scan_symbol_line [OF ok] Cons
    by (subst read_symbols_loop.simps) simp
qed

section \<open>Writing the outputs\<close>

lemma write_binary_file_stores:
  "stores h p \<Longrightarrow> write_binary_file p bs h = (True, set_file p bs h)"
  using fwrite_stores [of h p bs "[]"] by (simp add: write_binary_file_def fopen_w_stores)

lemma write_component_file_stores:
  "stores h p \<Longrightarrow> length header = 128 \<Longrightarrow>
   write_component_file p header payload h = (True, set_file p (header @ payload) h)"
  using fwrite_stores [of h p header "[]"] fwrite_stores [of h p payload header]
  by (simp add: write_component_file_def fopen_w_stores HEADER_SIZE_def Let_def)

definition slot_text :: "32 word \<Rightarrow> byte list" where
  "slot_text start = chars (''0x'' @ hex_fixed False 8 (unat start) @ [CHR 0x0A])"

lemma write_slot_address_stores:
  "stores h p \<Longrightarrow> write_slot_address p start h = (True, set_file p (slot_text start) h)"
  using fwrite_stores [of h p "slot_text start" "[]"]
  by (simp add: write_slot_address_def fopen_w_stores slot_text_def)

lemma write_outputs_stores:
  assumes "stores h (argv ! 4)" "stores h (argv ! 6)" "stores h (argv ! 7)" "stores h (argv ! 8)"
    and "length header = 128"
  shows "write_outputs argv sy header payload h =
    (True, set_file (argv ! 8) (slot_text (slot_start sy))
      (set_file (argv ! 7) (chars (records_text (component_records (slot_start sy) (header @ payload))))
      (set_file (argv ! 6) (header @ payload) (set_file (argv ! 4) payload h))))"
  using assms
  by (simp add: write_outputs_def write_binary_file_stores write_component_file_stores
      write_component_ihex_stores write_slot_address_stores Let_def)

text \<open>A write to one file leaves the others alone, whether it succeeds or not.\<close>

lemma fwrite_other: "fwrite p bs h = (w, h') \<Longrightarrow> q \<noteq> p \<Longrightarrow> files h' q = files h q"
  by (auto simp: fwrite_def Let_def)

lemma fopen_w_other: "fopen_w p h = Some h' \<Longrightarrow> q \<noteq> p \<Longrightarrow> files h' q = files h q"
  by (auto simp: fopen_w_def split: if_splits)

lemma ihex_data_loop_other:
  "ihex_data_loop p bs acc h = (w, h') \<Longrightarrow> q \<noteq> p \<Longrightarrow> files h' q = files h q"
proof (induction bs arbitrary: acc h)
  case (Cons b bs)
  then show ?case
    by (auto simp: Let_def dest: fwrite_other split: prod.splits if_splits)
qed simp

lemma write_ihex_record_other:
  "write_ihex_record p t a bs h = (w, h') \<Longrightarrow> q \<noteq> p \<Longrightarrow> files h' q = files h q"
  by (auto simp: write_ihex_record_def Let_def split: prod.splits if_splits option.splits
      dest!: fwrite_other [where q = q] ihex_data_loop_other [where q = q])

lemma ihex_loop_other:
  "ihex_loop p header payload tot a cur off h = (w, h') \<Longrightarrow> q \<noteq> p \<Longrightarrow> files h' q = files h q"
proof (induction "tot - off" arbitrary: a cur off h rule: less_induct)
  case less
  show ?case
  proof (cases "off < tot")
    case False
    then show ?thesis using less.prems by (simp add: ihex_loop.simps)
  next
    case True
    define n where "n = (if IHEX_ROW_SIZE < tot - off then IHEX_ROW_SIZE else tot - off)"
    have n: "0 < n" "tot - (off + n) < tot - off" using True by (auto simp: n_def IHEX_ROW_SIZE_def)
    show ?thesis
      using less.prems True
      apply (subst (asm) ihex_loop.simps)
      apply (simp only: True if_True n_def [symmetric] Let_def)
      by (auto split: prod.splits if_splits
          dest!: less.hyps [OF n(2)] write_ihex_record_other [where q = q])
  qed
qed

lemma write_component_ihex_other:
  "write_component_ihex p base header payload h = (w, h') \<Longrightarrow> q \<noteq> p \<Longrightarrow> files h' q = files h q"
  by (auto simp: write_component_ihex_def Let_def split: prod.splits if_splits option.splits
      dest!: fopen_w_other [where q = q] ihex_loop_other [where q = q] write_ihex_record_other [where q = q])

lemma write_slot_address_other:
  "write_slot_address p start h = (w, h') \<Longrightarrow> q \<noteq> p \<Longrightarrow> files h' q = files h q"
  by (auto simp: write_slot_address_def split: option.splits
      dest!: fopen_w_other [where q = q] simp: fwrite_def Let_def)

lemma fwrite_complete:
  "fwrite p bs h = (True, h') \<Longrightarrow> files h p = Some old \<Longrightarrow> files h' p = Some (old @ bs)"
  by (auto simp: fwrite_def Let_def min_def split: if_splits)

lemma fopen_w_empty: "fopen_w p h = Some h' \<Longrightarrow> files h' p = Some []"
  by (auto simp: fopen_w_def split: if_splits)

lemma write_component_file_complete:
  "write_component_file p header payload h = (True, h') \<Longrightarrow> length header = 128 \<Longrightarrow>
   files h' p = Some (header @ payload)"
  by (auto simp: write_component_file_def Let_def HEADER_SIZE_def split: option.splits prod.splits if_splits
      dest!: fopen_w_empty fwrite_complete)

lemma write_outputs_complete:
  assumes "write_outputs argv sy header payload h = (True, h')" "length header = 128"
    and "argv ! 7 \<noteq> argv ! 6" "argv ! 8 \<noteq> argv ! 6"
  shows "files h' (argv ! 6) = Some (header @ payload)"
proof -
  obtain h1 h2 h3 where
    "write_component_file (argv ! 6) header payload h1 = (True, h2)"
    "write_component_ihex (argv ! 7) (slot_start sy) header payload h2 = (True, h3)"
    "write_slot_address (argv ! 8) (slot_start sy) h3 = (True, h')"
    using assms(1) by (auto simp: write_outputs_def Let_def split: prod.splits if_splits)
  then show ?thesis
    using write_component_file_complete write_component_ihex_other write_slot_address_other assms(2-4)
    by metis
qed

section \<open>Properties\<close>

definition sym_line :: "string \<Rightarrow> nat \<Rightarrow> map_line" where
  "sym_line name a = \<lparr>indent = 16, address = a, gap = 15, symbol = name, remark = '' = .''\<rparr>"

definition demo_lines :: "map_line list" where
  "demo_lines =
     [sym_line ''__module_slot_start'' 0x80000, sym_line ''__module_flash_start'' 0x80080,
      sym_line ''__module_entry'' 0x80101, sym_line ''__module_data_load'' 0x80200,
      sym_line ''__module_data_start'' 0x20001000, sym_line ''__module_data_end'' 0x20001010,
      sym_line ''__module_bss_start'' 0x20001010, sym_line ''__module_bss_end'' 0x20001100,
      sym_line ''__module_ram_start'' 0x20001000, sym_line ''__module_ram_end'' 0x20002000]"

definition map_text :: "map_line list \<Rightarrow> string" where
  "map_text ls = concat (map (\<lambda>l. line_text l @ [CHR 0x0A]) ls)"

lemma demo_lines_ok: "\<forall>l \<in> set demo_lines. line_ok l"
  by (simp add: demo_lines_def sym_line_def line_ok_def line_text_def is_space_def)

text \<open>A linker map is read to the addresses it lists.  For a file of symbol lines as the
  linker prints them, the tool's symbols are those of the last line for each known name,
  reduced to 32 bits; unknown names and any other symbol of the map do not matter.\<close>

theorem map_symbols_read:
  assumes "opens_r h path" "files h path = Some (chars (map_text ls))" "\<forall>l \<in> set ls. line_ok l"
  shows "read_symbols_from_map path h =
    Some (foldl (\<lambda>sy l. set_symbol sy (symbol l) (of_nat (address l))) zero_symbols ls)"
  using assms read_symbols_lines [OF assms(3)]
  by (simp add: read_symbols_from_map_def fopen_r_def map_text_def)

definition demo_build :: host where
  "demo_build = demo_host\<lparr>files := [''app.map'' \<mapsto> chars (map_text demo_lines), ''app.bin'' \<mapsto> [1, 2, 3]]\<rparr>"

lemma demo_symbols_folded:
  "foldl (\<lambda>sy l. set_symbol sy (symbol l) (of_nat (address l))) zero_symbols demo_lines = demo_symbols"
  by (simp add: demo_lines_def sym_line_def set_symbol_def zero_symbols_def demo_symbols_def)

theorem map_symbols_read_witness:
  "read_symbols_from_map ''app.map'' demo_build = Some demo_symbols"
  using map_symbols_read [OF _ _ demo_lines_ok, of demo_build "''app.map''"]
  by (simp add: demo_build_def demo_host_def demo_symbols_folded)

text \<open>C13: the tool packages an application.  With readable inputs, valid symbols, a host that stores
  its outputs and an image that ends below 4 GiB, \<open>main\<close> returns 0 and leaves the payload, the
  header with the payload, an Intel-HEX file that loads to it at the slot's address, and the
  address as text.\<close>

theorem tool_packages_application:
  assumes "length argv = 12" "argv ! 1 = ''true''"
    and "read_text_or_literal (argv ! 10) 32 h = Some vbase" "read_text_or_literal (argv ! 11) 32 h = Some vbuild"
    and "read_symbols_from_map (argv ! 5) h = Some sy" "validate_symbols sy = Some ram"
    and "read_file (argv ! 3) h = Some payload"
    and "\<forall>i \<in> {4, 6, 7, 8}. stores h (argv ! i)" "distinct [argv ! 4, argv ! 6, argv ! 7, argv ! 8]"
    and "unat (slot_start sy) + 128 + length payload \<le> 4294967296"
    and "img = package sy (argv ! 9) (take 63 (vbase @ ''+'' @ vbuild)) ram payload"
  shows "\<exists>h' hex. tool_main argv h = (0, h') \<and> files h' (argv ! 4) = Some payload \<and>
    files h' (argv ! 6) = Some img \<and> files h' (argv ! 7) = Some hex \<and>
    ihex_read hex = Some (overlay (unat (slot_start sy)) img (\<lambda>_. None)) \<and>
    files h' (argv ! 8) = Some (chars (''0x'' @ hex_fixed False 8 (unat (slot_start sy)) @ [CHR 0x0A]))"
proof -
  define header where "header = build_header sy (argv ! 9) (take 63 (vbase @ ''+'' @ vbuild)) ram
    (of_nat (length payload)) (crc32_update 0 payload)"
  have img: "img = header @ payload" "length header = 128"
    by (simp_all add: assms(11) header_def package_def)
  have W: "write_outputs argv sy header payload h = (True, set_file (argv ! 8) (slot_text (slot_start sy))
      (set_file (argv ! 7) (chars (records_text (component_records (slot_start sy) img)))
      (set_file (argv ! 6) img (set_file (argv ! 4) payload h))))" (is "_ = (True, ?h')")
    unfolding img by (rule write_outputs_stores) (use assms(8) img(2) in auto)
  have "tool_main argv h = (0, ?h')"
    using assms(1-7) W by (simp add: tool_main_def Let_def header_def)
  moreover have "ihex_read (chars (records_text (component_records (slot_start sy) img))) =
      Some (overlay (unat (slot_start sy)) img (\<lambda>_. None))"
    using assms(10) img by (intro ihex_read_component) simp
  ultimately show ?thesis using assms(9) by (auto simp: slot_text_def)
qed

definition demo_argv :: "string list" where
  "demo_argv = [''pack'', ''true'', ''app'', ''app.bin'', ''app.payload.bin'', ''app.map'',
     ''app.signed.bin'', ''app.signed.hex'', ''slot.txt'', ''app'', ''1.0'', ''7'']"

lemma demo_reads:
  "read_text_or_literal ''1.0'' 32 demo_build = Some ''1.0''"
  "read_text_or_literal ''7'' 32 demo_build = Some ''7''"
  "read_file ''app.bin'' demo_build = Some [1, 2, 3]"
  "read_symbols_from_map ''app.map'' demo_build = Some demo_symbols"
  "stores demo_build p"
  using read_symbols_lines [OF demo_lines_ok, of zero_symbols]
  by (simp_all add: read_text_or_literal_def read_text_trimmed_def fopen_r_def demo_build_def
      demo_host_def read_file_def read_symbols_from_map_def map_text_def demo_symbols_folded stores_def)

theorem tool_packages_application_witness:
  "\<exists>h'. tool_main demo_argv demo_build = (0, h') \<and>
     files h' ''app.signed.bin'' = Some (package demo_symbols ''app'' ''1.0+7'' 0x1000 [1, 2, 3])"
proof -
  have sl: "unat (slot_start demo_symbols) + 128 + length [1, 2, 3 :: byte] \<le> 4294967296"
    by (simp add: demo_symbols_def)
  show ?thesis
    using tool_packages_application [where argv = demo_argv and h = demo_build and vbase = "''1.0''"
        and vbuild = "''7''" and sy = demo_symbols and ram = "0x1000" and payload = "[1, 2, 3]",
        OF _ _ _ _ _ demo_symbols_valid _ _ _ sl refl]
    by (auto simp: demo_argv_def demo_reads)
qed

text \<open>Exit code 0 means a complete image.  Whatever the host does, when \<open>main\<close> (without an
  export directory) returns 0 for an enabled package, the signed file holds the packaged payload
  that was read, and the device accepts it if it is non-empty and its RAM demand is met.\<close>

theorem tool_success_means_written:
  assumes "tool_main argv h = (0, h')" "length argv \<in> {12, 14}" "argv ! 1 = ''true''"
    and "argv ! 7 \<noteq> argv ! 6" "argv ! 8 \<noteq> argv ! 6" "crc_matches E"
  shows "\<exists>sy version ram payload. read_file (argv ! 3) h = Some payload \<and>
    read_symbols_from_map (argv ! 5) h = Some sy \<and> validate_symbols sy = Some ram \<and>
    files h' (argv ! 6) = Some (package sy (argv ! 9) version ram payload) \<and>
    (0 < length payload \<and> length payload < 4294967296 \<and> unat ram \<le> image_ram_max E \<longrightarrow>
       image_ok E (package sy (argv ! 9) version ram payload))"
proof -
  obtain vb vn sy ram payload where
    i: "read_file (argv ! 3) h = Some payload" "read_symbols_from_map (argv ! 5) h = Some sy"
      "validate_symbols sy = Some ram"
    and w: "write_outputs argv sy (build_header sy (argv ! 9) (take 63 (vb @ ''+'' @ vn)) ram
      (of_nat (length payload)) (crc32_update 0 payload)) payload h = (True, h')"
    using assms(1-3)
    by (auto simp: tool_main_def Let_def split: option.splits prod.splits if_splits)
  have "files h' (argv ! 6) = Some (package sy (argv ! 9) (take 63 (vb @ ''+'' @ vn)) ram payload)"
    unfolding package_def by (rule write_outputs_complete [OF w _ assms(4,5)]) simp
  moreover have "image_ok E (package sy (argv ! 9) (take 63 (vb @ ''+'' @ vn)) ram payload)"
    if "0 < length payload" "length payload < 4294967296" "unat ram \<le> image_ram_max E"
    using image_ok_package [OF assms(6) that(1,2) refl] that(3) by (simp add: package_def)
  ultimately show ?thesis using i by blast
qed

lemma demo_run_ok: "\<exists>h'. tool_main demo_argv demo_build = (0, h')"
  using write_outputs_stores [of demo_build demo_argv]
  by (simp add: tool_main_def demo_argv_def demo_reads demo_symbols_valid Let_def)

theorem tool_success_means_written_witness:
  "\<exists>h' file. tool_main demo_argv demo_build = (0, h') \<and> files h' ''app.signed.bin'' = Some file"
proof -
  obtain h' where h': "tool_main demo_argv demo_build = (0, h')" using demo_run_ok by blast
  show ?thesis using tool_success_means_written [OF h' _ _ _ _ tool_env_laws(3)] h'
    by (auto simp: demo_argv_def)
qed

text \<open>Bad inputs change nothing.  A disabled package exits with 0, a wrong argument count with 2,
  and a missing version, map, valid symbol set or payload with 1, each without touching a file.\<close>

theorem tool_bad_input_untouched:
  "(length argv \<notin> {12, 13, 14, 15} \<longrightarrow> tool_main argv h = (2, h)) \<and>
   (length argv \<in> {12, 13, 14, 15} \<longrightarrow>
      (argv ! 1 \<notin> {''true'', ''1'', ''yes'', ''on''} \<longrightarrow> tool_main argv h = (0, h)) \<and>
      (argv ! 1 \<in> {''true'', ''1'', ''yes'', ''on''} \<longrightarrow>
        read_text_or_literal (argv ! 10) 32 h = None \<or> read_text_or_literal (argv ! 11) 32 h = None \<or>
        Option.bind (read_symbols_from_map (argv ! 5) h) validate_symbols = None \<or>
        read_file (argv ! 3) h = None \<longrightarrow> tool_main argv h = (1, h)))"
  by (auto simp: tool_main_def Let_def split: option.splits)

theorem tool_bad_input_untouched_witness:
  "tool_main [''pack''] demo_build = (2, demo_build)"
  using tool_bad_input_untouched [of "[''pack'']" demo_build] by simp

text \<open>Exporting a file into its own directory empties it.  The destination is then the file
  itself, which is truncated before it is read, and the export reports success.\<close>

theorem export_onto_itself_erases:
  assumes "join_path 1024 dir (base_name p) = Some p" "opens_r h p" "opens_w h p" "\<not> read_error h p"
    and "files h p = Some content"
  shows "export_file dir p h = (True, set_file p [] h)"
  using assms
  by (simp add: export_file_def copy_file_def fopen_r_def fopen_w_def PATH_BUFFER_SIZE_def
      set_file_def copy_loop.simps Let_def)

theorem export_onto_itself_erases_witness:
  "export_file ''out'' ''out/a.bin'' (set_file ''out/a.bin'' [1, 2] demo_host) =
     (True, set_file ''out/a.bin'' [] demo_host)"
  using export_onto_itself_erases [of "''out''" "''out/a.bin''" "set_file ''out/a.bin'' [1, 2] demo_host" "[1, 2]"]
  by (simp add: join_path_def base_name_def demo_host_def)

end
