(* ===== verification/Ymodem_Send.thy ===== *)
theory Ymodem_Send
  imports Ymodem Header_Tool "HOL-Library.Sublist"
begin

text \<open>
  The upload tool \<open>system/ymodem_upload.c\<close> (its POSIX half), over a serial port \<open>'p\<close> whose system
  calls are parameters: \<open>open\<close> and the terminal settings, \<open>read\<close> and \<open>write\<close> with their error
  cases, the clock and sleeping.  Files are those of theory \<open>Stdio\<close>; messages are left out.  A
  loop that waits can wait for ever on a stopped clock, so it is a partial function.

  The lemmas show what the tool puts on the line when the receiver answers as the protocol asks:
  exactly the stream that theory \<open>Ymodem\<close> shows to be stored.
\<close>

section \<open>The serial port\<close>

text \<open>The outcomes of \<open>write\<close> and \<open>read\<close>: bytes, \<open>EINTR\<close> (for \<open>read\<close> also \<open>EAGAIN\<close>), an error.\<close>

datatype wrote = Wrote nat | Write_interrupted | Write_failed
datatype got = Got byte | Nothing | Read_interrupted | Read_failed

record 'p tty =
  tty_open :: "string \<Rightarrow> 'p \<Rightarrow> bool \<times> 'p"
  tty_configure :: "int \<Rightarrow> 'p \<Rightarrow> bool \<times> 'p"
  tty_close :: "'p \<Rightarrow> 'p"
  tty_write :: "byte list \<Rightarrow> 'p \<Rightarrow> wrote \<times> 'p"
  tty_read :: "'p \<Rightarrow> got \<times> 'p"
  now_ms :: "'p \<Rightarrow> int \<times> 'p"
  tty_sleep_ms :: "nat \<Rightarrow> 'p \<Rightarrow> 'p"

definition SERIAL_READ_SLICE_MS :: int where [layout_defs]: "SERIAL_READ_SLICE_MS = 20"
definition READY_TIMEOUT_MS :: int where [layout_defs]: "READY_TIMEOUT_MS = 15000"
definition PACKET_TIMEOUT_MS :: int where [layout_defs]: "PACKET_TIMEOUT_MS = 10000"
definition FINAL_TIMEOUT_MS :: int where [layout_defs]: "FINAL_TIMEOUT_MS = 1500"

definition serial_open :: "'p tty \<Rightarrow> string \<Rightarrow> int \<Rightarrow> 'p \<Rightarrow> bool \<times> 'p" where
  "serial_open P port baud p =
     (let (opened, p) = tty_open P port p
      in if \<not> opened then (False, p)
      else if baud \<notin> {9600, 57600, 115200, 230400} then (False, tty_close P p)
      else
        let (configured, p) = tty_configure P baud p
        in if \<not> configured then (False, tty_close P p) else (True, p))"

partial_function (option) serial_write_all :: "'p tty \<Rightarrow> byte list \<Rightarrow> 'p \<Rightarrow> (bool \<times> 'p) option" where
  "serial_write_all P bs p =
     (if bs = [] then Some (True, p)
      else
        let (written, p) = tty_write P bs p
        in case written of
             Write_interrupted \<Rightarrow> serial_write_all P bs p
           | Write_failed \<Rightarrow> Some (False, p)
           | Wrote n \<Rightarrow> if n = 0 then Some (False, p) else serial_write_all P (drop n bs) p)"

partial_function (option) tty_read_loop :: "'p tty \<Rightarrow> int \<Rightarrow> 'p \<Rightarrow> (byte option \<times> 'p) option" where
  "tty_read_loop P deadline p =
     (let (now, p) = now_ms P p
      in if now < deadline then
           let (r, p) = tty_read P p
           in case r of
                Got b \<Rightarrow> Some (Some b, p)
              | Read_failed \<Rightarrow> Some (None, p)
              | _ \<Rightarrow> tty_read_loop P deadline (tty_sleep_ms P 1 p)
         else Some (None, p))"

definition serial_read_byte :: "'p tty \<Rightarrow> int \<Rightarrow> 'p \<Rightarrow> (byte option \<times> 'p) option" where
  "serial_read_byte P timeout_ms p =
     (let (now, p) = now_ms P p in tty_read_loop P (now + timeout_ms) p)"

partial_function (option) serial_drain :: "'p tty \<Rightarrow> 'p \<Rightarrow> 'p option" where
  "serial_drain P p = do {
     (r, p) \<leftarrow> serial_read_byte P 20 p;
     if r \<noteq> None then serial_drain P p else Some p
   }"

section \<open>Waiting for the receiver\<close>

partial_function (option) wait_byte_loop :: "'p tty \<Rightarrow> byte \<Rightarrow> int \<Rightarrow> 'p \<Rightarrow> (bool \<times> 'p) option" where
  "wait_byte_loop P expected deadline p =
     (let (now, p) = now_ms P p
      in if now < deadline then do {
           (r, p) \<leftarrow> serial_read_byte P SERIAL_READ_SLICE_MS p;
           case r of
             None \<Rightarrow> wait_byte_loop P expected deadline p
           | Some b \<Rightarrow>
               if b = expected then Some (True, p)
               else if b = YMODEM_CAN then Some (False, p)
               else wait_byte_loop P expected deadline p
         } else Some (False, p))"

definition wait_byte :: "'p tty \<Rightarrow> byte \<Rightarrow> int \<Rightarrow> 'p \<Rightarrow> (bool \<times> 'p) option" where
  "wait_byte P expected timeout_ms p =
     (let (now, p) = now_ms P p in wait_byte_loop P expected (now + timeout_ms) p)"

text \<open>The text window: the last \<open>sz - 1\<close> bytes, searched as a C string.\<close>

definition window_add :: "nat \<Rightarrow> byte \<Rightarrow> byte list \<Rightarrow> byte list" where
  "window_add sz b window =
     (if length window < sz - 1 then window @ [b] else take (sz - 2) (tl window) @ [b])"

definition window_has :: "byte list \<Rightarrow> string \<Rightarrow> bool" where
  "window_has window s \<longleftrightarrow> sublist s (c_string (bytes_text window))"

partial_function (option) wait_ready_loop :: "'p tty \<Rightarrow> byte list \<Rightarrow> int \<Rightarrow> 'p \<Rightarrow> (bool \<times> 'p) option" where
  "wait_ready_loop P window deadline p =
     (let (now, p) = now_ms P p
      in if now < deadline then do {
           (r, p) \<leftarrow> serial_read_byte P SERIAL_READ_SLICE_MS p;
           case r of
             None \<Rightarrow> wait_ready_loop P window deadline p
           | Some b \<Rightarrow>
               if b = YMODEM_CRC then Some (True, p)
               else
                 let window = window_add 96 b window
                 in if window_has window ''ERROR'' then Some (False, p)
                    else wait_ready_loop P window deadline p
         } else Some (False, p))"

definition wait_ready_and_crc :: "'p tty \<Rightarrow> int \<Rightarrow> 'p \<Rightarrow> (bool \<times> 'p) option" where
  "wait_ready_and_crc P timeout_ms p =
     (let (now, p) = now_ms P p in wait_ready_loop P [] (now + timeout_ms) p)"

partial_function (option) wait_final_loop :: "'p tty \<Rightarrow> byte list \<Rightarrow> int \<Rightarrow> 'p \<Rightarrow> (bool \<times> 'p) option" where
  "wait_final_loop P window deadline p =
     (let (now, p) = now_ms P p
      in if now < deadline then do {
           (r, p) \<leftarrow> serial_read_byte P SERIAL_READ_SLICE_MS p;
           case r of
             None \<Rightarrow> wait_final_loop P window deadline p
           | Some b \<Rightarrow>
               let window = window_add 160 b window
               in if window_has window ''MODULE STAGED'' \<or> window_has window ''IMAGE ACCEPTED'' \<or>
                     window_has window ''PATCH STAGED'' then Some (True, p)
                  else if window_has window ''ERROR'' then Some (False, p)
                  else wait_final_loop P window deadline p
         } else Some (True, p))"

definition wait_final_status :: "'p tty \<Rightarrow> int \<Rightarrow> 'p \<Rightarrow> (bool \<times> 'p) option" where
  "wait_final_status P timeout_ms p =
     (let (now, p) = now_ms P p in wait_final_loop P [] (now + timeout_ms) p)"

section \<open>Sending\<close>

text \<open>Actions in sequence until one fails: the conditions \<open>a != 0 || b != 0 || ...\<close>.\<close>

fun all_ok :: "('p \<Rightarrow> (bool \<times> 'p) option) list \<Rightarrow> 'p \<Rightarrow> (bool \<times> 'p) option" where
  "all_ok [] p = Some (True, p)"
| "all_ok (a # as) p = do {
     (success, p) \<leftarrow> a p;
     if success then all_ok as p else Some (False, p)
   }"

text \<open>\<open>crc16_xmodem\<close> has the text of \<open>ymodem_crc16\<close>.\<close>

definition crc16_xmodem :: "byte list \<Rightarrow> 16 word" where
  "crc16_xmodem data = foldl crc16_byte 0 data"

definition send_packet :: "'p tty \<Rightarrow> byte \<Rightarrow> byte \<Rightarrow> byte list \<Rightarrow> 'p \<Rightarrow> (bool \<times> 'p) option" where
  "send_packet P start block_no bs =
     (let crc = crc16_xmodem bs
      in all_ok [serial_write_all P [start, block_no, NOT block_no], serial_write_all P bs,
                 serial_write_all P [ucast (drop_bit 8 crc), ucast crc]])"

text \<open>\<open>%lu\<close>.\<close>

fun decimal :: "nat \<Rightarrow> string" where
  "decimal n = (if n < 10 then [char_of (48 + n)] else decimal (n div 10) @ [char_of (48 + n mod 10)])"

declare decimal.simps [simp del]

text \<open>The 128-byte block 0, as \<open>snprintf\<close> leaves it in the cleared packet.\<close>

definition metadata_block :: "string \<Rightarrow> nat \<Rightarrow> byte list" where
  "metadata_block path sz =
     (let text = take 127 (chars (base_name path) @ [0] @ chars (decimal sz))
      in text @ replicate (128 - length text) 0)"

function send_blocks :: "'p tty \<Rightarrow> byte \<Rightarrow> byte list \<Rightarrow> 'p \<Rightarrow> (bool \<times> 'p) option" where
  "send_blocks P block_no rest p =
     (if rest = [] then Some (True, p)
      else do {
        let chunk = min (length rest) YMODEM_BLOCK_1024;
        let packet = take chunk rest @ replicate (YMODEM_BLOCK_1024 - chunk) 0x1a;
        (success, p) \<leftarrow> all_ok [send_packet P YMODEM_STX block_no packet,
                              wait_byte P YMODEM_ACK PACKET_TIMEOUT_MS] p;
        if success then send_blocks P (block_no + 1) (drop chunk rest) p else Some (False, p)
      })"
  by auto
termination
  by (relation "measure (\<lambda>(P, block_no, rest, p). length rest)") (auto simp: YMODEM_BLOCK_1024_def min_def)

declare send_blocks.simps [simp del]

definition send_ymodem :: "'p tty \<Rightarrow> string \<Rightarrow> byte list \<Rightarrow> 'p \<Rightarrow> (bool \<times> 'p) option" where
  "send_ymodem P path data =
     all_ok [send_packet P YMODEM_SOH 0 (metadata_block path (length data)),
             wait_byte P YMODEM_ACK PACKET_TIMEOUT_MS, wait_byte P YMODEM_CRC PACKET_TIMEOUT_MS,
             send_blocks P 1 data,
             serial_write_all P [YMODEM_EOT], wait_byte P YMODEM_NAK PACKET_TIMEOUT_MS,
             serial_write_all P [YMODEM_EOT], wait_byte P YMODEM_ACK PACKET_TIMEOUT_MS,
             wait_byte P YMODEM_CRC PACKET_TIMEOUT_MS,
             send_packet P YMODEM_SOH 0 (replicate 128 0), wait_byte P YMODEM_ACK PACKET_TIMEOUT_MS]"

section \<open>Main\<close>

definition upload_read_file :: "string \<Rightarrow> host \<Rightarrow> byte list option" where
  "upload_read_file path h =
     (case fopen_r path h of
        None \<Rightarrow> None
      | Some content \<Rightarrow>
          if content = [] then None
          else if \<not> malloc_ok h (length content) then None
          else if read_error h path then None else Some content)"

text \<open>\<open>atoi\<close>, for values that an \<open>int\<close> holds.\<close>

definition atoi :: "string \<Rightarrow> int" where
  "atoi s =
     (let s = skip_spaces s;
          neg = (s \<noteq> [] \<and> hd s = CHR ''-'');
          s = (if s \<noteq> [] \<and> (hd s = CHR ''-'' \<or> hd s = CHR ''+'') then tl s else s);
          v = foldl (\<lambda>a c. 10 * a + (of_char c - 48)) 0
                (takeWhile (\<lambda>c. of_char c \<in> {48..57 :: nat}) s)
      in if neg then - int v else int v)"

definition lift :: "('p \<Rightarrow> 'p option) \<Rightarrow> 'p \<Rightarrow> (bool \<times> 'p) option" where
  "lift f p = map_option (\<lambda>p. (True, p)) (f p)"

definition upload_main :: "'p tty \<Rightarrow> host \<Rightarrow> string list \<Rightarrow> 'p \<Rightarrow> (int \<times> 'p) option" where
  "upload_main P h argv p =
     (let argc = length argv
      in if argc < 4 \<or> 5 < argc then Some (2, p)
      else
        let port = argv ! 1; baud = atoi (argv ! 2); image_path = argv ! 3;
            command = (if argc = 5 then argv ! 4 else ''@RTBUS:DFU=APP'' @ [CHR 0x0D, CHR 0x0A])
        in case upload_read_file image_path h of
             None \<Rightarrow> Some (1, p)
           | Some img \<Rightarrow>
               let (opened, p) = serial_open P port baud p
               in if \<not> opened then Some (1, p)
               else do {
                 (success, p) \<leftarrow> all_ok
                   [lift (serial_drain P), serial_write_all P [0x0D, 0x0A],
                    (\<lambda>p. Some (True, tty_sleep_ms P 100 p)), lift (serial_drain P),
                    serial_write_all P (chars command),
                    wait_ready_and_crc P READY_TIMEOUT_MS, send_ymodem P image_path img,
                    wait_final_status P FINAL_TIMEOUT_MS] p;
                 Some (if success then 0 else 1, tty_close P p)
               })"

section \<open>The metadata block\<close>

definition digit_char :: "nat \<Rightarrow> char" where
  "digit_char d = char_of (48 + d)"

lemma decimal_unfold:
  "decimal n = (if n < 10 then [digit_char n] else decimal (n div 10) @ [digit_char (n mod 10)])"
  by (subst decimal.simps) (simp add: digit_char_def)

lemma of_char_digit: "d < 10 \<Longrightarrow> (of_char (digit_char d) :: byte) = of_nat (48 + d)"
proof -
  assume "d < 10"
  then have "(of_char (digit_char d) :: nat) = 48 + d" by (simp add: digit_char_def)
  then have "(of_nat (of_char (digit_char d)) :: byte) = of_nat (48 + d)" by simp
  then show ?thesis by (simp only: of_nat_of_char)
qed

lemma digit_byte:
  assumes "d < 10"
  shows "is_digit10 (of_char (digit_char d))" "unat (of_char (digit_char d) :: byte) = 48 + d"
proof -
  have "unat (of_nat (48 + d) :: byte) = 48 + d" using assms by (simp add: unat_of_nat del: of_nat_add)
  then show u: "unat (of_char (digit_char d) :: byte) = 48 + d"
    by (simp only: of_char_digit [OF assms])
  show "is_digit10 (of_char (digit_char d))"
    using u assms by (simp add: is_digit10_def word_le_nat_alt)
qed

lemma decimal_digits: "b \<in> set (chars (decimal n)) \<Longrightarrow> is_digit10 b"
proof (induction n rule: decimal.induct)
  case (1 n)
  then show ?case
    by (subst (asm) (2) decimal_unfold) (auto simp: chars_def digit_byte split: if_splits)
qed

lemma decimal_value: "foldl (\<lambda>a b. 10 * a + (unat b - 48)) 0 (chars (decimal n)) = n"
proof (induction n rule: decimal.induct)
  case (1 n)
  then show ?case
    by (subst decimal_unfold) (auto simp: chars_def digit_byte simp del: unat_of_char)
qed

lemma decimal_not_Nil: "decimal n \<noteq> []"
  by (subst decimal_unfold) simp

lemma strtoul10_decimal:
  assumes "n < 4294967296"
  shows "strtoul10 (chars (decimal n) @ 0 # r) = n"
proof -
  obtain c cs where c: "chars (decimal n) = c # cs"
    using decimal_not_Nil [of n] by (cases "decimal n") (auto simp: chars_def)
  have dig: "is_digit10 c" using decimal_digits [of c n] c by simp
  then have "48 \<le> unat c" "unat c \<le> 57" by (simp_all add: is_digit10_def word_le_nat_alt)
  then have hd: "\<not> is_blank c" "c \<noteq> 45" "c \<noteq> 43" by (auto simp: is_blank_def word_le_nat_alt)
  have "takeWhile is_digit10 (chars (decimal n) @ 0 # r) = chars (decimal n)"
    using decimal_digits by (subst takeWhile_append2) (auto simp: is_digit10_def)
  then show ?thesis using assms hd decimal_value [of n] c
    by (simp add: strtoul10_def)
qed

lemma length_metadata_block [simp]: "length (metadata_block path n) = 128"
  by (simp add: metadata_block_def Let_def min_def)

lemma chars_nonzero: "c \<noteq> CHR 0x00 \<Longrightarrow> of_char c \<noteq> (0 :: byte)"
proof
  assume c: "c \<noteq> CHR 0x00" "of_char c = (0 :: byte)"
  then have "unat (of_char c :: byte) = 0" by simp
  then have "(of_char c :: nat) = 0" by (simp only: unat_of_char)
  then have "char_of (of_char c :: nat) = char_of (0 :: nat)" by simp
  then have "c = char_of (0 :: nat)" by simp
  also have "\<dots> = CHR 0x00" by (simp add: char_of_def)
  finally show False using c by simp
qed

lemma metadata_size:
  assumes "\<forall>c \<in> set (base_name path). c \<noteq> CHR 0x00"
    and "length (base_name path) + 1 + length (decimal n) \<le> 127" "n < 4294967296"
  shows "ymodem_parse_file_size (metadata_block path n) = n"
proof -
  let ?name = "chars (base_name path)" and ?num = "chars (decimal n)"
  have len: "length (?name @ [0] @ ?num) \<le> 127" using assms(2) by simp
  define k where "k = 128 - length (?name @ [0] @ ?num)"
  have "0 < k" using len by (simp add: k_def)
  then obtain j where j: "k = Suc j" by (cases k) auto
  have block: "metadata_block path n = ?name @ 0 # ?num @ 0 # replicate j 0"
    using len j by (simp add: metadata_block_def Let_def k_def)
  have "b \<noteq> 0" if "b \<in> set ?name" for b
    using that assms(1) chars_nonzero by (auto simp: chars_def)
  then have "takeWhile (\<lambda>b. b \<noteq> 0) (?name @ 0 # ?num @ 0 # replicate j 0) = ?name"
    by (subst takeWhile_append2) auto
  moreover have "?num \<noteq> []" "hd ?num \<noteq> 0"
    using decimal_not_Nil [of n] decimal_digits [of 0 n] by (cases "decimal n"; force simp: chars_def is_digit10_def)+
  ultimately show ?thesis
    using strtoul10_decimal [OF assms(3)]
    by (simp add: ymodem_parse_file_size_def Let_def block nth_append hd_conv_nth decimal_not_Nil)
qed

section \<open>A port with a receiver that answers\<close>

text \<open>Reads return the next answer, writes may be short, and only sleeping takes time.\<close>

definition ideal_tty ::
    "'p tty \<Rightarrow> ('p \<Rightarrow> byte list) \<Rightarrow> ('p \<Rightarrow> byte list) \<Rightarrow> ('p \<Rightarrow> int) \<Rightarrow> bool" where
  "ideal_tty P inp out clk \<longleftrightarrow>
     (\<forall>bs p. bs \<noteq> [] \<longrightarrow> (\<exists>n p'. tty_write P bs p = (Wrote n, p') \<and> 0 < n \<and> n \<le> length bs \<and>
        out p' = out p @ take n bs \<and> inp p' = inp p \<and> clk p' = clk p)) \<and>
     (\<forall>p b r. inp p = b # r \<longrightarrow> (\<exists>p'. tty_read P p = (Got b, p') \<and> inp p' = r \<and> out p' = out p \<and> clk p' = clk p)) \<and>
     (\<forall>p. \<exists>p'. now_ms P p = (clk p, p') \<and> inp p' = inp p \<and> out p' = out p \<and> clk p' = clk p)"

lemma now_tty:
  assumes "ideal_tty P inp out clk"
  shows "\<exists>p'. now_ms P p = (clk p, p') \<and> inp p' = inp p \<and> out p' = out p \<and> clk p' = clk p"
  using assms unfolding ideal_tty_def by blast

lemma write_all_tty:
  assumes P: "ideal_tty P inp out clk"
  shows "\<exists>p'. serial_write_all P bs p = Some (True, p') \<and> out p' = out p @ bs \<and> inp p' = inp p \<and> clk p' = clk p"
proof (induction "length bs" arbitrary: bs p rule: less_induct)
  case less
  show ?case
  proof (cases "bs = []")
    case True
    then show ?thesis by (subst serial_write_all.simps) simp
  next
    case False
    then obtain n p1 where n: "tty_write P bs p = (Wrote n, p1)" "0 < n" "n \<le> length bs"
      "out p1 = out p @ take n bs" "inp p1 = inp p" "clk p1 = clk p"
      using P unfolding ideal_tty_def by blast
    have "length (drop n bs) < length bs" using n(2,3) by simp
    from less.hyps [OF this, of p1] obtain p' where
      "serial_write_all P (drop n bs) p1 = Some (True, p')" "out p' = out p1 @ drop n bs"
      "inp p' = inp p1" "clk p' = clk p1" by blast
    then show ?thesis using n False by (subst serial_write_all.simps) (simp add: Let_def)
  qed
qed

lemma read_tty:
  assumes P: "ideal_tty P inp out clk" and p: "inp p = b # r" "0 < t"
  shows "\<exists>p'. serial_read_byte P t p = Some (Some b, p') \<and> inp p' = r \<and> out p' = out p \<and> clk p' = clk p"
proof -
  obtain p1 where p1: "now_ms P p = (clk p, p1)" "inp p1 = inp p" "out p1 = out p" "clk p1 = clk p"
    using now_tty [OF P, of p] by (elim exE conjE)
  obtain p2 where p2: "now_ms P p1 = (clk p1, p2)" "inp p2 = inp p1" "out p2 = out p1" "clk p2 = clk p1"
    using now_tty [OF P, of p1] by (elim exE conjE)
  obtain p3 where p3: "tty_read P p2 = (Got b, p3)" "inp p3 = r" "out p3 = out p2" "clk p3 = clk p2"
    using P p p1 p2 unfolding ideal_tty_def by metis
  have "tty_read_loop P (clk p + t) p1 = Some (Some b, p3)"
    apply (subst tty_read_loop.simps)
    using p1 p2 p3 p by simp
  then show ?thesis using p1 p2 p3 by (simp add: serial_read_byte_def)
qed

lemma wait_byte_tty:
  assumes P: "ideal_tty P inp out clk" and p: "inp p = b # r" "0 < t"
  shows "\<exists>p'. wait_byte P b t p = Some (True, p') \<and> inp p' = r \<and> out p' = out p \<and> clk p' = clk p"
proof -
  obtain p1 where p1: "now_ms P p = (clk p, p1)" "inp p1 = inp p" "out p1 = out p" "clk p1 = clk p"
    using now_tty [OF P, of p] by (elim exE conjE)
  obtain p2 where p2: "now_ms P p1 = (clk p1, p2)" "inp p2 = inp p1" "out p2 = out p1" "clk p2 = clk p1"
    using now_tty [OF P, of p1] by (elim exE conjE)
  obtain p3 where p3: "serial_read_byte P SERIAL_READ_SLICE_MS p2 = Some (Some b, p3)" "inp p3 = r"
    "out p3 = out p2" "clk p3 = clk p2"
    using read_tty [OF P, of p2 b r SERIAL_READ_SLICE_MS] p p1 p2 by (auto simp: SERIAL_READ_SLICE_MS_def)
  have "wait_byte_loop P b (clk p + t) p1 = Some (True, p3)"
    apply (subst wait_byte_loop.simps)
    using p1 p2 p3 p by simp
  then show ?thesis using p1 p2 p3 by (simp add: wait_byte_def)
qed

text \<open>An action that succeeds, sends \<open>bs\<close> and takes the answers \<open>rs\<close>.\<close>

definition does ::
    "('p \<Rightarrow> byte list) \<Rightarrow> ('p \<Rightarrow> byte list) \<Rightarrow> ('p \<Rightarrow> int) \<Rightarrow> byte list \<Rightarrow> byte list \<Rightarrow>
     ('p \<Rightarrow> (bool \<times> 'p) option) \<Rightarrow> bool" where
  "does inp out clk bs rs a \<longleftrightarrow>
     (\<forall>p r. inp p = rs @ r \<longrightarrow>
        (\<exists>p'. a p = Some (True, p') \<and> inp p' = r \<and> out p' = out p @ bs \<and> clk p' = clk p))"

lemma doesI:
  "(\<And>p r. inp p = rs @ r \<Longrightarrow> \<exists>p'. a p = Some (True, p') \<and> inp p' = r \<and> out p' = out p @ bs \<and> clk p' = clk p) \<Longrightarrow>
   does inp out clk bs rs a"
  by (simp add: does_def)

lemma does_Nil: "does inp out clk [] [] (all_ok [])"
  by (simp add: does_def)

lemma does_Cons:
  assumes "does inp out clk bs rs a" "does inp out clk bs' rs' (all_ok as)"
  shows "does inp out clk (bs @ bs') (rs @ rs') (all_ok (a # as))"
proof (rule doesI)
  fix p r
  assume "inp p = (rs @ rs') @ r"
  then obtain p1 where p1: "a p = Some (True, p1)" "inp p1 = rs' @ r" "out p1 = out p @ bs" "clk p1 = clk p"
    using assms(1) unfolding does_def by (metis append_assoc)
  then obtain p2 where "all_ok as p1 = Some (True, p2)" "inp p2 = r" "out p2 = out p1 @ bs'" "clk p2 = clk p1"
    using assms(2) unfolding does_def by metis
  then show "\<exists>p'. all_ok (a # as) p = Some (True, p') \<and> inp p' = r \<and> out p' = out p @ bs @ bs' \<and> clk p' = clk p"
    using p1 by simp
qed

lemma does_write: "ideal_tty P inp out clk \<Longrightarrow> does inp out clk bs [] (serial_write_all P bs)"
  using write_all_tty by (fastforce simp: does_def)

lemma does_wait:
  assumes "ideal_tty P inp out clk"
  shows "does inp out clk [] [b] (wait_byte P b PACKET_TIMEOUT_MS)"
proof (rule doesI)
  fix p r
  assume "inp p = [b] @ r"
  then show "\<exists>p'. wait_byte P b PACKET_TIMEOUT_MS p = Some (True, p') \<and> inp p' = r \<and> out p' = out p @ [] \<and> clk p' = clk p"
    using wait_byte_tty [OF assms, of p b r PACKET_TIMEOUT_MS] by (simp add: PACKET_TIMEOUT_MS_def)
qed

lemma does_packet:
  assumes "ideal_tty P inp out clk"
  shows "does inp out clk (start # packet_body n bs) [] (send_packet P start n bs)"
proof -
  note w = does_write [OF assms]
  from does_Cons [OF w [of "[start, n, NOT n]"] does_Cons [OF w [of bs]
      does_Cons [OF w [of "[ucast (drop_bit 8 (crc16_xmodem bs)), ucast (crc16_xmodem bs)]"] does_Nil]]]
  show ?thesis by (simp add: send_packet_def packet_body_def crc16_xmodem_def ymodem_crc16_def Let_def)
qed

lemma does_blocks:
  assumes P: "ideal_tty P inp out clk"
  shows "does inp out clk (data_packets n (blocks d)) (replicate (length (blocks d)) YMODEM_ACK) (send_blocks P n d)"
proof (induction d arbitrary: n rule: blocks.induct)
  case (1 d)
  show ?case
  proof (cases "d = []")
    case True
    then show ?thesis by (simp add: does_def blocks.simps send_blocks.simps)
  next
    case False
    let ?pkt = "take (min (length d) YMODEM_BLOCK_1024) d @
      replicate (YMODEM_BLOCK_1024 - min (length d) YMODEM_BLOCK_1024) 0x1a"
    have pkt: "?pkt = pad (take 1024 d)" by (simp add: pad_def YMODEM_BLOCK_1024_def min_def)
    have dr: "drop (min (length d) YMODEM_BLOCK_1024) d = drop 1024 d" by (simp add: YMODEM_BLOCK_1024_def min_def)
    note first = does_Cons [OF does_packet [OF P, of YMODEM_STX n ?pkt]
        does_Cons [OF does_wait [OF P, of YMODEM_ACK] does_Nil]]
    show ?thesis
    proof (rule doesI)
      fix p r
      assume i: "inp p = replicate (length (blocks d)) YMODEM_ACK @ r"
      have bl: "blocks d = take 1024 d # blocks (drop 1024 d)" using False by (subst blocks.simps) simp
      obtain p1 where p1: "all_ok [send_packet P YMODEM_STX n ?pkt, wait_byte P YMODEM_ACK PACKET_TIMEOUT_MS] p =
          Some (True, p1)" "inp p1 = replicate (length (blocks (drop 1024 d))) YMODEM_ACK @ r"
        "out p1 = out p @ YMODEM_STX # packet_body n ?pkt" "clk p1 = clk p"
        using first i unfolding does_def bl by fastforce
      obtain p2 where p2: "send_blocks P (n + 1) (drop 1024 d) p1 = Some (True, p2)" "inp p2 = r"
        "out p2 = out p1 @ data_packets (n + 1) (blocks (drop 1024 d))" "clk p2 = clk p1"
        using 1 [OF False, of "n + 1"] p1(2) unfolding does_def by metis
      have "send_blocks P n d p = Some (True, p2)"
        using False p1(1) p2(1) by (subst send_blocks.simps) (simp only: Let_def dr if_False bind.bind_lunit prod.case if_True)
      then show "\<exists>p'. send_blocks P n d p = Some (True, p') \<and> inp p' = r \<and>
          out p' = out p @ data_packets n (blocks d) \<and> clk p' = clk p"
        using p1 p2 by (simp add: bl pkt)
    qed
  qed
qed

lemma does_send_ymodem:
  assumes P: "ideal_tty P inp out clk"
  shows "does inp out clk (ymodem_stream (metadata_block path (length d)) d) (tl (ymodem_replies d)) (send_ymodem P path d)"
proof -
  note c = does_Cons and w = does_wait [OF P] and pk = does_packet [OF P] and wr = does_write [OF P]
  from c [OF pk [of YMODEM_SOH 0 "metadata_block path (length d)"]
      c [OF w [of YMODEM_ACK] c [OF w [of YMODEM_CRC] c [OF does_blocks [OF P, of 1 d]
      c [OF wr [of "[YMODEM_EOT]"] c [OF w [of YMODEM_NAK] c [OF wr [of "[YMODEM_EOT]"]
      c [OF w [of YMODEM_ACK] c [OF w [of YMODEM_CRC] c [OF pk [of YMODEM_SOH 0 "replicate 128 0"]
      c [OF w [of YMODEM_ACK] does_Nil]]]]]]]]]]]
  show ?thesis by (simp add: send_ymodem_def ymodem_stream_def ymodem_replies_def closing_def)
qed

section \<open>Properties\<close>

definition demo_tty :: "(byte list \<times> byte list) tty" where
  "demo_tty = \<lparr>tty_open = (\<lambda>_ p. (True, p)), tty_configure = (\<lambda>_ p. (True, p)), tty_close = (\<lambda>p. p),
     tty_write = (\<lambda>bs (i, q). (Wrote 1, (i, q @ take 1 bs))),
     tty_read = (\<lambda>(i, q). (case i of [] \<Rightarrow> (Nothing, (i, q)) | b # r \<Rightarrow> (Got b, (r, q)))),
     now_ms = (\<lambda>p. (0, p)), tty_sleep_ms = (\<lambda>_ p. p)\<rparr>"

lemma demo_tty_ideal: "ideal_tty demo_tty fst snd (\<lambda>_. 0)"
proof -
  have "\<exists>n p'. tty_write demo_tty bs p = (Wrote n, p') \<and> 0 < n \<and> n \<le> length bs \<and>
      snd p' = snd p @ take n bs \<and> fst p' = fst p" if "bs \<noteq> []" for bs p
    using that by (intro exI [of _ 1] exI [of _ "(fst p, snd p @ take 1 bs)"])
      (cases bs; simp add: demo_tty_def split: prod.split)
  then show ?thesis by (auto simp: ideal_tty_def) (auto simp: demo_tty_def split: prod.split)
qed

text \<open>C9: the uploader sends exactly the stream that the receiver stores.  When the answers are those of
  a receiver that accepts the file, the tool succeeds, has taken every answer and has written the
  metadata block, the numbered and padded data blocks, the end marks and the closing block, also
  when the system stores its writes piecemeal.\<close>

theorem uploader_sends_stream:
  assumes "ideal_tty P inp out clk" "inp p = tl (ymodem_replies d) @ r"
  shows "\<exists>p'. send_ymodem P path d p = Some (True, p') \<and> inp p' = r \<and>
    out p' = out p @ ymodem_stream (metadata_block path (length d)) d"
  using does_send_ymodem [OF assms(1), of path d] assms(2) unfolding does_def by blast

theorem uploader_sends_stream_witness:
  "\<exists>p'. send_ymodem demo_tty ''out/app.bin'' demo_file (tl (ymodem_replies demo_file), []) = Some (True, p') \<and>
     p' = ([], ymodem_stream (metadata_block ''out/app.bin'' 129) demo_file)"
  using uploader_sends_stream [OF demo_tty_ideal, of "(tl (ymodem_replies demo_file), [])" demo_file "[]" "''out/app.bin''"]
  by (auto simp: demo_file_facts(1))

text \<open>The receiver reads the size that the uploader announces, as long as the file's name and the
  size fit the 128-byte block.\<close>

theorem announced_size_is_read:
  assumes "\<forall>c \<in> set (base_name path). c \<noteq> CHR 0x00"
    and "length (base_name path) + 1 + length (decimal n) \<le> 127" "n < 4294967296"
  shows "ymodem_parse_file_size (metadata_block path n) = n"
  using metadata_size [OF assms] .

theorem announced_size_is_read_witness:
  "ymodem_parse_file_size (metadata_block ''out/app.bin'' 129) = 129"
  by (rule announced_size_is_read) (simp_all add: base_name_def decimal.simps)

text \<open>A long name loses the size.  With a file name of 127 characters or more the block has no room
  for the size; the receiver reads 0 and gives the transfer up.\<close>

theorem long_name_loses_size:
  assumes "127 \<le> length (base_name path)" "\<forall>c \<in> set (base_name path). c \<noteq> CHR 0x00"
  shows "ymodem_parse_file_size (metadata_block path n) = 0"
proof -
  have "metadata_block path n = chars (take 127 (base_name path)) @ [0]"
    using assms(1) by (simp add: metadata_block_def Let_def chars_def take_map)
  moreover have "takeWhile (\<lambda>b. b \<noteq> 0) (chars (take 127 (base_name path)) @ [0]) =
      chars (take 127 (base_name path))"
  proof -
    have "b \<noteq> 0" if b: "b \<in> set (chars (take 127 (base_name path)))" for b
    proof -
      obtain c where "c \<in> set (take 127 (base_name path))" "b = of_char c"
        using b unfolding chars_def set_map by blast
      then show ?thesis using assms(2) chars_nonzero in_set_takeD by metis
    qed
    then show ?thesis by (subst takeWhile_append2) (assumption | simp only: takeWhile.simps if_False simp_thms append_Nil2)+
  qed
  ultimately show ?thesis
    by (simp add: ymodem_parse_file_size_def Let_def)
qed

theorem long_name_loses_size_witness:
  "ymodem_parse_file_size (metadata_block (replicate 130 CHR ''a'') 129) = 0"
proof -
  have "strrchr (replicate n CHR ''a'') CHR ''/'' = None" "strrchr (replicate n CHR ''a'') CHR 0x5C = None" for n
    by (induction n) auto
  then have "base_name (replicate 130 CHR ''a'') = replicate 130 CHR ''a''" by (simp only: base_name_def) simp
  then show ?thesis by (intro long_name_loses_size) simp_all
qed

end
