(* ===== verification/Native.thy ===== *)
theory Native
  imports Rtbus Image
begin

text \<open>
  The native service, \<open>zephyr/modules/rtbus/services/native_service/\<close>: loading the application
  image from the slot into its RAM, its thread's life (\<open>native_service.c\<close>), the API table
  (\<open>abi.c\<close>) and the posts that the application hands over to the event core (\<open>api.c\<close>).

  The state extends the bus with the statics of \<open>native_service.c\<close>, the memory of the application's
  RAM and the API table (\<open>sram\<close>), and the image store with its flash.  The device tree's addresses
  and the functions' addresses are the record \<open>native_env\<close>; the kernel (clock, sleeping,
  blocking) and the application (its entry point and its event callback) are the records
  \<open>kernel\<close> and \<open>app\<close>: what they do to the state while a step of the service waits for them.
\<close>

section \<open>State\<close>

definition RUNTIME_EVENT_VALUE_MAX :: nat where [layout_defs]: "RUNTIME_EVENT_VALUE_MAX = 256"
definition NATIVE_RTBUS_POST_QUEUE_DEPTH :: nat where [layout_defs]: "NATIVE_RTBUS_POST_QUEUE_DEPTH = 8"
definition NATIVE_RTBUS_POST_PAYLOAD_MAX :: nat where [layout_defs]: "NATIVE_RTBUS_POST_PAYLOAD_MAX = 32"
definition NATIVE_EVENT_QUEUE_DEPTH :: nat where [layout_defs]: "NATIVE_EVENT_QUEUE_DEPTH = 8"
definition NATIVE_UPGRADE_HANDOFF_TIMEOUT_MS :: int where [layout_defs]:
  "NATIVE_UPGRADE_HANDOFF_TIMEOUT_MS = 2000"
definition NATIVE_REQUIRED_ABI_VERSION :: nat where [layout_defs]: "NATIVE_REQUIRED_ABI_VERSION = 12"
definition NATIVE_WAKE_IRQ :: "32 word" where "NATIVE_WAKE_IRQ = 1"
definition NATIVE_WAKE_PROCESS :: "32 word" where "NATIVE_WAKE_PROCESS = 2"
definition NATIVE_WAKE_ALL :: "32 word" where "NATIVE_WAKE_ALL = NATIVE_WAKE_IRQ OR NATIVE_WAKE_PROCESS"

record runtime_event_tlv =
  ev_group :: "16 word"
  ev_tag :: "16 word"
  ev_len :: "16 word"
  ev_flags :: "16 word"
  ev_value :: "byte list"

record native_rtbus_post_msg =
  pm_task_id :: byte
  pm_ctx_id :: "32 word"
  pm_payload_len :: nat
  pm_payload :: "byte list"

text \<open>\<open>native_thread\<close> is \<open>native_thread_id != NULL\<close>; the two counters of the kernel's objects are
  the semaphore's count and the event object's bits.\<close>

record 'f native = rtbus +
  native_thread :: bool
  native_entry :: nat
  patch_handoff :: bool
  last_error :: rc
  console_suppressed :: bool
  api_busy :: int
  post_msgq :: "native_rtbus_post_msg list"
  event_msgq :: "runtime_event_tlv list"
  wake_event :: "32 word"
  result_sem :: nat
  event_callback :: nat
  sram :: mem
  img_store :: "'f store"

record 'f native_env =
  image_of :: "'f image_env"
  NATIVE_RAM_BASE :: nat
  NATIVE_FLASH_BASE :: nat
  NATIVE_API_TABLE_BASE :: nat
  api_function :: "nat \<Rightarrow> nat"

text \<open>\<open>CONFIG_RTBUS_IMAGE_RAM_MAX\<close> is also the image store's limit.\<close>

definition NATIVE_RAM_SIZE :: "'f native_env \<Rightarrow> nat" where
  "NATIVE_RAM_SIZE V = image_ram_max (image_of V)"

record 's kernel =
  k_uptime_get :: "'s \<Rightarrow> int \<times> 's"
  k_sleep_ms :: "int \<Rightarrow> 's \<Rightarrow> 's"
  k_block_ms :: "int \<Rightarrow> 's \<Rightarrow> 's"

record 's app =
  app_entry :: "nat \<Rightarrow> 's \<Rightarrow> 's option"
  app_callback :: "nat \<Rightarrow> runtime_event_tlv \<Rightarrow> 's \<Rightarrow> 's option"

definition k_event_post :: "32 word \<Rightarrow> ('f, 'a) native_scheme \<Rightarrow> ('f, 'a) native_scheme" where
  "k_event_post bits s = s\<lparr>wake_event := wake_event s OR bits\<rparr>"

section \<open>Events for the application\<close>

definition native_service_emit_event ::
    "16 word \<Rightarrow> 16 word \<Rightarrow> byte list option \<Rightarrow> 16 word \<Rightarrow> ('f, 'a) native_scheme \<Rightarrow> rc \<times> ('f, 'a) native_scheme"
  where
  "native_service_emit_event grp tag val len s =
     (if RUNTIME_EVENT_VALUE_MAX < unat len then (Inl EMSGSIZE, s)
      else if len \<noteq> 0 \<and> val = None then (Inl EINVAL, s)
      else
        let zero = replicate RUNTIME_EVENT_VALUE_MAX 0;
            bytes = (case val of
                       None \<Rightarrow> zero
                     | Some v \<Rightarrow> if len \<noteq> 0 then take (unat len) v @ drop (unat len) zero else zero);
            event = \<lparr>ev_group = grp, ev_tag = tag, ev_len = len, ev_flags = 0, ev_value = bytes\<rparr>
        in if length (event_msgq s) < NATIVE_EVENT_QUEUE_DEPTH
           then (ok, k_event_post NATIVE_WAKE_IRQ (s\<lparr>event_msgq := event_msgq s @ [event]\<rparr>))
           else (Inl ENOMSG, s))"

partial_function (option) dispatch_events ::
    "('f, 'a) native_scheme app \<Rightarrow> ('f, 'a) native_scheme \<Rightarrow> ('f, 'a) native_scheme option" where
  "dispatch_events A s =
     (case event_msgq s of
        [] \<Rightarrow> Some s
      | event # rest \<Rightarrow> do {
          let s = s\<lparr>event_msgq := rest\<rparr>;
          s \<leftarrow> (if event_callback s \<noteq> NULL then app_callback A (event_callback s) event s else Some s);
          dispatch_events A s
        })"

section \<open>Results\<close>

definition native_result_addr_valid :: "'f native_env \<Rightarrow> nat \<Rightarrow> bool" where
  "native_result_addr_valid V addr \<longleftrightarrow>
     addr mod 4 = 0 \<and> NATIVE_RAM_BASE V \<le> addr \<and>
     addr \<le> psub (u32 (NATIVE_RAM_BASE V + NATIVE_RAM_SIZE V)) 4"

definition native_service_complete_result ::
    "'f native_env \<Rightarrow> nat \<Rightarrow> 32 word \<Rightarrow> ('f, 'a) native_scheme \<Rightarrow> rc \<times> ('f, 'a) native_scheme" where
  "native_service_complete_result V result_addr result s =
     (if result_addr = 0 then (ok, s)
      else if \<not> native_result_addr_valid V result_addr then (Inl EINVAL, s)
      else
        let s = s\<lparr>sram := st32 (sram s) result_addr (unat result)\<rparr>;
            s = s\<lparr>result_sem := min 1 (result_sem s + 1)\<rparr>
        in (ok, k_event_post NATIVE_WAKE_PROCESS s))"

text \<open>\<open>native_api_result_wait\<close>: taken at once, or the thread blocks (for ever with \<open>RTBUS_WAIT_FOREVER\<close>).\<close>

definition native_api_result_wait :: "32 word \<Rightarrow> ('f, 'a) native_scheme \<Rightarrow> wait \<times> ('f, 'a) native_scheme" where
  "native_api_result_wait timeout_ms s =
     (if 0 < result_sem s then (Taken, s\<lparr>result_sem := result_sem s - 1\<rparr>)
      else (Blocks (if timeout_ms = 0xFFFFFFFF then -1 else uint timeout_ms), s))"

section \<open>Stopping\<close>

definition native_service_suppress_console :: "bool \<Rightarrow> ('f, 'a) native_scheme \<Rightarrow> ('f, 'a) native_scheme" where
  "native_service_suppress_console suppress s = s\<lparr>console_suppressed := suppress\<rparr>"

definition native_service_request_stop_for_upgrade :: "('f, 'a) native_scheme \<Rightarrow> ('f, 'a) native_scheme" where
  "native_service_request_stop_for_upgrade s =
     k_event_post NATIVE_WAKE_PROCESS (native_service_suppress_console True (s\<lparr>patch_handoff := True\<rparr>))"

definition native_service_force_stop_thread :: "('f, 'a) native_scheme \<Rightarrow> ('f, 'a) native_scheme" where
  "native_service_force_stop_thread s =
     s\<lparr>native_thread := False, native_entry := NULL, event_callback := NULL, post_msgq := [],
       event_msgq := [], result_sem := 0, wake_event := wake_event s AND NOT NATIVE_WAKE_ALL\<rparr>"

partial_function (option) handoff_loop ::
    "('f, 'a) native_scheme kernel \<Rightarrow> int \<Rightarrow> ('f, 'a) native_scheme \<Rightarrow> (rc \<times> ('f, 'a) native_scheme) option"
  where
  "handoff_loop K deadline s =
     (if api_busy s = 0 then Some (ok, native_service_force_stop_thread s)
      else
        let (now, s) = k_uptime_get K s
        in if deadline \<le> now then Some (Inl ETIMEDOUT, s) else handoff_loop K deadline (k_sleep_ms K 10 s))"

definition native_service_handoff_ram_for_patch ::
    "('f, 'a) native_scheme kernel \<Rightarrow> ('f, 'a) native_scheme \<Rightarrow> (rc \<times> ('f, 'a) native_scheme) option" where
  "native_service_handoff_ram_for_patch K s =
     (let (now, s) = k_uptime_get K s;
          s = native_service_request_stop_for_upgrade s
      in if \<not> native_thread s then Some (ok, s)
         else handoff_loop K (now + NATIVE_UPGRADE_HANDOFF_TIMEOUT_MS) s)"

definition native_service_stop_for_upgrade ::
    "('f, 'a) native_scheme kernel \<Rightarrow> ('f, 'a) native_scheme \<Rightarrow> (rc \<times> ('f, 'a) native_scheme) option" where
  "native_service_stop_for_upgrade K s = native_service_handoff_ram_for_patch K s"

section \<open>Loading and starting\<close>

definition FLAGS_ABI_VERSION :: "nat \<Rightarrow> nat" where
  "FLAGS_ABI_VERSION flags = drop_bit 24 (flags AND 0xff000000)"

definition native_validate_metadata :: "'f native_env \<Rightarrow> image_status \<Rightarrow> native_metadata \<Rightarrow> rc" where
  "native_validate_metadata V status md =
     (if st_flags status AND IMAGE_FLAG_NATIVE = 0 then Inl ENOTSUP
      else if FLAGS_ABI_VERSION (st_flags status) \<noteq> NATIVE_REQUIRED_ABI_VERSION then Inl EPROTONOSUPPORT
      else if st_payload_size status \<le> entry_offset md \<or> st_payload_size status < data_load_offset md \<or>
              psub (st_payload_size status) (data_load_offset md) < data_size md \<or>
              NATIVE_RAM_SIZE V < data_ram_offset md \<or>
              psub (NATIVE_RAM_SIZE V) (data_ram_offset md) < data_size md \<or>
              NATIVE_RAM_SIZE V < bss_ram_offset md \<or>
              psub (NATIVE_RAM_SIZE V) (bss_ram_offset md) < bss_size md then Inl EINVAL
      else ok)"

text \<open>A payload read that fails is taken to leave the RAM as it was (what a flash driver leaves in the
  buffer then is outside the sources).\<close>

definition native_load :: "'f native_env \<Rightarrow> ('f, 'a) native_scheme \<Rightarrow> rc \<times> ('f, 'a) native_scheme" where
  "native_load V s =
     (let E = image_of V; f = flash (img_store s);
          fail = (\<lambda>e s. (Inl e, s\<lparr>last_error := Inl e\<rparr>))
      in case rtbus_image_get_status E f of
        (Inl e, _) \<Rightarrow> fail e s
      | (Inr _, status) \<Rightarrow>
          (case rtbus_image_get_native_metadata E f of
             Inl e \<Rightarrow> fail e s
           | Inr md \<Rightarrow>
               (case native_validate_metadata V status md of
                  Inl e \<Rightarrow> fail e s
                | Inr _ \<Rightarrow>
                    (case rtbus_image_read_payload E (data_load_offset md) (data_size md) f of
                       Inl e \<Rightarrow> fail e s
                     | Inr bs \<Rightarrow>
                         let s = s\<lparr>sram := wr (sram s) (NATIVE_RAM_BASE V + data_ram_offset md) bs\<rparr>
                         in if length bs \<noteq> data_size md then fail EIO s
                            else
                              let s = s\<lparr>sram := wr (sram s) (NATIVE_RAM_BASE V + bss_ram_offset md)
                                                  (replicate (bss_size md) 0)\<rparr>;
                                  entry_addr = u32 (NATIVE_FLASH_BASE V + IMAGE_HEADER_SIZE + entry_offset md)
                              in (ok, s\<lparr>native_entry := entry_addr OR 1, last_error := ok\<rparr>)))))"

definition RTBUS_API_MAGIC :: nat where [layout_defs]: "RTBUS_API_MAGIC = 0x52544150"
definition RTBUS_API_SLOT_COUNT :: nat where [layout_defs]: "RTBUS_API_SLOT_COUNT = 16"

text \<open>The slots in the order they are filled: magic, version, count, and the functions.\<close>

definition native_api_table_install :: "'f native_env \<Rightarrow> ('f, 'a) native_scheme \<Rightarrow> ('f, 'a) native_scheme" where
  "native_api_table_install V s =
     s\<lparr>sram := foldl (\<lambda>m (slot, v). st32 m (NATIVE_API_TABLE_BASE V + 4 * slot) v) (sram s)
        ([(0, RTBUS_API_MAGIC), (1, NATIVE_REQUIRED_ABI_VERSION), (2, RTBUS_API_SLOT_COUNT)] @
         map (\<lambda>slot. (slot, api_function V slot)) [3, 4, 6, 7, 8, 9, 10, 11, 12, 13, 14, 15])\<rparr>"

definition native_service_start :: "'f native_env \<Rightarrow> ('f, 'a) native_scheme \<Rightarrow> rc \<times> ('f, 'a) native_scheme" where
  "native_service_start V s =
     (if patch_handoff s then (Inl EBUSY, s)
      else if native_thread s then (ok, s)
      else
        let s = native_api_table_install V s;
            (rc, s) = native_load V s
        in if rc \<noteq> ok then (rc, (native_service_force_stop_thread s)\<lparr>last_error := rc\<rparr>)
           else (ok, s\<lparr>native_thread := True\<rparr>))"

definition native_service_resume_after_upgrade ::
    "'f native_env \<Rightarrow> ('f, 'a) native_scheme \<Rightarrow> ('f, 'a) native_scheme" where
  "native_service_resume_after_upgrade V s =
     (let s = s\<lparr>patch_handoff := False, api_busy := 0\<rparr>;
          s = native_service_force_stop_thread s;
          s = snd (native_service_start V s)
      in native_service_suppress_console False s)"

text \<open>One round of the thread's loop: \<open>False\<close> when it sleeps for ever, waiting to be aborted.\<close>

definition native_thread_round ::
    "('f, 'a) native_scheme app \<Rightarrow> ('f, 'a) native_scheme \<Rightarrow> (bool \<times> ('f, 'a) native_scheme) option" where
  "native_thread_round A s =
     (if patch_handoff s then Some (False, s)
      else do {
        s \<leftarrow> dispatch_events A s;
        s \<leftarrow> app_entry A (native_entry s) s;
        s \<leftarrow> dispatch_events A s;
        Some (True, s)
      })"

section \<open>Posts of the application\<close>

definition native_api_rtbus_post ::
    "byte \<Rightarrow> 32 word \<Rightarrow> byte list option \<Rightarrow> nat \<Rightarrow> ('f, 'a) native_scheme \<Rightarrow> rc \<times> ('f, 'a) native_scheme" where
  "native_api_rtbus_post task_id cid payload payload_len s =
     (let s = s\<lparr>api_busy := api_busy s + 1\<rparr>;
          leave = (\<lambda>s. s\<lparr>api_busy := api_busy s - 1\<rparr>)
      in if NATIVE_RTBUS_POST_PAYLOAD_MAX < payload_len then (Inl EMSGSIZE, leave s)
      else if payload_len \<noteq> 0 \<and> payload = None then (Inl EINVAL, leave s)
      else
        let zero = replicate NATIVE_RTBUS_POST_PAYLOAD_MAX 0;
            bytes = (case payload of
                       None \<Rightarrow> zero
                     | Some p \<Rightarrow> if payload_len \<noteq> 0 then take payload_len p @ drop payload_len zero else zero);
            msg = \<lparr>pm_task_id = task_id, pm_ctx_id = cid, pm_payload_len = payload_len, pm_payload = bytes\<rparr>
        in if length (post_msgq s) < NATIVE_RTBUS_POST_QUEUE_DEPTH
           then (ok, leave (runtime_event_signal (s\<lparr>post_msgq := post_msgq s @ [msg]\<rparr>)))
           else (Inl ENOMSG, leave s))"

definition native_api_on_event :: "nat \<Rightarrow> ('f, 'a) native_scheme \<Rightarrow> rc \<times> ('f, 'a) native_scheme" where
  "native_api_on_event callback s = (ok, s\<lparr>event_callback := callback\<rparr>)"

text \<open>The strong definition of the event core's hook for asynchronous posts.\<close>

partial_function (option) rtbus_process_async_posts ::
    "backend \<Rightarrow> ('f, 'a) native_scheme \<Rightarrow> (rc \<times> ('f, 'a) native_scheme) option" where
  "rtbus_process_async_posts be s =
     (case post_msgq s of
        [] \<Rightarrow> Some (ok, s)
      | msg # rest \<Rightarrow> do {
          let s = s\<lparr>post_msgq := rest, api_busy := api_busy s + 1\<rparr>;
          (ret, s) \<leftarrow> rtbus_post be (pm_task_id msg) (pm_ctx_id msg)
             (if pm_payload_len msg = 0 then None else Some (pm_payload msg)) (pm_payload_len msg) s;
          let s = s\<lparr>api_busy := api_busy s - 1\<rparr>;
          if ret \<noteq> ok then Some (ret, s) else rtbus_process_async_posts be s
        })"

section \<open>Delays\<close>

text \<open>\<open>k_event_wait\<close> with \<open>reset\<close> clears the event object before it waits; the thread then blocks
  until an event is posted or the time is over.\<close>

partial_function (option) k_delay_loop ::
    "('f, 'a) native_scheme kernel \<Rightarrow> ('f, 'a) native_scheme app \<Rightarrow> int \<Rightarrow> ('f, 'a) native_scheme \<Rightarrow>
     (rc \<times> ('f, 'a) native_scheme) option" where
  "k_delay_loop K A deadline s =
     (let (now, s) = k_uptime_get K s; remaining_ms = deadline - now
      in if patch_handoff s then Some (Inl EINTR, s)
      else if remaining_ms \<le> 0 then do { s \<leftarrow> dispatch_events A s; Some (ok, s) }
      else do {
        let s = k_block_ms K remaining_ms (s\<lparr>wake_event := 0\<rparr>);
        s \<leftarrow> (if wake_event s AND NATIVE_WAKE_ALL AND NATIVE_WAKE_IRQ \<noteq> 0 then dispatch_events A s else Some s);
        k_delay_loop K A deadline s
      })"

definition native_api_k_delay ::
    "('f, 'a) native_scheme kernel \<Rightarrow> ('f, 'a) native_scheme app \<Rightarrow> 32 word \<Rightarrow> ('f, 'a) native_scheme \<Rightarrow>
     (rc \<times> ('f, 'a) native_scheme) option" where
  "native_api_k_delay K A delay_ms s = do {
     let (now, s) = k_uptime_get K s;
     s \<leftarrow> dispatch_events A s;
     k_delay_loop K A (now + uint delay_ms) s
   }"
section \<open>What a post leaves alone\<close>

lemma bmalloc_more:
  fixes s :: "'a emos_scheme"
  shows "bmalloc i n s = Some (s', p) \<Longrightarrow> emos.more s' = emos.more s"
  by (auto simp: bmalloc_def Let_def bind_eq_Some_conv split: if_splits)

lemma emos_post_more:
  fixes s :: "'a emos_scheme"
  assumes "emos_post be t cid payload n s = Some (r, s')"
  shows "emos.more s' = emos.more s"
proof -
  have new: "linklist_new i h k s = Some (s1, src, p) \<Longrightarrow> emos.more s1 = emos.more s"
    for i h k src p and s s1 :: "'a emos_scheme"
    by (auto simp: linklist_new_def Let_def bind_eq_Some_conv dest: bmalloc_more split: option.splits if_splits)
  show ?thesis using assms
    by (auto simp: emos_post_def Let_def bind_eq_Some_conv rtbus_post_after_def runtime_event_signal_def
        dest!: new split: option.splits if_splits)
qed

lemma rtbus_post_more:
  fixes s :: "'a emos_scheme"
  shows "rtbus_post be t cid payload n s = Some (r, s') \<Longrightarrow> emos.more s' = emos.more s"
  by (auto simp: rtbus_post_def bind_eq_Some_conv dest: emos_post_more split: if_splits)

lemma native_fields:
  fixes s s' :: "('f, 'a) native_scheme"
  assumes "emos.more s' = emos.more s"
  shows "delayed_events s' = delayed_events s" "native_thread s' = native_thread s"
    "native_entry s' = native_entry s" "patch_handoff s' = patch_handoff s" "last_error s' = last_error s"
    "console_suppressed s' = console_suppressed s" "api_busy s' = api_busy s" "post_msgq s' = post_msgq s"
    "event_msgq s' = event_msgq s" "wake_event s' = wake_event s" "result_sem s' = result_sem s"
    "event_callback s' = event_callback s" "sram s' = sram s" "img_store s' = img_store s"
    "native.more s' = native.more s"
  using assms by (cases s; cases s'; simp)+

lemmas post_leaves = native_fields [OF rtbus_post_more]

section \<open>Loading\<close>

lemma un_le4_bound: "un_le (slice k 4 bs) < 4294967296"
proof -
  have "length (slice k 4 bs) \<le> 4" by (simp add: slice_def)
  then have "(256 :: nat) ^ length (slice k 4 bs) \<le> 256 ^ 4" by (intro power_increasing) simp_all
  with un_le_bound [of "slice k 4 bs"] show ?thesis by simp
qed

text \<open>The memory an image may touch: its data and bss areas.\<close>

definition loadable :: "'f native_env \<Rightarrow> image_status \<Rightarrow> native_metadata \<Rightarrow> bool" where
  "loadable V status md \<longleftrightarrow>
     entry_offset md < st_payload_size status \<and>
     data_load_offset md + data_size md \<le> st_payload_size status \<and>
     data_ram_offset md + data_size md \<le> NATIVE_RAM_SIZE V \<and>
     bss_ram_offset md + bss_size md \<le> NATIVE_RAM_SIZE V"

lemma validate_loadable:
  assumes "native_validate_metadata V status md = ok"
    and "st_payload_size status < 4294967296" "NATIVE_RAM_SIZE V < 4294967296"
  shows "loadable V status md" "st_flags status AND IMAGE_FLAG_NATIVE \<noteq> 0"
    "FLAGS_ABI_VERSION (st_flags status) = NATIVE_REQUIRED_ABI_VERSION"
proof -
  have c: "\<not> st_payload_size status \<le> entry_offset md" "\<not> st_payload_size status < data_load_offset md"
    "\<not> psub (st_payload_size status) (data_load_offset md) < data_size md"
    "\<not> NATIVE_RAM_SIZE V < data_ram_offset md" "\<not> psub (NATIVE_RAM_SIZE V) (data_ram_offset md) < data_size md"
    "\<not> NATIVE_RAM_SIZE V < bss_ram_offset md" "\<not> psub (NATIVE_RAM_SIZE V) (bss_ram_offset md) < bss_size md"
    "st_flags status AND IMAGE_FLAG_NATIVE \<noteq> 0" "FLAGS_ABI_VERSION (st_flags status) = NATIVE_REQUIRED_ABI_VERSION"
    using assms(1) by (simp_all add: native_validate_metadata_def split: if_splits)
  then show "loadable V status md" using assms(2,3) by (auto simp: loadable_def)
  show "st_flags status AND IMAGE_FLAG_NATIVE \<noteq> 0"
    "FLAGS_ABI_VERSION (st_flags status) = NATIVE_REQUIRED_ABI_VERSION" by (rule c)+
qed

lemma validate_ok:
  assumes "loadable V status md" "st_flags status AND IMAGE_FLAG_NATIVE \<noteq> 0"
    "FLAGS_ABI_VERSION (st_flags status) = NATIVE_REQUIRED_ABI_VERSION"
    and "st_payload_size status < 4294967296" "NATIVE_RAM_SIZE V < 4294967296"
  shows "native_validate_metadata V status md = ok"
  using assms by (auto simp: native_validate_metadata_def loadable_def)

lemma area_read_length: "flash_laws E view \<Longrightarrow> area_read E a off n f = Inr bs \<Longrightarrow> length bs = n"
  using flash_lawsD(2) [of E view a off n f bs] by simp

lemma read_payload_length:
  assumes "flash_laws E view" "rtbus_image_read_payload E off n f = Inr bs"
  shows "length bs \<le> n"
  using assms(2)
  by (auto dest!: area_read_length [OF assms(1)] simp: rtbus_image_read_payload_def Let_def split: sum.splits if_splits)

lemma status_size: "rtbus_image_get_status E f = (ok, status) \<Longrightarrow> st_payload_size status < 4294967296"
  using un_le4_bound
  by (auto simp: rtbus_image_get_status_def Let_def read_header_from_area_def header_of_bytes_def
      split: sum.splits if_splits)

text \<open>What a load does: it fails and leaves everything but the RAM area of the image and the error, or
  it has copied the data, cleared the bss and set the entry point.\<close>

lemma native_load_cases:
  assumes laws: "flash_laws (image_of V) view" and ram: "NATIVE_RAM_SIZE V < 4294967296"
    and L: "native_load V s = (r, s')"
  obtains (fails) e m where "r = Inl e" "s' = s\<lparr>sram := m, last_error := Inl e\<rparr>"
      "\<And>x. x < NATIVE_RAM_BASE V \<or> NATIVE_RAM_BASE V + NATIVE_RAM_SIZE V \<le> x \<Longrightarrow> m x = sram s x"
  | (loads) status md bs where "r = ok" "rtbus_image_get_status (image_of V) (flash (img_store s)) = (ok, status)"
      "rtbus_image_get_native_metadata (image_of V) (flash (img_store s)) = Inr md"
      "native_validate_metadata V status md = ok" "loadable V status md"
      "rtbus_image_read_payload (image_of V) (data_load_offset md) (data_size md) (flash (img_store s)) = Inr bs"
      "length bs = data_size md"
      "s' = s\<lparr>sram := wr (wr (sram s) (NATIVE_RAM_BASE V + data_ram_offset md) bs)
                       (NATIVE_RAM_BASE V + bss_ram_offset md) (replicate (bss_size md) 0),
               native_entry := u32 (NATIVE_FLASH_BASE V + IMAGE_HEADER_SIZE + entry_offset md) OR 1,
               last_error := ok\<rparr>"
proof -
  let ?E = "image_of V" and ?f = "flash (img_store s)"
  have plain: thesis if "native_load V s = (Inl e, s\<lparr>last_error := Inl e\<rparr>)" for e
    using fails [of e "sram s"] that L by simp
  obtain rs status where S: "rtbus_image_get_status ?E ?f = (rs, status)" by force
  show thesis
  proof (cases rs)
    case (Inl e)
    then show ?thesis using S by (intro plain [of e]) (simp add: native_load_def Let_def)
  next
    case (Inr u)
    then have S: "rtbus_image_get_status ?E ?f = (ok, status)" using S by simp
    show ?thesis
    proof (cases "rtbus_image_get_native_metadata ?E ?f")
      case (Inl e)
      then show ?thesis using S by (intro plain [of e]) (simp add: native_load_def Let_def)
    next
      case M: (Inr md)
      show ?thesis
      proof (cases "native_validate_metadata V status md")
        case (Inl e)
        then show ?thesis using S M by (intro plain [of e]) (simp add: native_load_def Let_def)
      next
        case (Inr u)
        then have ok: "native_validate_metadata V status md = ok" by simp
        note ld = validate_loadable(1) [OF ok status_size [OF S] ram]
        show ?thesis
        proof (cases "rtbus_image_read_payload ?E (data_load_offset md) (data_size md) ?f")
          case (Inl e)
          then show ?thesis using S M ok by (intro plain [of e]) (simp add: native_load_def Let_def)
        next
          case R: (Inr bs)
          show ?thesis
          proof (cases "length bs = data_size md")
            case True
            show ?thesis
              by (rule loads [OF _ S M ok ld R True]) (use L S M ok R True in \<open>auto simp: native_load_def Let_def\<close>)
          next
            case False
            have len: "length bs \<le> data_size md" by (rule read_payload_length [OF laws R])
            show ?thesis
            proof (rule fails [of EIO "wr (sram s) (NATIVE_RAM_BASE V + data_ram_offset md) bs"])
              show "wr (sram s) (NATIVE_RAM_BASE V + data_ram_offset md) bs x = sram s x"
                if "x < NATIVE_RAM_BASE V \<or> NATIVE_RAM_BASE V + NATIVE_RAM_SIZE V \<le> x" for x
                using that ld len by (intro wr_at_other) (auto simp: loadable_def)
            qed (use L S M ok R False in \<open>auto simp: native_load_def Let_def\<close>)
          qed
        qed
      qed
    qed
  qed
qed

lemma native_load_ram:
  assumes "flash_laws (image_of V) view" "NATIVE_RAM_SIZE V < 4294967296" "native_load V s = (r, s')"
    and x: "x < NATIVE_RAM_BASE V \<or> NATIVE_RAM_BASE V + NATIVE_RAM_SIZE V \<le> x"
  shows "sram s' x = sram s x"
  using assms(1-3)
proof (cases rule: native_load_cases)
  case (fails e m)
  then show ?thesis using x by simp
next
  case (loads status md bs)
  have "x < NATIVE_RAM_BASE V + data_ram_offset md \<or> NATIVE_RAM_BASE V + data_ram_offset md + length bs \<le> x"
    "x < NATIVE_RAM_BASE V + bss_ram_offset md \<or>
     NATIVE_RAM_BASE V + bss_ram_offset md + length (replicate (bss_size md) (0 :: byte)) \<le> x"
    using loads(5,7) x by (auto simp: loadable_def)
  then show ?thesis by (simp only: loads(8) native.simps wr_at_other native.ext_inject) (simp add: wr_at_other)
qed

section \<open>The life of the application\<close>

text \<open>A clock that reads the time and sleeps at least as long as asked.  What the other threads do
  during a sleep does not take the upgrade request back.\<close>

definition clock_runs :: "('f, 'a) native_scheme kernel \<Rightarrow> (('f, 'a) native_scheme \<Rightarrow> int) \<Rightarrow> bool" where
  "clock_runs K clk \<longleftrightarrow> (\<forall>s. k_uptime_get K s = (clk s, s)) \<and>
     (\<forall>n s. clk s + n \<le> clk (k_sleep_ms K n s) \<and> patch_handoff (k_sleep_ms K n s) = patch_handoff s)"

definition stopped :: "('f, 'a) native_scheme \<Rightarrow> bool" where
  "stopped s \<longleftrightarrow> \<not> native_thread s \<and> native_entry s = NULL \<and> event_callback s = NULL \<and> post_msgq s = []"

lemma force_stopped: "stopped (native_service_force_stop_thread s)"
  by (simp add: stopped_def native_service_force_stop_thread_def)

lemma handoff_loop_returns:
  assumes K: "clock_runs K clk"
  shows "\<exists>r s'. handoff_loop K deadline s = Some (r, s') \<and> patch_handoff s' = patch_handoff s \<and>
    (r = ok \<and> stopped s' \<or> r = Inl ETIMEDOUT \<and> api_busy s' \<noteq> 0)"
proof (induction "nat (deadline - clk s)" arbitrary: s rule: less_induct)
  case less
  have up: "k_uptime_get K s = (clk s, s)" using K by (simp add: clock_runs_def)
  consider (idle) "api_busy s = 0" | (late) "api_busy s \<noteq> 0" "deadline \<le> clk s"
    | (wait) "api_busy s \<noteq> 0" "clk s < deadline" by linarith
  then show ?case
  proof cases
    case idle
    then show ?thesis using force_stopped [of s]
      by (subst handoff_loop.simps) (simp add: native_service_force_stop_thread_def)
  next
    case late
    then show ?thesis by (subst handoff_loop.simps) (simp add: up)
  next
    case wait
    have c: "clk s + 10 \<le> clk (k_sleep_ms K 10 s)" "patch_handoff (k_sleep_ms K 10 s) = patch_handoff s"
      using K by (simp_all add: clock_runs_def)
    then have "nat (deadline - clk (k_sleep_ms K 10 s)) < nat (deadline - clk s)" using wait(2) by linarith
    from less.hyps [OF this] c(2) wait show ?thesis
      by (subst handoff_loop.simps) (simp add: up)
  qed
qed

text \<open>The steps of the service as its callers, the event core and the application make them.  The
  last three are the application's and need its thread; a caller that posts a payload or emits a
  value has it in memory.\<close>

datatype native_op =
    Op_start | Op_request_stop | Op_stop | Op_resume | Op_emit | Op_complete | Op_drain
  | Op_post | Op_on_event | Op_result_wait

inductive native_step ::
    "backend \<Rightarrow> 'f native_env \<Rightarrow> ('f, 'a) native_scheme kernel \<Rightarrow> native_op \<Rightarrow>
     ('f, 'a) native_scheme \<Rightarrow> ('f, 'a) native_scheme \<Rightarrow> bool"
  for be V K where
  start: "native_service_start V s = (r, s') \<Longrightarrow> native_step be V K Op_start s s'"
| request_stop: "native_step be V K Op_request_stop s (native_service_request_stop_for_upgrade s)"
| stop: "native_service_stop_for_upgrade K s = Some (r, s') \<Longrightarrow> native_step be V K Op_stop s s'"
| resume: "native_step be V K Op_resume s (native_service_resume_after_upgrade V s)"
| emit: "payload_ok val (unat len) \<Longrightarrow> native_service_emit_event grp tag val len s = (r, s') \<Longrightarrow>
    native_step be V K Op_emit s s'"
| complete: "native_service_complete_result V addr result s = (r, s') \<Longrightarrow> native_step be V K Op_complete s s'"
| drain: "rtbus_process_async_posts be s = Some (r, s') \<Longrightarrow> native_step be V K Op_drain s s'"
| post: "native_thread s \<Longrightarrow> payload_ok payload n \<Longrightarrow> native_api_rtbus_post t cid payload n s = (r, s') \<Longrightarrow>
    native_step be V K Op_post s s'"
| on_event: "native_thread s \<Longrightarrow> native_api_on_event cb s = (r, s') \<Longrightarrow> native_step be V K Op_on_event s s'"
| result_wait: "native_thread s \<Longrightarrow> native_api_result_wait timeout s = (w, s') \<Longrightarrow>
    native_step be V K Op_result_wait s s'"

inductive_cases native_stepE: "native_step be V K op s s'"

inductive native_run ::
    "backend \<Rightarrow> 'f native_env \<Rightarrow> ('f, 'a) native_scheme kernel \<Rightarrow> native_op list \<Rightarrow>
     ('f, 'a) native_scheme \<Rightarrow> ('f, 'a) native_scheme \<Rightarrow> bool"
  for be V K where
  stay: "native_run be V K [] s s"
| step: "native_step be V K op s s1 \<Longrightarrow> native_run be V K ops s1 s' \<Longrightarrow> native_run be V K (op # ops) s s'"

text \<open>The invariant: the thread exists exactly when an image is loaded, nothing of the application is
  left without it, the kernel's objects keep their limits and the queued messages their layout.\<close>

definition native_inv :: "('f, 'a) native_scheme \<Rightarrow> bool" where
  "native_inv s \<longleftrightarrow>
     (if native_thread s then native_entry s \<noteq> NULL \<and> last_error s = ok else stopped s) \<and>
     length (post_msgq s) \<le> NATIVE_RTBUS_POST_QUEUE_DEPTH \<and> length (event_msgq s) \<le> NATIVE_EVENT_QUEUE_DEPTH \<and>
     result_sem s \<le> 1 \<and>
     (\<forall>m \<in> set (post_msgq s). pm_payload_len m \<le> NATIVE_RTBUS_POST_PAYLOAD_MAX \<and>
        length (pm_payload m) = NATIVE_RTBUS_POST_PAYLOAD_MAX) \<and>
     (\<forall>e \<in> set (event_msgq s). unat (ev_len e) \<le> RUNTIME_EVENT_VALUE_MAX \<and>
        length (ev_value e) = RUNTIME_EVENT_VALUE_MAX)"

lemmas native_ops =
  native_service_emit_event_def native_service_complete_result_def native_api_rtbus_post_def
  native_api_on_event_def native_api_result_wait_def native_service_request_stop_for_upgrade_def
  native_service_suppress_console_def k_event_post_def runtime_event_signal_def

lemma force_stop_inv:
  assumes "length (event_msgq s) \<le> 8"
  shows "native_inv (native_service_force_stop_thread s)"
  by (simp add: native_inv_def stopped_def native_service_force_stop_thread_def)

lemma or1_nonzero: "(n :: nat) OR 1 \<noteq> 0"
  by (metis One_nat_def bit_0 bit_or_iff even_zero odd_one)

lemma native_load_frame:
  assumes "native_load V s = (r, s')"
  shows "s' = s\<lparr>sram := sram s', native_entry := native_entry s', last_error := last_error s'\<rparr>"
    "r = ok \<Longrightarrow> native_entry s' \<noteq> NULL \<and> last_error s' = ok"
  using assms or1_nonzero
  by (auto simp: native_load_def Let_def split: prod.splits sum.splits if_splits)

lemma native_start_inv:
  assumes "native_inv s" "native_service_start V s = (r, s')"
  shows "native_inv s'" "patch_handoff s' = patch_handoff s" "patch_handoff s \<Longrightarrow> s' = s"
proof -
  consider (same) "s' = s" | (load) s1 r1 s2 where "\<not> patch_handoff s" "\<not> native_thread s"
      "s1 = native_api_table_install V s" "native_load V s1 = (r1, s2)"
      "s' = (if r1 = ok then s2\<lparr>native_thread := True\<rparr> else (native_service_force_stop_thread s2)\<lparr>last_error := r1\<rparr>)"
    using assms(2) by (auto simp: native_service_start_def Let_def split: if_splits prod.splits)
  then have "native_inv s' \<and> patch_handoff s' = patch_handoff s \<and> (patch_handoff s \<longrightarrow> s' = s)"
  proof cases
    case same
    then show ?thesis using assms(1) by simp
  next
    case load
    have same: "patch_handoff s2 = patch_handoff s" "post_msgq s2 = post_msgq s" "event_msgq s2 = event_msgq s"
      "result_sem s2 = result_sem s"
      by (subst native_load_frame(1) [OF load(4)], simp add: load(3) native_api_table_install_def)+
    show ?thesis
    proof (cases "r1 = ok")
      case True
      then show ?thesis using assms(1) native_load_frame(2) [OF load(4)] same load(1,5)
        by (auto simp: native_inv_def stopped_def)
    next
      case False
      then show ?thesis using same load(1,5)
        by (simp add: native_inv_def stopped_def native_service_force_stop_thread_def)
    qed
  qed
  then show "native_inv s'" "patch_handoff s' = patch_handoff s" "patch_handoff s \<Longrightarrow> s' = s" by auto
qed

lemma drain_frame:
  fixes s :: "('f, 'a) native_scheme"
  shows "rtbus_process_async_posts be s = Some (r, s') \<Longrightarrow>
    \<exists>k. post_msgq s' = drop k (post_msgq s) \<and> native_thread s' = native_thread s \<and>
      native_entry s' = native_entry s \<and> patch_handoff s' = patch_handoff s \<and> last_error s' = last_error s \<and>
      event_msgq s' = event_msgq s \<and> result_sem s' = result_sem s \<and> event_callback s' = event_callback s \<and>
      sram s' = sram s \<and> img_store s' = img_store s \<and> api_busy s' = api_busy s"
proof (induction be s "(r, s')" rule: rtbus_process_async_posts.raw_induct [rotated, consumes 1, case_names step])
  case (step f be s)
  show ?case
  proof (cases "post_msgq s")
    case Nil
    then show ?thesis using step(2) by auto
  next
    case (Cons msg rest)
    define s0 where "s0 = s\<lparr>post_msgq := rest, api_busy := api_busy s + 1\<rparr>"
    obtain r1 s1 where P: "rtbus_post be (pm_task_id msg) (pm_ctx_id msg)
        (if pm_payload_len msg = 0 then None else Some (pm_payload msg)) (pm_payload_len msg) s0 = Some (r1, s1)"
      "r1 \<noteq> ok \<longrightarrow> (r, s') = (r1, s1\<lparr>api_busy := api_busy s1 - 1\<rparr>)"
      "r1 = ok \<longrightarrow> f be (s1\<lparr>api_busy := api_busy s1 - 1\<rparr>) = Some (r, s')"
      using step(2) Cons by (auto simp: Let_def s0_def [symmetric] bind_eq_Some_conv split: if_splits)
    note F = post_leaves [OF P(1)]
    show ?thesis
    proof (cases "r1 = ok")
      case False
      then show ?thesis using P(2) F Cons by (intro exI [of _ 1]) (simp add: s0_def)
    next
      case True
      then obtain k where "post_msgq s' = drop k rest" "native_thread s' = native_thread s"
        "native_entry s' = native_entry s" "patch_handoff s' = patch_handoff s" "last_error s' = last_error s"
        "event_msgq s' = event_msgq s" "result_sem s' = result_sem s" "event_callback s' = event_callback s"
        "sram s' = sram s" "img_store s' = img_store s" "api_busy s' = api_busy s"
        using step(1) [OF P(3) [rule_format, OF True]] F by (auto simp: s0_def)
      then show ?thesis using Cons by (intro exI [of _ "Suc k"]) simp
    qed
  qed
qed

text \<open>Sleeping keeps the invariant, and nobody restarts the application while it goes on.\<close>

definition sleep_keeps :: "('f, 'a) native_scheme kernel \<Rightarrow> bool" where
  "sleep_keeps K \<longleftrightarrow> (\<forall>s. snd (k_uptime_get K s) = s) \<and>
     (\<forall>n s. native_inv s \<longrightarrow> native_inv (k_sleep_ms K n s))"

lemma uptime_same: "sleep_keeps K \<Longrightarrow> k_uptime_get K s = (fst (k_uptime_get K s), s)"
  by (auto simp: sleep_keeps_def prod_eq_iff)

lemma handoff_loop_inv:
  "handoff_loop K deadline s = Some y \<Longrightarrow> sleep_keeps K \<Longrightarrow> native_inv s \<Longrightarrow> native_inv (snd y)"
proof (induction K deadline s y rule: handoff_loop.raw_induct [rotated, consumes 1, case_names step])
  case (step f K deadline s y)
  have up: "snd (k_uptime_get K s) = s" "native_inv (k_sleep_ms K 10 s)"
    using step(3,4) by (auto simp: sleep_keeps_def)
  have stopd: "native_inv (native_service_force_stop_thread s)"
    by (simp add: native_inv_def stopped_def native_service_force_stop_thread_def)
  show ?case
  proof (cases "api_busy s = 0 \<or> deadline \<le> fst (k_uptime_get K s)")
    case True
    then show ?thesis using step(2,4) up stopd by (auto split: prod.splits if_splits)
  next
    case False
    then show ?thesis using step(2) step(1) [of K deadline "k_sleep_ms K 10 s" y] step(3) up
      by (auto split: prod.splits)
  qed
qed

lemma stop_inv:
  assumes "native_service_stop_for_upgrade K s = Some (r, s')" "sleep_keeps K" "native_inv s"
  shows "native_inv s'"
proof -
  define s1 where "s1 = native_service_request_stop_for_upgrade s"
  have inv1: "native_inv s1" using assms(3) by (auto simp: s1_def native_ops native_inv_def stopped_def)
  have up: "snd (k_uptime_get K s) = s" using assms(2) by (simp add: sleep_keeps_def)
  show ?thesis
  proof (cases "native_thread s1")
    case False
    then show ?thesis using assms(1) up inv1
      by (auto simp: native_service_stop_for_upgrade_def native_service_handoff_ram_for_patch_def s1_def split: prod.splits)
  next
    case True
    then obtain now where "handoff_loop K now s1 = Some (r, s')"
      using assms(1) up
      by (auto simp: native_service_stop_for_upgrade_def native_service_handoff_ram_for_patch_def s1_def split: prod.splits)
    from handoff_loop_inv [OF this assms(2) inv1] show ?thesis by simp
  qed
qed

lemma resume_inv: "native_inv (native_service_resume_after_upgrade V s)"
proof -
  define s1 where "s1 = native_service_force_stop_thread (s\<lparr>patch_handoff := False, api_busy := 0\<rparr>)"
  have inv1: "native_inv s1" unfolding s1_def
    by (simp add: native_inv_def stopped_def native_service_force_stop_thread_def)
  obtain r s2 where S: "native_service_start V s1 = (r, s2)" by force
  have "native_inv (s2\<lparr>console_suppressed := False\<rparr>)"
    using native_start_inv(1) [OF inv1 S] by (auto simp: native_inv_def stopped_def)
  then show ?thesis using S
    by (simp add: native_service_resume_after_upgrade_def Let_def s1_def native_service_suppress_console_def)
qed

lemma native_step_inv:
  assumes "native_step be V K op s s'" "sleep_keeps K" "native_inv s"
  shows "native_inv s'"
  using assms(1)
proof cases
  case (start r)
  then show ?thesis using native_start_inv(1) [OF assms(3)] by simp
next
  case request_stop
  then show ?thesis using assms(3) by (auto simp: native_ops native_inv_def stopped_def)
next
  case (stop r)
  then show ?thesis using stop_inv assms(2,3) by blast
next
  case resume
  then show ?thesis using resume_inv by simp
next
  case (emit val len grp tag r)
  then show ?thesis using assms(3)
    by (auto simp: native_ops native_inv_def stopped_def layout_defs payload_ok_def Let_def split: if_splits option.splits)
next
  case (complete addr result r)
  then show ?thesis using assms(3) by (auto simp: native_ops native_inv_def stopped_def Let_def split: if_splits)
next
  case (drain r)
  obtain k where "post_msgq s' = drop k (post_msgq s)" "native_thread s' = native_thread s"
    "native_entry s' = native_entry s" "last_error s' = last_error s" "event_msgq s' = event_msgq s"
    "result_sem s' = result_sem s" "event_callback s' = event_callback s"
    using drain_frame [OF drain(2)] by blast
  then show ?thesis using assms(3) by (auto simp: native_inv_def stopped_def dest: in_set_dropD)
next
  case (post payload n t cid r)
  then show ?thesis using assms(3)
    by (auto simp: native_ops native_inv_def stopped_def layout_defs payload_ok_def Let_def split: if_splits option.splits)
next
  case (on_event cb r)
  then show ?thesis using assms(3) by (auto simp: native_ops native_inv_def stopped_def)
next
  case (result_wait timeout w)
  then show ?thesis using assms(3) by (auto simp: native_ops native_inv_def stopped_def split: if_splits)
qed

text \<open>While the RAM belongs to the upgrade, only resuming brings the application back.\<close>

lemma native_step_stopped:
  assumes "native_step be V K op s s'" "sleep_keeps K" "op \<noteq> Op_resume" "patch_handoff s" "stopped s"
  shows "patch_handoff s' \<and> stopped s'"
  using assms(1)
proof cases
  case (start r)
  then show ?thesis using assms(4,5) by (simp add: native_service_start_def)
next
  case (stop r)
  then show ?thesis using uptime_same [OF assms(2), of s] assms(4,5)
    by (cases "k_uptime_get K s") (auto simp: native_service_stop_for_upgrade_def
        native_service_handoff_ram_for_patch_def native_ops stopped_def Let_def)
next
  case (drain r)
  then show ?thesis using drain_frame [OF drain(2)] assms(4,5) by (auto simp: stopped_def)
qed (use assms(3-5) in \<open>auto simp: native_ops stopped_def Let_def split: if_splits option.splits\<close>)

section \<open>Draining the application's posts\<close>

lemma emos_bus_native [simp]:
  fixes s :: "('f, 'a) native_scheme"
  shows "emos_bus be (s\<lparr>post_msgq := q\<rparr>) es bs N = emos_bus be s es bs N"
    "queues (s\<lparr>post_msgq := q\<rparr>) N = queues s N"
    "emos_bus be (s\<lparr>api_busy := b\<rparr>) es bs N = emos_bus be s es bs N"
    "queues (s\<lparr>api_busy := b\<rparr>) N = queues s N"
proof -
  have "s\<lparr>post_msgq := q\<rparr> = emos.more_update (\<lambda>_. emos.more (s\<lparr>post_msgq := q\<rparr>)) s" by (cases s) simp
  then show "emos_bus be (s\<lparr>post_msgq := q\<rparr>) es bs N = emos_bus be s es bs N"
    "queues (s\<lparr>post_msgq := q\<rparr>) N = queues s N" using emos_bus_more by metis+
  have "s\<lparr>api_busy := b\<rparr> = emos.more_update (\<lambda>_. emos.more (s\<lparr>api_busy := b\<rparr>)) s" by (cases s) simp
  then show "emos_bus be (s\<lparr>api_busy := b\<rparr>) es bs N = emos_bus be s es bs N"
    "queues (s\<lparr>api_busy := b\<rparr>) N = queues s N" using emos_bus_more by metis+
qed

text \<open>The context a queued post becomes, and those of a list of posts that go to one priority.\<close>

definition msg_ctx :: "native_rtbus_post_msg \<Rightarrow> emos_ctx" where
  "msg_ctx m = post_ctx (pm_task_id m) (pm_ctx_id m)
     (if pm_payload_len m = 0 then None else Some (pm_payload m)) (pm_payload_len m)"

definition goes_to :: "emos_entry list \<Rightarrow> native_rtbus_post_msg \<Rightarrow> nat option" where
  "goes_to es m = map_option (\<lambda>e. unat (e_priority e)) (List.find (\<lambda>e. e_task_id e = pm_task_id m) es)"

definition forwarded :: "emos_entry list \<Rightarrow> native_rtbus_post_msg list \<Rightarrow> nat \<Rightarrow> emos_ctx list" where
  "forwarded es ms k = map msg_ctx (filter (\<lambda>m. goes_to es m = Some k) ms)"

definition post_msg_ok :: "native_rtbus_post_msg \<Rightarrow> bool" where
  "post_msg_ok m \<longleftrightarrow> pm_payload_len m \<le> NATIVE_RTBUS_POST_PAYLOAD_MAX \<and>
     length (pm_payload m) = NATIVE_RTBUS_POST_PAYLOAD_MAX"

lemma forward_one:
  fixes s :: "('f, 'a) native_scheme"
  assumes bus: "emos_bus be s es bs N" and m: "post_msg_ok m"
  shows "\<exists>r s' bs' N'. rtbus_post be (pm_task_id m) (pm_ctx_id m)
      (if pm_payload_len m = 0 then None else Some (pm_payload m)) (pm_payload_len m) s = Some (r, s') \<and>
    emos_bus be s' es bs' N' \<and> emos.more s' = emos.more s \<and>
    (r = ok \<longrightarrow> (\<forall>k. queues s' N' k = queues s N k @ forwarded es [m] k)) \<and>
    (r \<noteq> ok \<longrightarrow> queues s' N' = queues s N)"
proof -
  let ?p = "if pm_payload_len m = 0 then None else Some (pm_payload m)"
  have pok: "payload_ok ?p (pm_payload_len m)" "pm_payload_len m < 4294967280"
    using m by (auto simp: post_msg_ok_def payload_ok_def layout_defs)
  obtain r s' bs' N' where P: "emos_post be (pm_task_id m) (pm_ctx_id m) ?p (pm_payload_len m) s = Some (r, s')"
    "emos_bus be s' es bs' N'" "(r, queues s' N') = spec_post es (pool_has_room s bs (16 + pm_payload_len m))
       (pm_task_id m) (pm_ctx_id m) ?p (pm_payload_len m) (queues s N)" "emos.more s' = emos.more s"
    using emos_post_total [OF bus pok] by blast
  have Q: "r = ok \<Longrightarrow> queues s' N' k = queues s N k @ forwarded es [m] k" "r \<noteq> ok \<Longrightarrow> queues s' N' = queues s N" for k
    using P(3) by (auto simp: spec_post_def forwarded_def goes_to_def msg_ctx_def split: option.splits if_splits)
  show ?thesis
    using P(1,2,4) Q by (cases "r = Inl ENOENT") (auto simp: rtbus_post_def)
qed

definition drained ::
    "backend \<Rightarrow> emos_entry list \<Rightarrow> ('f, 'a) native_scheme \<Rightarrow> (nat \<Rightarrow> nat list) \<Rightarrow> rc \<Rightarrow>
     ('f, 'a) native_scheme \<Rightarrow> native_rtbus_post_msg list \<Rightarrow> bool" where
  "drained be es s N r s' sent \<longleftrightarrow>
     (\<exists>bs' N'. emos_bus be s' es bs' N' \<and> (\<forall>k. queues s' N' k = queues s N k @ forwarded es sent k)) \<and>
     (r = ok \<longrightarrow> sent = post_msgq s \<and> post_msgq s' = []) \<and>
     (r \<noteq> ok \<longrightarrow> (\<exists>m. post_msgq s = sent @ m # post_msgq s'))"

lemma posts_drain:
  fixes s :: "('f, 'a) native_scheme"
  assumes "emos_bus be s es bs N" "\<forall>m \<in> set (post_msgq s). post_msg_ok m"
  shows "\<exists>r s' sent. rtbus_process_async_posts be s = Some (r, s') \<and> drained be es s N r s' sent"
  using assms
proof (induction "post_msgq s" arbitrary: s bs N)
  case Nil
  then show ?case
    by (subst rtbus_process_async_posts.simps)
      (auto simp: forwarded_def drained_def)
next
  case (Cons m rest)
  define s0 where "s0 = s\<lparr>post_msgq := rest, api_busy := api_busy s + 1\<rparr>"
  have ok_m: "post_msg_ok m" "\<forall>m \<in> set rest. post_msg_ok m"
    using Cons.prems(2) Cons.hyps(2) [symmetric] by simp_all
  have bus0: "emos_bus be s0 es bs N" "queues s0 N = queues s N" using Cons.prems(1) by (simp_all add: s0_def)
  obtain r1 s1 bs1 N1 where P: "rtbus_post be (pm_task_id m) (pm_ctx_id m)
      (if pm_payload_len m = 0 then None else Some (pm_payload m)) (pm_payload_len m) s0 = Some (r1, s1)"
    "emos_bus be s1 es bs1 N1" "emos.more s1 = emos.more s0"
    "r1 = ok \<longrightarrow> (\<forall>k. queues s1 N1 k = queues s0 N k @ forwarded es [m] k)"
    "r1 \<noteq> ok \<longrightarrow> queues s1 N1 = queues s0 N"
    using forward_one [OF bus0(1) ok_m(1)] by blast
  define s2 where "s2 = s1\<lparr>api_busy := api_busy s1 - 1\<rparr>"
  have q: "post_msgq s1 = rest" using native_fields(8) [OF P(3)] by (simp add: s0_def)
  then have s2: "emos_bus be s2 es bs1 N1" "queues s2 N1 = queues s1 N1" "post_msgq s2 = rest"
    using P(2) by (simp_all add: s2_def)
  have code: "rtbus_process_async_posts be s = (if r1 \<noteq> ok then Some (r1, s2) else rtbus_process_async_posts be s2)"
    using P(1) Cons.hyps(2) [symmetric]
    by (subst rtbus_process_async_posts.simps) (simp add: s0_def [symmetric] s2_def Let_def)
  show ?case
  proof (cases "r1 = ok")
    case False
    then have "drained be es s N r1 s2 []"
      using s2 P(5) bus0(2) Cons.hyps(2) [symmetric] unfolding drained_def
      by (intro conjI exI [of _ bs1] exI [of _ N1]) (simp_all add: forwarded_def)
    then show ?thesis using code False by auto
  next
    case True
    have fw: "forwarded es (m # sent) k = forwarded es [m] k @ forwarded es sent k" for sent k
      by (simp add: forwarded_def)
    have oks: "\<forall>m \<in> set (post_msgq s2). post_msg_ok m" using s2(3) ok_m(2) by simp
    obtain r s' sent where I: "rtbus_process_async_posts be s2 = Some (r, s')" "drained be es s2 N1 r s' sent"
      using Cons.hyps(1) [OF s2(3) [symmetric] s2(1) oks] by blast
    have "queues s2 N1 k = queues s N k @ forwarded es [m] k" for k
      using s2(2) P(4) True bus0(2) by simp
    moreover obtain bs' N' where B: "emos_bus be s' es bs' N'"
      "\<forall>k. queues s' N' k = queues s2 N1 k @ forwarded es sent k"
      using I(2) unfolding drained_def by blast
    ultimately have "\<forall>k. queues s' N' k = queues s N k @ forwarded es (m # sent) k"
      using fw [of sent] by simp
    with B(1) have "\<exists>bs' N'. emos_bus be s' es bs' N' \<and>
        (\<forall>k. queues s' N' k = queues s N k @ forwarded es (m # sent) k)"
      by (intro exI conjI)
    moreover have "(r = ok \<longrightarrow> m # sent = post_msgq s \<and> post_msgq s' = []) \<and>
        (r \<noteq> ok \<longrightarrow> (\<exists>m'. post_msgq s = (m # sent) @ m' # post_msgq s'))"
      using I(2) Cons.hyps(2) [symmetric] s2(3) unfolding drained_def by auto
    ultimately have "drained be es s N r s' (m # sent)" unfolding drained_def by blast
    then show ?thesis using code True I(1) by auto
  qed
qed

section \<open>Delivering events\<close>

lemma dispatch_delivers:
  fixes s :: "('f, 'a) native_scheme"
  assumes cb: "\<And>e s. event_callback s = cb \<Longrightarrow> \<exists>s'. app_callback A cb e s = Some s' \<and> event_msgq s' = event_msgq s \<and>
      event_callback s' = cb \<and> log s' = log s @ [e]" "cb \<noteq> NULL"
    and log: "\<And>s q. log (s\<lparr>event_msgq := q\<rparr>) = log s"
  shows "event_callback s = cb \<Longrightarrow>
    \<exists>s'. dispatch_events A s = Some s' \<and> event_msgq s' = [] \<and> log s' = log s @ event_msgq s"
proof (induction "event_msgq s" arbitrary: s)
  case Nil
  then show ?case by (subst dispatch_events.simps) simp
next
  case (Cons e rest)
  obtain s1 where s1: "app_callback A cb e (s\<lparr>event_msgq := rest\<rparr>) = Some s1" "event_msgq s1 = rest"
    "event_callback s1 = cb" "log s1 = log s @ [e]"
    using cb(1) [of "s\<lparr>event_msgq := rest\<rparr>" e] Cons.prems log by auto
  have "dispatch_events A s = dispatch_events A s1"
    using Cons.hyps(2) [symmetric] Cons.prems s1(1) cb(2) by (subst dispatch_events.simps) simp
  then show ?case using Cons.hyps(1) [of s1] s1 Cons.hyps(2) [symmetric] by auto
qed

section \<open>Properties\<close>

definition demo_native :: "demo_flash native" where
  "demo_native = rtbus.extend demo_rtbus
     (native.fields False NULL False ok False 0 [] [] 0 0 NULL (\<lambda>_. 0) demo_store)"

lemma demo_native_fields:
  "native_thread demo_native = False" "native_entry demo_native = NULL" "patch_handoff demo_native = False"
  "last_error demo_native = ok" "api_busy demo_native = 0" "post_msgq demo_native = []"
  "event_msgq demo_native = []" "result_sem demo_native = 0" "event_callback demo_native = NULL"
  "img_store demo_native = demo_store"
  by (simp_all add: demo_native_def rtbus.defs native.defs)

lemma demo_native_inv: "native_inv demo_native"
  by (simp add: native_inv_def stopped_def demo_native_fields)

lemma demo_native_bus:
  "emos_bus Entry_Table demo_native demo_entries [] (\<lambda>_. [])" "queues demo_native (\<lambda>_. []) = (\<lambda>_. [])"
proof -
  have "pool_inv 0 demo_native []"
    by (rule pool_inv_cong(1) [THEN iffD2, OF _ _ _ _ _ demo_pool_inv])
      (simp_all add: demo_native_def demo_rtbus_def rtbus.defs native.defs)
  then have "emos_rep demo_native [] (\<lambda>_. [])"
    by (simp add: emos_rep_def demo_native_def demo_rtbus_def rtbus.defs native.defs)
  then show "emos_bus Entry_Table demo_native demo_entries [] (\<lambda>_. [])"
    using demo_entries_ok
    by (simp add: emos_bus_def demo_native_def demo_rtbus_def rtbus.defs native.defs demo_entries_length)
  show "queues demo_native (\<lambda>_. []) = (\<lambda>_. [])" by (simp add: queues_def fun_eq_iff)
qed

definition demo_native_env :: "demo_flash native_env" where
  "demo_native_env = \<lparr>image_of = demo_env, NATIVE_RAM_BASE = 0x20004000, NATIVE_FLASH_BASE = 0x80000,
     NATIVE_API_TABLE_BASE = 0x20003F00, api_function = (\<lambda>slot. 0x1000 + 16 * slot)\<rparr>"

definition demo_kernel :: "('f, 'a) native_scheme kernel" where
  "demo_kernel = \<lparr>k_uptime_get = (\<lambda>s. (int (event_sem s), s)),
     k_sleep_ms = (\<lambda>n s. s\<lparr>event_sem := event_sem s + nat n\<rparr>), k_block_ms = (\<lambda>n s. s)\<rparr>"

lemma demo_kernel_runs: "clock_runs demo_kernel (\<lambda>s. int (event_sem s))" "sleep_keeps demo_kernel"
  by (auto simp: clock_runs_def sleep_keeps_def demo_kernel_def native_inv_def stopped_def)

text \<open>C34: starting the application is memory safe and all or nothing.  Whatever the slot holds, a
  start writes only the application's RAM and the API table and leaves the flash alone; it either
  succeeds, with a thread whose entry point lies in the payload of an image that is valid, native
  and built for this API version and whose data and bss areas lie in the RAM, or it fails, with no
  thread and the error recorded.\<close>

theorem start_loads_safely:
  assumes "flash_laws (image_of V) view" "NATIVE_RAM_SIZE V < 4294967296"
    and "\<not> patch_handoff s" "\<not> native_thread s" "native_service_start V s = (r, s')"
  shows "(\<forall>x. (x < NATIVE_RAM_BASE V \<or> NATIVE_RAM_BASE V + NATIVE_RAM_SIZE V \<le> x) \<and>
        (x < NATIVE_API_TABLE_BASE V \<or> NATIVE_API_TABLE_BASE V + 4 * RTBUS_API_SLOT_COUNT \<le> x) \<longrightarrow>
        sram s' x = sram s x) \<and>
    img_store s' = img_store s \<and> last_error s' = r \<and> (native_thread s' \<longleftrightarrow> r = ok) \<and>
    (r \<noteq> ok \<longrightarrow> stopped s') \<and>
    (r = ok \<longrightarrow> (\<exists>status md. rtbus_image_get_status (image_of V) (flash (img_store s)) = (ok, status) \<and>
        rtbus_image_get_native_metadata (image_of V) (flash (img_store s)) = Inr md \<and>
        native_validate_metadata V status md = ok \<and> loadable V status md \<and>
        native_entry s' = u32 (NATIVE_FLASH_BASE V + IMAGE_HEADER_SIZE + entry_offset md) OR 1))"
proof -
  define s1 where "s1 = native_api_table_install V s"
  have table: "sram s1 x = sram s x"
    if "x < NATIVE_API_TABLE_BASE V \<or> NATIVE_API_TABLE_BASE V + 4 * RTBUS_API_SLOT_COUNT \<le> x" for x
    using that by (auto simp: s1_def native_api_table_install_def RTBUS_API_SLOT_COUNT_def mem_simps)
  have same: "img_store s1 = img_store s" by (simp add: s1_def native_api_table_install_def)
  obtain r1 s2 where L: "native_load V s1 = (r1, s2)" by force
  have R: "r = r1" "s' = (if r1 = ok then s2\<lparr>native_thread := True\<rparr>
      else (native_service_force_stop_thread s2)\<lparr>last_error := r1\<rparr>)"
    using assms(3-5) L by (auto simp: native_service_start_def s1_def Let_def split: if_splits)
  have ram: "sram s' x = sram s1 x" if "x < NATIVE_RAM_BASE V \<or> NATIVE_RAM_BASE V + NATIVE_RAM_SIZE V \<le> x" for x
    using native_load_ram [OF assms(1,2) L that] R(2) by (simp add: native_service_force_stop_thread_def)
  show ?thesis
    using assms(1,2) L
  proof (cases rule: native_load_cases)
    case (fails e m)
    then show ?thesis using R ram table same force_stopped [of s2]
      by (simp add: native_service_force_stop_thread_def stopped_def)
  next
    case (loads status md bs)
    then show ?thesis using R ram table same by simp
  qed
qed

theorem start_loads_safely_witness:
  "\<exists>r s'. native_service_start demo_native_env demo_native = (r, s') \<and> (native_thread s' \<longleftrightarrow> r = ok) \<and>
     last_error s' = r \<and> sram s' 0x20000000 = sram demo_native 0x20000000"
proof -
  obtain r s' where S: "native_service_start demo_native_env demo_native = (r, s')" by force
  have c: "flash_laws (image_of demo_native_env) demo_view" "NATIVE_RAM_SIZE demo_native_env < 4294967296"
    "\<not> patch_handoff demo_native" "\<not> native_thread demo_native"
    using demo_env_laws(1) by (simp_all add: demo_native_env_def NATIVE_RAM_SIZE_def demo_env_def demo_native_fields)
  from start_loads_safely [OF c S] S show ?thesis
    by (auto simp: demo_native_env_def NATIVE_RAM_SIZE_def demo_env_def RTBUS_API_SLOT_COUNT_def)
qed

text \<open>Stopping for an upgrade returns.  On a clock that runs, the request returns; success means
  that nothing of the application is left and it stays off, and it is immediate when no API call is
  going on; the only failure is the time-out while an API call is still going on.\<close>

theorem stop_for_upgrade_returns:
  assumes "clock_runs K clk"
  shows "\<exists>r s'. native_service_stop_for_upgrade K s = Some (r, s') \<and> patch_handoff s' \<and>
    (r = ok \<and> (native_thread s \<longrightarrow> stopped s') \<and> \<not> native_thread s' \<or> r = Inl ETIMEDOUT \<and> api_busy s' \<noteq> 0) \<and>
    (api_busy s = 0 \<longrightarrow> r = ok)"
proof -
  define s1 where "s1 = native_service_request_stop_for_upgrade s"
  have s1: "patch_handoff s1" "native_thread s1 = native_thread s" "api_busy s1 = api_busy s"
    by (simp_all add: s1_def native_ops)
  have up: "k_uptime_get K s = (clk s, s)" using assms by (simp add: clock_runs_def)
  show ?thesis
  proof (cases "native_thread s")
    case False
    then show ?thesis using s1 up
      by (simp add: native_service_stop_for_upgrade_def native_service_handoff_ram_for_patch_def s1_def [symmetric])
  next
    case True
    define d where "d = clk s + NATIVE_UPGRADE_HANDOFF_TIMEOUT_MS"
    have code: "native_service_stop_for_upgrade K s = handoff_loop K d s1"
      using True s1 up
      by (simp add: native_service_stop_for_upgrade_def native_service_handoff_ram_for_patch_def s1_def [symmetric] d_def)
    have idle: "handoff_loop K d s1 = Some (ok, native_service_force_stop_thread s1)" if "api_busy s = 0"
      using that s1(3) by (subst handoff_loop.simps) simp
    obtain r s' where "handoff_loop K d s1 = Some (r, s')" "patch_handoff s' = patch_handoff s1"
      "r = ok \<and> stopped s' \<or> r = Inl ETIMEDOUT \<and> api_busy s' \<noteq> 0"
      using handoff_loop_returns [OF assms, of d s1] by blast
    then show ?thesis using code idle s1(1) by (auto simp: stopped_def)
  qed
qed

theorem stop_for_upgrade_returns_witness:
  "\<exists>s'. native_service_stop_for_upgrade demo_kernel demo_native = Some (ok, s') \<and> \<not> native_thread s'"
  using stop_for_upgrade_returns [OF demo_kernel_runs(1), of demo_native] by (auto simp: demo_native_fields)

text \<open>C35: the life of the application.  Every sequence of steps keeps the invariant: there is a thread
  exactly while an image is loaded, without it nothing of the application is left, and the kernel's
  objects keep their limits.  And once an upgrade has stopped the application, no sequence of steps
  without a resume brings it back.\<close>

theorem native_lifecycle:
  assumes "native_run be V K ops s s'" "sleep_keeps K" "native_inv s"
  shows "native_inv s' \<and>
    (patch_handoff s \<and> stopped s \<and> Op_resume \<notin> set ops \<longrightarrow> patch_handoff s' \<and> stopped s')"
  using assms
proof (induction rule: native_run.induct)
  case (stay s)
  then show ?case by simp
next
  case (step op s s1 ops s')
  then show ?case using native_step_inv [OF step.hyps(1) step.prems] native_step_stopped [OF step.hyps(1) step.prems(1)]
    by auto
qed

theorem native_lifecycle_witness:
  "\<exists>s'. native_run Entry_Table demo_native_env demo_kernel [Op_request_stop, Op_start] demo_native s' \<and>
     native_inv s' \<and> \<not> native_thread s'"
proof -
  define s1 where "s1 = native_service_request_stop_for_upgrade demo_native"
  have s1: "patch_handoff s1" "stopped s1" by (simp_all add: s1_def native_ops stopped_def demo_native_fields)
  have "native_service_start demo_native_env s1 = (Inl EBUSY, s1)" using s1(1) by (simp add: native_service_start_def)
  then have "native_step Entry_Table demo_native_env demo_kernel Op_start s1 s1" by (rule native_step.start)
  then have 1: "native_run Entry_Table demo_native_env demo_kernel [Op_start] s1 s1" by (blast intro: native_run.intros)
  have "native_run Entry_Table demo_native_env demo_kernel [Op_request_stop, Op_start] demo_native s1"
    unfolding s1_def by (rule native_run.step [OF native_step.request_stop 1 [unfolded s1_def]])
  from native_lifecycle [OF this demo_kernel_runs(2) demo_native_inv] this s1(2) show ?thesis
    by (auto simp: stopped_def)
qed

text \<open>C36: the posts of the application reach the event core in order.  Draining the queue returns; on
  success every message is at the end of its task's queue, in the order it was posted, and otherwise
  the messages before the one that failed are, that message is dropped and the rest stay.\<close>

theorem async_posts_forwarded:
  assumes "emos_bus be s es bs N" "\<forall>m \<in> set (post_msgq s). post_msg_ok m"
  shows "\<exists>r s' bs' N' sent. rtbus_process_async_posts be s = Some (r, s') \<and> emos_bus be s' es bs' N' \<and>
    (\<forall>k. queues s' N' k = queues s N k @ forwarded es sent k) \<and>
    (r = ok \<longrightarrow> sent = post_msgq s \<and> post_msgq s' = []) \<and>
    (r \<noteq> ok \<longrightarrow> (\<exists>m. post_msgq s = sent @ m # post_msgq s'))"
  using posts_drain [OF assms] unfolding drained_def by blast

theorem async_posts_forwarded_witness:
  "\<exists>r s'. rtbus_process_async_posts Entry_Table
     (snd (native_api_rtbus_post 7 0x10 (Some [1, 2]) 2 (snd (native_api_rtbus_post 9 0x11 None 0 demo_native)))) = Some (r, s')"
proof -
  define s where "s = snd (native_api_rtbus_post 7 0x10 (Some [1, 2]) 2
      (snd (native_api_rtbus_post 9 0x11 None 0 demo_native)))"
  define q where "q = [\<lparr>pm_task_id = 9, pm_ctx_id = 0x11, pm_payload_len = 0, pm_payload = replicate 32 0\<rparr>,
    \<lparr>pm_task_id = 7, pm_ctx_id = 0x10, pm_payload_len = 2, pm_payload = [1, 2] @ replicate 30 0\<rparr>]"
  have e0: "event_sem demo_native = 0" by (simp add: demo_native_def demo_rtbus_def rtbus.defs)
  have s: "s = demo_native\<lparr>event_sem := 1, post_msgq := q, api_busy := 0\<rparr>"
    unfolding s_def q_def
    by (simp add: native_api_rtbus_post_def runtime_event_signal_def layout_defs demo_native_fields e0 Let_def)
  have q: "\<forall>m \<in> set q. post_msg_ok m" by (simp add: q_def post_msg_ok_def layout_defs)
  have "emos_rep (demo_native\<lparr>event_sem := 1\<rparr>) [] (\<lambda>_. [])"
    using demo_native_bus(1) by (simp add: emos_bus_def emos_rep_def plist_def)
  then have "emos_bus Entry_Table (demo_native\<lparr>event_sem := 1\<rparr>) demo_entries [] (\<lambda>_. [])"
    using demo_native_bus(1) by (simp add: emos_bus_def)
  then have bus: "emos_bus Entry_Table s demo_entries [] (\<lambda>_. [])" by (simp add: s)
  have "\<forall>m \<in> set (post_msgq s). post_msg_ok m" using s q by simp
  from async_posts_forwarded [OF bus this] show ?thesis unfolding s_def by blast
qed

text \<open>Results go to the application's RAM or nowhere.  Completing a request writes at most one
  aligned word inside the RAM and wakes the application; an address outside changes nothing.\<close>

theorem results_stay_in_ram:
  assumes "NATIVE_RAM_BASE V + NATIVE_RAM_SIZE V < 4294967296" "4 \<le> NATIVE_RAM_SIZE V"
    and "native_service_complete_result V addr v s = (r, s')"
  shows "(\<forall>x. x < NATIVE_RAM_BASE V \<or> NATIVE_RAM_BASE V + NATIVE_RAM_SIZE V \<le> x \<longrightarrow> sram s' x = sram s x) \<and>
    (if addr = 0 then r = ok \<and> s' = s
     else if addr mod 4 = 0 \<and> NATIVE_RAM_BASE V \<le> addr \<and> addr + 4 \<le> NATIVE_RAM_BASE V + NATIVE_RAM_SIZE V
     then r = ok \<and> sram s' = st32 (sram s) addr (unat v) \<and> result_sem s' = 1
     else r = Inl EINVAL \<and> s' = s)"
proof -
  have "native_result_addr_valid V addr \<longleftrightarrow>
      addr mod 4 = 0 \<and> NATIVE_RAM_BASE V \<le> addr \<and> addr + 4 \<le> NATIVE_RAM_BASE V + NATIVE_RAM_SIZE V"
    using assms(1,2) by (auto simp: native_result_addr_valid_def)
  then show ?thesis using assms(3)
    by (auto simp: native_service_complete_result_def k_event_post_def Let_def mem_simps split: if_splits)
qed

theorem results_stay_in_ram_witness:
  "\<exists>s'. native_service_complete_result demo_native_env 0x20004010 7 demo_native = (ok, s') \<and>
     sram s' = st32 (sram demo_native) 0x20004010 7"
proof -
  obtain r s' where C: "native_service_complete_result demo_native_env 0x20004010 7 demo_native = (r, s')" by force
  have c: "NATIVE_RAM_BASE demo_native_env + NATIVE_RAM_SIZE demo_native_env < 4294967296"
    "4 \<le> NATIVE_RAM_SIZE demo_native_env"
    by (simp_all add: demo_native_env_def NATIVE_RAM_SIZE_def demo_env_def)
  from results_stay_in_ram [OF c C] show ?thesis using C
    by (simp add: demo_native_env_def NATIVE_RAM_SIZE_def demo_env_def)
qed

text \<open>A result that comes after the application was stopped for an upgrade is still written: into
  the RAM that the upgrade may be using.\<close>

theorem late_result_overwrites_ram:
  assumes "patch_handoff s" "stopped s" "native_result_addr_valid V addr" "addr \<noteq> 0"
  shows "\<exists>s'. native_service_complete_result V addr v s = (ok, s') \<and> ld32 (sram s') addr = unat v"
proof -
  have "unat v < 4294967296" using unsigned_less [where 'a = nat, of v] by simp
  then show ?thesis
    using assms by (simp add: native_service_complete_result_def k_event_post_def Let_def ld32_st32_same)
qed

theorem late_result_overwrites_ram_witness:
  "\<exists>s'. native_service_complete_result demo_native_env 0x20004010 7
     (native_service_request_stop_for_upgrade demo_native) = (ok, s') \<and> ld32 (sram s') 0x20004010 = 7"
proof -
  have "patch_handoff (native_service_request_stop_for_upgrade demo_native)"
    "stopped (native_service_request_stop_for_upgrade demo_native)"
    "native_result_addr_valid demo_native_env 0x20004010"
    by (simp_all add: native_ops stopped_def demo_native_fields native_result_addr_valid_def demo_native_env_def
        NATIVE_RAM_SIZE_def demo_env_def)
  from late_result_overwrites_ram [OF this, of 7] show ?thesis by simp
qed

text \<open>Events reach the application's callback in the order they were emitted, each once, with
  their values; afterwards the queue is empty.\<close>

theorem events_delivered_in_order:
  fixes s :: "('f, 'a) native_scheme"
  assumes "\<And>e s. event_callback s = cb \<Longrightarrow> \<exists>s'. app_callback A cb e s = Some s' \<and> event_msgq s' = event_msgq s \<and>
      event_callback s' = cb \<and> log s' = log s @ [e]"
    and "\<And>s q. log (s\<lparr>event_msgq := q\<rparr>) = log s" "\<And>s b. log (s\<lparr>wake_event := b\<rparr>) = log s"
    and "event_callback s = cb" "cb \<noteq> NULL" "length (event_msgq s) < 8" "unat len = length val" "length val \<le> 256"
  shows "\<exists>s1 s'. native_service_emit_event grp tag (Some val) len s = (ok, s1) \<and> dispatch_events A s1 = Some s' \<and>
    event_msgq s' = [] \<and> log s' = log s @ event_msgq s @
      [\<lparr>ev_group = grp, ev_tag = tag, ev_len = len, ev_flags = 0, ev_value = val @ replicate (256 - length val) 0\<rparr>]"
proof -
  define e where "e = \<lparr>ev_group = grp, ev_tag = tag, ev_len = len, ev_flags = 0,
    ev_value = val @ replicate (256 - length val) 0\<rparr>"
  define s1 where "s1 = k_event_post NATIVE_WAKE_IRQ (s\<lparr>event_msgq := event_msgq s @ [e]\<rparr>)"
  have "native_service_emit_event grp tag (Some val) len s = (ok, s1)"
    using assms(6-8) by (cases "val = []") (auto simp: native_service_emit_event_def layout_defs e_def s1_def Let_def
        unat_eq_0)
  moreover have "event_callback s1 = cb" "log s1 = log s" "event_msgq s1 = event_msgq s @ [e]"
    using assms(2-4) by (simp_all add: s1_def k_event_post_def)
  ultimately show ?thesis
    using dispatch_delivers [OF assms(1,5,2), of s1] by (auto simp: e_def)
qed

definition demo_listener :: "(demo_flash, runtime_event_tlv list) native_scheme" where
  "demo_listener = native.extend (demo_native\<lparr>event_callback := 0x901\<rparr>) []"

definition demo_app :: "(demo_flash, runtime_event_tlv list) native_scheme app" where
  "demo_app = \<lparr>app_entry = (\<lambda>_ s. Some s), app_callback = (\<lambda>_ e s. Some (native.more_update (\<lambda>l. l @ [e]) s))\<rparr>"

theorem events_delivered_in_order_witness:
  "\<exists>s1 s'. native_service_emit_event 1 2 (Some [5, 6]) 2 demo_listener = (ok, s1) \<and>
     dispatch_events demo_app s1 = Some s' \<and> map ev_len (native.more s') = [2]"
proof -
  have "event_callback demo_listener = 0x901" "length (event_msgq demo_listener) < 8" "native.more demo_listener = []"
    "event_msgq demo_listener = []"
    by (simp_all add: demo_listener_def native.defs demo_native_fields)
  then show ?thesis
    using events_delivered_in_order [of "0x901" demo_app native.more demo_listener 2 "[5, 6]" 1 2]
    by (auto simp: demo_app_def)
qed

end
