(* ===== verification/Cli.thy ===== *)
theory Cli
  imports Native
begin

text \<open>
  The command line, \<open>zephyr/modules/rtbus/services/rtbus_cli.c\<close>: the queue that interrupts fill byte
  by byte, the work item that wakes the CLI task, the line buffer and the dispatch of a line to its
  command.

  The commands are the entries of a linker section, a parameter here (the section's order); the
  three commands of \<open>rtbus_cli.c\<close> are in theory \<open>Commands\<close>.  \<open>irq\<close> is what interrupts do at the one
  point where the code guards against them.  Log messages are left out.
\<close>

section \<open>State\<close>

definition RTBUS_CLI_LINE_MAX :: nat where [layout_defs]: "RTBUS_CLI_LINE_MAX = 256"
definition RTBUS_CLI_HEADER :: "byte list" where "RTBUS_CLI_HEADER = map of_char ''@RTBUS:''"
definition RTBUS_TASK_CLI :: byte where "RTBUS_TASK_CLI = 1"
definition RTBUS_CLI_INPUT :: "32 word" where "RTBUS_CLI_INPUT = APP_EVT 1"

text \<open>\<open>cli_line\<close> is the part of the line buffer that is in use, \<open>input_work\<close> whether the work item is
  queued.\<close>

record 'f cli = "'f native" +
  cli_line :: "byte list"
  input_enabled :: bool
  input_pending :: bool
  input_msgq :: "byte list"
  input_work :: bool

record 's rtbus_cli_command =
  cmd_name :: "byte list option"
  cmd_handler :: "(byte list \<Rightarrow> 's \<Rightarrow> (rc \<times> 's) option) option"

section \<open>Lines\<close>

text \<open>The first entry with this name, \<open>STRUCT_SECTION_FOREACH\<close> with the conditions of its body.\<close>

fun find_command :: "byte list \<Rightarrow> 's rtbus_cli_command list \<Rightarrow> (byte list \<Rightarrow> 's \<Rightarrow> (rc \<times> 's) option) option" where
  "find_command name [] = None"
| "find_command name (c # cs) =
     (if cmd_name c = Some name \<and> cmd_handler c \<noteq> None then cmd_handler c else find_command name cs)"

definition rtbus_cli_dispatch_line ::
    "('f, 'a) cli_scheme rtbus_cli_command list \<Rightarrow> ('f, 'a) cli_scheme \<Rightarrow> ('f, 'a) cli_scheme option" where
  "rtbus_cli_dispatch_line cmds s =
     (if cli_line s = [] then Some s
      else if take (length RTBUS_CLI_HEADER) (cli_line s) \<noteq> RTBUS_CLI_HEADER then Some (s\<lparr>cli_line := []\<rparr>)
      else
        let command = takeWhile (\<lambda>b. b \<noteq> 0) (drop (length RTBUS_CLI_HEADER) (cli_line s));
            command_name = takeWhile (\<lambda>b. b \<noteq> 61) command;
            args = (if 61 \<in> set command then tl (dropWhile (\<lambda>b. b \<noteq> 61) command) else [])
        in case find_command command_name cmds of
             Some handler \<Rightarrow> do { (_, s) \<leftarrow> handler args s; Some (s\<lparr>cli_line := []\<rparr>) }
           | None \<Rightarrow> Some (s\<lparr>cli_line := []\<rparr>))"

definition is_line_end :: "byte \<Rightarrow> bool" where
  "is_line_end b \<longleftrightarrow> b = 13 \<or> b = 10"

definition rtbus_cli_process_byte ::
    "('f, 'a) cli_scheme rtbus_cli_command list \<Rightarrow> byte \<Rightarrow> ('f, 'a) cli_scheme \<Rightarrow> ('f, 'a) cli_scheme option" where
  "rtbus_cli_process_byte cmds b s =
     (if is_line_end b then rtbus_cli_dispatch_line cmds s
      else if RTBUS_CLI_LINE_MAX - 1 \<le> length (cli_line s) then Some (s\<lparr>cli_line := []\<rparr>)
      else Some (s\<lparr>cli_line := cli_line s @ [b]\<rparr>))"

section \<open>Input\<close>

definition rtbus_cli_submit_byte :: "byte \<Rightarrow> ('f, 'a) cli_scheme \<Rightarrow> ('f, 'a) cli_scheme" where
  "rtbus_cli_submit_byte b s =
     (if \<not> input_enabled s then s
      else if length (input_msgq s) < 128 then
        let s = s\<lparr>input_msgq := input_msgq s @ [b]\<rparr>
        in if \<not> input_pending s then s\<lparr>input_pending := True, input_work := True\<rparr> else s
      else s)"

text \<open>The system work queue takes the item off its list and runs the handler.\<close>

definition rtbus_cli_input_work_handler ::
    "backend \<Rightarrow> ('f, 'a) cli_scheme \<Rightarrow> ('f, 'a) cli_scheme option" where
  "rtbus_cli_input_work_handler be s = do {
     (ret, s) \<leftarrow> rtbus_post be RTBUS_TASK_CLI RTBUS_CLI_INPUT None 0 (s\<lparr>input_work := False\<rparr>);
     Some (if ret \<noteq> ok then s\<lparr>input_pending := False\<rparr> else s)
   }"

partial_function (option) input_loop ::
    "('f, 'a) cli_scheme rtbus_cli_command list \<Rightarrow> ('f, 'a) cli_scheme \<Rightarrow> ('f, 'a) cli_scheme option" where
  "input_loop cmds s =
     (case input_msgq s of
        [] \<Rightarrow> Some s
      | b # rest \<Rightarrow> do {
          s \<leftarrow> rtbus_cli_process_byte cmds b (s\<lparr>input_msgq := rest\<rparr>);
          input_loop cmds s
        })"

definition rtbus_cli_process_input ::
    "(('f, 'a) cli_scheme \<Rightarrow> ('f, 'a) cli_scheme) \<Rightarrow> ('f, 'a) cli_scheme rtbus_cli_command list \<Rightarrow>
     ('f, 'a) cli_scheme \<Rightarrow> ('f, 'a) cli_scheme option" where
  "rtbus_cli_process_input irq cmds s = do {
     s \<leftarrow> input_loop cmds s;
     let s = (irq s)\<lparr>input_pending := False\<rparr>;
     Some (if input_msgq s \<noteq> [] \<and> \<not> input_pending s
           then s\<lparr>input_pending := True, input_work := True\<rparr> else s)
   }"

definition rtbus_cli_process ::
    "(('f, 'a) cli_scheme \<Rightarrow> ('f, 'a) cli_scheme) \<Rightarrow> ('f, 'a) cli_scheme rtbus_cli_command list \<Rightarrow>
     emos_ctx \<Rightarrow> ('f, 'a) cli_scheme \<Rightarrow> ('f, 'a) cli_scheme option" where
  "rtbus_cli_process irq cmds ctx s =
     (if ctx_id ctx = RTBUS_CLI_INPUT then rtbus_cli_process_input irq cmds s else Some s)"

section \<open>What lines do\<close>

lemma input_loop_Nil [simp]: "input_msgq s = [] \<Longrightarrow> input_loop cmds s = Some s"
  by (subst input_loop.simps) simp

lemma input_loop_Cons:
  "input_msgq s = b # rest \<Longrightarrow> input_loop cmds s =
     rtbus_cli_process_byte cmds b (s\<lparr>input_msgq := rest\<rparr>) \<bind> input_loop cmds"
  by (subst input_loop.simps) simp

text \<open>Bytes that are no line end collect in the buffer as long as it has room.\<close>

lemma input_collects:
  assumes "\<forall>b \<in> set bs. \<not> is_line_end b" "length (cli_line s) + length bs \<le> 255"
    and "input_msgq s = bs @ rest"
  shows "input_loop cmds s = input_loop cmds (s\<lparr>input_msgq := rest, cli_line := cli_line s @ bs\<rparr>)"
  using assms
proof (induction bs arbitrary: s)
  case Nil
  then have "s\<lparr>input_msgq := rest, cli_line := cli_line s @ []\<rparr> = s" by simp
  then show ?case by simp
next
  case (Cons b bs)
  let ?s = "s\<lparr>input_msgq := bs @ rest, cli_line := cli_line s @ [b]\<rparr>"
  have "input_loop cmds s = input_loop cmds ?s"
    using Cons.prems by (subst input_loop_Cons [of s b "bs @ rest"])
      (simp_all add: rtbus_cli_process_byte_def RTBUS_CLI_LINE_MAX_def)
  then show ?case using Cons.IH [of ?s] Cons.prems by simp
qed

text \<open>The line of a command with its arguments.\<close>

definition command_line :: "byte list \<Rightarrow> byte list \<Rightarrow> byte list" where
  "command_line name args = RTBUS_CLI_HEADER @ name @ 61 # args"

lemma header_length [simp]: "length RTBUS_CLI_HEADER = 7"
  by (simp add: RTBUS_CLI_HEADER_def)

lemma dispatch_command:
  assumes "0 \<notin> set name" "61 \<notin> set name" "0 \<notin> set args" "cli_line s = command_line name args"
  shows "rtbus_cli_dispatch_line cmds s = (case find_command name cmds of
      Some handler \<Rightarrow> do { (_, s) \<leftarrow> handler args s; Some (s\<lparr>cli_line := []\<rparr>) }
    | None \<Rightarrow> Some (s\<lparr>cli_line := []\<rparr>))"
proof -
  have line: "cli_line s \<noteq> []" "take 7 (cli_line s) = RTBUS_CLI_HEADER" "drop 7 (cli_line s) = name @ 61 # args"
    using assms(4) by (auto simp: command_line_def)
  have c: "takeWhile (\<lambda>b. b \<noteq> 0) (name @ 61 # args) = name @ 61 # args"
    using assms(1,3) by (auto simp: takeWhile_eq_all_conv)
  have n: "takeWhile (\<lambda>b. b \<noteq> 61) (name @ 61 # args) = name" "dropWhile (\<lambda>b. b \<noteq> 61) (name @ 61 # args) = 61 # args"
    using assms(2) by (subst takeWhile_append2 dropWhile_append2; auto)+
  have "61 \<in> set (name @ 61 # args)" by simp
  then show ?thesis
    unfolding rtbus_cli_dispatch_line_def header_length Let_def line(2,3) c n using line(1) by (simp split: option.split)
qed

lemma overlong_dropped:
  assumes "\<forall>b \<in> set bs. \<not> is_line_end b" "length bs = 256" "input_msgq s = bs @ rest" "cli_line s = []"
  shows "input_loop cmds s = input_loop cmds (s\<lparr>input_msgq := rest, cli_line := []\<rparr>)"
proof -
  obtain xs b where bs: "bs = xs @ [b]" using assms(2) by (cases bs rule: rev_cases) auto
  then have xs: "length xs = 255" using assms(2) by simp
  have b: "\<not> is_line_end b" using assms(1) bs by simp
  define s1 where "s1 = s\<lparr>input_msgq := b # rest, cli_line := xs\<rparr>"
  have "input_loop cmds s = input_loop cmds s1"
    using input_collects [of xs s "b # rest" cmds] assms bs xs by (simp add: s1_def)
  also have "\<dots> = input_loop cmds (s\<lparr>input_msgq := rest, cli_line := []\<rparr>)"
    using b xs by (subst input_loop_Cons [of s1 b rest])
      (simp_all add: s1_def rtbus_cli_process_byte_def RTBUS_CLI_LINE_MAX_def)
  finally show ?thesis .
qed

lemma command_input:
  assumes "0 \<notin> set name" "61 \<notin> set name" "0 \<notin> set args" "\<forall>b \<in> set (name @ args). \<not> is_line_end b"
    and "length name + length args \<le> 247" "is_line_end e" "find_command name cmds = Some handler"
    and "cli_line s = []" "input_msgq s = command_line name args @ e # rest"
  shows "input_loop cmds s = do {
     (_, s) \<leftarrow> handler args (s\<lparr>input_msgq := rest, cli_line := command_line name args\<rparr>);
     input_loop cmds (s\<lparr>cli_line := []\<rparr>)
   }"
proof -
  define s1 where "s1 = s\<lparr>input_msgq := e # rest, cli_line := command_line name args\<rparr>"
  have "\<forall>b \<in> set (command_line name args). \<not> is_line_end b"
    using assms(4) by (auto simp: command_line_def RTBUS_CLI_HEADER_def is_line_end_def)
  then have "input_loop cmds s = input_loop cmds s1"
    using input_collects [of "command_line name args" s "e # rest" cmds] assms(5,8,9)
    by (simp add: s1_def command_line_def)
  also have "\<dots> = rtbus_cli_dispatch_line cmds (s1\<lparr>input_msgq := rest\<rparr>) \<bind> input_loop cmds"
    using assms(6) by (subst input_loop_Cons [of s1 e rest]) (simp_all add: s1_def rtbus_cli_process_byte_def)
  also have "\<dots> = do {
     (_, s) \<leftarrow> handler args (s\<lparr>input_msgq := rest, cli_line := command_line name args\<rparr>);
     input_loop cmds (s\<lparr>cli_line := []\<rparr>)
   }"
  proof -
    have "s1\<lparr>input_msgq := rest\<rparr> = s\<lparr>input_msgq := rest, cli_line := command_line name args\<rparr>"
      by (cases s) (simp add: s1_def)
    then show ?thesis
      using assms(7) dispatch_command [OF assms(1-3), of "s1\<lparr>input_msgq := rest\<rparr>" cmds]
      by (simp add: split_def)
  qed
  finally show ?thesis .
qed

section \<open>Nothing is forgotten\<close>

text \<open>Bytes that wait are announced.\<close>

definition announced :: "('f, 'a) cli_scheme \<Rightarrow> bool" where
  "announced s \<longleftrightarrow> length (input_msgq s) \<le> 128 \<and> (input_msgq s \<noteq> [] \<longrightarrow> input_pending s)"

lemma submit_announced: "announced s \<Longrightarrow> announced (rtbus_cli_submit_byte b s)"
  by (auto simp: announced_def rtbus_cli_submit_byte_def Let_def)

lemma submits_announced: "announced s \<Longrightarrow> announced (fold rtbus_cli_submit_byte bs s)"
  by (induction bs arbitrary: s) (auto simp: submit_announced)

lemma submits_length: "length (input_msgq s) \<le> 128 \<Longrightarrow> length (input_msgq (fold rtbus_cli_submit_byte bs s)) \<le> 128"
proof (induction bs arbitrary: s)
  case (Cons b bs)
  then show ?case by (auto simp: rtbus_cli_submit_byte_def Let_def)
qed simp

lemma input_loop_drains: "input_loop cmds s = Some s' \<Longrightarrow> input_msgq s' = []"
proof (induction cmds s s' rule: input_loop.raw_induct [rotated, consumes 1, case_names step])
  case (step f cmds s s')
  then show ?case by (auto simp: bind_eq_Some_conv split: list.splits)
qed

section \<open>Properties\<close>

definition demo_command :: "('f, 'a) cli_scheme rtbus_cli_command" where
  "demo_command = \<lparr>cmd_name = Some (map of_char ''SET''),
     cmd_handler = Some (\<lambda>args s. Some (ok, s\<lparr>result_sem := length args\<rparr>))\<rparr>"

definition demo_cli :: "demo_flash cli" where
  "demo_cli = native.extend demo_native (cli.fields [] True False [] False)"

lemma demo_cli_fields:
  "cli_line demo_cli = []" "input_enabled demo_cli" "\<not> input_pending demo_cli" "input_msgq demo_cli = []"
  by (simp_all add: demo_cli_def native.defs cli.defs)

text \<open>C37: a command line runs its command, once and with its arguments.  When the line arrives, the
  handler of the first entry of that name is called with exactly the bytes after the equals sign,
  and the bytes after the line end are read with an empty buffer.\<close>

theorem command_line_runs:
  assumes "0 \<notin> set name" "61 \<notin> set name" "0 \<notin> set args" "\<forall>b \<in> set (name @ args). \<not> is_line_end b"
    and "length name + length args \<le> 247" "is_line_end e" "find_command name cmds = Some handler"
    and "cli_line s = []" "input_msgq s = command_line name args @ e # rest"
  shows "input_loop cmds s = do {
     (_, s) \<leftarrow> handler args (s\<lparr>input_msgq := rest, cli_line := command_line name args\<rparr>);
     input_loop cmds (s\<lparr>cli_line := []\<rparr>)
   }"
  using command_input [OF assms] .

theorem command_line_runs_witness:
  "\<exists>s'. input_loop [demo_command] (demo_cli\<lparr>input_msgq := map of_char ''@RTBUS:SET=abc'' @ [13]\<rparr>) = Some s' \<and>
     result_sem s' = 3 \<and> cli_line s' = []"
proof -
  have line: "map of_char ''@RTBUS:SET=abc'' = command_line (map of_char ''SET'') (map of_char ''abc'')"
    by (simp add: command_line_def RTBUS_CLI_HEADER_def)
  show ?thesis unfolding line
    by (subst command_line_runs [where e = 13 and rest = "[]" and handler = "\<lambda>args s. Some (ok, s\<lparr>result_sem := length args\<rparr>)"])
      (simp_all add: is_line_end_def demo_command_def demo_cli_fields, simp?)
qed

text \<open>The end of a line that is too long runs as a command.  The first 256 bytes of such a line are
  dropped and the rest is taken for a line of its own.\<close>

theorem overlong_line_tail_runs:
  assumes "\<forall>b \<in> set junk. \<not> is_line_end b" "length junk = 256"
    and "0 \<notin> set name" "61 \<notin> set name" "0 \<notin> set args" "\<forall>b \<in> set (name @ args). \<not> is_line_end b"
    and "length name + length args \<le> 247" "is_line_end e" "find_command name cmds = Some handler"
    and "cli_line s = []" "input_msgq s = junk @ command_line name args @ e # rest"
  shows "input_loop cmds s = do {
     (_, s) \<leftarrow> handler args (s\<lparr>input_msgq := rest, cli_line := command_line name args\<rparr>);
     input_loop cmds (s\<lparr>cli_line := []\<rparr>)
   }"
  using overlong_dropped [OF assms(1,2,11,10), of cmds]
    command_input [OF assms(3-9), of "s\<lparr>input_msgq := command_line name args @ e # rest, cli_line := []\<rparr>" rest]
  by simp

theorem overlong_line_tail_runs_witness:
  "\<exists>s'. input_loop [demo_command] (demo_cli\<lparr>input_msgq := replicate 256 120 @
      command_line (map of_char ''SET'') (map of_char ''abc'') @ [13]\<rparr>) = Some s' \<and> result_sem s' = 3"
  by (subst overlong_line_tail_runs [where e = 13 and rest = "[]" and handler = "\<lambda>args s. Some (ok, s\<lparr>result_sem := length args\<rparr>)"])
    (simp_all add: is_line_end_def demo_command_def demo_cli_fields, simp?)

text \<open>No input is forgotten.  Submitting bytes keeps the invariant that waiting bytes are announced,
  and when the task returns, the bytes that interrupts added after it looked last (whatever they
  were) are announced again and the work item is queued for them.\<close>

theorem no_input_forgotten:
  assumes "announced s" "rtbus_cli_process_input (fold rtbus_cli_submit_byte bs) cmds s = Some s'"
  shows "announced (fold rtbus_cli_submit_byte extra s) \<and> announced s' \<and> (input_msgq s' \<noteq> [] \<longrightarrow> input_work s')"
proof -
  obtain s1 where s1: "input_loop cmds s = Some s1" using assms(2)
    by (auto simp: rtbus_cli_process_input_def bind_eq_Some_conv)
  have "input_msgq s1 = []" by (rule input_loop_drains [OF s1])
  then have "length (input_msgq (fold rtbus_cli_submit_byte bs s1)) \<le> 128" by (intro submits_length) simp
  then show ?thesis
    using assms(2) s1 submits_announced [OF assms(1)] by (auto simp: rtbus_cli_process_input_def announced_def Let_def split: if_splits)
qed

theorem no_input_forgotten_witness:
  "announced demo_cli \<and> (\<exists>s'. rtbus_cli_process_input (fold rtbus_cli_submit_byte [65]) [demo_command] demo_cli = Some s' \<and>
     input_msgq s' = [65] \<and> input_work s')"
proof -
  have a: "announced demo_cli" by (simp add: announced_def demo_cli_fields)
  obtain s' where S: "rtbus_cli_process_input (fold rtbus_cli_submit_byte [65]) [demo_command] demo_cli = Some s'"
    "input_msgq s' = [65]"
    by (simp add: rtbus_cli_process_input_def demo_cli_fields rtbus_cli_submit_byte_def)
  from no_input_forgotten [OF a S(1)] a S show ?thesis by auto
qed

end
