(* ===== verification/Serial.thy ===== *)
theory Serial
  imports Cli Ymodem
begin

text \<open>
  The serial runtime, \<open>zephyr/runtime/src/services/rtbus_serial.c\<close>: the receive rings, the routing of
  port 0 (a line that starts with an at sign goes to the command line, everything else to the
  application), configuration, reading and writing.

  The UART drivers are the record \<open>uart_driver\<close> over a driver state that the state carries
  (\<open>uart\<close>); a port that the device tree leaves out has \<open>has_dev = False\<close>.  Each spin-locked section
  is one step; \<open>irq\<close> is what interrupts do before a step of the thread that reads.

  The rings refine a bounded queue that drops its oldest byte; a port whose driver works is a line
  as the YMODEM receiver relies on, with the bytes that routing lets through.
\<close>

section \<open>State\<close>

record uart_config =
  baudrate :: nat
  parity :: nat
  stop_bits :: nat
  data_bits :: nat
  flow_ctrl :: nat

text \<open>Parity, stop bits and flow control codes are the driver interface's (none, 1, 8, none).\<close>

record 'd uart_driver =
  device_is_ready :: "nat \<Rightarrow> 'd \<Rightarrow> bool"
  uart_fifo_read :: "nat \<Rightarrow> nat \<Rightarrow> 'd \<Rightarrow> byte list \<times> 'd"
  uart_irq_update :: "nat \<Rightarrow> 'd \<Rightarrow> bool \<times> 'd"
  uart_irq_rx_ready :: "nat \<Rightarrow> 'd \<Rightarrow> bool"
  uart_irq_callback_set :: "nat \<Rightarrow> bool \<Rightarrow> 'd \<Rightarrow> rc \<times> 'd"
  uart_irq_rx_enable :: "nat \<Rightarrow> 'd \<Rightarrow> 'd"
  uart_irq_rx_disable :: "nat \<Rightarrow> 'd \<Rightarrow> 'd"
  uart_config_get :: "nat \<Rightarrow> 'd \<Rightarrow> errno + uart_config"
  uart_configure :: "nat \<Rightarrow> uart_config \<Rightarrow> 'd \<Rightarrow> rc \<times> 'd"
  uart_line_ctrl_dtr :: "nat \<Rightarrow> 'd \<Rightarrow> errno + nat"
  uart_poll_out :: "nat \<Rightarrow> byte \<Rightarrow> 'd \<Rightarrow> 'd"
  uart_poll_in :: "nat \<Rightarrow> 'd \<Rightarrow> byte option \<times> 'd"
  plain_config :: "nat \<Rightarrow> uart_config"

record serial_port =
  rx_buffer :: "byte list"
  rx_head :: nat
  rx_tail :: nat
  has_dev :: bool
  is_cdc :: bool
  rx_ready :: bool
  prepared :: bool

record ('f, 'd) serial = "'f cli" +
  control_line :: "byte list"
  control_active :: bool
  control_overflow :: bool
  port0_line_start :: bool
  ports :: "serial_port list"
  uart :: 'd

definition set_port :: "nat \<Rightarrow> serial_port \<Rightarrow> ('f, 'd, 'a) serial_scheme \<Rightarrow> ('f, 'd, 'a) serial_scheme" where
  "set_port port p s = s\<lparr>ports := (ports s)[port := p]\<rparr>"

section \<open>The receive ring\<close>

definition rx_put :: "byte \<Rightarrow> serial_port \<Rightarrow> serial_port" where
  "rx_put b p =
     (let next_head = (rx_head p + 1) mod length (rx_buffer p);
          p = (if next_head = rx_tail p then p\<lparr>rx_tail := (rx_tail p + 1) mod length (rx_buffer p)\<rparr> else p)
      in p\<lparr>rx_buffer := (rx_buffer p)[rx_head p := b], rx_head := next_head\<rparr>)"

definition rx_clear :: "serial_port \<Rightarrow> serial_port" where
  "rx_clear p = p\<lparr>rx_head := 0, rx_tail := 0\<rparr>"

definition rx_get :: "serial_port \<Rightarrow> byte option \<times> serial_port" where
  "rx_get p =
     (if rx_tail p \<noteq> rx_head p
      then (Some (rx_buffer p ! rx_tail p), p\<lparr>rx_tail := (rx_tail p + 1) mod length (rx_buffer p)\<rparr>)
      else (None, p))"

section \<open>Routing\<close>

definition submit_control_line :: "('f, 'd, 'a) serial_scheme \<Rightarrow> ('f, 'd, 'a) serial_scheme" where
  "submit_control_line s =
     (let s = (if \<not> control_overflow s
               then rtbus_cli_submit_byte 10 (fold rtbus_cli_submit_byte (control_line s) s) else s)
      in s\<lparr>control_line := [], control_active := False, control_overflow := False, port0_line_start := True\<rparr>)"

definition route_port0_byte :: "byte \<Rightarrow> ('f, 'd, 'a) serial_scheme \<Rightarrow> bool \<times> ('f, 'd, 'a) serial_scheme" where
  "route_port0_byte b s =
     (if control_active s then
        if is_line_end b then (False, submit_control_line s)
        else if length (control_line s) < RTBUS_CLI_LINE_MAX - 1
        then (False, s\<lparr>control_line := control_line s @ [b]\<rparr>)
        else (False, s\<lparr>control_overflow := True\<rparr>)
      else if port0_line_start s \<and> b = 64 then
        (False, s\<lparr>control_active := True, port0_line_start := False, control_overflow := False,
                  control_line := [b]\<rparr>)
      else (True, s\<lparr>port0_line_start := is_line_end b\<rparr>))"

definition receive_byte :: "nat \<Rightarrow> byte \<Rightarrow> ('f, 'd, 'a) serial_scheme \<Rightarrow> ('f, 'd, 'a) serial_scheme" where
  "receive_byte port b s =
     (let (keep, s) = (if port = 0 then route_port0_byte b s else (True, s))
      in if keep then set_port port (rx_put b (ports s ! port)) s else s)"

section \<open>Interrupts\<close>

partial_function (option) drain_fifo ::
    "'d uart_driver \<Rightarrow> nat \<Rightarrow> ('f, 'd, 'a) serial_scheme \<Rightarrow> ('f, 'd, 'a) serial_scheme option" where
  "drain_fifo U port s =
     (let (received, d) = uart_fifo_read U port 16 (uart s); s = s\<lparr>uart := d\<rparr>
      in if received = [] then Some s else drain_fifo U port (fold (receive_byte port) received s))"

partial_function (option) serial_irq_callback ::
    "'d uart_driver \<Rightarrow> nat \<Rightarrow> ('f, 'd, 'a) serial_scheme \<Rightarrow> ('f, 'd, 'a) serial_scheme option" where
  "serial_irq_callback U port s =
     (let (more_work, d) = uart_irq_update U port (uart s); s = s\<lparr>uart := d\<rparr>
      in if more_work \<and> uart_irq_rx_ready U port (uart s)
         then do { s \<leftarrow> drain_fifo U port s; serial_irq_callback U port s }
         else Some s)"

definition serial_cdc_callback ::
    "'d uart_driver \<Rightarrow> nat \<Rightarrow> ('f, 'd, 'a) serial_scheme \<Rightarrow> ('f, 'd, 'a) serial_scheme option" where
  "serial_cdc_callback U port s = drain_fifo U port s"

section \<open>Opening a port\<close>

definition serial_prepare_rx ::
    "'d uart_driver \<Rightarrow> nat \<Rightarrow> ('f, 'd, 'a) serial_scheme \<Rightarrow> rc \<times> ('f, 'd, 'a) serial_scheme" where
  "serial_prepare_rx U port s =
     (let p = ports s ! port
      in if rx_ready p then (ok, s)
      else if \<not> has_dev p \<or> \<not> device_is_ready U port (uart s) then (Inl ENODEV, s)
      else
        let (ret, d) = uart_irq_callback_set U port (is_cdc p) (uart s); s = s\<lparr>uart := d\<rparr>
        in if ret \<noteq> ok then (ret, s)
           else (ok, set_port port (p\<lparr>rx_ready := True\<rparr>) (s\<lparr>uart := uart_irq_rx_enable U port (uart s)\<rparr>)))"

definition serial_configure ::
    "'d uart_driver \<Rightarrow> nat \<Rightarrow> nat \<Rightarrow> ('f, 'd, 'a) serial_scheme \<Rightarrow> rc \<times> ('f, 'd, 'a) serial_scheme" where
  "serial_configure U port baud s =
     (let p = ports s ! port
      in if baud = 0 then (Inl EINVAL, s)
      else if \<not> has_dev p \<or> \<not> device_is_ready U port (uart s) then (Inl ENODEV, s)
      else
        let config = (case uart_config_get U port (uart s) of
                        Inl _ \<Rightarrow> plain_config U baud
                      | Inr c \<Rightarrow> c\<lparr>baudrate := baud\<rparr>);
            rx_was_enabled = (\<not> is_cdc p \<and> rx_ready p);
            d = (if rx_was_enabled then uart_irq_rx_disable U port (uart s) else uart s);
            (ret, d) = uart_configure U port config d;
            d = (if rx_was_enabled then uart_irq_rx_enable U port d else d);
            s = s\<lparr>uart := d\<rparr>
        in if ret = Inl ENOSYS \<or> ret = Inl ENOTSUP then (if is_cdc p then ok else ret, s) else (ret, s))"

definition rtbus_runtime_serial_begin ::
    "'d uart_driver \<Rightarrow> nat \<Rightarrow> nat \<Rightarrow> ('f, 'd, 'a) serial_scheme \<Rightarrow> rc \<times> ('f, 'd, 'a) serial_scheme" where
  "rtbus_runtime_serial_begin U port baud s =
     (if length (ports s) \<le> port then (Inl EINVAL, s)
      else
        let (ret, s) = serial_configure U port baud s
        in if ret \<noteq> ok then (ret, s)
        else if prepared (ports s ! port) then (ok, s)
        else
          let (ret, s) = serial_prepare_rx U port s
          in if ret \<noteq> ok then (ret, s)
             else (ok, set_port port ((ports s ! port)\<lparr>prepared := True\<rparr>) s))"

definition rtbus_runtime_serial_flush_rx ::
    "nat \<Rightarrow> ('f, 'd, 'a) serial_scheme \<Rightarrow> rc \<times> ('f, 'd, 'a) serial_scheme" where
  "rtbus_runtime_serial_flush_rx port s =
     (if length (ports s) \<le> port then (Inl EINVAL, s)
      else (ok, set_port port (rx_clear (ports s ! port)) s))"

section \<open>Writing and reading\<close>

definition serial_tx_ready :: "'d uart_driver \<Rightarrow> nat \<Rightarrow> ('f, 'd, 'a) serial_scheme \<Rightarrow> bool" where
  "serial_tx_ready U port s \<longleftrightarrow>
     (if \<not> is_cdc (ports s ! port) then True
      else case uart_line_ctrl_dtr U port (uart s) of Inl _ \<Rightarrow> False | Inr dtr \<Rightarrow> dtr \<noteq> 0)"

definition port_usable :: "'d uart_driver \<Rightarrow> nat \<Rightarrow> ('f, 'd, 'a) serial_scheme \<Rightarrow> bool" where
  "port_usable U port s \<longleftrightarrow> port < length (ports s) \<and> has_dev (ports s ! port) \<and>
     prepared (ports s ! port) \<and> device_is_ready U port (uart s)"

definition rtbus_runtime_serial_write ::
    "'d uart_driver \<Rightarrow> nat \<Rightarrow> byte list \<Rightarrow> ('f, 'd, 'a) serial_scheme \<Rightarrow> nat \<times> ('f, 'd, 'a) serial_scheme" where
  "rtbus_runtime_serial_write U port data s =
     (if data = [] \<or> \<not> port_usable U port s \<or> \<not> serial_tx_ready U port s then (0, s)
      else (length data, s\<lparr>uart := fold (uart_poll_out U port) data (uart s)\<rparr>))"

text \<open>The loop of a read, with the number of bytes that are still wanted.\<close>

fun read_loop ::
    "'d uart_driver \<Rightarrow> (('f, 'd, 'a) serial_scheme \<Rightarrow> ('f, 'd, 'a) serial_scheme) \<Rightarrow> nat \<Rightarrow> nat \<Rightarrow>
     ('f, 'd, 'a) serial_scheme \<Rightarrow> byte list \<times> ('f, 'd, 'a) serial_scheme" where
  "read_loop U irq port 0 s = ([], s)"
| "read_loop U irq port (Suc n) s =
     (let s = irq s; p = ports s ! port
      in case rx_get p of
           (Some b, p) \<Rightarrow>
             let (bs, s) = read_loop U irq port n (set_port port p s) in (b # bs, s)
         | (None, _) \<Rightarrow>
             if is_cdc p \<or> rx_ready p then ([], s)
             else
               let (polled, d) = uart_poll_in U port (uart s); s = s\<lparr>uart := d\<rparr>
               in case polled of
                    None \<Rightarrow> ([], s)
                  | Some b \<Rightarrow> let (bs, s) = read_loop U irq port n s in (b # bs, s))"

definition rtbus_runtime_serial_read ::
    "'d uart_driver \<Rightarrow> (('f, 'd, 'a) serial_scheme \<Rightarrow> ('f, 'd, 'a) serial_scheme) \<Rightarrow> nat \<Rightarrow> nat \<Rightarrow>
     ('f, 'd, 'a) serial_scheme \<Rightarrow> byte list \<times> ('f, 'd, 'a) serial_scheme" where
  "rtbus_runtime_serial_read U irq port sz s =
     (if sz = 0 \<or> \<not> port_usable U port s then ([], s) else read_loop U irq port sz s)"

section \<open>The serial task\<close>

definition serial_start_port ::
    "'d uart_driver \<Rightarrow> nat \<Rightarrow> ('f, 'd, 'a) serial_scheme \<Rightarrow> rc \<times> ('f, 'd, 'a) serial_scheme" where
  "serial_start_port U port s =
     (if length (ports s) \<le> port then (Inl EINVAL, s)
      else if \<not> has_dev (ports s ! port) then (ok, s)
      else
        let (ret, s) = serial_prepare_rx U port s
        in if ret \<noteq> ok then (ret, s)
           else (ok, set_port port ((ports s ! port)\<lparr>prepared := True\<rparr>) s))"

definition serial_start :: "'d uart_driver \<Rightarrow> ('f, 'd, 'a) serial_scheme \<Rightarrow> rc \<times> ('f, 'd, 'a) serial_scheme" where
  "serial_start U s = (ok, fold (\<lambda>port s. snd (serial_start_port U port s)) [0..<length (ports s)] s)"

definition APPLICATION_RUNTIME_SERIAL_BEGIN :: "32 word" where
  "APPLICATION_RUNTIME_SERIAL_BEGIN = APP_EVT 1"

text \<open>The request is three 32-bit words: result address, port and baud rate.  A result of the kind
  \<open>-errno\<close> is passed as the parameter \<open>code\<close>.\<close>

definition rtbus_runtime_serial_process ::
    "'d uart_driver \<Rightarrow> 'f native_env \<Rightarrow> (rc \<Rightarrow> 32 word) \<Rightarrow> emos_ctx \<Rightarrow> ('f, 'd, 'a) serial_scheme \<Rightarrow>
     ('f, 'd, 'a) serial_scheme" where
  "rtbus_runtime_serial_process U V code ctx s =
     (if ctx_id ctx = SYS_EVT EMOS_SYS_INIT then snd (serial_start U s)
      else if ctx_id ctx = APPLICATION_RUNTIME_SERIAL_BEGIN then
        if length (ctx_payload ctx) \<noteq> 12 then s
        else
          let p = ctx_payload ctx;
              (ret, s) = rtbus_runtime_serial_begin U (un_le (slice 4 4 p)) (un_le (slice 8 4 p)) s
          in snd (native_service_complete_result V (un_le (slice 0 4 p)) (code ret) s)
      else s)"

section \<open>The ring is a bounded queue\<close>

text \<open>A bounded queue of bytes that makes room by dropping its oldest byte.\<close>

locale bounded_fifo =
  fixes put :: "byte \<Rightarrow> 'q \<Rightarrow> 'q" and get :: "'q \<Rightarrow> byte option \<times> 'q" and clear :: "'q \<Rightarrow> 'q"
    and content :: "'q \<Rightarrow> byte list" and valid :: "'q \<Rightarrow> bool" and cap :: "'q \<Rightarrow> nat"
  assumes bounded: "valid q \<Longrightarrow> length (content q) \<le> cap q \<and> 0 < cap q"
    and put_law: "valid q \<Longrightarrow> valid (put b q) \<and> cap (put b q) = cap q \<and>
      content (put b q) = (if length (content q) = cap q then tl (content q) else content q) @ [b]"
    and get_law: "valid q \<Longrightarrow> valid (snd (get q)) \<and> cap (snd (get q)) = cap q \<and>
      fst (get q) = (if content q = [] then None else Some (hd (content q))) \<and>
      content (snd (get q)) = tl (content q)"
    and clear_law: "valid q \<Longrightarrow> valid (clear q) \<and> cap (clear q) = cap q \<and> content (clear q) = []"

context bounded_fifo
begin

lemma put_all:
  "valid q \<Longrightarrow> valid (fold put bs q) \<and> cap (fold put bs q) = cap q \<and>
     content (fold put bs q) = drop (length (content q) + length bs - cap q) (content q @ bs)"
proof (induction bs arbitrary: q)
  case Nil
  then show ?case using bounded [of q] by simp
next
  case (Cons b bs)
  note B = bounded [OF Cons.prems] and P = put_law [OF Cons.prems, of b]
  have I: "valid (fold put bs (put b q))" "cap (fold put bs (put b q)) = cap q"
    "content (fold put bs (put b q)) =
       drop (length (content (put b q)) + length bs - cap q) (content (put b q) @ bs)"
    using Cons.IH [of "put b q"] P by simp_all
  show ?case
  proof (cases "length (content q) = cap q")
    case True
    then obtain c cs where c: "content q = c # cs" using B by (cases "content q") auto
    then have "content (put b q) = cs @ [b]" "length (cs @ [b]) = cap q" using P True by simp_all
    then show ?thesis using I c True by simp
  next
    case False
    then have "content (put b q) = content q @ [b]" using P by simp
    then show ?thesis using I by simp
  qed
qed

end

definition ring_count :: "serial_port \<Rightarrow> nat" where
  "ring_count p = (rx_head p + length (rx_buffer p) - rx_tail p) mod length (rx_buffer p)"

definition ring_content :: "serial_port \<Rightarrow> byte list" where
  "ring_content p = map (\<lambda>i. rx_buffer p ! ((rx_tail p + i) mod length (rx_buffer p))) [0..<ring_count p]"

definition ring_ok :: "serial_port \<Rightarrow> bool" where
  "ring_ok p \<longleftrightarrow> 2 \<le> length (rx_buffer p) \<and> rx_head p < length (rx_buffer p) \<and> rx_tail p < length (rx_buffer p)"

lemma length_ring_content [simp]: "length (ring_content p) = ring_count p"
  by (simp add: ring_content_def)

lemma nth_ring_content:
  "i < ring_count p \<Longrightarrow> ring_content p ! i = rx_buffer p ! ((rx_tail p + i) mod length (rx_buffer p))"
  by (simp add: ring_content_def)

lemma ring_head:
  assumes "ring_ok p"
  shows "rx_head p = (rx_tail p + ring_count p) mod length (rx_buffer p)" "ring_count p < length (rx_buffer p)"
    "rx_tail p = rx_head p \<longleftrightarrow> ring_count p = 0"
proof -
  let ?N = "length (rx_buffer p)"
  have b: "rx_head p < ?N" "rx_tail p < ?N" "0 < ?N" using assms by (auto simp: ring_ok_def)
  then have "(rx_tail p + ring_count p) mod ?N = (rx_tail p + (rx_head p + ?N - rx_tail p)) mod ?N"
    by (simp add: ring_count_def mod_add_right_eq)
  also have "rx_tail p + (rx_head p + ?N - rx_tail p) = rx_head p + ?N" using b by simp
  finally show h: "rx_head p = (rx_tail p + ring_count p) mod ?N" using b by simp
  show "ring_count p < ?N" using b by (simp add: ring_count_def)
  show "rx_tail p = rx_head p \<longleftrightarrow> ring_count p = 0"
  proof
    assume "rx_tail p = rx_head p"
    then show "ring_count p = 0" by (simp add: ring_count_def)
  next
    assume "ring_count p = 0"
    then show "rx_tail p = rx_head p" using h b by simp
  qed
qed

lemma mod_add_inj:
  fixes i j :: nat
  assumes "(t + i) mod n = (t + j) mod n" "i < n" "j < n"
  shows "i = j"
  using assms
proof (induction i j rule: linorder_wlog)
  case (le i j)
  then have "n dvd (t + j) - (t + i)" using mod_eq_dvd_iff_nat [of "t + i" "t + j" n] by simp
  then have "n dvd j - i" by simp
  moreover have "j - i < n" using le by simp
  ultimately have "j - i = 0" using nat_dvd_not_less by blast
  then show ?case using le by simp
qed simp

text \<open>A ring whose head is \<open>c\<close> places after its tail holds the \<open>c\<close> bytes from the tail on.\<close>

lemma ring_countI:
  assumes "0 < length (rx_buffer p)" "rx_tail p < length (rx_buffer p)" "c < length (rx_buffer p)"
    and "rx_head p = (rx_tail p + c) mod length (rx_buffer p)"
  shows "ring_count p = c"
proof (cases "rx_tail p + c < length (rx_buffer p)")
  case True
  then show ?thesis using assms by (simp add: ring_count_def)
next
  case False
  then have "rx_head p = rx_tail p + c - length (rx_buffer p)"
    using assms by (simp add: mod_if)
  then show ?thesis using assms False by (simp add: ring_count_def)
qed

lemma next_head_full:
  assumes "ring_ok p"
  shows "(rx_head p + 1) mod length (rx_buffer p) = rx_tail p \<longleftrightarrow> ring_count p = length (rx_buffer p) - 1"
proof -
  let ?N = "length (rx_buffer p)"
  note H = ring_head [OF assms]
  have b: "rx_tail p < ?N" "2 \<le> ?N" using assms by (auto simp: ring_ok_def)
  have n: "(rx_head p + 1) mod ?N = (rx_tail p + (ring_count p + 1)) mod ?N"
    unfolding H(1) by (simp add: mod_Suc_eq)
  show ?thesis
  proof
    assume "(rx_head p + 1) mod ?N = rx_tail p"
    then have eq: "(rx_tail p + (ring_count p + 1)) mod ?N = (rx_tail p + 0) mod ?N" using n b by simp
    show "ring_count p = ?N - 1"
    proof (rule ccontr)
      assume "ring_count p \<noteq> ?N - 1"
      then have "ring_count p + 1 < ?N" using H(2) by linarith
      moreover have "0 < ?N" using b(2) by linarith
      ultimately show False using mod_add_inj [OF eq] by simp
    qed
  next
    assume "ring_count p = ?N - 1"
    then have "rx_tail p + (ring_count p + 1) = rx_tail p + ?N" using b by linarith
    then show "(rx_head p + 1) mod ?N = rx_tail p" using b(1) unfolding n by simp
  qed
qed

text \<open>Writing at the head leaves the bytes before it alone.\<close>

lemma ring_write:
  assumes "i < c" "c < n"
  shows "(xs[(t + c) mod n := b]) ! ((t + i) mod n) = xs ! ((t + i) mod n)"
  using mod_add_inj [of t i n c] assms by (metis nat_neq_iff nth_list_update_neq order_less_trans)

lemma rx_put_spec:
  assumes "ring_ok p"
  shows "ring_ok (rx_put b p)" "length (rx_buffer (rx_put b p)) = length (rx_buffer p)"
    "ring_content (rx_put b p) =
       (if ring_count p = length (rx_buffer p) - 1 then tl (ring_content p) else ring_content p) @ [b]"
proof -
  let ?N = "length (rx_buffer p)" and ?t = "rx_tail p" and ?c = "ring_count p" and ?p = "rx_put b p"
  note H = ring_head [OF assms]
  have N: "2 \<le> ?N" "?t < ?N" "rx_head p < ?N" using assms by (auto simp: ring_ok_def)
  have len: "length (rx_buffer ?p) = ?N" by (simp add: rx_put_def Let_def)
  have head: "rx_head ?p = (rx_head p + 1) mod ?N" by (simp add: rx_put_def Let_def)
  have buf: "rx_buffer ?p = (rx_buffer p)[(?t + ?c) mod ?N := b]" using H(1) by (simp add: rx_put_def Let_def)
  have tail: "rx_tail ?p = (if ?c = ?N - 1 then (?t + 1) mod ?N else ?t)"
    using next_head_full [OF assms] by (simp add: rx_put_def Let_def)
  have m: "x mod ?N < ?N" for x using N(1) by (intro mod_less_divisor) linarith
  show "ring_ok ?p" unfolding ring_ok_def len head tail using N m by simp
  show "length (rx_buffer ?p) = ?N" by (rule len)
  have hd': "rx_head ?p = (?t + (?c + 1)) mod ?N" using H(1) head by (simp add: mod_Suc_eq)
  show "ring_content ?p = (if ?c = ?N - 1 then tl (ring_content p) else ring_content p) @ [b]"
  proof (cases "?c = ?N - 1")
    case True
    have cnt: "ring_count ?p = ?c"
    proof (rule ring_countI)
      have "((?t + 1) mod ?N + ?c) mod ?N = (?t + 1 + ?c) mod ?N" by (rule mod_add_left_eq)
      then show "rx_head ?p = (rx_tail ?p + ?c) mod length (rx_buffer ?p)"
        unfolding len tail hd' using True by (simp add: add.assoc)
    qed (use N H(2) len tail m in auto)
    show ?thesis
    proof (rule nth_equalityI)
      show "length (ring_content ?p) = length ((if ?c = ?N - 1 then tl (ring_content p) else ring_content p) @ [b])"
        using True cnt N by simp
      fix i assume i: "i < length (ring_content ?p)"
      have idx: "(rx_tail ?p + i) mod ?N = (?t + (i + 1)) mod ?N" using True by (simp add: tail mod_add_left_eq)
      show "ring_content ?p ! i = ((if ?c = ?N - 1 then tl (ring_content p) else ring_content p) @ [b]) ! i"
      proof (cases "i + 1 < ?c")
        case less: True
        have "(rx_buffer p)[(?t + ?c) mod ?N := b] ! ((?t + (i + 1)) mod ?N) = rx_buffer p ! ((?t + (i + 1)) mod ?N)"
          using less H(2) by (intro ring_write) auto
        moreover have "ring_content ?p ! i = rx_buffer ?p ! ((rx_tail ?p + i) mod ?N)"
          using i by (subst nth_ring_content) (simp_all add: len)
        moreover have "(tl (ring_content p) @ [b]) ! i = ring_content p ! (i + 1)"
        proof -
          have "i < length (tl (ring_content p))" using less by simp
          then show ?thesis by (simp add: nth_append nth_tl)
        qed
        ultimately show ?thesis using less True
          by (simp only: idx buf if_True simp_thms nth_ring_content)
      next
        case False
        then have "i + 1 = ?c" using i cnt by simp
        then have "ring_content ?p ! i = b" using i cnt idx N m [of "?t + ?c"]
          by (simp add: nth_ring_content buf)
        moreover have "length (tl (ring_content p)) = i" using \<open>i + 1 = ?c\<close> by simp
        then have "(tl (ring_content p) @ [b]) ! i = b" by (simp add: nth_append)
        ultimately show ?thesis using True by simp
      qed
    qed
  next
    case False
    then have c1: "?c + 1 < ?N" using H(2) by linarith
    have cnt: "ring_count ?p = ?c + 1"
      using False N c1 hd' by (intro ring_countI) (auto simp: len tail)
    have "ring_content ?p ! i = (ring_content p @ [b]) ! i" if i: "i < ?c + 1" for i
    proof (cases "i < ?c")
      case True
      then show ?thesis using ring_write [of i ?c ?N "rx_buffer p" ?t b] H(2) False cnt
        by (simp add: ring_content_def buf tail len nth_append)
    next
      case ge: False
      then have "i = ?c" using i by simp
      then show ?thesis using False cnt N m [of "?t + ?c"]
        by (simp add: nth_ring_content buf tail len nth_append)
    qed
    then show ?thesis using False cnt by (intro nth_equalityI) auto
  qed
qed

lemma rx_get_spec:
  assumes "ring_ok p"
  shows "ring_ok (snd (rx_get p))" "rx_buffer (snd (rx_get p)) = rx_buffer p"
    "fst (rx_get p) = (if ring_content p = [] then None else Some (hd (ring_content p)))"
    "ring_content (snd (rx_get p)) = tl (ring_content p)"
proof -
  let ?N = "length (rx_buffer p)" and ?t = "rx_tail p" and ?c = "ring_count p" and ?p = "snd (rx_get p)"
  note H = ring_head [OF assms]
  have N: "2 \<le> ?N" "?t < ?N" "rx_head p < ?N" using assms by (auto simp: ring_ok_def)
  have empty: "ring_content p = [] \<longleftrightarrow> ?c = 0" by (metis length_0_conv length_ring_content)
  have m: "x mod ?N < ?N" for x using N(1) by (intro mod_less_divisor) linarith
  show "ring_ok ?p" "rx_buffer ?p = rx_buffer p" using N m by (auto simp: rx_get_def ring_ok_def)
  have first: "?c \<noteq> 0 \<Longrightarrow> hd (ring_content p) = rx_buffer p ! ?t"
    using N by (subst hd_conv_nth) (auto simp: empty ring_content_def)
  then show "fst (rx_get p) = (if ring_content p = [] then None else Some (hd (ring_content p)))"
    using H(3) empty by (auto simp: rx_get_def)
  show "ring_content ?p = tl (ring_content p)"
  proof (cases "?c = 0")
    case True
    then show ?thesis using H(3) empty by (simp add: rx_get_def)
  next
    case False
    then have p: "?p = p\<lparr>rx_tail := (?t + 1) mod ?N\<rparr>" using H(3) by (simp add: rx_get_def)
    have cnt: "ring_count ?p = ?c - 1"
    proof (rule ring_countI)
      have "((?t + 1) mod ?N + (?c - 1)) mod ?N = (?t + 1 + (?c - 1)) mod ?N" by (rule mod_add_left_eq)
      also have "?t + 1 + (?c - 1) = ?t + ?c" using False by simp
      finally show "rx_head ?p = (rx_tail ?p + (?c - 1)) mod length (rx_buffer ?p)"
        using H(1) by (simp add: p)
    qed (use N H(2) p m in auto)
    show ?thesis
    proof (rule nth_equalityI)
      fix i assume i: "i < length (ring_content ?p)"
      have "ring_content ?p ! i = rx_buffer p ! (((?t + 1) mod ?N + i) mod ?N)"
        using i cnt by (simp add: ring_content_def p)
      also have "((?t + 1) mod ?N + i) mod ?N = (?t + (i + 1)) mod ?N" by (simp add: mod_add_left_eq)
      finally show "ring_content ?p ! i = tl (ring_content p) ! i"
        using i cnt by (simp add: nth_tl nth_ring_content)
    qed (use cnt in simp)
  qed
qed

lemma rx_clear_spec: "ring_ok p \<Longrightarrow> ring_ok (rx_clear p) \<and> ring_content (rx_clear p) = []"
  by (auto simp: rx_clear_def ring_ok_def ring_content_def ring_count_def)

interpretation ring: bounded_fifo rx_put rx_get rx_clear ring_content ring_ok "\<lambda>p. length (rx_buffer p) - 1"
proof unfold_locales
  fix p b assume p: "ring_ok p"
  show "length (ring_content p) \<le> length (rx_buffer p) - 1 \<and> 0 < length (rx_buffer p) - 1"
    using ring_head(2) [OF p] p by (auto simp: ring_ok_def)
  show "ring_ok (rx_put b p) \<and> length (rx_buffer (rx_put b p)) - 1 = length (rx_buffer p) - 1 \<and>
      ring_content (rx_put b p) = (if length (ring_content p) = length (rx_buffer p) - 1
        then tl (ring_content p) else ring_content p) @ [b]"
    using rx_put_spec [OF p] by simp
  show "ring_ok (snd (rx_get p)) \<and> length (rx_buffer (snd (rx_get p))) - 1 = length (rx_buffer p) - 1 \<and>
      fst (rx_get p) = (if ring_content p = [] then None else Some (hd (ring_content p))) \<and>
      ring_content (snd (rx_get p)) = tl (ring_content p)"
    using rx_get_spec [OF p] by simp
  show "ring_ok (rx_clear p) \<and> length (rx_buffer (rx_clear p)) - 1 = length (rx_buffer p) - 1 \<and>
      ring_content (rx_clear p) = []"
    using rx_clear_spec [OF p] by (simp add: rx_clear_def)
qed

section \<open>What routing lets through\<close>

text \<open>The bytes that reach the application, given whether a control line is open and whether a line
  starts here.\<close>

fun passed :: "bool \<Rightarrow> bool \<Rightarrow> byte list \<Rightarrow> byte list" where
  "passed ctl start [] = []"
| "passed ctl start (b # bs) =
     (if ctl then (if is_line_end b then passed False True bs else passed True start bs)
      else if start \<and> b = 64 then passed True False bs
      else b # passed False (is_line_end b) bs)"

definition routed :: "nat \<Rightarrow> ('f, 'd, 'a) serial_scheme \<Rightarrow> byte list \<Rightarrow> byte list" where
  "routed port s bs = (if port = 0 then passed (control_active s) (port0_line_start s) bs else bs)"

lemma routed_Nil [simp]: "routed port s [] = []"
  by (simp add: routed_def)

lemma submit_fields [simp]:
  fixes s :: "('f, 'd, 'a) serial_scheme"
  shows "ports (rtbus_cli_submit_byte b s) = ports s" "uart (rtbus_cli_submit_byte b s) = uart s"
  by (simp_all add: rtbus_cli_submit_byte_def Let_def)

lemma submits_fields [simp]:
  fixes s :: "('f, 'd, 'a) serial_scheme"
  shows "ports (fold rtbus_cli_submit_byte bs s) = ports s" "uart (fold rtbus_cli_submit_byte bs s) = uart s"
  by (induction bs arbitrary: s) simp_all

lemma submit_line_fields [simp]:
  fixes s :: "('f, 'd, 'a) serial_scheme"
  shows "ports (submit_control_line s) = ports s" "uart (submit_control_line s) = uart s"
    "control_active (submit_control_line s) = False" "port0_line_start (submit_control_line s) = True"
  by (simp_all add: submit_control_line_def)

lemma set_port_fields [simp]:
  "ports (set_port port p s) = (ports s)[port := p]" "uart (set_port port p s) = uart s"
  "routed k (set_port port p s) bs = routed k s bs"
  by (simp_all add: set_port_def routed_def)

lemma receive_one:
  fixes s :: "('f, 'd, 'a) serial_scheme"
  shows "ports (receive_byte port b s) =
      (if routed port s [b] = [] then ports s else (ports s)[port := rx_put b (ports s ! port)])"
    "uart (receive_byte port b s) = uart s"
    "routed port s (b # bs) = routed port s [b] @ routed port (receive_byte port b s) bs"
    "routed port s [b] = [] \<or> routed port s [b] = [b]"
  by (auto simp: receive_byte_def route_port0_byte_def routed_def set_port_def)

lemma receive_all:
  fixes s :: "('f, 'd, 'a) serial_scheme"
  assumes "port < length (ports s)"
  shows "uart (fold (receive_byte port) bs s) = uart s \<and>
    ports (fold (receive_byte port) bs s) = (ports s)[port := fold rx_put (routed port s bs) (ports s ! port)] \<and>
    routed port s (bs @ cs) = routed port s bs @ routed port (fold (receive_byte port) bs s) cs"
  using assms
proof (induction bs arbitrary: s)
  case Nil
  then show ?case by simp
next
  case (Cons b bs)
  let ?s = "receive_byte port b s"
  note R = receive_one [where s = s and port = port and b = b]
  have "port < length (ports ?s)" using Cons.prems R(1) by auto
  note I = Cons.IH [OF this]
  have "ports (fold (receive_byte port) bs ?s) =
      (ports s)[port := fold rx_put (routed port s (b # bs)) (ports s ! port)]"
    using I R(1,4) R(3) [of bs] Cons.prems by auto
  moreover have "routed port s ((b # bs) @ cs) =
      routed port s (b # bs) @ routed port (fold (receive_byte port) bs ?s) cs"
    using I R(3) [of "bs @ cs"] R(3) [of bs] by simp
  ultimately show ?case using I R(2) by simp
qed

text \<open>Streams in which no at sign follows a line end pass unchanged.\<close>

fun plain :: "bool \<Rightarrow> byte list \<Rightarrow> bool" where
  "plain start [] = True"
| "plain start (b # bs) \<longleftrightarrow> \<not> (start \<and> b = 64) \<and> plain (is_line_end b) bs"

lemma passed_plain: "plain start bs \<Longrightarrow> passed False start bs = bs"
  by (induction bs arbitrary: start) auto

lemma passed_swallows: "\<forall>b \<in> set bs. \<not> is_line_end b \<Longrightarrow> passed True start bs = []"
  by (induction bs) auto

lemma passed_loses:
  "plain start (bs @ [10]) \<Longrightarrow> \<forall>b \<in> set lost. \<not> is_line_end b \<Longrightarrow>
   passed False start (bs @ 10 # 64 # lost) = bs @ [10]"
proof (induction bs arbitrary: start)
  case Nil
  then show ?case using passed_swallows by (auto simp: is_line_end_def)
qed auto

section \<open>A port whose driver works is a line\<close>

definition serial_line ::
    "'d uart_driver \<Rightarrow> (('f, 'd, 'a) serial_scheme \<Rightarrow> ('f, 'd, 'a) serial_scheme) \<Rightarrow>
     ('f, 'd, 'a) serial_scheme kernel \<Rightarrow> ('f, 'd, 'a) serial_scheme line" where
  "serial_line U irq K = \<lparr>serial_begin = rtbus_runtime_serial_begin U,
     serial_flush_rx = (\<lambda>port s. snd (rtbus_runtime_serial_flush_rx port s)),
     serial_read = rtbus_runtime_serial_read U irq,
     serial_write = (\<lambda>port bs s. snd (rtbus_runtime_serial_write U port bs s)),
     uptime = k_uptime_get K, sleep_ms = (\<lambda>n s. k_sleep_ms K (int n) s)\<rparr>"

text \<open>A started port with a sound ring, and the bytes that the application will still get from it.\<close>

definition port_good :: "nat \<Rightarrow> ('f, 'd, 'a) serial_scheme \<Rightarrow> bool" where
  "port_good port s \<longleftrightarrow> port < length (ports s) \<and> has_dev (ports s ! port) \<and> prepared (ports s ! port) \<and>
     rx_ready (ports s ! port) \<and> ring_ok (ports s ! port)"

definition port_pending :: "nat \<Rightarrow> ('d \<Rightarrow> byte list) \<Rightarrow> ('f, 'd, 'a) serial_scheme \<Rightarrow> byte list" where
  "port_pending port rx s = ring_content (ports s ! port) @ routed port s (rx (uart s))"

text \<open>What the service relies on of a driver: its calls succeed and leave the bytes that are still to
  arrive (\<open>rx\<close>), the bytes sent (\<open>tx\<close>) and the time alone, except that sending sends.  Interrupts
  hand over a part of what arrives that fits the ring, and at least one byte for the application
  when there is one and the ring is empty.\<close>

locale uart_works =
  fixes U :: "'d uart_driver" and irq :: "('f, 'd, 'a) serial_scheme \<Rightarrow> ('f, 'd, 'a) serial_scheme"
    and K :: "('f, 'd, 'a) serial_scheme kernel" and port :: nat
    and rx tx :: "'d \<Rightarrow> byte list" and time :: "'d \<Rightarrow> int"
  assumes is_ready: "device_is_ready U port d"
    and configures: "\<exists>d'. uart_configure U port c d = (ok, d') \<and> rx d' = rx d \<and> tx d' = tx d \<and> time d' = time d"
    and enables: "rx (uart_irq_rx_enable U port d) = rx d \<and> tx (uart_irq_rx_enable U port d) = tx d \<and>
      time (uart_irq_rx_enable U port d) = time d"
    and disables: "rx (uart_irq_rx_disable U port d) = rx d \<and> tx (uart_irq_rx_disable U port d) = tx d \<and>
      time (uart_irq_rx_disable U port d) = time d"
    and has_dtr: "\<exists>v. uart_line_ctrl_dtr U port d = Inr v \<and> v \<noteq> 0"
    and sends: "rx (uart_poll_out U port b d) = rx d \<and> tx (uart_poll_out U port b d) = tx d @ [b] \<and>
      time (uart_poll_out U port b d) = time d"
    and delivers: "port_good port s \<Longrightarrow> \<exists>bs d. rx (uart s) = bs @ rx d \<and> tx d = tx (uart s) \<and>
      time d = time (uart s) \<and> irq s = (fold (receive_byte port) bs s)\<lparr>uart := d\<rparr> \<and>
      ring_count (ports s ! port) + length (routed port s bs) < length (rx_buffer (ports s ! port)) \<and>
      (ring_content (ports (irq s) ! port) = [] \<longrightarrow> routed port (irq s) (rx d) = [])"
    and ticks: "k_uptime_get K s = (time (uart s), s)"

context uart_works
begin

lemma put_flags:
  "has_dev (fold rx_put bs p) = has_dev p" "prepared (fold rx_put bs p) = prepared p"
  "rx_ready (fold rx_put bs p) = rx_ready p" "is_cdc (fold rx_put bs p) = is_cdc p"
  by (induction bs arbitrary: p) (simp_all add: rx_put_def Let_def)

lemma routed_uart [simp]: "routed port (s\<lparr>uart := d\<rparr>) bs = routed port s bs"
  by (simp add: routed_def)

lemma irq_step:
  assumes g: "port_good port s"
  shows "port_good port (irq s)" "port_pending port rx (irq s) = port_pending port rx s"
    "tx (uart (irq s)) = tx (uart s)" "time (uart (irq s)) = time (uart s)"
    "ring_content (ports (irq s) ! port) = [] \<Longrightarrow> port_pending port rx (irq s) = []"
proof -
  obtain bs d where D: "rx (uart s) = bs @ rx d" "tx d = tx (uart s)" "time d = time (uart s)"
    "irq s = (fold (receive_byte port) bs s)\<lparr>uart := d\<rparr>"
    "ring_count (ports s ! port) + length (routed port s bs) < length (rx_buffer (ports s ! port))"
    "ring_content (ports (irq s) ! port) = [] \<longrightarrow> routed port (irq s) (rx d) = []"
    using delivers [OF g] by blast
  have p: "port < length (ports s)" "ring_ok (ports s ! port)" using g by (simp_all add: port_good_def)
  have R: "ports (fold (receive_byte port) bs s) = (ports s)[port := fold rx_put (routed port s bs) (ports s ! port)]"
    "routed port s (bs @ rx d) = routed port s bs @ routed port (fold (receive_byte port) bs s) (rx d)"
    using receive_all [OF p(1), of bs "rx d"] by auto
  have ports: "ports (irq s) ! port = fold rx_put (routed port s bs) (ports s ! port)"
    using D(4) R(1) p(1) by simp
  have P: "ring_ok (fold rx_put (routed port s bs) (ports s ! port))"
    "ring_content (fold rx_put (routed port s bs) (ports s ! port)) = ring_content (ports s ! port) @ routed port s bs"
    using ring.put_all [OF p(2), of "routed port s bs"] D(5) by simp_all
  show "port_good port (irq s)"
    using g D(4) R(1) P(1) ports by (simp add: port_good_def put_flags)
  show pend: "port_pending port rx (irq s) = port_pending port rx s"
    using D(1,4) R(2) P(2) ports by (simp add: port_pending_def)
  show "tx (uart (irq s)) = tx (uart s)" "time (uart (irq s)) = time (uart s)" using D(2-4) by simp_all
  show "port_pending port rx (irq s) = []" if "ring_content (ports (irq s) ! port) = []"
    using that D(4,6) by (simp add: port_pending_def)
qed

lemma read_loop_reads:
  "port_good port s \<Longrightarrow> \<exists>s'. read_loop U irq port n s = (take n (port_pending port rx s), s') \<and>
     port_good port s' \<and> port_pending port rx s' = drop n (port_pending port rx s) \<and>
     tx (uart s') = tx (uart s) \<and> time (uart s') = time (uart s)"
proof (induction n arbitrary: s)
  case 0
  then show ?case by simp
next
  case (Suc n)
  note I = irq_step [OF Suc.prems]
  let ?p = "ports (irq s) ! port"
  have p: "port < length (ports (irq s))" "ring_ok ?p" "rx_ready ?p" using I(1) by (simp_all add: port_good_def)
  note G = rx_get_spec [OF p(2)]
  show ?case
  proof (cases "ring_content ?p")
    case Nil
    then have "read_loop U irq port (Suc n) s = ([], irq s)"
      using G(3) p(3) by (cases "rx_get ?p") simp
    then show ?thesis using I Nil by simp
  next
    case (Cons b r)
    define s1 where "s1 = set_port port (snd (rx_get ?p)) (irq s)"
    have flags: "has_dev (snd (rx_get ?p)) = has_dev ?p" "prepared (snd (rx_get ?p)) = prepared ?p"
      "rx_ready (snd (rx_get ?p)) = rx_ready ?p" by (simp_all add: rx_get_def)
    have "port_pending port rx s = ring_content ?p @ routed port (irq s) (rx (uart (irq s)))"
      using I(2) by (simp add: port_pending_def)
    then have tl_p: "tl (port_pending port rx s) = r @ routed port (irq s) (rx (uart (irq s)))"
      using Cons by simp
    have s1: "port_good port s1" "port_pending port rx s1 = tl (port_pending port rx s)"
      "tx (uart s1) = tx (uart s)" "time (uart s1) = time (uart s)"
      unfolding tl_p using I(1,3,4) G(1,4) Cons p(1) flags by (auto simp: s1_def port_good_def port_pending_def)
    obtain s' where S: "read_loop U irq port n s1 = (take n (port_pending port rx s1), s')" "port_good port s'"
      "port_pending port rx s' = drop n (port_pending port rx s1)" "tx (uart s') = tx (uart s1)"
      "time (uart s') = time (uart s1)"
      using Suc.IH [OF s1(1)] by blast
    have hd_p: "port_pending port rx s = b # tl (port_pending port rx s)"
      using I(2) Cons by (cases "port_pending port rx s") (auto simp: port_pending_def)
    obtain q where "rx_get ?p = (Some b, q)" using G(3) Cons by (cases "rx_get ?p") auto
    then have "read_loop U irq port (Suc n) s = (b # take n (port_pending port rx s1), s')"
      using S(1) by (simp add: Let_def s1_def)
    then show ?thesis using S s1 hd_p by (metis drop_Suc take_Suc_Cons)
  qed
qed

lemma polls_out:
  "rx (fold (uart_poll_out U port) bs d) = rx d \<and> tx (fold (uart_poll_out U port) bs d) = tx d @ bs \<and>
   time (fold (uart_poll_out U port) bs d) = time d"
  by (induction bs arbitrary: d) (simp_all add: sends)

lemma begin_ok:
  assumes "port_good port s"
  shows "\<exists>d. rtbus_runtime_serial_begin U port 115200 s = (ok, s\<lparr>uart := d\<rparr>) \<and> rx d = rx (uart s) \<and>
    tx d = tx (uart s) \<and> time d = time (uart s)"
proof -
  let ?p = "ports s ! port"
  define c where "c = (case uart_config_get U port (uart s) of
    Inl _ \<Rightarrow> plain_config U 115200 | Inr c \<Rightarrow> c\<lparr>baudrate := 115200\<rparr>)"
  define d0 where "d0 = (if \<not> is_cdc ?p then uart_irq_rx_disable U port (uart s) else uart s)"
  obtain d1 where d1: "uart_configure U port c d0 = (ok, d1)" "rx d1 = rx d0" "tx d1 = tx d0" "time d1 = time d0"
    using configures by blast
  define d2 where "d2 = (if \<not> is_cdc ?p then uart_irq_rx_enable U port d1 else d1)"
  have d: "rx d2 = rx (uart s)" "tx d2 = tx (uart s)" "time d2 = time (uart s)"
    using d1 disables [of "uart s"] enables [of d1] by (simp_all add: d0_def d2_def)
  have "serial_configure U port 115200 s = (ok, s\<lparr>uart := d2\<rparr>)"
    using assms d1(1) is_ready
    by (simp add: serial_configure_def port_good_def Let_def c_def [symmetric] d0_def [symmetric] d2_def [symmetric])
  then have "rtbus_runtime_serial_begin U port 115200 s = (ok, s\<lparr>uart := d2\<rparr>)"
    using assms by (simp add: rtbus_runtime_serial_begin_def port_good_def)
  then show ?thesis using d by blast
qed

lemma fresh_pending:
  assumes "port_good port s"
  shows "port_pending port rx (serial_flush_rx (serial_line U irq K) port
      (snd (serial_begin (serial_line U irq K) port 115200 s))) = routed port s (rx (uart s))"
proof -
  have p: "port < length (ports s)" "ring_ok (ports s ! port)" using assms by (simp_all add: port_good_def)
  obtain d where "rtbus_runtime_serial_begin U port 115200 s = (ok, s\<lparr>uart := d\<rparr>)" "rx d = rx (uart s)"
    using begin_ok [OF assms] by blast
  then show ?thesis using p rx_clear_spec [OF p(2)]
    by (simp add: serial_line_def rtbus_runtime_serial_flush_rx_def port_pending_def)
qed

end

sublocale uart_works \<subseteq> line: ideal_line "serial_line U irq K" port "port_good port" "port_pending port rx"
    "\<lambda>s. tx (uart s)" "\<lambda>s. time (uart s)"
proof unfold_locales
  fix s :: "('f, 'd, 'a) serial_scheme" and n :: nat and bs :: "byte list"
  assume g: "port_good port s"
  have p: "port < length (ports s)" "ring_ok (ports s ! port)" "port_usable U port s"
    using g is_ready by (simp_all add: port_good_def port_usable_def)
  show "\<exists>s'. serial_begin (serial_line U irq K) port 115200 s = (ok, s') \<and> port_good port s' \<and>
      port_pending port rx s' = port_pending port rx s \<and> tx (uart s') = tx (uart s) \<and> time (uart s') = time (uart s)"
    using begin_ok [OF g] g by (auto simp: serial_line_def port_good_def port_pending_def)
  show "port_good port (serial_flush_rx (serial_line U irq K) port s) \<and>
      tx (uart (serial_flush_rx (serial_line U irq K) port s)) = tx (uart s) \<and>
      time (uart (serial_flush_rx (serial_line U irq K) port s)) = time (uart s)"
    using g rx_clear_spec [OF p(2)] p(1)
    by (simp add: serial_line_def rtbus_runtime_serial_flush_rx_def port_good_def) (simp add: rx_clear_def)
  show "\<exists>s'. serial_read (serial_line U irq K) port n s = (take n (port_pending port rx s), s') \<and> port_good port s' \<and>
      port_pending port rx s' = drop n (port_pending port rx s) \<and> tx (uart s') = tx (uart s) \<and>
      time (uart s') = time (uart s)"
    using read_loop_reads [OF g, of n] p(3) g by (cases "n = 0") (auto simp: serial_line_def rtbus_runtime_serial_read_def)
  show "port_good port (serial_write (serial_line U irq K) port bs s) \<and>
      port_pending port rx (serial_write (serial_line U irq K) port bs s) = port_pending port rx s \<and>
      tx (uart (serial_write (serial_line U irq K) port bs s)) = tx (uart s) @ bs \<and>
      time (uart (serial_write (serial_line U irq K) port bs s)) = time (uart s)"
    using polls_out [of bs "uart s"] has_dtr [of "uart s"] p(3) g
    by (auto simp: serial_line_def rtbus_runtime_serial_write_def serial_tx_ready_def port_good_def port_pending_def
        port_usable_def)
  show "\<exists>s'. uptime (serial_line U irq K) s = (time (uart s), s') \<and> port_good port s' \<and>
      port_pending port rx s' = port_pending port rx s \<and> tx (uart s') = tx (uart s) \<and> time (uart s') = time (uart s)"
    using ticks g by (simp add: serial_line_def)
qed

text \<open>What the line contract gives for the port.\<close>

context uart_works
begin

lemma session_over_port:
  assumes "flash_laws E view" "0 < pending_max E" "port_good port s"
    and "routed port s (rx (uart s)) = ymodem_stream meta d" "0 \<le> time (uart s)"
    and "length meta = 128" "ymodem_parse_file_size meta = length d" "d \<noteq> []" "length d < 4294967296"
    and "image_session E (length d) (blocks d) st = Some (r, st')"
  shows "\<exists>s'. rtbus_ymodem_recv (serial_line U irq K) E port s st = Some (r, s', st') \<and>
    (r = ok \<longrightarrow> port_good port s' \<and> tx (uart s') = tx (uart s) @ ymodem_replies d)"
  using line.recv_session [OF assms(1-3) _ assms(5-10)] fresh_pending [OF assms(3)] assms(4) by auto

end

section \<open>Control lines\<close>

lemma submits_queue:
  assumes "input_enabled s" "length (input_msgq s) \<le> 128"
  shows "input_msgq (fold rtbus_cli_submit_byte bs s) = take 128 (input_msgq s @ bs) \<and>
    input_enabled (fold rtbus_cli_submit_byte bs s)"
  using assms
proof (induction bs arbitrary: s)
  case Nil
  then show ?case by simp
next
  case (Cons b bs)
  show ?case
  proof (cases "length (input_msgq s) < 128")
    case True
    then have "input_msgq (rtbus_cli_submit_byte b s) = input_msgq s @ [b]" "input_enabled (rtbus_cli_submit_byte b s)"
      using Cons.prems by (simp_all add: rtbus_cli_submit_byte_def Let_def)
    then show ?thesis using Cons.IH [of "rtbus_cli_submit_byte b s"] True by simp
  next
    case False
    then have "rtbus_cli_submit_byte b s = s" using Cons.prems by (simp add: rtbus_cli_submit_byte_def)
    then show ?thesis using Cons.IH [of s] Cons.prems False by simp
  qed
qed

text \<open>The bytes of an open control line collect in its buffer.\<close>

lemma control_collects:
  fixes s :: "('f, 'd, 'a) serial_scheme"
  assumes "control_active s" "\<forall>b \<in> set bs. \<not> is_line_end b" "length (control_line s) + length bs \<le> 255"
  shows "fold (receive_byte 0) bs s = s\<lparr>control_line := control_line s @ bs\<rparr>"
  using assms
proof (induction bs arbitrary: s)
  case Nil
  then show ?case by simp
next
  case (Cons b bs)
  have "receive_byte 0 b s = s\<lparr>control_line := control_line s @ [b]\<rparr>"
    using Cons.prems by (simp add: receive_byte_def route_port0_byte_def RTBUS_CLI_LINE_MAX_def)
  then show ?case using Cons.IH [of "s\<lparr>control_line := control_line s @ [b]\<rparr>"] Cons.prems by simp
qed

section \<open>A driver over two lists\<close>

text \<open>A device whose line, on the port at hand, is the pair of the bytes to come and the bytes sent; an interrupt
  hands bytes over until the ring holds one.\<close>

definition demo_uart :: "(byte list \<times> byte list) uart_driver" where
  "demo_uart = \<lparr>device_is_ready = (\<lambda>_ _. True), uart_fifo_read = (\<lambda>_ n (i, out). (take n i, (drop n i, out))),
     uart_irq_update = (\<lambda>_ d. (True, d)), uart_irq_rx_ready = (\<lambda>_ d. fst d \<noteq> []),
     uart_irq_callback_set = (\<lambda>_ _ d. (ok, d)), uart_irq_rx_enable = (\<lambda>_ d. d), uart_irq_rx_disable = (\<lambda>_ d. d),
     uart_config_get = (\<lambda>_ _. Inl ENOSYS), uart_configure = (\<lambda>_ _ d. (ok, d)), uart_line_ctrl_dtr = (\<lambda>_ _. Inr 1),
     uart_poll_out = (\<lambda>_ b (i, out). (i, out @ [b])), uart_poll_in = (\<lambda>_ d. (None, d)),
     plain_config = (\<lambda>baud. \<lparr>baudrate = baud, parity = 0, stop_bits = 1, data_bits = 3, flow_ctrl = 0\<rparr>)\<rparr>"

fun feed ::
    "nat \<Rightarrow> byte list \<Rightarrow> ('f, byte list \<times> byte list, 'a) serial_scheme \<Rightarrow> ('f, byte list \<times> byte list, 'a) serial_scheme" where
  "feed port [] s = s\<lparr>uart := ([], snd (uart s))\<rparr>"
| "feed port (b # bs) s =
     (if ring_content (ports s ! port) \<noteq> [] then s\<lparr>uart := (b # bs, snd (uart s))\<rparr>
      else feed port bs (receive_byte port b s))"

definition demo_irq ::
    "nat \<Rightarrow> ('f, byte list \<times> byte list, 'a) serial_scheme \<Rightarrow> ('f, byte list \<times> byte list, 'a) serial_scheme" where
  "demo_irq port s = feed port (fst (uart s)) s"

definition still_kernel :: "'s kernel" where
  "still_kernel = \<lparr>k_uptime_get = (\<lambda>s. (0, s)), k_sleep_ms = (\<lambda>_ s. s), k_block_ms = (\<lambda>_ s. s)\<rparr>"

lemma feed_delivers:
  assumes "port < length (ports s)" "ring_ok (ports s ! port)"
  shows "\<exists>k. feed port bs s = (fold (receive_byte port) (take k bs) s)\<lparr>uart := (drop k bs, snd (uart s))\<rparr> \<and>
    (if ring_content (ports s ! port) = [] then length (routed port s (take k bs)) \<le> 1 else k = 0) \<and>
    (ring_content (ports (feed port bs s) ! port) = [] \<longrightarrow> drop k bs = [])"
  using assms
proof (induction bs arbitrary: s)
  case Nil
  then show ?case by simp
next
  case (Cons b bs)
  show ?case
  proof (cases "ring_content (ports s ! port) = []")
    case False
    then show ?thesis by (intro exI [of _ 0]) simp
  next
    case True
    let ?s = "receive_byte port b s"
    note R = receive_one [where s = s and port = port and b = b]
    have s1: "port < length (ports ?s)" "ring_ok (ports ?s ! port)"
      using Cons.prems R(1) rx_put_spec(1) [OF Cons.prems(2)] by (auto split: if_splits)
    obtain k where K: "feed port bs ?s = (fold (receive_byte port) (take k bs) ?s)\<lparr>uart := (drop k bs, snd (uart ?s))\<rparr>"
      "if ring_content (ports ?s ! port) = [] then length (routed port ?s (take k bs)) \<le> 1 else k = 0"
      "ring_content (ports (feed port bs ?s) ! port) = [] \<longrightarrow> drop k bs = []"
      using Cons.IH [OF s1] by blast
    have "length (routed port s (take (Suc k) (b # bs))) \<le> 1"
    proof (cases "routed port s [b] = []")
      case none: True
      then have "ring_content (ports ?s ! port) = []" using R(1) True by simp
      then show ?thesis using K(2) R(3) [of "take k bs"] none by simp
    next
      case False
      then have "ring_content (ports ?s ! port) \<noteq> []"
        using R(1) rx_put_spec(3) [OF Cons.prems(2), of b] Cons.prems(1) by simp
      then have "k = 0" using K(2) by simp
      then show ?thesis using R(4) by auto
    qed
    then show ?thesis using K True R(2) by (intro exI [of _ "Suc k"]) simp
  qed
qed

interpretation demo_port: uart_works demo_uart "demo_irq port" still_kernel port fst snd "\<lambda>_. 0"
  for port
proof unfold_locales
  fix s :: "('a, byte list \<times> byte list, 'b) serial_scheme"
  assume g: "port_good port s"
  then have p: "port < length (ports s)" "ring_ok (ports s ! port)" by (simp_all add: port_good_def)
  obtain k where K: "demo_irq port s = (fold (receive_byte port) (take k (fst (uart s))) s)
        \<lparr>uart := (drop k (fst (uart s)), snd (uart s))\<rparr>"
    "if ring_content (ports s ! port) = [] then length (routed port s (take k (fst (uart s)))) \<le> 1 else k = 0"
    "ring_content (ports (demo_irq port s) ! port) = [] \<longrightarrow> drop k (fst (uart s)) = []"
    using feed_delivers [OF p, of "fst (uart s)"] unfolding demo_irq_def by blast
  have "ring_count (ports s ! port) + length (routed port s (take k (fst (uart s)))) < length (rx_buffer (ports s ! port))"
  proof (cases "ring_content (ports s ! port) = []")
    case True
    then have "ring_count (ports s ! port) = 0" using length_ring_content [of "ports s ! port"] by simp
    then show ?thesis using K(2) True p(2) by (auto simp: ring_ok_def)
  next
    case False
    then show ?thesis using K(2) ring_head(2) [OF p(2)] by simp
  qed
  then show "\<exists>bs d. fst (uart s) = bs @ fst d \<and> snd d = snd (uart s) \<and> 0 = 0 \<and>
      demo_irq port s = (fold (receive_byte port) bs s)\<lparr>uart := d\<rparr> \<and>
      ring_count (ports s ! port) + length (routed port s bs) < length (rx_buffer (ports s ! port)) \<and>
      (ring_content (ports (demo_irq port s) ! port) = [] \<longrightarrow> routed port (demo_irq port s) (fst d) = [])"
    using K by (intro exI [of _ "take k (fst (uart s))"] exI [of _ "(drop k (fst (uart s)), snd (uart s))"]) auto
qed (auto simp: demo_uart_def still_kernel_def split: prod.splits)

section \<open>Properties\<close>

definition demo_serial :: "byte list \<Rightarrow> (demo_flash, byte list \<times> byte list) serial" where
  "demo_serial bs = cli.extend demo_cli (serial.fields [] False False True
     (replicate 2 \<lparr>rx_buffer = replicate 256 0, rx_head = 0, rx_tail = 0, has_dev = True, is_cdc = True,
        rx_ready = True, prepared = True\<rparr>) (bs, []))"

lemma demo_serial_fields:
  "control_active (demo_serial bs) = False" "port0_line_start (demo_serial bs) = True"
  "uart (demo_serial bs) = (bs, [])" "port_good 0 (demo_serial bs)" "port_good 1 (demo_serial bs)"
  "ring_content (ports (demo_serial bs) ! 0) = []"
  "input_msgq (demo_serial bs) = []" "input_enabled (demo_serial bs)"
  by (simp_all add: demo_serial_def cli.defs serial.defs port_good_def ring_ok_def ring_content_def ring_count_def
      demo_cli_fields)

text \<open>C38: the receive ring is a bounded queue of the newest bytes.  After any number of received bytes
  it holds, in order, the last ones that fit.\<close>

theorem ring_keeps_newest:
  assumes "ring_ok p"
  shows "ring_ok (fold rx_put bs p) \<and>
    ring_content (fold rx_put bs p) =
      drop (length (ring_content p) + length bs - (length (rx_buffer p) - 1)) (ring_content p @ bs)"
  using ring.put_all [OF assms] by simp

theorem ring_keeps_newest_witness:
  "ring_content (fold rx_put [1, 2, 3, 4] \<lparr>rx_buffer = [0, 0, 0, 0], rx_head = 2, rx_tail = 2, has_dev = True,
     is_cdc = False, rx_ready = True, prepared = True\<rparr>) = [2, 3, 4]"
  by (subst ring_keeps_newest [THEN conjunct2]) (simp_all add: ring_ok_def ring_content_def ring_count_def)

text \<open>A control line goes to the command line and never to the application.  A line that starts
  with an at sign (up to 255 bytes) leaves the ring alone and is queued for the command line with a
  line feed at its end, as far as the queue's 128 bytes go.\<close>

theorem control_line_reaches_cli:
  fixes s :: "('f, 'd, 'a) serial_scheme"
  assumes "\<not> control_active s" "port0_line_start s" "\<forall>b \<in> set line. \<not> is_line_end b" "length line \<le> 254"
    and "is_line_end nl" "input_enabled s" "length (input_msgq s) \<le> 128"
    and "s' = fold (receive_byte 0) (64 # line @ [nl]) s"
  shows "ports s' = ports s \<and> uart s' = uart s \<and> \<not> control_active s' \<and> port0_line_start s' \<and>
    input_msgq s' = take 128 (input_msgq s @ 64 # line @ [10])"
proof -
  define s1 where "s1 = receive_byte 0 64 s"
  have s1: "control_active s1" "control_line s1 = [64]" "\<not> control_overflow s1" "ports s1 = ports s"
    "uart s1 = uart s" "input_msgq s1 = input_msgq s" "input_enabled s1"
    using assms(1,2,6) by (simp_all add: s1_def receive_byte_def route_port0_byte_def)
  define s2 where "s2 = s1\<lparr>control_line := 64 # line\<rparr>"
  have s2: "fold (receive_byte 0) line s1 = s2"
    using control_collects [OF s1(1) assms(3)] s1(2) assms(4) by (simp add: s2_def)
  have "s' = receive_byte 0 nl s2" using assms(8) s2 by (simp add: s1_def)
  moreover have "receive_byte 0 nl s2 = submit_control_line s2"
    using assms(5) s1(1) by (simp add: receive_byte_def route_port0_byte_def s2_def)
  ultimately have "s' = submit_control_line s2" by simp
  moreover have "input_msgq (submit_control_line s2) = input_msgq (fold rtbus_cli_submit_byte ((64 # line) @ [10]) s2)"
    using s1(3) by (simp add: submit_control_line_def s2_def)
  moreover have "input_msgq (fold rtbus_cli_submit_byte ((64 # line) @ [10]) s2) =
      take 128 (input_msgq s2 @ (64 # line) @ [10])"
    using submits_queue [of s2 "(64 # line) @ [10]"] s1(6,7) assms(7) by (simp add: s2_def)
  ultimately show ?thesis using s1 by (simp add: s2_def)
qed

theorem control_line_reaches_cli_witness:
  "input_msgq (fold (receive_byte 0) (64 # replicate 200 65 @ [13]) (demo_serial [])) = 64 # replicate 127 65"
proof -
  have "\<forall>b \<in> set (replicate 200 65). \<not> is_line_end b" by (simp add: is_line_end_def)
  from control_line_reaches_cli [OF _ _ this _ _ _ _ refl, of "demo_serial []" 13] show ?thesis
    by (simp add: demo_serial_fields is_line_end_def take_Cons')
qed

text \<open>On port 0 an at sign after a line feed swallows binary data.  The bytes before it reach the
  application, it and everything after it up to the next line end do not.\<close>

theorem newline_at_swallows:
  fixes s :: "('f, 'd, 'a) serial_scheme"
  assumes "port_good 0 s" "\<not> control_active s" "plain (port0_line_start s) (bs @ [10])"
    and "\<forall>b \<in> set lost. \<not> is_line_end b" "ring_count (ports s ! 0) + length bs + 1 < length (rx_buffer (ports s ! 0))"
    and "s' = fold (receive_byte 0) (bs @ 10 # 64 # lost) s"
  shows "ring_content (ports s' ! 0) = ring_content (ports s ! 0) @ bs @ [10]"
proof -
  have p: "0 < length (ports s)" "ring_ok (ports s ! 0)" using assms(1) by (simp_all add: port_good_def)
  have r: "routed 0 s (bs @ 10 # 64 # lost) = bs @ [10]"
    using passed_loses [OF assms(3,4)] assms(2) by (simp add: routed_def)
  have "ports s' ! 0 = fold rx_put (bs @ [10]) (ports s ! 0)"
    using receive_all [OF p(1), of "bs @ 10 # 64 # lost" "[]"] r p(1) by (simp add: assms(6))
  then show ?thesis using ring.put_all [OF p(2), of "bs @ [10]"] assms(5) by simp
qed

theorem newline_at_swallows_witness:
  "ring_content (ports (fold (receive_byte 0) [1, 2, 10, 64, 3, 4] (demo_serial [])) ! 0) = [1, 2, 10]"
proof -
  have c: "plain (port0_line_start (demo_serial [])) ([1, 2] @ [10])" "\<forall>b \<in> set [3, 4]. \<not> is_line_end b"
    "\<not> control_active (demo_serial [])" "ring_count (ports (demo_serial []) ! 0) + length [1, 2] + 1 <
      length (rx_buffer (ports (demo_serial []) ! 0))"
    by (simp_all add: demo_serial_fields is_line_end_def) (simp add: demo_serial_def cli.defs serial.defs ring_count_def)
  from newline_at_swallows [OF demo_serial_fields(4) c(3,1,2,4) refl] show ?thesis
    by (simp add: demo_serial_fields)
qed

text \<open>C16: a file that arrives over a started port is stored as it was sent.  On a driver that works,
  with the sender's stream as the bytes to come (and, on port 0, no control line open and no at
  sign after a line end in the stream), the receiver returns and drives the store as one upload
  session over the file's blocks; when that succeeds the port has sent the answers that the
  protocol asks for and the slot holds the file.\<close>

theorem file_received_over_port:
  fixes s :: "('f, 'd, 'a) serial_scheme"
  assumes "flash_laws E view" "crc_laws E" "0 < pending_max E" "\<not> active st"
    and "128 mod area_align E (slot_area_id E) = 0"
    and "uart_works U irq K port rx tx time" "port_good port s" "0 \<le> time (uart s)"
    and "rx (uart s) = ymodem_stream meta d"
    and "port = 0 \<longrightarrow> \<not> control_active s \<and> plain (port0_line_start s) (ymodem_stream meta d)"
    and "length meta = 128" "ymodem_parse_file_size meta = length d" "d \<noteq> []" "length d < 4294967296"
  shows "\<exists>r s' st'. rtbus_ymodem_recv (serial_line U irq K) E port s st = Some (r, s', st') \<and>
    image_session E (length d) (blocks d) st = Some (r, st') \<and>
    (r = ok \<longrightarrow> tx (uart s') = tx (uart s) @ ymodem_replies d \<and>
       rd (view (slot_area_id E) (flash st')) 0 (length d) = d)"
proof -
  obtain r st' where S: "image_session E (length d) (blocks d) st = Some (r, st')"
    "r = ok \<longrightarrow> rd (view (slot_area_id E) (flash st')) 0 (length d) = d"
    using session_spec [OF assms(1-3,14,4), of "blocks d"] assms(5) by (auto simp: concat_blocks)
  have "routed port s (ymodem_stream meta d) = ymodem_stream meta d"
    using assms(10) passed_plain by (auto simp: routed_def)
  then have "routed port s (rx (uart s)) = ymodem_stream meta d" using assms(9) by simp
  from uart_works.session_over_port [OF assms(6,1,3,7) this assms(8,11-14) S(1)] S show ?thesis by blast
qed

theorem file_received_over_port_witness:
  "\<exists>s' st'. rtbus_ymodem_recv (serial_line demo_uart (demo_irq 1) still_kernel) demo_env 1
       (demo_serial (ymodem_stream demo_meta demo_file)) demo_store = Some (ok, s', st') \<and>
     snd (uart s') = ymodem_replies demo_file \<and> rd (flash st' 1) 0 129 = demo_file"
proof -
  have c: "0 < pending_max demo_env" "128 mod area_align demo_env (slot_area_id demo_env) = 0"
    by (simp_all add: demo_env_def)
  have sz: "ymodem_parse_file_size demo_meta = length demo_file" "length demo_file < 4294967296"
    using demo_meta_size(2) demo_file_facts(1) by simp_all
  obtain st0 where S: "image_session demo_env (length demo_file) (blocks demo_file) demo_store = Some (ok, st0)"
    using demo_session demo_file_facts(1) by auto
  from file_received_over_port [OF demo_env_laws c(1) demo_store_idle c(2) demo_port.uart_works_axioms
      demo_serial_fields(5) _ _ _ demo_meta_size(1) sz(1) demo_file_facts(2) sz(2),
      of "ymodem_stream demo_meta demo_file"]
  show ?thesis using S
    by (auto simp: demo_serial_fields demo_fields demo_view_def demo_file_facts(1))
qed

end
