(* ===== verification/Native_Api.thy ===== *)
theory Native_Api
  imports Serial
begin

text \<open>
  The calls of the API table that reach the hardware, \<open>native_service/api.c\<close>: GPIO pins (with the
  board's table of \<open>native_board.c\<close>), serial ports, printing and the clock.

  The GPIO driver is the record \<open>gpio_driver\<close> over the same driver state as the UARTs; the pin
  table comes from the device tree.  The devices of the serial calls are the ports of theory
  \<open>Serial\<close>: both files build them from the same chosen nodes.  \<open>vsnprintk\<close> and \<open>vprintk\<close> are
  parameters, with a format string and its arguments as one message.
\<close>

section \<open>GPIO\<close>

datatype gpio_flag = GPIO_INPUT | GPIO_OUTPUT | GPIO_PULL_UP | GPIO_PULL_DOWN

record ('g, 'd) gpio_driver =
  native_board_gpio_pins :: "(32 word \<times> 'g) list"
  gpio_is_ready_dt :: "'g \<Rightarrow> 'd \<Rightarrow> bool"
  gpio_pin_configure_dt :: "'g \<Rightarrow> gpio_flag set \<Rightarrow> 'd \<Rightarrow> rc \<times> 'd"
  gpio_pin_set_dt :: "'g \<Rightarrow> bool \<Rightarrow> 'd \<Rightarrow> rc \<times> 'd"
  gpio_pin_get_dt :: "'g \<Rightarrow> 'd \<Rightarrow> (errno + nat) \<times> 'd"

fun gpio_resolve_loop :: "('g, 'd) gpio_driver \<Rightarrow> 32 word \<Rightarrow> 'd \<Rightarrow> (32 word \<times> 'g) list \<Rightarrow> errno + 'g" where
  "gpio_resolve_loop G pin d [] = Inl EINVAL"
| "gpio_resolve_loop G pin d ((app_pin, gpio) # pins) =
     (if app_pin = pin then if gpio_is_ready_dt G gpio d then Inr gpio else Inl ENODEV
      else gpio_resolve_loop G pin d pins)"

definition native_gpio_resolve ::
    "('g, 'd) gpio_driver \<Rightarrow> 32 word \<Rightarrow> ('f, 'd, 'a) serial_scheme \<Rightarrow> errno + 'g" where
  "native_gpio_resolve G pin s = gpio_resolve_loop G pin (uart s) (native_board_gpio_pins G)"

text \<open>The modes are the values of \<open>enum runtime_gpio_mode\<close>.\<close>

definition gpio_mode_flags :: "32 word \<Rightarrow> gpio_flag set option" where
  "gpio_mode_flags mode =
     (if mode = 0 then Some {GPIO_INPUT}
      else if mode = 1 then Some {GPIO_OUTPUT}
      else if mode = 2 then Some {GPIO_INPUT, GPIO_PULL_UP}
      else if mode = 3 then Some {GPIO_INPUT, GPIO_PULL_DOWN}
      else None)"

definition native_api_gpio_configure ::
    "('g, 'd) gpio_driver \<Rightarrow> 32 word \<Rightarrow> 32 word \<Rightarrow> ('f, 'd, 'a) serial_scheme \<Rightarrow> rc \<times> ('f, 'd, 'a) serial_scheme"
  where
  "native_api_gpio_configure G pin mode s =
     (case native_gpio_resolve G pin s of
        Inl e \<Rightarrow> (Inl e, s)
      | Inr gpio \<Rightarrow>
          (case gpio_mode_flags mode of
             None \<Rightarrow> (Inl EINVAL, s)
           | Some flags \<Rightarrow> let (ret, d) = gpio_pin_configure_dt G gpio flags (uart s) in (ret, s\<lparr>uart := d\<rparr>)))"

definition native_api_gpio_write ::
    "('g, 'd) gpio_driver \<Rightarrow> 32 word \<Rightarrow> 32 word \<Rightarrow> ('f, 'd, 'a) serial_scheme \<Rightarrow> rc \<times> ('f, 'd, 'a) serial_scheme"
  where
  "native_api_gpio_write G pin value s =
     (case native_gpio_resolve G pin s of
        Inl e \<Rightarrow> (Inl e, s)
      | Inr gpio \<Rightarrow> let (ret, d) = gpio_pin_set_dt G gpio (value \<noteq> 0) (uart s) in (ret, s\<lparr>uart := d\<rparr>))"

definition native_api_gpio_read ::
    "('g, 'd) gpio_driver \<Rightarrow> 32 word \<Rightarrow> ('f, 'd, 'a) serial_scheme \<Rightarrow> (errno + nat) \<times> ('f, 'd, 'a) serial_scheme"
  where
  "native_api_gpio_read G pin s =
     (case native_gpio_resolve G pin s of
        Inl e \<Rightarrow> (Inl e, s)
      | Inr gpio \<Rightarrow> let (ret, d) = gpio_pin_get_dt G gpio (uart s) in (ret, s\<lparr>uart := d\<rparr>))"

section \<open>Serial ports\<close>

definition native_api_serial_device :: "nat \<Rightarrow> ('f, 'd, 'a) serial_scheme \<Rightarrow> bool" where
  "native_api_serial_device port s \<longleftrightarrow> port < length (ports s) \<and> has_dev (ports s ! port)"

definition native_api_serial_is_cdc :: "nat \<Rightarrow> ('f, 'd, 'a) serial_scheme \<Rightarrow> bool" where
  "native_api_serial_is_cdc port s \<longleftrightarrow> port < length (ports s) \<and> is_cdc (ports s ! port)"

definition native_api_serial_tx_ready :: "'d uart_driver \<Rightarrow> nat \<Rightarrow> ('f, 'd, 'a) serial_scheme \<Rightarrow> bool" where
  "native_api_serial_tx_ready U port s \<longleftrightarrow>
     (if \<not> native_api_serial_is_cdc port s then True
      else case uart_line_ctrl_dtr U port (uart s) of Inl _ \<Rightarrow> False | Inr dtr \<Rightarrow> dtr \<noteq> 0)"

definition native_api_serial_write ::
    "'d uart_driver \<Rightarrow> nat \<Rightarrow> byte list option \<Rightarrow> nat \<Rightarrow> ('f, 'd, 'a) serial_scheme \<Rightarrow>
     nat \<times> ('f, 'd, 'a) serial_scheme" where
  "native_api_serial_write U port data sz s =
     (case data of
        None \<Rightarrow> (0, s)
      | Some bytes \<Rightarrow>
          if sz = 0 \<or> console_suppressed s then (0, s)
          else if \<not> native_api_serial_device port s then (0, s)
          else if \<not> device_is_ready U port (uart s) then (0, s)
          else if \<not> native_api_serial_tx_ready U port s then (0, s)
          else
            let s = s\<lparr>api_busy := api_busy s + 1\<rparr>;
                s = s\<lparr>uart := fold (uart_poll_out U port) (take sz bytes) (uart s)\<rparr>
            in (sz, s\<lparr>api_busy := api_busy s - 1\<rparr>))"

definition native_api_serial_vprintf ::
    "'d uart_driver \<Rightarrow> (nat \<Rightarrow> 'm \<Rightarrow> int \<times> byte list) \<Rightarrow> nat \<Rightarrow> 'm option \<Rightarrow> ('f, 'd, 'a) serial_scheme \<Rightarrow>
     nat \<times> ('f, 'd, 'a) serial_scheme" where
  "native_api_serial_vprintf U vsnprintk port msg s =
     (case msg of
        None \<Rightarrow> (0, s)
      | Some m \<Rightarrow>
          if console_suppressed s then (0, s)
          else
            let s = s\<lparr>api_busy := api_busy s + 1\<rparr>;
                (len, buffer) = vsnprintk 160 m;
                s = s\<lparr>api_busy := api_busy s - 1\<rparr>
            in if len \<le> 0 then (0, s)
               else native_api_serial_write U port (Some buffer) (if 160 \<le> len then 159 else nat len) s)"

definition native_api_serial_read ::
    "'d uart_driver \<Rightarrow> (('f, 'd, 'a) serial_scheme \<Rightarrow> ('f, 'd, 'a) serial_scheme) \<Rightarrow> nat \<Rightarrow>
     ('f, 'd, 'a) serial_scheme \<Rightarrow> int \<times> ('f, 'd, 'a) serial_scheme" where
  "native_api_serial_read U irq port s =
     (if console_suppressed s then (-1, s)
      else
        let (bytes, s) = rtbus_runtime_serial_read U irq port 1 s
        in case bytes of [] \<Rightarrow> (-1, s) | b # _ \<Rightarrow> (uint b, s))"

section \<open>Console and clock\<close>

definition native_api_rtt_vprintf ::
    "('m \<Rightarrow> 'd \<Rightarrow> 'd) \<Rightarrow> 'm \<Rightarrow> ('f, 'd, 'a) serial_scheme \<Rightarrow> ('f, 'd, 'a) serial_scheme" where
  "native_api_rtt_vprintf vprintk m s = (if console_suppressed s then s else s\<lparr>uart := vprintk m (uart s)\<rparr>)"

definition native_api_millis ::
    "('f, 'd, 'a) serial_scheme kernel \<Rightarrow> ('f, 'd, 'a) serial_scheme \<Rightarrow> 32 word \<times> ('f, 'd, 'a) serial_scheme" where
  "native_api_millis K s = (let (now, s) = k_uptime_get K s in (of_int now, s))"

section \<open>Reading byte by byte\<close>

text \<open>A source of bytes that is asked for one at a time and answers -1 when it has none.\<close>

locale byte_source =
  fixes read_one :: "'s \<Rightarrow> int \<times> 's" and good :: "'s \<Rightarrow> bool" and pend :: "'s \<Rightarrow> byte list"
  assumes reads: "good s \<Longrightarrow> \<exists>s'. read_one s = (case pend s of [] \<Rightarrow> -1 | b # _ \<Rightarrow> uint b, s') \<and> good s' \<and>
    pend s' = tl (pend s)"

fun read_times :: "('s \<Rightarrow> int \<times> 's) \<Rightarrow> nat \<Rightarrow> 's \<Rightarrow> int list \<times> 's" where
  "read_times f 0 s = ([], s)"
| "read_times f (Suc n) s = (let (v, s) = f s; (vs, s) = read_times f n s in (v # vs, s))"

context byte_source
begin

lemma read_times_spec:
  "good s \<Longrightarrow> \<exists>s'. read_times read_one n s =
       (map uint (take n (pend s)) @ replicate (n - length (pend s)) (-1), s') \<and> good s' \<and>
     pend s' = drop n (pend s)"
proof (induction n arbitrary: s)
  case 0
  then show ?case by simp
next
  case (Suc n)
  obtain s1 where s1: "read_one s = (case pend s of [] \<Rightarrow> -1 | b # _ \<Rightarrow> uint b, s1)" "good s1"
    "pend s1 = tl (pend s)" using reads [OF Suc.prems] by blast
  obtain s2 where "read_times read_one n s1 =
      (map uint (take n (pend s1)) @ replicate (n - length (pend s1)) (-1), s2)" "good s2"
    "pend s2 = drop n (pend s1)" using Suc.IH [OF s1(2)] by blast
  then show ?case using s1 by (cases "pend s") (auto simp: drop_Suc)
qed

end

lemma receive_console [simp]:
  fixes s :: "('f, 'd, 'a) serial_scheme"
  shows "console_suppressed (receive_byte port b s) = console_suppressed s"
    "api_busy (receive_byte port b s) = api_busy s"
proof -
  have one: "console_suppressed (rtbus_cli_submit_byte b s) = console_suppressed s"
    "api_busy (rtbus_cli_submit_byte b s) = api_busy s" for b and s :: "('f, 'd, 'a) serial_scheme"
    by (simp_all add: rtbus_cli_submit_byte_def Let_def)
  have all: "console_suppressed (fold rtbus_cli_submit_byte bs s) = console_suppressed s"
    "api_busy (fold rtbus_cli_submit_byte bs s) = api_busy s" for bs and s :: "('f, 'd, 'a) serial_scheme"
    by (induction bs arbitrary: s) (simp_all add: one)
  show "console_suppressed (receive_byte port b s) = console_suppressed s"
    "api_busy (receive_byte port b s) = api_busy s"
    by (auto simp: receive_byte_def route_port0_byte_def submit_control_line_def set_port_def one all)
qed

lemma receives_console [simp]:
  fixes s :: "('f, 'd, 'a) serial_scheme"
  shows "console_suppressed (fold (receive_byte port) bs s) = console_suppressed s"
  by (induction bs arbitrary: s) simp_all

context uart_works
begin

lemma irq_console: "port_good port s \<Longrightarrow> console_suppressed (irq s) = console_suppressed s"
  using delivers [of s] by auto

lemma read_console:
  "port_good port s \<Longrightarrow> read_loop U irq port (Suc 0) s = (bs, s') \<Longrightarrow> console_suppressed s' = console_suppressed s"
  using irq_console [of s] irq_step(1) [of s]
  by (auto simp: Let_def set_port_def port_good_def split: option.splits prod.splits if_splits)

end

sublocale uart_works \<subseteq> source: byte_source "native_api_serial_read U irq port"
    "\<lambda>s. port_good port s \<and> \<not> console_suppressed s" "port_pending port rx"
proof unfold_locales
  fix s :: "('f, 'd, 'a) serial_scheme"
  assume g: "port_good port s \<and> \<not> console_suppressed s"
  then have "port_usable U port s" using is_ready by (simp add: port_good_def port_usable_def)
  moreover obtain s' where R: "read_loop U irq port 1 s = (take 1 (port_pending port rx s), s')"
    "port_good port s'" "port_pending port rx s' = drop 1 (port_pending port rx s)"
    using read_loop_reads [of s 1] g by blast
  ultimately have "native_api_serial_read U irq port s =
      (case port_pending port rx s of [] \<Rightarrow> -1 | b # _ \<Rightarrow> uint b, s')"
    using g by (cases "port_pending port rx s")
      (simp_all add: native_api_serial_read_def rtbus_runtime_serial_read_def)
  moreover have "\<not> console_suppressed s'" using read_console [of s] R(1) g by simp
  ultimately show "\<exists>s'. native_api_serial_read U irq port s =
      (case port_pending port rx s of [] \<Rightarrow> -1 | b # _ \<Rightarrow> uint b, s') \<and>
      (port_good port s' \<and> \<not> console_suppressed s') \<and> port_pending port rx s' = tl (port_pending port rx s)"
    using R by (auto simp: drop_Suc)
qed

text \<open>What the contract gives for an application that reads a port.\<close>

context uart_works
begin

lemma application_reads:
  assumes "port_good port s" "\<not> console_suppressed s"
  shows "\<exists>s'. read_times (native_api_serial_read U irq port) n s =
      (map uint (take n (port_pending port rx s)) @ replicate (n - length (port_pending port rx s)) (-1), s') \<and>
    port_pending port rx s' = drop n (port_pending port rx s)"
  using source.read_times_spec [of s n] assms by blast

end

section \<open>Writing\<close>

text \<open>A write to a port that can take it, by the fields that it changes.\<close>

definition writable :: "'d uart_driver \<Rightarrow> nat \<Rightarrow> ('f, 'd, 'a) serial_scheme \<Rightarrow> bool" where
  "writable U port s \<longleftrightarrow> \<not> console_suppressed s \<and> native_api_serial_device port s \<and>
     device_is_ready U port (uart s) \<and> native_api_serial_tx_ready U port s"

lemma write_spec:
  assumes "writable U port s" "n \<noteq> 0"
  shows "native_api_serial_write U port (Some bytes) n s =
    (n, s\<lparr>uart := fold (uart_poll_out U port) (take n bytes) (uart s)\<rparr>)"
  using assms by (simp add: native_api_serial_write_def writable_def)

lemma write_busy [simp]: "api_busy (snd (native_api_serial_write U port data n s)) = api_busy s"
  by (simp add: native_api_serial_write_def split: option.splits)

section \<open>Calls do not stay busy\<close>

text \<open>The complete calls of the API table (and the event core's draining of posts), each from any
  arguments.  Delays are left out: they run the application's callbacks.\<close>

inductive api_call ::
    "backend \<Rightarrow> 'd uart_driver \<Rightarrow> ('g, 'd) gpio_driver \<Rightarrow> ('f, 'd, 'a) serial_scheme kernel \<Rightarrow>
     (('f, 'd, 'a) serial_scheme \<Rightarrow> ('f, 'd, 'a) serial_scheme) \<Rightarrow>
     (nat \<Rightarrow> 'm \<Rightarrow> int \<times> byte list) \<Rightarrow> ('m \<Rightarrow> 'd \<Rightarrow> 'd) \<Rightarrow>
     ('f, 'd, 'a) serial_scheme \<Rightarrow> ('f, 'd, 'a) serial_scheme \<Rightarrow> bool"
  for be U G K irq vsnprintk vprintk where
  post: "native_api_rtbus_post t cid payload n s = (r, s') \<Longrightarrow> api_call be U G K irq vsnprintk vprintk s s'"
| on_event: "native_api_on_event cb s = (r, s') \<Longrightarrow> api_call be U G K irq vsnprintk vprintk s s'"
| result_wait: "native_api_result_wait timeout s = (w, s') \<Longrightarrow> api_call be U G K irq vsnprintk vprintk s s'"
| serial_write: "native_api_serial_write U port data n s = (k, s') \<Longrightarrow> api_call be U G K irq vsnprintk vprintk s s'"
| vprintf: "native_api_serial_vprintf U vsnprintk port msg s = (k, s') \<Longrightarrow> api_call be U G K irq vsnprintk vprintk s s'"
| serial_read: "native_api_serial_read U irq port s = (v, s') \<Longrightarrow> api_call be U G K irq vsnprintk vprintk s s'"
| gpio_configure: "native_api_gpio_configure G pin mode s = (r, s') \<Longrightarrow> api_call be U G K irq vsnprintk vprintk s s'"
| gpio_write: "native_api_gpio_write G pin val s = (r, s') \<Longrightarrow> api_call be U G K irq vsnprintk vprintk s s'"
| gpio_read: "native_api_gpio_read G pin s = (v, s') \<Longrightarrow> api_call be U G K irq vsnprintk vprintk s s'"
| rtt_vprintf: "api_call be U G K irq vsnprintk vprintk s (native_api_rtt_vprintf vprintk m s)"
| millis: "native_api_millis K s = (t, s') \<Longrightarrow> api_call be U G K irq vsnprintk vprintk s s'"
| drain: "rtbus_process_async_posts be s = Some (r, s') \<Longrightarrow> api_call be U G K irq vsnprintk vprintk s s'"

inductive_cases api_callE: "api_call be U G K irq vsnprintk vprintk s s'"

inductive api_calls ::
    "backend \<Rightarrow> 'd uart_driver \<Rightarrow> ('g, 'd) gpio_driver \<Rightarrow> ('f, 'd, 'a) serial_scheme kernel \<Rightarrow>
     (('f, 'd, 'a) serial_scheme \<Rightarrow> ('f, 'd, 'a) serial_scheme) \<Rightarrow>
     (nat \<Rightarrow> 'm \<Rightarrow> int \<times> byte list) \<Rightarrow> ('m \<Rightarrow> 'd \<Rightarrow> 'd) \<Rightarrow>
     ('f, 'd, 'a) serial_scheme \<Rightarrow> ('f, 'd, 'a) serial_scheme \<Rightarrow> bool"
  for be U G K irq vsnprintk vprintk where
  none: "api_calls be U G K irq vsnprintk vprintk s s"
| call: "api_call be U G K irq vsnprintk vprintk s s1 \<Longrightarrow> api_calls be U G K irq vsnprintk vprintk s1 s' \<Longrightarrow> api_calls be U G K irq vsnprintk vprintk s s'"

lemma vprintf_busy [simp]: "api_busy (snd (native_api_serial_vprintf U vsnprintk port msg s)) = api_busy s"
  by (simp add: native_api_serial_vprintf_def Let_def split: option.splits prod.splits)

lemma read_loop_busy:
  assumes "\<And>s. api_busy (irq s) = api_busy s"
  shows "api_busy (snd (read_loop U irq port n s)) = api_busy s"
proof (induction n arbitrary: s)
  case 0
  then show ?case by simp
next
  case (Suc n)
  let ?p = "ports (irq s) ! port"
  have next_read: "api_busy (snd (let (bs, s) = read_loop U irq port n t in (b # bs, s))) = api_busy t" for b t
    using Suc.IH [of t] by (cases "read_loop U irq port n t") simp
  obtain got p where G: "rx_get ?p = (got, p)" by force
  show ?case
  proof (cases got)
    case (Some b)
    then show ?thesis using G next_read [where b = b and t = "set_port port p (irq s)"] assms [of s] by (simp add: set_port_def Let_def)
  next
    case None
    obtain polled d where P: "uart_poll_in U port (uart (irq s)) = (polled, d)" by force
    show ?thesis using G None P next_read [where t = "(irq s)\<lparr>uart := d\<rparr>"] assms [of s]
      by (cases polled) (simp_all add: Let_def)
  qed
qed

lemma call_busy:
  fixes s s' :: "('f, 'd, 'a) serial_scheme"
  assumes "api_call be U G K irq vsnprintk vprintk s s'" and irq: "\<And>s. api_busy (irq s) = api_busy s"
    and K: "\<And>s. snd (k_uptime_get K s) = s"
  shows "api_busy s' = api_busy s"
  using assms(1)
proof (cases rule: api_call.cases)
  case (serial_read port v)
  then have "s' = snd (native_api_serial_read U irq port s)" by simp
  then show ?thesis
    using read_loop_busy [where irq = irq and U = U and port = port and n = 1 and s = s, OF irq]
    by (simp add: native_api_serial_read_def rtbus_runtime_serial_read_def split: prod.splits list.splits if_splits)
next
  case (serial_write port data n k)
  then show ?thesis using write_busy [of U port data n s] by simp
next
  case (vprintf port msg k)
  then show ?thesis using vprintf_busy [of U vsnprintk port msg s] by simp
next
  case (drain r)
  then show ?thesis using drain_frame by metis
next
  case (millis t)
  then show ?thesis using K [of s] by (auto simp: native_api_millis_def split: prod.splits)
qed (auto simp: native_ops native_api_gpio_configure_def native_api_gpio_write_def native_api_gpio_read_def
    native_api_rtt_vprintf_def Let_def split: prod.splits sum.splits option.splits if_splits)

lemma calls_busy:
  fixes s s' :: "('f, 'd, 'a) serial_scheme"
  assumes "api_calls be U G K irq vsnprintk vprintk s s'" "\<And>s. api_busy (irq s) = api_busy s" "\<And>s. snd (k_uptime_get K s) = s"
  shows "api_busy s' = api_busy s"
  using assms(1) by (induction rule: api_calls.induct) (simp_all add: call_busy [OF _ assms(2,3)])

section \<open>Properties\<close>

definition demo_gpio :: "(nat, byte list \<times> byte list) gpio_driver" where
  "demo_gpio = \<lparr>native_board_gpio_pins = [(3, 30), (5, 50), (3, 31)], gpio_is_ready_dt = (\<lambda>g _. g \<noteq> 50),
     gpio_pin_configure_dt = (\<lambda>_ _ d. (ok, d)), gpio_pin_set_dt = (\<lambda>g v (i, out). (ok, (i, out @ [of_nat g]))),
     gpio_pin_get_dt = (\<lambda>_ d. (Inr 1, d))\<rparr>"

lemma demo_irq_busy: "api_busy (demo_irq port s) = api_busy s"
proof -
  have "api_busy (feed port bs s) = api_busy s" for bs s by (induction bs arbitrary: s) auto
  then show ?thesis by (simp add: demo_irq_def)
qed

lemma demo_serial_native:
  "api_busy (demo_serial bs) = 0" "console_suppressed (demo_serial bs) = False"
  "native_thread (demo_serial bs) = False" "post_msgq (demo_serial bs) = []"
  "ports (demo_serial bs) ! 0 = ports (demo_serial bs) ! 1" "has_dev (ports (demo_serial bs) ! 1)"
  "length (ports (demo_serial bs)) = 2"
  by (simp_all add: demo_serial_def cli.defs serial.defs demo_cli_def native.defs demo_native_def rtbus.defs)

text \<open>The application reads a port's bytes in the order they arrive, each once, and -1 when
  there are none.  On port 0 these are the bytes that routing lets through.\<close>

theorem application_reads_port:
  fixes s :: "('f, 'd, 'a) serial_scheme"
  assumes "uart_works U irq K port rx tx time" "port_good port s" "\<not> console_suppressed s"
  shows "\<exists>s'. read_times (native_api_serial_read U irq port) n s =
      (map uint (take n (port_pending port rx s)) @ replicate (n - length (port_pending port rx s)) (-1), s') \<and>
    port_pending port rx s' = drop n (port_pending port rx s)"
  by (rule uart_works.application_reads [OF assms])

theorem application_reads_port_witness:
  "\<exists>s'. read_times (native_api_serial_read demo_uart (demo_irq 1) 1) 4 (demo_serial [7, 64, 10]) =
     ([7, 64, 10, -1], s')"
proof -
  have "port_pending 1 fst (demo_serial [7, 64, 10]) = [7, 64, 10]"
    using demo_serial_fields(3,6) demo_serial_native(5) by (simp add: port_pending_def routed_def)
  moreover obtain s' where "read_times (native_api_serial_read demo_uart (demo_irq 1) 1) 4 (demo_serial [7, 64, 10]) =
      (map uint (take 4 (port_pending 1 fst (demo_serial [7, 64, 10]))) @
       replicate (4 - length (port_pending 1 fst (demo_serial [7, 64, 10]))) (-1), s')"
    using application_reads_port [OF demo_port.uart_works_axioms demo_serial_fields(5), of "[7, 64, 10]" 4]
      demo_serial_native(2) by blast
  ultimately have "read_times (native_api_serial_read demo_uart (demo_irq 1) 1) 4 (demo_serial [7, 64, 10]) =
      ([7, 64, 10] @ replicate 1 (-1), s')" by (simp del: One_nat_def)
  then show ?thesis by simp
qed

text \<open>Text that the application prints to a port is sent, cut to the 159 characters of the
  runtime's buffer, and the call reports how many were sent; while the console is suppressed
  nothing is sent.\<close>

theorem printed_text_sent:
  fixes s :: "('f, 'd, 'a) serial_scheme"
  assumes "vsnprintk 160 m = (int (length txt), take 159 txt @ 0 # rest)"
    and "\<forall>b d. tx (uart_poll_out U port b d) = tx d @ [b]"
    and "native_api_serial_vprintf U vsnprintk port (Some m) s = (n, s')"
  shows "(writable U port s \<longrightarrow> n = min 159 (length txt) \<and> tx (uart s') = tx (uart s) @ take 159 txt \<and>
      api_busy s' = api_busy s) \<and>
    (console_suppressed s \<longrightarrow> n = 0 \<and> s' = s)"
proof -
  have polls: "tx (fold (uart_poll_out U port) bs d) = tx d @ bs" for bs d
    using assms(2) by (induction bs arbitrary: d) simp_all
  let ?n = "min 159 (length txt)"
  have len: "(if 160 \<le> int (length txt) then 159 else nat (int (length txt))) = ?n" by simp
  show ?thesis
  proof (cases "txt = []")
    case True
    then show ?thesis using assms(1,3) by (auto simp: native_api_serial_vprintf_def writable_def)
  next
    case False
    then have n0: "?n \<noteq> 0" by simp
    have bytes: "take ?n (take 159 txt @ 0 # rest) = take 159 txt" by (simp add: min_def)
    show ?thesis
    proof (cases "writable U port s")
      case True
      then have "(n, s') = (?n, s\<lparr>uart := fold (uart_poll_out U port) (take 159 txt) (uart s)\<rparr>)"
        using assms(1,3) False write_spec [OF True n0, of "take 159 txt @ 0 # rest"] bytes len
        by (simp add: native_api_serial_vprintf_def writable_def)
      then show ?thesis using True polls by (simp add: writable_def)
    next
      case False
      then show ?thesis using assms(3) by (auto simp: native_api_serial_vprintf_def)
    qed
  qed
qed

theorem printed_text_sent_witness:
  "\<exists>s'. native_api_serial_vprintf demo_uart (\<lambda>_ _. (2, [72, 105, 0])) 1 (Some ()) (demo_serial []) = (2, s') \<and>
     snd (uart s') = [72, 105]"
proof -
  obtain n s' where R: "native_api_serial_vprintf demo_uart (\<lambda>_ _. (2, [72, 105, 0])) 1 (Some ()) (demo_serial []) = (n, s')"
    by force
  have "writable demo_uart 1 (demo_serial [])"
    using demo_serial_native demo_serial_fields
    by (simp add: writable_def native_api_serial_device_def native_api_serial_tx_ready_def demo_uart_def)
  then show ?thesis
    using printed_text_sent [OF _ _ R, of "[72, 105]" "[]" snd] R by (auto simp: demo_uart_def demo_serial_fields)
qed

text \<open>A GPIO call reaches the first entry of the board's table with its pin number, with the flags
  of its mode, and nothing else: an unknown pin or mode gives EINVAL and a device that is not ready
  gives ENODEV, and neither touches the hardware.\<close>

theorem gpio_call_reaches_pin:
  "native_api_gpio_configure G pin mode s =
     (case map_of (native_board_gpio_pins G) pin of
        None \<Rightarrow> (Inl EINVAL, s)
      | Some g \<Rightarrow>
          if \<not> gpio_is_ready_dt G g (uart s) then (Inl ENODEV, s)
          else if 3 < unat mode then (Inl EINVAL, s)
          else apsnd (\<lambda>d. s\<lparr>uart := d\<rparr>) (gpio_pin_configure_dt G g
            ([{GPIO_INPUT}, {GPIO_OUTPUT}, {GPIO_INPUT, GPIO_PULL_UP}, {GPIO_INPUT, GPIO_PULL_DOWN}] ! unat mode)
            (uart s))) \<and>
   native_api_gpio_write G pin val s =
     (case map_of (native_board_gpio_pins G) pin of
        None \<Rightarrow> (Inl EINVAL, s)
      | Some g \<Rightarrow>
          if \<not> gpio_is_ready_dt G g (uart s) then (Inl ENODEV, s)
          else apsnd (\<lambda>d. s\<lparr>uart := d\<rparr>) (gpio_pin_set_dt G g (val \<noteq> 0) (uart s)))"
proof -
  have R: "native_gpio_resolve G pin s =
      (case map_of (native_board_gpio_pins G) pin of None \<Rightarrow> Inl EINVAL
       | Some g \<Rightarrow> if gpio_is_ready_dt G g (uart s) then Inr g else Inl ENODEV)"
  proof -
    have "gpio_resolve_loop G pin d pins = (case map_of pins pin of None \<Rightarrow> Inl EINVAL
       | Some g \<Rightarrow> if gpio_is_ready_dt G g d then Inr g else Inl ENODEV)" for d pins
      by (induction pins) auto
    then show ?thesis by (simp add: native_gpio_resolve_def)
  qed
  have M: "gpio_mode_flags mode = (if 3 < unat mode then None else Some
      ([{GPIO_INPUT}, {GPIO_OUTPUT}, {GPIO_INPUT, GPIO_PULL_UP}, {GPIO_INPUT, GPIO_PULL_DOWN}] ! unat mode))"
  proof -
    have m: "mode = of_nat k" if "unat mode = k" for k using that [symmetric] by simp
    consider "unat mode = 0" | "unat mode = 1" | "unat mode = 2" | "unat mode = 3" | "3 < unat mode" by linarith
    then show ?thesis
      by cases (use m [of 0] m [of 1] m [of 2] m [of 3] in \<open>auto simp: gpio_mode_flags_def\<close>)
  qed
  have P: "(case x of (r, d) \<Rightarrow> (r, s\<lparr>uart := d\<rparr>)) = apsnd (\<lambda>d. s\<lparr>uart := d\<rparr>) x" for x :: "rc \<times> 'b"
    by (cases x) simp
  show ?thesis
  proof (cases "map_of (native_board_gpio_pins G) pin")
    case None
    then show ?thesis by (simp add: native_api_gpio_configure_def native_api_gpio_write_def R)
  next
    case (Some g)
    then show ?thesis
      by (cases "gpio_is_ready_dt G g (uart s)")
        (simp_all only: native_api_gpio_configure_def native_api_gpio_write_def R M P option.case sum.case
          if_True if_False simp_thms Let_def, simp_all)
  qed
qed

text \<open>Between the calls of the API table the application can be stopped at once.  From a state in
  which no call is going on, any sequence of complete calls ends in such a state, and a request to
  stop for an upgrade then succeeds without waiting.\<close>

theorem calls_leave_application_stoppable:
  fixes s :: "('f, 'd, 'a) serial_scheme"
  assumes "api_calls be U G K irq vsnprintk vprintk s s'" "api_busy s = 0"
    and "\<forall>s. api_busy (irq s) = api_busy s" "\<forall>s. snd (k_uptime_get K s) = s"
  shows "api_busy s' = 0 \<and> (\<exists>s''. native_service_stop_for_upgrade K s' = Some (ok, s'') \<and>
    patch_handoff s'' \<and> (native_thread s' \<longrightarrow> stopped s'') \<and> \<not> native_thread s'')"
proof -
  have busy: "api_busy s' = 0" using calls_busy [OF assms(1)] assms(2-4) by simp
  define s1 where "s1 = native_service_request_stop_for_upgrade s'"
  have s1: "patch_handoff s1" "native_thread s1 = native_thread s'" "api_busy s1 = 0"
    using busy by (simp_all add: s1_def native_ops)
  obtain t where up: "k_uptime_get K s' = (t, s')" using assms(4) by (metis surjective_pairing)
  define s2 where "s2 = native_service_force_stop_thread s1"
  have "handoff_loop K (t + NATIVE_UPGRADE_HANDOFF_TIMEOUT_MS) s1 = Some (ok, s2)"
    using s1(3) by (subst handoff_loop.simps) (simp add: s2_def)
  then have "native_service_stop_for_upgrade K s' = Some (ok, if native_thread s' then s2 else s1)"
    using s1 up by (simp add: native_service_stop_for_upgrade_def native_service_handoff_ram_for_patch_def s1_def [symmetric])
  moreover have "stopped s2" "patch_handoff s2" "\<not> native_thread s2"
    using force_stopped [of s1] s1(1) by (simp_all add: s2_def stopped_def native_service_force_stop_thread_def)
  ultimately show ?thesis using busy s1 by auto
qed

theorem calls_leave_application_stoppable_witness:
  "\<exists>s'. api_calls Entry_Table demo_uart demo_gpio still_kernel (demo_irq 1) (\<lambda>_ (_ :: unit). (0, [])) (\<lambda>_ d. d)
       (demo_serial []) s' \<and> snd (uart s') = [30, 1, 2] \<and>
     (\<exists>s''. native_service_stop_for_upgrade still_kernel s' = Some (ok, s''))"
proof -
  define c :: "(demo_flash, byte list \<times> byte list) serial \<Rightarrow> (demo_flash, byte list \<times> byte list) serial \<Rightarrow> bool"
    where "c = api_calls Entry_Table demo_uart demo_gpio still_kernel (demo_irq 1)
      (\<lambda>_ (_ :: unit). (0, [])) (\<lambda>_ d. d)"
  define s0 where "s0 = demo_serial []"
  define s1 where "s1 = snd (native_api_gpio_write demo_gpio 3 1 s0)"
  define s2 where "s2 = snd (native_api_serial_write demo_uart 1 (Some [1, 2]) 2 s1)"
  have s1: "s1 = s0\<lparr>uart := ([], [30])\<rparr>"
    by (simp add: s1_def s0_def native_api_gpio_write_def native_gpio_resolve_def demo_gpio_def demo_serial_fields)
  have w: "writable demo_uart 1 s1"
    using demo_serial_native
    by (simp add: s1 s0_def writable_def native_api_serial_device_def native_api_serial_tx_ready_def demo_uart_def)
  have s2: "s2 = s1\<lparr>uart := ([], [30, 1, 2])\<rparr>"
    using write_spec [OF w, of 2 "[1, 2]"] by (simp add: s2_def s1) (simp add: demo_uart_def)
  obtain k r where W: "native_api_serial_write demo_uart 1 (Some [1, 2]) 2 s1 = (k, s2)"
    "native_api_gpio_write demo_gpio 3 1 s0 = (r, s1)" by (metis s1_def s2_def prod.collapse)
  then have run: "c s0 s2" unfolding c_def
    by (blast intro: api_calls.intros api_call.serial_write api_call.gpio_write)
  have "\<exists>s''. native_service_stop_for_upgrade still_kernel s2 = Some (ok, s'')"
    using calls_leave_application_stoppable [OF run [unfolded c_def]] demo_irq_busy
    by (auto simp: s0_def demo_serial_native still_kernel_def)
  moreover have "snd (uart s2) = [30, 1, 2]" by (simp add: s2)
  ultimately show ?thesis using run unfolding c_def s0_def by blast
qed

end
