(* ===== verification/App_Start.thy ===== *)
theory App_Start
  imports Native Header_Format Image_Accept
begin

text \<open>
  From the linker's symbols to the running application: what the packaging tool (theory
  \<open>Header_Format\<close>) wrote into the slot, the native service (theory \<open>Native\<close>) loads to the addresses
  that the application was linked for.
\<close>

section \<open>A packaged image in the slot\<close>

text \<open>The slot of flash \<open>f\<close> holds the image.\<close>

definition slot_holds :: "'f image_env \<Rightarrow> (nat \<Rightarrow> 'f \<Rightarrow> mem) \<Rightarrow> byte list \<Rightarrow> 'f \<Rightarrow> bool" where
  "slot_holds E view img f \<longleftrightarrow> rd (view (slot_area_id E) f) 0 (length img) = img \<and>
     length img \<le> area_size E (slot_area_id E)"

lemma package_in_slot:
  assumes laws: "flash_laws E view" "crc_laws E" "crc_matches E" and rdb: "slot_readable E f"
    and img: "slot_holds E view (package sy name version ram payload) f"
    and pl: "0 < length payload" "length payload < 4294967296" and ram: "unat ram \<le> image_ram_max E"
  shows "\<exists>st. rtbus_image_get_status E f = (ok, st) \<and> st_valid st \<and> st_payload_size st = length payload \<and>
      st_flags st = 201326593"
    "rtbus_image_get_native_metadata E f = Inr (metadata_of_bytes (reserved_bytes sy))"
    "rtbus_image_read_payload E off n f = Inr (slice off n payload)"
proof -
  let ?img = "package sy name version ram payload"
  define h where "h = header_of_bytes (take 128 ?img)"
  have h: "h_payload_size h = length payload" "h_flags h = 201326593" "h_reserved h = reserved_bytes sy"
    using pl(2) by (simp_all add: h_def package_def header_of_build_header unat_of_nat)
  have len: "128 \<le> length ?img" "length ?img \<le> area_size E (slot_area_id E)"
    using img by (simp_all add: package_def slot_holds_def)
  have good: "image_ok E ?img" using image_ok_package [OF laws(3) pl refl] ram by (simp add: package_def)
  have held: "rd (view (slot_area_id E) f) 0 (length ?img) = ?img" using img by (simp add: slot_holds_def)
  note I = slot_image [OF laws(1,2) rdb held good len, folded h_def, unfolded h(1)]
  have op: "area_open E (slot_area_id E) f = ok" using rdb by (simp add: slot_readable_def)
  show "\<exists>st. rtbus_image_get_status E f = (ok, st) \<and> st_valid st \<and> st_payload_size st = length payload \<and>
      st_flags st = 201326593"
    using I h op by (simp add: rtbus_image_get_status_def Let_def)
  show "rtbus_image_get_native_metadata E f = Inr (metadata_of_bytes (reserved_bytes sy))"
    using I(1) h op by (simp add: rtbus_image_get_native_metadata_def IMAGE_FLAG_NATIVE_def)
  show "rtbus_image_read_payload E off n f = Inr (slice off n payload)"
  proof (cases "length payload \<le> off")
    case True
    then show ?thesis using I(1) h(1) op by (simp add: rtbus_image_read_payload_def slice_def Let_def)
  next
    case False
    define k where "k = min n (length payload - off)"
    have k: "128 + off + k \<le> length ?img" using False by (auto simp: k_def package_def)
    then obtain bs where bs: "area_read E (slot_area_id E) (128 + off) k f = Inr bs"
      using rdb len(2) unfolding slot_readable_def by (metis le_trans)
    then have "bs = slice (128 + off) k ?img"
      using flash_lawsD(2) [OF laws(1) bs] rd_slice [OF held k] by simp
    also have "\<dots> = slice off n payload" by (simp add: package_def slice_def k_def min_def)
    finally show ?thesis using I(1) h(1) op bs False
      by (simp add: rtbus_image_read_payload_def Let_def IMAGE_HEADER_SIZE_def k_def)
  qed
qed

section \<open>Linked for this device\<close>

text \<open>The symbols of an application linked for this device: its flash section starts right after the
  header in the slot, its RAM section is the application's RAM, its entry and its initial data lie
  in the payload, and data and bss lie one after the other.\<close>

definition linked_for :: "'f native_env \<Rightarrow> application_symbols \<Rightarrow> byte list \<Rightarrow> bool" where
  "linked_for V sy payload \<longleftrightarrow>
     unat (flash_start sy) = NATIVE_FLASH_BASE V + 128 \<and> unat (ram_start sy) = NATIVE_RAM_BASE V \<and>
     unat (flash_start sy) + length payload \<le> 4294967296 \<and>
     flash_start sy \<le> entry sy \<and> unat (entry sy) < unat (flash_start sy) + length payload \<and>
     flash_start sy \<le> data_load sy \<and> data_start sy \<le> data_end sy \<and>
     unat (data_load sy) + unat (data_end sy - data_start sy) \<le> unat (flash_start sy) + length payload \<and>
     data_end sy \<le> bss_start sy \<and> bss_start sy \<le> bss_end sy"

lemma linked_loadable:
  assumes "linked_for V sy payload" "validate_symbols sy = Some ram" "unat ram \<le> NATIVE_RAM_SIZE V"
    and "st_payload_size st = length payload"
  shows "loadable V st (metadata_of_bytes (reserved_bytes sy))"
proof -
  have v: "ram_start sy < ram_end sy" "ram = ram_end sy - ram_start sy" "ram_start sy \<le> data_start sy"
      "data_end sy \<le> ram_end sy" "ram_start sy \<le> bss_start sy" "bss_end sy \<le> ram_end sy"
    using assms(2) by (auto simp: validate_symbols_def Let_def not_less not_le split: if_splits)
  then show ?thesis using assms(1,3,4)
    by (auto simp: loadable_def linked_for_def metadata_of_reserved unat_sub word_le_nat_alt word_less_nat_alt)
qed

text \<open>The image as the native service loads it: the data at its addresses, the bss cleared.\<close>

definition loaded :: "application_symbols \<Rightarrow> byte list \<Rightarrow> ('f, 'a) native_scheme \<Rightarrow> bool" where
  "loaded sy payload s \<longleftrightarrow>
     native_thread s \<and> native_entry s = unat (entry sy) OR 1 \<and> last_error s = ok \<and>
     rd (sram s) (unat (data_start sy)) (unat (data_end sy - data_start sy)) =
       slice (unat (data_load sy - flash_start sy)) (unat (data_end sy - data_start sy)) payload \<and>
     rd (sram s) (unat (bss_start sy)) (unat (bss_end sy - bss_start sy)) =
       replicate (unat (bss_end sy - bss_start sy)) 0"

lemma package_loads:
  fixes s :: "('f, 'a) native_scheme"
  assumes laws: "flash_laws (image_of V) view" "crc_laws (image_of V)" "crc_matches (image_of V)"
    and slot: "slot_readable (image_of V) (flash (img_store s))"
      "slot_holds (image_of V) view (package sy name version ram payload) (flash (img_store s))"
    and link: "validate_symbols sy = Some ram" "unat ram \<le> NATIVE_RAM_SIZE V" "NATIVE_RAM_SIZE V < 4294967296"
      "linked_for V sy payload"
  shows "\<exists>m. native_load V s = (ok, s\<lparr>sram := m, native_entry := unat (entry sy) OR 1, last_error := ok\<rparr>) \<and>
    loaded sy payload (s\<lparr>sram := m, native_entry := unat (entry sy) OR 1, last_error := ok, native_thread := True\<rparr>)"
proof -
  let ?E = "image_of V" and ?f = "flash (img_store s)" and ?md = "metadata_of_bytes (reserved_bytes sy)"
  let ?base = "NATIVE_RAM_BASE V" and ?n = "unat (data_end sy - data_start sy)"
  have L: "unat (flash_start sy) = NATIVE_FLASH_BASE V + 128" "unat (ram_start sy) = ?base"
    "unat (flash_start sy) + length payload \<le> 4294967296" "flash_start sy \<le> entry sy"
    "unat (entry sy) < unat (flash_start sy) + length payload" "flash_start sy \<le> data_load sy"
    "data_start sy \<le> data_end sy" "data_end sy \<le> bss_start sy" "bss_start sy \<le> bss_end sy"
    "unat (data_load sy) + ?n \<le> unat (flash_start sy) + length payload"
    using link(4) by (simp_all add: linked_for_def)
  have v: "ram_start sy \<le> data_start sy" "ram_start sy \<le> bss_start sy"
    using link(1) by (auto simp: validate_symbols_def Let_def not_less split: if_splits)
  have pl: "0 < length payload" "length payload < 4294967296"
    using L(1,3,4,5) by (auto simp: word_le_nat_alt)
  have ram: "unat ram \<le> image_ram_max ?E" using link(2) by (simp add: NATIVE_RAM_SIZE_def)
  note P = package_in_slot [OF laws slot pl ram]
  obtain st where st: "rtbus_image_get_status ?E ?f = (ok, st)" "st_payload_size st = length payload"
    "st_flags st = 201326593" using P(1) by blast
  have ld: "loadable V st ?md" by (rule linked_loadable [OF link(4,1,2) st(2)])
  have valid: "native_validate_metadata V st ?md = ok"
    using pl(2) st(2) link(3)
    by (intro validate_ok [OF ld]) (simp_all add: st(3) FLAGS_ABI_VERSION_def layout_defs)
  define bs where "bs = slice (unat (data_load sy - flash_start sy)) ?n payload"
  have bs: "length bs = ?n" "rtbus_image_read_payload ?E (data_load_offset ?md) (data_size ?md) ?f = Inr bs"
    using P(3) L(6,10) by (simp_all add: bs_def slice_def metadata_of_reserved unat_sub word_le_nat_alt)
  have addr: "?base + data_ram_offset ?md = unat (data_start sy)" "?base + bss_ram_offset ?md = unat (bss_start sy)"
    "u32 (NATIVE_FLASH_BASE V + IMAGE_HEADER_SIZE + entry_offset ?md) = unat (entry sy)"
    using L(1,2,4) v unat_lt32 [of "entry sy"]
    by (simp_all add: metadata_of_reserved unat_sub word_le_nat_alt IMAGE_HEADER_SIZE_def u32_def)
  define z :: "byte list" where "z = replicate (unat (bss_end sy - bss_start sy)) 0"
  define m where "m = wr (wr (sram s) (unat (data_start sy)) bs) (unat (bss_start sy)) z"
  have load: "native_load V s = (ok, s\<lparr>sram := m, native_entry := unat (entry sy) OR 1, last_error := ok\<rparr>)"
    using st(1) P(2) valid bs addr
    by (simp add: native_load_def Let_def m_def z_def metadata_of_reserved)
  have order: "unat (data_start sy) + length bs \<le> unat (bss_start sy)"
    using L(7,8) bs(1) by (simp add: unat_sub word_le_nat_alt)
  have "rd m (unat (data_start sy)) (length bs) = bs" "rd m (unat (bss_start sy)) (length z) = z"
    using order wr_other wr_same by (simp_all add: m_def)
  then have "loaded sy payload (s\<lparr>sram := m, native_entry := unat (entry sy) OR 1, last_error := ok,
      native_thread := True\<rparr>)"
    using bs(1) by (simp add: loaded_def bs_def [symmetric]) (simp add: z_def)
  then show ?thesis using load by blast
qed

lemma package_starts:
  fixes s :: "('f, 'a) native_scheme"
  assumes "flash_laws (image_of V) view" "crc_laws (image_of V)" "crc_matches (image_of V)"
    and "slot_readable (image_of V) (flash (img_store s))"
    and "slot_holds (image_of V) view (package sy name version ram payload) (flash (img_store s))"
    and "validate_symbols sy = Some ram" "unat ram \<le> NATIVE_RAM_SIZE V" "NATIVE_RAM_SIZE V < 4294967296"
    and "linked_for V sy payload" "\<not> patch_handoff s" "\<not> native_thread s"
  shows "\<exists>m s'. native_service_start V s = (ok, s') \<and> loaded sy payload s' \<and>
    s' = s\<lparr>sram := m, native_entry := unat (entry sy) OR 1, last_error := ok, native_thread := True\<rparr>"
proof -
  define s1 where "s1 = native_api_table_install V s"
  have s1: "s1 = s\<lparr>sram := sram s1\<rparr>" by (simp add: s1_def native_api_table_install_def)
  have store: "img_store s1 = img_store s" by (subst s1) simp
  obtain m where m: "native_load V s1 = (ok, s1\<lparr>sram := m, native_entry := unat (entry sy) OR 1, last_error := ok\<rparr>)"
    "loaded sy payload (s1\<lparr>sram := m, native_entry := unat (entry sy) OR 1, last_error := ok, native_thread := True\<rparr>)"
    using package_loads [OF assms(1-3) _ _ assms(6-9), where s = s1 and name = name and version = version]
      assms(4,5) by (auto simp: store)
  define s2 where "s2 = s1\<lparr>sram := m, native_entry := unat (entry sy) OR 1, last_error := ok, native_thread := True\<rparr>"
  have "native_service_start V s = (ok, s2)"
    using assms(10,11) m(1) by (simp add: native_service_start_def s1_def [symmetric] s2_def)
  moreover have "s2 = s\<lparr>sram := m, native_entry := unat (entry sy) OR 1, last_error := ok, native_thread := True\<rparr>"
    unfolding s2_def by (subst s1) simp
  moreover have "loaded sy payload s2" using m(2) by (simp only: s2_def)
  ultimately show ?thesis by (intro exI [of _ m] exI [of _ s2]) simp
qed

section \<open>Properties\<close>

text \<open>A device for which \<open>demo_symbols\<close> are linked, and an application of 400 bytes.\<close>

definition tool_native_env :: "demo_flash native_env" where
  "tool_native_env = demo_native_env\<lparr>image_of := tool_env, NATIVE_RAM_BASE := 0x20001000,
     NATIVE_FLASH_BASE := 0x80000\<rparr>"

definition demo_app_image :: "byte list" where
  "demo_app_image = package demo_symbols ''app'' ''1.0+1'' 0x1000 (replicate 400 7)"

lemma demo_linked: "linked_for tool_native_env demo_symbols (replicate 400 7)"
  by (simp add: linked_for_def tool_native_env_def demo_native_env_def demo_symbols_def)

text \<open>A packaged application starts as it was linked.  When the slot holds what the tool wrote for an
  application linked for this device, starting succeeds; the thread's entry point is the entry
  symbol, the data section is at its address with its initial contents and the bss section is
  clear.\<close>

theorem packaged_application_starts:
  fixes s :: "('f, 'a) native_scheme"
  assumes "flash_laws (image_of V) view" "crc_laws (image_of V)" "crc_matches (image_of V)"
    and "slot_readable (image_of V) (flash (img_store s))"
    and "slot_holds (image_of V) view (package sy name version ram payload) (flash (img_store s))"
    and "validate_symbols sy = Some ram" "unat ram \<le> NATIVE_RAM_SIZE V" "NATIVE_RAM_SIZE V < 4294967296"
    and "linked_for V sy payload" "\<not> patch_handoff s" "\<not> native_thread s"
  shows "\<exists>s'. native_service_start V s = (ok, s') \<and> native_thread s' \<and> native_entry s' = unat (entry sy) OR 1 \<and>
    rd (sram s') (unat (data_start sy)) (unat (data_end sy - data_start sy)) =
      slice (unat (data_load sy - flash_start sy)) (unat (data_end sy - data_start sy)) payload \<and>
    rd (sram s') (unat (bss_start sy)) (unat (bss_end sy - bss_start sy)) =
      replicate (unat (bss_end sy - bss_start sy)) 0"
  using package_starts [OF assms] by (auto simp: loaded_def)

definition demo_installed :: "demo_flash native" where
  "demo_installed = demo_native\<lparr>img_store := demo_store\<lparr>flash := (\<lambda>_ _. 0)(1 := wr (\<lambda>_. 0) 0 demo_app_image)\<rparr>\<rparr>"

lemma tool_native_facts:
  "image_of tool_native_env = tool_env" "NATIVE_RAM_SIZE tool_native_env = 8192" "slot_area_id tool_env = 1"
  "slot_readable tool_env f" "length demo_app_image = 528" "area_size tool_env a = 1024"
  by (auto simp: tool_native_env_def NATIVE_RAM_SIZE_def tool_env_def demo_env_def slot_readable_def
      demo_app_image_def package_def)

lemma demo_installed_slot: "slot_holds tool_env demo_view demo_app_image (flash (img_store demo_installed))"
  by (simp add: slot_holds_def demo_view_def demo_installed_def tool_native_facts wr_same)

theorem packaged_application_starts_witness:
  "\<exists>s'. native_service_start tool_native_env demo_installed = (ok, s') \<and> native_entry s' = 0x80101 \<and>
     rd (sram s') 0x20001000 16 = replicate 16 7"
proof -
  have z: "\<not> patch_handoff demo_installed" "\<not> native_thread demo_installed"
    by (simp_all add: demo_installed_def demo_native_fields)
  have sy: "unat (entry demo_symbols) OR 1 = 0x80101" "unat (data_start demo_symbols) = 0x20001000"
    "unat (data_end demo_symbols - data_start demo_symbols) = 16"
    "unat (data_load demo_symbols - flash_start demo_symbols) = 384"
    by (simp_all add: demo_symbols_def)
  have "\<exists>s'. native_service_start tool_native_env demo_installed = (ok, s') \<and> native_thread s' \<and>
      native_entry s' = unat (entry demo_symbols) OR 1 \<and>
      rd (sram s') (unat (data_start demo_symbols)) (unat (data_end demo_symbols - data_start demo_symbols)) =
        slice (unat (data_load demo_symbols - flash_start demo_symbols))
          (unat (data_end demo_symbols - data_start demo_symbols)) (replicate 400 7) \<and>
      rd (sram s') (unat (bss_start demo_symbols)) (unat (bss_end demo_symbols - bss_start demo_symbols)) =
        replicate (unat (bss_end demo_symbols - bss_start demo_symbols)) 0"
    using packaged_application_starts [where V = tool_native_env and s = demo_installed and view = demo_view
        and payload = "replicate 400 7" and name = "''app''" and version = "''1.0+1''",
        OF _ _ _ _ _ demo_symbols_valid _ _ demo_linked z]
      tool_env_laws tool_native_facts demo_installed_slot [unfolded demo_app_image_def]
    by (simp add: tool_native_facts)
  then show ?thesis unfolding sy by (auto simp: slice_def)
qed

end
