(* ===== verification/Commands.thy ===== *)
theory Commands
  imports Native_Api App_Start
begin

text \<open>
  The commands of the command line, \<open>rtbus_cli.c\<close> (test, upgrade, reboot), and the diagnostics task,
  \<open>rtbus_diagnostics.c\<close>.

  The upgrade command composes the stop of the application, the YMODEM receiver over port 0 and the
  restart; the image store travels with the receiver and is put back into the state afterwards.
  \<open>sys_reboot\<close>, which does not come back, is a parameter.  Log messages are left out.
\<close>

section \<open>Commands\<close>

definition RTBUS_TASK_DIAGNOSTICS :: byte where "RTBUS_TASK_DIAGNOSTICS = 0"
definition APPLICATION_DIAGNOSTICS_ADD :: "32 word" where "APPLICATION_DIAGNOSTICS_ADD = APP_EVT 1"
definition APPLICATION_DIAGNOSTICS_CLI :: "32 word" where "APPLICATION_DIAGNOSTICS_CLI = APP_EVT 2"

definition rtbus_cli_test_handler ::
    "backend \<Rightarrow> byte list \<Rightarrow> ('f, 'd, 'a) serial_scheme \<Rightarrow> (rc \<times> ('f, 'd, 'a) serial_scheme) option" where
  "rtbus_cli_test_handler be args s = rtbus_post be RTBUS_TASK_DIAGNOSTICS APPLICATION_DIAGNOSTICS_CLI None 0 s"

definition dfu_ready :: "byte list" where "dfu_ready = map of_char ''READY'' @ [13, 10]"
definition dfu_staged :: "byte list" where "dfu_staged = map of_char ''MODULE STAGED'' @ [13, 10]"
definition dfu_error :: "byte list" where "dfu_error = map of_char ''ERROR'' @ [13, 10]"

definition rtbus_cli_dfu_handler ::
    "'d uart_driver \<Rightarrow> (('f, 'd, 'a) serial_scheme \<Rightarrow> ('f, 'd, 'a) serial_scheme) \<Rightarrow>
     ('f, 'd, 'a) serial_scheme kernel \<Rightarrow> 'f native_env \<Rightarrow> byte list \<Rightarrow> ('f, 'd, 'a) serial_scheme \<Rightarrow>
     (rc \<times> ('f, 'd, 'a) serial_scheme) option" where
  "rtbus_cli_dfu_handler U irq K V args s =
     (if args \<noteq> map of_char ''APP'' then Some (Inl EINVAL, s)
      else do {
        let s = (native_service_suppress_console True s)\<lparr>input_enabled := False\<rparr>;
        (ret, s) \<leftarrow> native_service_stop_for_upgrade K s;
        if ret \<noteq> ok then Some (ret, native_service_suppress_console False (s\<lparr>input_enabled := True\<rparr>))
        else
          let (n, s) = rtbus_runtime_serial_write U 0 dfu_ready s
          in if n \<noteq> length dfu_ready
             then Some (Inl EIO, native_service_suppress_console False
               (native_service_resume_after_upgrade V (s\<lparr>input_enabled := True\<rparr>)))
             else do {
               (ret, s, st) \<leftarrow> rtbus_ymodem_recv (serial_line U irq K) (image_of V) 0 s (img_store s);
               let s = s\<lparr>img_store := st, input_enabled := True\<rparr>;
               let s = snd (rtbus_runtime_serial_write U 0 (if ret \<noteq> ok then dfu_error else dfu_staged) s);
               Some (ret, native_service_resume_after_upgrade V s)
             }
      })"

definition rtbus_cli_reboot_handler ::
    "(('f, 'd, 'a) serial_scheme \<Rightarrow> ('f, 'd, 'a) serial_scheme option) \<Rightarrow> byte list \<Rightarrow>
     ('f, 'd, 'a) serial_scheme \<Rightarrow> (rc \<times> ('f, 'd, 'a) serial_scheme) option" where
  "rtbus_cli_reboot_handler sys_reboot args s =
     (if args \<noteq> [] then Some (Inl EINVAL, s) else do { s \<leftarrow> sys_reboot s; Some (ok, s) })"

text \<open>The section of commands; their names differ, so its order does not matter.\<close>

definition rtbus_cli_commands ::
    "backend \<Rightarrow> 'd uart_driver \<Rightarrow> (('f, 'd, 'a) serial_scheme \<Rightarrow> ('f, 'd, 'a) serial_scheme) \<Rightarrow>
     ('f, 'd, 'a) serial_scheme kernel \<Rightarrow> 'f native_env \<Rightarrow>
     (('f, 'd, 'a) serial_scheme \<Rightarrow> ('f, 'd, 'a) serial_scheme option) \<Rightarrow>
     ('f, 'd, 'a) serial_scheme rtbus_cli_command list" where
  "rtbus_cli_commands be U irq K V sys_reboot =
     [\<lparr>cmd_name = Some (map of_char ''TEST''), cmd_handler = Some (rtbus_cli_test_handler be)\<rparr>,
      \<lparr>cmd_name = Some (map of_char ''DFU''), cmd_handler = Some (rtbus_cli_dfu_handler U irq K V)\<rparr>,
      \<lparr>cmd_name = Some (map of_char ''REBOOT''), cmd_handler = Some (rtbus_cli_reboot_handler sys_reboot)\<rparr>]"

section \<open>Diagnostics\<close>

text \<open>With the diagnostics service configured.  The request is three words: result address and the
  two numbers.\<close>

definition rtbus_diagnostics_process :: "'f native_env \<Rightarrow> emos_ctx \<Rightarrow> ('f, 'a) native_scheme \<Rightarrow> ('f, 'a) native_scheme" where
  "rtbus_diagnostics_process V ctx s =
     (if ctx_id ctx = SYS_EVT EMOS_SYS_INIT then snd (native_service_start V s)
      else if ctx_id ctx = APPLICATION_DIAGNOSTICS_CLI then s
      else if ctx_id ctx = APPLICATION_DIAGNOSTICS_ADD then
        if length (ctx_payload ctx) \<noteq> 12 then s
        else
          let p = ctx_payload ctx;
              result = (of_nat (un_le (slice 4 4 p)) :: 32 word) + of_nat (un_le (slice 8 4 p))
          in snd (native_service_complete_result V (un_le (slice 0 4 p)) result s)
      else s)"

section \<open>The upgrade command\<close>

lemma service_frames [simp]:
  fixes s :: "('f, 'd, 'a) serial_scheme"
  shows "uart (native_service_request_stop_for_upgrade s) = uart s" "ports (native_service_request_stop_for_upgrade s) = ports s"
    "uart (native_service_force_stop_thread s) = uart s" "ports (native_service_force_stop_thread s) = ports s"
    "img_store (native_service_request_stop_for_upgrade s) = img_store s"
    "img_store (native_service_force_stop_thread s) = img_store s"
    "control_active (native_service_request_stop_for_upgrade s) = control_active s"
    "control_active (native_service_force_stop_thread s) = control_active s"
    "port0_line_start (native_service_request_stop_for_upgrade s) = port0_line_start s"
    "port0_line_start (native_service_force_stop_thread s) = port0_line_start s"
    "input_enabled (native_service_force_stop_thread s) = input_enabled s"
    "input_enabled (native_service_request_stop_for_upgrade s) = input_enabled s"
  by (simp_all add: native_ops native_service_force_stop_thread_def)

lemma start_frames:
  fixes s :: "('f, 'd, 'a) serial_scheme"
  shows "uart (snd (native_service_start V s)) = uart s" "input_enabled (snd (native_service_start V s)) = input_enabled s"
proof -
  define s1 where "s1 = native_api_table_install V s"
  obtain r s2 where L: "native_load V s1 = (r, s2)" by force
  have s2: "uart s2 = uart s" "input_enabled s2 = input_enabled s"
    by (subst native_load_frame(1) [OF L], simp add: s1_def native_api_table_install_def)+
  have "snd (native_service_start V s) = s \<or>
      snd (native_service_start V s) = s2\<lparr>native_thread := True\<rparr> \<or>
      snd (native_service_start V s) = (native_service_force_stop_thread s2)\<lparr>last_error := r\<rparr>"
    using L by (simp add: native_service_start_def s1_def [symmetric])
  then show "uart (snd (native_service_start V s)) = uart s"
    "input_enabled (snd (native_service_start V s)) = input_enabled s"
    using s2 by auto
qed

lemma resume_frames:
  fixes s :: "('f, 'd, 'a) serial_scheme"
  shows "uart (native_service_resume_after_upgrade V s) = uart s"
    "input_enabled (native_service_resume_after_upgrade V s) = input_enabled s"
    "console_suppressed (native_service_resume_after_upgrade V s) = False"
  by (simp_all add: native_service_resume_after_upgrade_def native_service_suppress_console_def start_frames)

lemma serial_write_frames:
  fixes s :: "('f, 'd, 'a) serial_scheme"
  shows "input_enabled (snd (rtbus_runtime_serial_write U port bs s)) = input_enabled s"
    "img_store (snd (rtbus_runtime_serial_write U port bs s)) = img_store s"
  by (simp_all add: rtbus_runtime_serial_write_def)

text \<open>A stop with no call going on.\<close>

lemma idle_stop:
  assumes "api_busy s = 0" "k_uptime_get K s = (t, s)"
  shows "native_service_stop_for_upgrade K s = Some (ok,
    if native_thread s then native_service_force_stop_thread (native_service_request_stop_for_upgrade s)
    else native_service_request_stop_for_upgrade s)"
proof -
  define s1 where "s1 = native_service_request_stop_for_upgrade s"
  have s1: "api_busy s1 = 0" "native_thread s1 = native_thread s"
    using assms(1) by (simp_all add: s1_def native_ops)
  have "handoff_loop K d s1 = Some (ok, native_service_force_stop_thread s1)" for d
    using s1(1) by (subst handoff_loop.simps) simp
  then show ?thesis using s1(2) assms(2)
    by (simp add: native_service_stop_for_upgrade_def native_service_handoff_ram_for_patch_def s1_def [symmetric])
qed

context uart_works
begin

lemma writes_port:
  assumes "port_good port s" "bs \<noteq> []"
  shows "\<exists>d. rtbus_runtime_serial_write U port bs s = (length bs, s\<lparr>uart := d\<rparr>) \<and> rx d = rx (uart s) \<and>
    tx d = tx (uart s) @ bs \<and> time d = time (uart s)"
proof -
  have "port_usable U port s" using assms(1) is_ready by (simp add: port_good_def port_usable_def)
  moreover have "serial_tx_ready U port s" using has_dtr [of "uart s"] by (auto simp: serial_tx_ready_def)
  ultimately show ?thesis using assms(2) polls_out [of bs "uart s"]
    by (intro exI [of _ "fold (uart_poll_out U port) bs (uart s)"]) (simp add: rtbus_runtime_serial_write_def)
qed

lemma good_uart [simp]: "port_good port (s\<lparr>uart := d\<rparr>) = port_good port s"
  by (simp add: port_good_def)

end

lemma good_frames [simp]:
  fixes s :: "('f, 'd, 'a) serial_scheme"
  shows "port_good port (native_service_request_stop_for_upgrade s) = port_good port s"
    "port_good port (native_service_force_stop_thread s) = port_good port s"
    "port_good port (s\<lparr>img_store := st\<rparr>) = port_good port s"
    "port_good port (s\<lparr>input_enabled := b\<rparr>) = port_good port s"
    "port_good port (native_service_suppress_console b s) = port_good port s"
  by (simp_all add: port_good_def native_service_suppress_console_def)

text \<open>An upgrade, with no call of the application going on and a file whose upload session the store
  accepts.\<close>

lemma dfu_completes:
  fixes s :: "('f, 'd, 'a) serial_scheme"
  assumes W: "uart_works U irq K 0 rx tx time" and laws: "flash_laws (image_of V) view" "0 < pending_max (image_of V)"
    and s: "port_good 0 s" "api_busy s = 0" "0 \<le> time (uart s)"
    and p: "routed 0 s (rx (uart s)) = ymodem_stream meta d" "length meta = 128"
      "ymodem_parse_file_size meta = length d" "d \<noteq> []" "length d < 4294967296"
    and S: "image_session (image_of V) (length d) (blocks d) (img_store s) = Some (ok, st)"
  shows "\<exists>s1. rtbus_cli_dfu_handler U irq K V (map of_char ''APP'') s = Some (ok, native_service_resume_after_upgrade V s1) \<and>
    tx (uart s1) = tx (uart s) @ dfu_ready @ ymodem_replies d @ dfu_staged \<and> img_store s1 = st \<and> input_enabled s1"
proof -
  define s0 where "s0 = (native_service_suppress_console True s)\<lparr>input_enabled := False\<rparr>"
  have s0: "api_busy s0 = 0" "uart s0 = uart s" "port_good 0 s0" "img_store s0 = img_store s"
    "control_active s0 = control_active s" "port0_line_start s0 = port0_line_start s" "native_thread s0 = native_thread s"
    using s by (simp_all add: s0_def native_service_suppress_console_def port_good_def)
  define s1 where "s1 = (if native_thread s0
    then native_service_force_stop_thread (native_service_request_stop_for_upgrade s0)
    else native_service_request_stop_for_upgrade s0)"
  have stop: "native_service_stop_for_upgrade K s0 = Some (ok, s1)"
    using idle_stop [OF s0(1), of K "time (uart s0)"] uart_works.ticks [OF W, of s0] by (simp add: s1_def)
  have s1: "port_good 0 s1" "uart s1 = uart s" "img_store s1 = img_store s" "control_active s1 = control_active s"
    "port0_line_start s1 = port0_line_start s"
    using s0 by (simp_all add: s1_def)
  obtain d1 where d1: "rtbus_runtime_serial_write U 0 dfu_ready s1 = (length dfu_ready, s1\<lparr>uart := d1\<rparr>)"
    "rx d1 = rx (uart s)" "tx d1 = tx (uart s) @ dfu_ready" "time d1 = time (uart s)"
    using uart_works.writes_port [OF W s1(1), of dfu_ready] s1(2) by (auto simp: dfu_ready_def)
  have s2: "port_good 0 (s1\<lparr>uart := d1\<rparr>)" "routed 0 (s1\<lparr>uart := d1\<rparr>) (rx d1) = ymodem_stream meta d"
    using s1 p(1) d1(2) by (simp_all add: port_good_def routed_def)
  have S': "image_session (image_of V) (length d) (blocks d) (img_store (s1\<lparr>uart := d1\<rparr>)) = Some (ok, st)"
    using S s1(3) by simp
  obtain s3 where s3: "rtbus_ymodem_recv (serial_line U irq K) (image_of V) 0 (s1\<lparr>uart := d1\<rparr>)
      (img_store (s1\<lparr>uart := d1\<rparr>)) = Some (ok, s3, st)" "port_good 0 s3"
    "tx (uart s3) = tx (uart s) @ dfu_ready @ ymodem_replies d"
    using uart_works.session_over_port [OF W laws s2(1) _ _ p(2-5) S'] s2(2) d1(3,4) s(3) by auto
  define s4 where "s4 = s3\<lparr>img_store := st, input_enabled := True\<rparr>"
  have s4: "port_good 0 s4" "uart s4 = uart s3" using s3(2) by (simp_all add: s4_def)
  obtain d2 where d2: "rtbus_runtime_serial_write U 0 dfu_staged s4 = (length dfu_staged, s4\<lparr>uart := d2\<rparr>)"
    "tx d2 = tx (uart s3) @ dfu_staged"
    using uart_works.writes_port [OF W s4(1), of dfu_staged] s4(2) by (auto simp: dfu_staged_def)
  have "rtbus_cli_dfu_handler U irq K V (map of_char ''APP'') s =
      Some (ok, native_service_resume_after_upgrade V (s4\<lparr>uart := d2\<rparr>))"
    using stop d1(1) s3(1) d2(1) by (simp add: rtbus_cli_dfu_handler_def s0_def [symmetric] s4_def [symmetric])
  moreover have "tx (uart (s4\<lparr>uart := d2\<rparr>)) = tx (uart s) @ dfu_ready @ ymodem_replies d @ dfu_staged"
    using d2(2) s3(3) by simp
  moreover have "img_store (s4\<lparr>uart := d2\<rparr>) = st" "input_enabled (s4\<lparr>uart := d2\<rparr>)" by (simp_all add: s4_def)
  ultimately show ?thesis by blast
qed

lemma resume_starts_package:
  fixes s :: "('f, 'd, 'a) serial_scheme"
  assumes "flash_laws (image_of V) view" "crc_laws (image_of V)" "crc_matches (image_of V)"
    and "slot_readable (image_of V) (flash (img_store s))"
    and "slot_holds (image_of V) view (package sy name version ram payload) (flash (img_store s))"
    and "validate_symbols sy = Some ram" "unat ram \<le> NATIVE_RAM_SIZE V" "NATIVE_RAM_SIZE V < 4294967296"
    and "linked_for V sy payload"
  shows "loaded sy payload (native_service_resume_after_upgrade V s)"
proof -
  define s1 where "s1 = native_service_force_stop_thread (s\<lparr>patch_handoff := False, api_busy := 0\<rparr>)"
  have s1: "\<not> patch_handoff s1" "\<not> native_thread s1" "img_store s1 = img_store s"
    by (simp_all add: s1_def native_service_force_stop_thread_def)
  obtain s2 where "native_service_start V s1 = (ok, s2)" "loaded sy payload s2"
    using package_starts [OF assms(1-3) _ _ assms(6-9) s1(1,2), where name = name and version = version] assms(4,5)
    by (auto simp: s1(3))
  then show ?thesis
    by (simp add: native_service_resume_after_upgrade_def s1_def [symmetric] native_service_suppress_console_def
        loaded_def)
qed

text \<open>A stop sets the request to hand over, whatever it returns.\<close>

lemma stop_keeps_request:
  assumes "clock_runs K clk"
  shows "\<exists>r s'. native_service_stop_for_upgrade K s = Some (r, s') \<and> patch_handoff s'"
proof -
  define s1 where "s1 = native_service_request_stop_for_upgrade s"
  have s1: "patch_handoff s1" "native_thread s1 = native_thread s" by (simp_all add: s1_def native_ops)
  have up: "k_uptime_get K s = (clk s, s)" using assms by (simp add: clock_runs_def)
  show ?thesis
    using handoff_loop_returns [OF assms, of "clk s + NATIVE_UPGRADE_HANDOFF_TIMEOUT_MS" s1] s1 up
    by (cases "native_thread s") (auto simp: native_service_stop_for_upgrade_def
        native_service_handoff_ram_for_patch_def s1_def [symmetric])
qed

lemma resume_clears_request: "\<not> patch_handoff (native_service_resume_after_upgrade V s)"
proof -
  define s1 where "s1 = native_service_force_stop_thread (s\<lparr>patch_handoff := False, api_busy := 0\<rparr>)"
  define s2 where "s2 = native_api_table_install V s1"
  obtain r s3 where L: "native_load V s2 = (r, s3)" by force
  have "\<not> patch_handoff s3"
    by (subst native_load_frame(1) [OF L]) (simp add: s2_def s1_def native_api_table_install_def native_service_force_stop_thread_def)
  moreover have "\<not> patch_handoff s1" by (simp add: s1_def native_service_force_stop_thread_def)
  ultimately have "\<not> patch_handoff (snd (native_service_start V s1))"
    using L by (simp add: native_service_start_def s2_def native_service_force_stop_thread_def)
  then show ?thesis by (simp add: native_service_resume_after_upgrade_def s1_def native_service_suppress_console_def)
qed

text \<open>Nothing but a resume takes the request back: the service's operations keep it, and so does a later stop.\<close>

lemma step_keeps_request:
  assumes "native_step be V K op s s'" "clock_runs K clk" "op \<noteq> Op_resume" "patch_handoff s"
  shows "patch_handoff s'"
  using assms(1)
proof cases
  case (start r)
  then show ?thesis using assms(4) by (simp add: native_service_start_def)
next
  case (stop r)
  then show ?thesis using stop_keeps_request [OF assms(2), of s] by auto
next
  case (drain r)
  then show ?thesis using drain_frame [OF drain(2)] assms(4) by auto
qed (use assms(3,4) in \<open>auto simp: native_ops Let_def split: if_splits option.splits\<close>)

lemma run_keeps_request:
  assumes "native_run be V K ops s s'" "clock_runs K clk" "Op_resume \<notin> set ops" "patch_handoff s"
  shows "patch_handoff s'"
  using assms by (induction rule: native_run.induct) (auto dest: step_keeps_request)

section \<open>Properties\<close>

text \<open>The upgrade command always gives the console and the command line back.  Whatever happens on the
  line, in the flash or in the store, when the command returns after having taken its argument, the console is
  not suppressed and input is enabled.\<close>

theorem upgrade_restores_console:
  fixes s :: "('f, 'd, 'a) serial_scheme"
  assumes "rtbus_cli_dfu_handler U irq K V args s = Some (r, s')"
  shows "if args = map of_char ''APP'' then \<not> console_suppressed s' \<and> input_enabled s' else r = Inl EINVAL \<and> s' = s"
  using assms
  by (auto simp: rtbus_cli_dfu_handler_def Let_def bind_eq_Some_conv native_service_suppress_console_def
      resume_frames serial_write_frames split: if_splits prod.splits)

text \<open>C18: a stop that times out leaves the application parked until an upgrade resumes it.  The command reports the
  time-out and gives the console back, but nobody takes the hand-over request back: after every sequence of the service's
  operations without a resume, further stops included, the thread sleeps for ever at its next round and the service
  refuses to start.  A resume, which only a later upgrade command makes, is what clears the request.\<close>

theorem failed_stop_parks_application:
  fixes s :: "('f, 'd, 'a) serial_scheme"
  assumes "clock_runs K clk"
    and "native_service_stop_for_upgrade K ((native_service_suppress_console True s)\<lparr>input_enabled := False\<rparr>) =
      Some (Inl ETIMEDOUT, s1)"
  shows "\<exists>s'. rtbus_cli_dfu_handler U irq K V (map of_char ''APP'') s = Some (Inl ETIMEDOUT, s') \<and>
    \<not> console_suppressed s' \<and>
    (\<forall>ops s''. native_run be V K ops s' s'' \<and> Op_resume \<notin> set ops \<longrightarrow>
       native_thread_round A s'' = Some (False, s'') \<and> native_service_start V s'' = (Inl EBUSY, s'')) \<and>
    (\<forall>s''. \<not> patch_handoff (native_service_resume_after_upgrade V s''))"
proof -
  define s0 where "s0 = (native_service_suppress_console True s)\<lparr>input_enabled := False\<rparr>"
  define s' where "s' = native_service_suppress_console False (s1\<lparr>input_enabled := True\<rparr>)"
  have "\<exists>r s'. native_service_stop_for_upgrade K s0 = Some (r, s') \<and> patch_handoff s'"
    by (rule stop_keeps_request [OF assms(1)])
  then have parked: "patch_handoff s'"
    using assms(2) by (simp add: s0_def s'_def native_service_suppress_console_def)
  have code: "rtbus_cli_dfu_handler U irq K V (map of_char ''APP'') s = Some (Inl ETIMEDOUT, s')"
    using assms(2) by (simp add: rtbus_cli_dfu_handler_def s'_def)
  have "native_thread_round A s'' = Some (False, s'') \<and> native_service_start V s'' = (Inl EBUSY, s'')"
    if "native_run be V K ops s' s''" "Op_resume \<notin> set ops" for ops s''
    using run_keeps_request [OF that(1) assms(1) that(2) parked] by (simp add: native_thread_round_def native_service_start_def)
  moreover have "\<not> console_suppressed s'" by (simp add: s'_def native_service_suppress_console_def)
  ultimately show ?thesis using code resume_clears_request by blast
qed

definition slow_kernel :: "('f, 'a) native_scheme kernel" where
  "slow_kernel = \<lparr>k_uptime_get = (\<lambda>s. (int (event_sem s), s)),
     k_sleep_ms = (\<lambda>n s. s\<lparr>event_sem := event_sem s + nat n + 3000\<rparr>), k_block_ms = (\<lambda>n s. s)\<rparr>"

lemma slow_kernel_runs: "clock_runs slow_kernel (\<lambda>s. int (event_sem s))"
  by (auto simp: clock_runs_def slow_kernel_def)

lemma slow_stop:
  assumes "native_thread s" "api_busy s = 1" "event_sem s = 0"
  shows "\<exists>s1. native_service_stop_for_upgrade slow_kernel s = Some (Inl ETIMEDOUT, s1)"
proof -
  define s0 where "s0 = native_service_request_stop_for_upgrade s"
  have s0: "native_thread s0" "api_busy s0 = 1" "event_sem s0 = 0" using assms by (simp_all add: s0_def native_ops)
  have "\<exists>s1. handoff_loop slow_kernel 2000 s0 = Some (Inl ETIMEDOUT, s1)"
    using s0 by (subst handoff_loop.simps, subst handoff_loop.simps) (simp add: slow_kernel_def)
  then show ?thesis using s0(1) assms(3)
    by (simp add: native_service_stop_for_upgrade_def native_service_handoff_ram_for_patch_def s0_def [symmetric]
        slow_kernel_def NATIVE_UPGRADE_HANDOFF_TIMEOUT_MS_def)
qed

theorem failed_stop_parks_application_witness:
  "\<exists>s' s''. rtbus_cli_dfu_handler demo_uart (demo_irq 0) slow_kernel demo_native_env (map of_char ''APP'')
       ((demo_serial [])\<lparr>native_thread := True, api_busy := 1\<rparr>) = Some (Inl ETIMEDOUT, s') \<and>
     native_run Entry_Table demo_native_env slow_kernel [Op_request_stop] s' s'' \<and>
     native_service_start demo_native_env s'' = (Inl EBUSY, s'')"
proof -
  let ?s = "(demo_serial [])\<lparr>native_thread := True, api_busy := 1\<rparr>"
  have "event_sem (demo_serial []) = 0"
    by (simp add: demo_serial_def cli.defs serial.defs demo_cli_def native.defs demo_native_def rtbus.defs
        demo_rtbus_def)
  then obtain s1 where "native_service_stop_for_upgrade slow_kernel
      ((native_service_suppress_console True ?s)\<lparr>input_enabled := False\<rparr>) = Some (Inl ETIMEDOUT, s1)"
    using slow_stop [where s = "(native_service_suppress_console True ?s)\<lparr>input_enabled := False\<rparr>"]
    by (auto simp: native_service_suppress_console_def)
  from failed_stop_parks_application [OF slow_kernel_runs this, of demo_uart "demo_irq 0" demo_native_env Entry_Table]
  obtain s' where s': "rtbus_cli_dfu_handler demo_uart (demo_irq 0) slow_kernel demo_native_env (map of_char ''APP'') ?s =
      Some (Inl ETIMEDOUT, s')"
    "\<And>ops s''. native_run Entry_Table demo_native_env slow_kernel ops s' s'' \<Longrightarrow> Op_resume \<notin> set ops \<Longrightarrow>
       native_service_start demo_native_env s'' = (Inl EBUSY, s'')" by blast
  have "native_run Entry_Table demo_native_env slow_kernel [Op_request_stop] s' (native_service_request_stop_for_upgrade s')"
    by (rule native_run.step [OF native_step.request_stop native_run.stay])
  with s' show ?thesis by fastforce
qed

theorem upgrade_restores_console_witness:
  "rtbus_cli_dfu_handler demo_uart (demo_irq 0) slow_kernel demo_native_env (map of_char ''FPGA'') (demo_serial []) =
     Some (Inl EINVAL, demo_serial [])"
proof -
  have a: "map of_char ''FPGA'' \<noteq> (map of_char ''APP'' :: byte list)" by simp
  then have "rtbus_cli_dfu_handler demo_uart (demo_irq 0) slow_kernel demo_native_env (map of_char ''FPGA'')
      (demo_serial []) = Some (Inl EINVAL, demo_serial [])" by (simp add: rtbus_cli_dfu_handler_def)
  with upgrade_restores_console [OF this] a show ?thesis by simp
qed

end
