(* ===== verification/Upgrade.thy ===== *)
theory Upgrade
  imports Commands
begin

text \<open>
  The upgrade from end to end on the device: the command, the receiver, the store and the start of
  the new application, with a transfer whose bytes pass the routing of port 0 unchanged.
\<close>

section \<open>Streams that routing leaves alone\<close>

text \<open>A stream is free of the pair that starts a control line when the pair cannot straddle or lie in
  any of its packets.\<close>

lemma plain_weaken: "plain True bs \<Longrightarrow> plain start bs"
  by (cases bs) auto

lemma plain_no_at:
  "64 \<notin> set xs \<Longrightarrow> plain start (xs @ ys) \<longleftrightarrow> plain (if xs = [] then start else is_line_end (last xs)) ys"
  by (induction xs arbitrary: start) auto

lemma plain_packet:
  assumes "64 \<notin> set data" "data \<noteq> []" "\<not> is_line_end (last data)" "n \<noteq> 64" "NOT n \<noteq> 64"
    and "ymodem_crc16 data \<noteq> 0x0A40" "ymodem_crc16 data \<noteq> 0x0D40" and "plain True rest"
  shows "plain start (packet_body n data @ rest)"
proof -
  let ?h = "ucast (drop_bit 8 (ymodem_crc16 data)) :: byte" and ?l = "ucast (ymodem_crc16 data) :: byte"
  have "\<not> (is_line_end ?h \<and> ?l = 64)"
    using assms(6,7) join16 [of "ymodem_crc16 data"] by (auto simp: is_line_end_def)
  then have "plain False (?h # ?l # rest)" using plain_weaken [OF assms(8)] by simp
  then have "plain s (data @ ?h # ?l # rest)" for s
    unfolding plain_no_at [OF assms(1)] using assms(2,3) by simp
  then show ?thesis using assms(4,5) by (simp add: packet_body_def)
qed

lemma crc16_zeros: "ymodem_crc16 (replicate n 0) = 0"
proof -
  have "crc16_byte 0 0 = 0" by (simp add: crc16_byte_def crc16_bit_def numeral_eq_Suc)
  then have "foldl crc16_byte 0 (replicate n 0) = 0" by (induction n) simp_all
  then show ?thesis by (simp add: ymodem_crc16_def)
qed

lemma plain_stream:
  assumes "length meta = 128" "64 \<notin> set meta" "\<not> is_line_end (last meta)"
    and "ymodem_crc16 meta \<noteq> 0x0A40" "ymodem_crc16 meta \<noteq> 0x0D40"
    and "d \<noteq> []" "length d < 1024" "64 \<notin> set d"
    and "ymodem_crc16 (pad d) \<noteq> 0x0A40" "ymodem_crc16 (pad d) \<noteq> 0x0D40"
  shows "plain start (ymodem_stream meta d)"
proof -
  have b: "blocks d = [d]" using assms(6,7) by (simp add: blocks.simps [of d] blocks.simps [of "[]"])
  have "plain True (YMODEM_SOH # packet_body 0 (replicate 128 0))"
    using plain_packet [of "replicate 128 0" 0 "[]" False] crc16_zeros [of 128]
    by (simp add: layout_defs is_line_end_def)
  then have closing: "plain True closing" using plain_weaken by (simp add: closing_def layout_defs is_line_end_def)
  have last: "last (pad d) = 0x1A" "pad d \<noteq> []" "64 \<notin> set (pad d)" using assms(7,8) by (simp_all add: pad_def)
  have "plain start (packet_body 1 (pad d) @ closing)" for start
    by (rule plain_packet [OF last(3,2) _ _ _ assms(9,10) closing]) (simp_all add: last(1) is_line_end_def)
  then have data: "plain True (data_packets 1 (blocks d) @ closing)"
    by (simp add: b layout_defs is_line_end_def)
  have "meta \<noteq> []" using assms(1) by auto
  then have "plain start (packet_body 0 meta @ data_packets 1 (blocks d) @ closing)" for start
    by (intro plain_packet [OF assms(2) _ assms(3) _ _ assms(4,5) data]) simp_all
  then show ?thesis by (simp add: ymodem_stream_def layout_defs is_line_end_def)
qed

text \<open>Of three byte strings with different checksums, one avoids two given values.\<close>

lemma one_of_three:
  assumes "f a \<noteq> f b" "f a \<noteq> f c" "f b \<noteq> f c"
  shows "\<exists>x \<in> {a, b, c}. f x \<noteq> u \<and> f x \<noteq> v"
  using assms by auto

section \<open>Properties\<close>

text \<open>C2: an upgrade over the command line runs the new application.  On hardware that works, with no API
  call going on and the sender's stream of a packaged application linked for this device as the
  bytes to come on port 0, the upgrade command succeeds; port 0 has sent the greeting, the answers of the
  protocol and the final message, the console is back, and the application is running as it was
  linked: entry point, data and bss.\<close>

theorem upgrade_runs_new_application:
  fixes s :: "('f, 'd, 'a) serial_scheme"
  assumes "flash_laws (image_of V) view" "crc_laws (image_of V)" "crc_matches (image_of V)"
    and "flash_works (image_of V)" "\<not> active (img_store s)"
    and "validate_symbols sy = Some ram" "unat ram \<le> NATIVE_RAM_SIZE V" "NATIVE_RAM_SIZE V < 4294967296"
    and "linked_for V sy payload" "img = package sy name version ram payload"
    and "length img \<le> slot_partition_size (image_of V)" "length img < 4294967296"
    and "length img \<le> area_size (image_of V) (direct_store_area_id (image_of V))"
    and "length img \<le> area_size (image_of V) (slot_area_id (image_of V))"
    and "length meta = 128" "ymodem_parse_file_size meta = length img"
    and "uart_works U irq K 0 rx tx time" "port_good 0 s" "api_busy s = 0" "0 \<le> time (uart s)"
    and "rx (uart s) = ymodem_stream meta img" "\<not> control_active s"
    and "plain (port0_line_start s) (ymodem_stream meta img)"
  shows "\<exists>s'. rtbus_cli_dfu_handler U irq K V (map of_char ''APP'') s = Some (ok, s') \<and>
    tx (uart s') = tx (uart s) @ dfu_ready @ ymodem_replies img @ dfu_staged \<and>
    \<not> console_suppressed s' \<and> input_enabled s' \<and>
    native_thread s' \<and> native_entry s' = unat (entry sy) OR 1 \<and>
    rd (sram s') (unat (data_start sy)) (unat (data_end sy - data_start sy)) =
      slice (unat (data_load sy - flash_start sy)) (unat (data_end sy - data_start sy)) payload \<and>
    rd (sram s') (unat (bss_start sy)) (unat (bss_end sy - bss_start sy)) =
      replicate (unat (bss_end sy - bss_start sy)) 0"
proof -
  let ?E = "image_of V"
  have L: "unat (flash_start sy) + length payload \<le> 4294967296" "flash_start sy \<le> entry sy"
    "unat (entry sy) < unat (flash_start sy) + length payload" "unat (flash_start sy) = NATIVE_FLASH_BASE V + 128"
    using assms(9) by (simp_all add: linked_for_def)
  then have pl: "0 < length payload" "length payload < 4294967296" by (auto simp: word_le_nat_alt)
  have img: "length img = 128 + length payload" by (simp add: assms(10) package_def)
  then have ne: "img \<noteq> []" by auto
  have ram: "unat ram \<le> image_ram_max ?E" using assms(7) by (simp add: NATIVE_RAM_SIZE_def)
  have good: "image_ok ?E img"
    using image_ok_package [OF assms(3) pl refl] ram assms(10) by (simp add: package_def)
  have pm: "0 < pending_max ?E" using flash_worksD(7,8) [OF assms(4)] by simp
  obtain st where S: "image_session ?E (length img) (blocks img) (img_store s) = Some (ok, st)"
    using session_works [OF assms(1,2,4,5), of "blocks img" "length img"] good assms(11-14) img
    by (auto simp: concat_blocks)
  have "rd (view (slot_area_id ?E) (flash st)) 0 (length img) = img"
    using session_spec [OF assms(1,2) pm assms(12,5), of "blocks img"] S flash_worksD(12) [OF assms(4)]
    by (auto simp: concat_blocks)
  then have slot: "slot_holds ?E view img (flash st)" using assms(14) by (simp add: slot_holds_def)
  have R: "routed 0 s (rx (uart s)) = ymodem_stream meta img"
    using assms(21-23) passed_plain by (auto simp: routed_def)
  obtain s1 where s1: "rtbus_cli_dfu_handler U irq K V (map of_char ''APP'') s =
      Some (ok, native_service_resume_after_upgrade V s1)"
    "tx (uart s1) = tx (uart s) @ dfu_ready @ ymodem_replies img @ dfu_staged" "img_store s1 = st" "input_enabled s1"
    using dfu_completes [OF assms(17,1) pm assms(18-20) R assms(15,16) ne assms(12) S] by blast
  have "slot_readable ?E (flash st)" using flash_worksD(2,4) [OF assms(4)] by (simp add: slot_readable_def)
  then have "loaded sy payload (native_service_resume_after_upgrade V s1)"
    using resume_starts_package [OF assms(1-3) _ _ assms(6-9), where s = s1] slot by (auto simp: s1(3) assms(10))
  then show ?thesis using s1 resume_frames [of V s1] by (auto simp: loaded_def)
qed

text \<open>A small application: one byte of code, no data and 256 bytes of bss.\<close>

definition small_symbols :: application_symbols where
  "small_symbols = \<lparr>slot_start = 0x80000, flash_start = 0x80080, entry = 0x80080,
     data_load = 0x80080, data_start = 0x20001000, data_end = 0x20001000, bss_start = 0x20001000,
     bss_end = 0x20001100, ram_start = 0x20001000, ram_end = 0x20002000\<rparr>"

definition small_image :: "char \<Rightarrow> byte list" where
  "small_image c = package small_symbols [c] ''1.0+1'' 0x1000 [7]"

definition small_meta :: "byte \<Rightarrow> byte list" where
  "small_meta b = [b, 0, 49, 50, 57] @ replicate 123 0"

lemma small_crc: "crc32_update 0 [7] = 0x4c667a2e"
  by (simp add: crc32_update_def crc32_byte_steps crc32_bit_def)

lemma small_image_bytes:
  "small_image c = [0x4d, 0x43, 0x46, 0x57, 2, 0, 128, 0, 1, 0, 0, 0, 0x2e, 0x7a, 0x66, 0x4c, 49, 46, 48, 43, 49] @
     replicate 11 0 @ of_char c # replicate 63 0 @ [0, 16, 0, 0, 1, 0, 0, 12] @ replicate 20 0 @ [0, 1, 0, 0, 7]"
  unfolding small_image_def package_def build_header_bytes header_bytes_def
  by (simp add: small_crc small_symbols_def layout_defs native_flags le32_def le16_def put_fixed_string_def
      chars_def of_char_def Let_def) (simp add: numeral_eq_Suc)

text \<open>A name and a file name for which the transfer passes port 0.\<close>

lemma small_plain:
  "\<exists>c b. plain True (ymodem_stream (small_meta b) (small_image c)) \<and>
     ymodem_parse_file_size (small_meta b) = length (small_image c)"
proof -
  define xs :: "byte list" where "xs = [0x4d, 0x43, 0x46, 0x57, 2, 0, 128, 0, 1, 0, 0, 0, 0x2e, 0x7a, 0x66, 0x4c,
    49, 46, 48, 43, 49] @ replicate 11 0"
  define ys :: "byte list" where "ys = replicate 63 0 @ [0, 16, 0, 0, 1, 0, 0, 12] @ replicate 20 0 @ [0, 1, 0, 0, 7]"
  have img: "small_image c = xs @ of_char c # ys" for c by (simp add: small_image_bytes xs_def ys_def)
  have len: "length (small_image c) = 129" for c by (simp add: img xs_def ys_def)
  have "ymodem_crc16 (pad (small_image c)) \<noteq> ymodem_crc16 (pad (small_image c'))"
    if "(of_char c :: byte) \<noteq> of_char c'" for c c'
  proof -
    have "pad (small_image c) = xs @ of_char c # ys @ replicate 895 0x1A" for c
      using len [of c] by (simp add: pad_def) (simp add: img)
    then show ?thesis using crc16_one_byte [OF that] by simp
  qed
  then have "\<exists>c \<in> {CHR ''A'', CHR ''B'', CHR ''C''}. ymodem_crc16 (pad (small_image c)) \<noteq> 0x0A40 \<and>
      ymodem_crc16 (pad (small_image c)) \<noteq> 0x0D40"
    by (intro one_of_three) (simp_all add: of_char_def)
  then obtain c where c: "c \<in> {CHR ''A'', CHR ''B'', CHR ''C''}" "ymodem_crc16 (pad (small_image c)) \<noteq> 0x0A40"
    "ymodem_crc16 (pad (small_image c)) \<noteq> 0x0D40" by blast
  have "ymodem_crc16 (small_meta b) \<noteq> ymodem_crc16 (small_meta b')" if "b \<noteq> b'" for b b'
    using crc16_one_byte [OF that, of "[]"] by (simp add: small_meta_def)
  then have "\<exists>b \<in> {65, 66, 67}. ymodem_crc16 (small_meta b) \<noteq> 0x0A40 \<and> ymodem_crc16 (small_meta b) \<noteq> 0x0D40"
    by (intro one_of_three) simp_all
  then obtain b where b: "b \<in> {65, 66, 67}" "ymodem_crc16 (small_meta b) \<noteq> 0x0A40" "ymodem_crc16 (small_meta b) \<noteq> 0x0D40"
    by blast
  have at: "64 \<notin> set (small_image c)" using c(1) by (auto simp: img xs_def ys_def of_char_def)
  have "small_image c \<noteq> []" using len [of c] by auto
  then have "plain True (ymodem_stream (small_meta b) (small_image c))"
    using b c at by (intro plain_stream) (auto simp: small_meta_def is_line_end_def len)
  moreover have "ymodem_parse_file_size (small_meta b) = 129" using b(1)
    by (auto simp: small_meta_def ymodem_parse_file_size_def strtoul10_def is_blank_def is_digit10_def Let_def)
  ultimately show ?thesis using len by auto
qed

lemma small_valid: "validate_symbols small_symbols = Some 0x1000"
  by (simp add: validate_symbols_def small_symbols_def Let_def)

lemma small_linked: "linked_for tool_native_env small_symbols [7]"
  by (simp add: linked_for_def tool_native_env_def demo_native_env_def small_symbols_def)

theorem upgrade_runs_new_application_witness:
  "\<exists>c b s'. rtbus_cli_dfu_handler demo_uart (demo_irq 0) still_kernel tool_native_env (map of_char ''APP'')
       (demo_serial (ymodem_stream (small_meta b) (small_image c))) = Some (ok, s') \<and>
     native_thread s' \<and> native_entry s' = 0x80081"
proof -
  obtain c b where P: "plain True (ymodem_stream (small_meta b) (small_image c))"
    "ymodem_parse_file_size (small_meta b) = length (small_image c)" using small_plain by blast
  let ?s = "demo_serial (ymodem_stream (small_meta b) (small_image c))"
  have len: "length (small_image c) = 129" by (simp add: small_image_bytes)
  have works: "flash_works tool_env"
    using demo_env_works unfolding flash_works_def tool_env_def by (simp add: Let_def) blast
  have env: "slot_partition_size tool_env = 1024" "area_size tool_env a = 1024" for a
    by (simp_all add: tool_env_def demo_env_def)
  have idle: "\<not> active (img_store ?s)" "api_busy ?s = 0"
    using demo_store_idle
    by (simp_all add: demo_serial_def demo_cli_def demo_native_def rtbus.defs native.defs cli.defs serial.defs)
  have "unat (entry small_symbols) OR 1 = 0x80081" by (simp add: small_symbols_def)
  moreover have "length (small_meta b) = 128" by (simp add: small_meta_def)
  ultimately show ?thesis
    using upgrade_runs_new_application [where V = tool_native_env and view = demo_view and s = ?s and img = "small_image c"
        and meta = "small_meta b",
        OF _ _ _ _ idle(1) small_valid _ _ small_linked small_image_def _ _ _ _ _ P(2) demo_port.uart_works_axioms
          demo_serial_fields(4) idle(2)]
      tool_env_laws tool_native_facts works P(1) len env
    by (simp add: demo_serial_fields) blast
qed

end
