(* ===== verification/Ble.thy ===== *)
theory Ble
  imports Native_Api
begin

text \<open>
  The Bluetooth service, \<open>zephyr/runtime/src/services/rtbus_ble.c\<close>: advertising data, the GATT services
  that the application registers, the connection callbacks and the task.

  The Bluetooth stack, which is outside the sources, is the record \<open>bt_stack\<close> over a stack state that
  the state carries (\<open>bt\<close>).  Pointers into a registered service are kept as what they point to: a
  service is named by its handle, an attribute's UUID and user data by the part of the service they
  address.  Definitions that the application passes by address are read from the memory as the
  processor sees it (\<open>cpu_mem\<close>): the application's RAM, or else what \<open>X\<close> maps there (its
  memory-mapped flash).  Log messages and the trace configuration are left out.
\<close>

section \<open>State\<close>

definition RTBUS_BLE_APP_GATT_MAX :: nat where [layout_defs]: "RTBUS_BLE_APP_GATT_MAX = 2"
definition RTBUS_BLE_APP_GATT_CHRC_MAX :: nat where [layout_defs]: "RTBUS_BLE_APP_GATT_CHRC_MAX = 4"
definition RTBUS_BLE_APP_GATT_ATTR_MAX :: nat where [layout_defs]:
  "RTBUS_BLE_APP_GATT_ATTR_MAX = 1 + RTBUS_BLE_APP_GATT_CHRC_MAX * 3"
definition RUNTIME_BLE_GATT_VALUE_MAX :: nat where [layout_defs]: "RUNTIME_BLE_GATT_VALUE_MAX = 32"
definition RUNTIME_BLE_GAP_DATA_MAX :: nat where [layout_defs]: "RUNTIME_BLE_GAP_DATA_MAX = 4"
definition RUNTIME_BLE_GAP_DATA_VALUE_MAX :: nat where [layout_defs]: "RUNTIME_BLE_GAP_DATA_VALUE_MAX = 31"

datatype attr_uuid = No_uuid | Uuid_primary | Uuid_chrc | Uuid_ccc | Value_uuid nat
datatype attr_read = No_read | bt_gatt_attr_read_service | bt_gatt_attr_read_chrc | bt_gatt_attr_read_ccc | app_gatt_read
datatype attr_write = No_write | bt_gatt_attr_write_ccc
datatype user_data = No_data | Service_uuid | Value_chrc nat | Chrc nat | Value_ccc nat

record bt_gatt_attr =
  a_uuid :: attr_uuid
  a_read :: attr_read
  a_write :: attr_write
  a_user_data :: user_data
  a_perm :: byte

record app_chrc =
  notify_enabled :: bool
  has_ccc :: bool
  value_attr_index :: nat
  ccc_attr_index :: nat
  value_len :: nat
  value_uuid :: "byte list"
  chrc_properties :: byte
  ccc_set :: bool
  chrc_value :: "byte list"

text \<open>\<open>ccc_set\<close> tells whether \<open>value_ccc\<close> holds the service's two callbacks.\<close>

record app_gatt =
  gatt_prepared :: bool
  gatt_registered :: bool
  attr_count :: nat
  chrc_count :: nat
  service_uuid :: "byte list"
  chrcs :: "app_chrc list"
  attrs :: "bt_gatt_attr list"
  service_attr_count :: nat

definition zero_attr :: bt_gatt_attr where
  "zero_attr = \<lparr>a_uuid = No_uuid, a_read = No_read, a_write = No_write, a_user_data = No_data, a_perm = 0\<rparr>"

definition zero_chrc :: app_chrc where
  "zero_chrc = \<lparr>notify_enabled = False, has_ccc = False, value_attr_index = 0, ccc_attr_index = 0, value_len = 0,
     value_uuid = replicate 16 0, chrc_properties = 0, ccc_set = False,
     chrc_value = replicate RUNTIME_BLE_GATT_VALUE_MAX 0\<rparr>"

definition zero_gatt :: app_gatt where
  "zero_gatt = \<lparr>gatt_prepared = False, gatt_registered = False, attr_count = 0, chrc_count = 0,
     service_uuid = replicate 16 0, chrcs = replicate RTBUS_BLE_APP_GATT_CHRC_MAX zero_chrc,
     attrs = replicate RTBUS_BLE_APP_GATT_ATTR_MAX zero_attr, service_attr_count = 0\<rparr>"

text \<open>Advertising or scan data: the entries (type, length, the row of values they point to), the rows
  and the number of entries in use.\<close>

record bt_data =
  bd_type :: byte
  bd_len :: nat
  bd_row :: "nat option"

record gap_data =
  gd_entries :: "bt_data list"
  gd_values :: "byte list list"
  gd_count :: nat

definition zero_gap_data :: gap_data where
  "zero_gap_data = \<lparr>gd_entries = replicate RUNTIME_BLE_GAP_DATA_MAX \<lparr>bd_type = 0, bd_len = 0, bd_row = None\<rparr>,
     gd_values = replicate RUNTIME_BLE_GAP_DATA_MAX (replicate RUNTIME_BLE_GAP_DATA_VALUE_MAX 0), gd_count = 0\<rparr>"

text \<open>What the stack reads from the first \<open>gd_count\<close> entries.\<close>

definition gap_items :: "gap_data \<Rightarrow> (byte \<times> byte list) list" where
  "gap_items g = map (\<lambda>d. (bd_type d, case bd_row d of None \<Rightarrow> [] | Some r \<Rightarrow> take (bd_len d) (gd_values g ! r)))
     (take (gd_count g) (gd_entries g))"

record ('f, 'd, 'b) ble = "('f, 'd) serial" +
  ad_service_uuid :: "byte list"
  ad_has_service_uuid :: bool
  app_ad :: gap_data
  app_sd :: gap_data
  ble_ready :: bool
  ble_advertising :: bool
  current_conn :: "32 word"
  gap_security_level :: byte
  gap_flags :: byte
  app_gatts :: "app_gatt list"
  app_gatt_count :: nat
  bt :: 'b

record 'b bt_stack =
  CONFIG_BT_SMP :: bool
  CONFIG_SETTINGS :: bool
  CONFIG_BT_DEVICE_NAME :: "byte list"
  bt_enable :: "'b \<Rightarrow> rc \<times> 'b"
  settings_load :: "'b \<Rightarrow> rc \<times> 'b"
  bt_conn_auth_info_cb_register :: "'b \<Rightarrow> rc \<times> 'b"
  bt_gatt_service_register :: "nat \<Rightarrow> app_gatt \<Rightarrow> 'b \<Rightarrow> rc \<times> 'b"
  bt_gatt_service_unregister :: "nat \<Rightarrow> 'b \<Rightarrow> rc \<times> 'b"
  bt_le_adv_start :: "(byte \<times> byte list) list \<Rightarrow> (byte \<times> byte list) list \<Rightarrow> 'b \<Rightarrow> rc \<times> 'b"
  bt_le_adv_stop :: "'b \<Rightarrow> rc \<times> 'b"
  bt_conn_set_security :: "32 word \<Rightarrow> byte \<Rightarrow> 'b \<Rightarrow> rc \<times> 'b"
  bt_conn_get_dst :: "32 word \<Rightarrow> 'b \<Rightarrow> byte list option"
  bt_unpair :: "byte list \<Rightarrow> 'b \<Rightarrow> rc \<times> 'b"
  bt_gatt_is_subscribed :: "32 word \<Rightarrow> nat \<Rightarrow> nat \<Rightarrow> 'b \<Rightarrow> bool"
  bt_gatt_notify :: "32 word \<Rightarrow> nat \<Rightarrow> nat \<Rightarrow> byte list \<Rightarrow> 'b \<Rightarrow> rc \<times> 'b"
  bt_gatt_attr_read :: "nat \<Rightarrow> nat \<Rightarrow> byte list \<Rightarrow> int + byte list"

text \<open>A service is passed to the stack by its handle with its contents, an attribute by the service's
  handle and its index.\<close>

definition cpu_mem :: "'f native_env \<Rightarrow> ('f \<Rightarrow> mem) \<Rightarrow> ('f, 'a) native_scheme \<Rightarrow> mem" where
  "cpu_mem V X s = (\<lambda>a. if NATIVE_RAM_BASE V \<le> a \<and> a < NATIVE_RAM_BASE V + NATIVE_RAM_SIZE V then sram s a
                        else X (flash (img_store s)) a)"

definition set_gatt :: "nat \<Rightarrow> app_gatt \<Rightarrow> ('f, 'd, 'b, 'a) ble_scheme \<Rightarrow> ('f, 'd, 'b, 'a) ble_scheme" where
  "set_gatt h g s = s\<lparr>app_gatts := (app_gatts s)[h := g]\<rparr>"

definition set_chrc :: "nat \<Rightarrow> nat \<Rightarrow> app_chrc \<Rightarrow> ('f, 'd, 'b, 'a) ble_scheme \<Rightarrow> ('f, 'd, 'b, 'a) ble_scheme" where
  "set_chrc h c ch s = set_gatt h ((app_gatts s ! h)\<lparr>chrcs := (chrcs (app_gatts s ! h))[c := ch]\<rparr>) s"

section \<open>Attribute callbacks\<close>

text \<open>Reading an attribute's value.  \<open>None\<close>: the user data is not of the type that the callback casts it
  to.  The error is \<open>BT_ATT_ERR_UNLIKELY\<close>.\<close>

definition rtbus_ble_app_gatt_read ::
    "'b bt_stack \<Rightarrow> app_gatt \<Rightarrow> bt_gatt_attr \<Rightarrow> nat \<Rightarrow> nat \<Rightarrow> (int + byte list) option" where
  "rtbus_ble_app_gatt_read B gatt attr len offset =
     (case a_user_data attr of
        No_data \<Rightarrow> Some (Inl (-0x0e))
      | Chrc c \<Rightarrow> Some (bt_gatt_attr_read B len offset
                    (take (value_len (chrcs gatt ! c)) (chrc_value (chrcs gatt ! c))))
      | _ \<Rightarrow> None)"

definition rtbus_ble_app_gatt_find_chrc_ccc :: "nat \<Rightarrow> user_data \<Rightarrow> ('f, 'd, 'b, 'a) ble_scheme \<Rightarrow> (nat \<times> nat) option" where
  "rtbus_ble_app_gatt_find_chrc_ccc h ccc s =
     find (\<lambda>(i, j). i = h \<and> ccc = Value_ccc j)
       [(i, j). i \<leftarrow> [0..<app_gatt_count s], j \<leftarrow> [0..<chrc_count (app_gatts s ! i)]]"

definition BT_GATT_CCC_NOTIFY :: "16 word" where "BT_GATT_CCC_NOTIFY = 1"

definition rtbus_ble_app_gatt_ccc_changed ::
    "nat \<Rightarrow> bt_gatt_attr \<Rightarrow> 16 word \<Rightarrow> ('f, 'd, 'b, 'a) ble_scheme \<Rightarrow> ('f, 'd, 'b, 'a) ble_scheme" where
  "rtbus_ble_app_gatt_ccc_changed h attr value s =
     (case rtbus_ble_app_gatt_find_chrc_ccc h (a_user_data attr) s of
        None \<Rightarrow> s
      | Some (i, j) \<Rightarrow> set_chrc i j ((chrcs (app_gatts s ! i) ! j)\<lparr>notify_enabled := (value = BT_GATT_CCC_NOTIFY)\<rparr>) s)"

definition rtbus_ble_app_gatt_ccc_cfg_write ::
    "nat \<Rightarrow> bt_gatt_attr \<Rightarrow> 16 word \<Rightarrow> ('f, 'd, 'b, 'a) ble_scheme \<Rightarrow> nat \<times> ('f, 'd, 'b, 'a) ble_scheme" where
  "rtbus_ble_app_gatt_ccc_cfg_write h attr value s =
     (2, case rtbus_ble_app_gatt_find_chrc_ccc h (a_user_data attr) s of
           None \<Rightarrow> s
         | Some (i, j) \<Rightarrow> set_chrc i j ((chrcs (app_gatts s ! i) ! j)\<lparr>notify_enabled := (value = BT_GATT_CCC_NOTIFY)\<rparr>) s)"

section \<open>Registering a service\<close>

text \<open>The definitions of the application, as they lie in its memory.\<close>

record ble_chrc_def =
  cd_value_uuid :: "byte list"
  cd_value_len :: byte
  cd_properties :: byte
  cd_value_perm :: byte
  cd_ccc_perm :: byte
  cd_value_addr :: nat

record ble_service_def =
  sd_service_uuid :: "byte list"
  sd_chrc_count :: byte
  sd_chrcs_addr :: nat

definition chrc_def_at :: "mem \<Rightarrow> nat \<Rightarrow> ble_chrc_def" where
  "chrc_def_at m a = \<lparr>cd_value_uuid = rd m a 16, cd_value_len = m (a + 16), cd_properties = m (a + 17),
     cd_value_perm = m (a + 18), cd_ccc_perm = m (a + 19), cd_value_addr = ld32 m (a + 20)\<rparr>"

definition service_def_at :: "mem \<Rightarrow> nat \<Rightarrow> ble_service_def" where
  "service_def_at m a = \<lparr>sd_service_uuid = rd m a 16, sd_chrc_count = m (a + 16), sd_chrcs_addr = ld32 m (a + 20)\<rparr>"

definition BT_GATT_CHRC_READ :: byte where "BT_GATT_CHRC_READ = 0x02"
definition BT_GATT_CHRC_NOTIFY :: byte where "BT_GATT_CHRC_NOTIFY = 0x10"
definition BT_GATT_PERM_READ :: byte where "BT_GATT_PERM_READ = 0x01"
definition BT_GATT_PERM_WRITE :: byte where "BT_GATT_PERM_WRITE = 0x02"

definition rtbus_ble_app_gatt_cccd_define :: "nat \<Rightarrow> nat \<Rightarrow> byte \<Rightarrow> app_gatt \<Rightarrow> app_gatt" where
  "rtbus_ble_app_gatt_cccd_define c attr_index perm gatt =
     gatt\<lparr>attrs := (attrs gatt)[attr_index := \<lparr>a_uuid = Uuid_ccc, a_read = bt_gatt_attr_read_ccc,
            a_write = bt_gatt_attr_write_ccc, a_user_data = Value_ccc c, a_perm = perm\<rparr>],
          chrcs := (chrcs gatt)[c := (chrcs gatt ! c)\<lparr>ccc_set := True, ccc_attr_index := attr_index, has_ccc := True\<rparr>]\<rparr>"

definition rtbus_ble_app_gatt_value_copy :: "mem \<Rightarrow> nat \<Rightarrow> byte \<Rightarrow> app_chrc \<Rightarrow> errno + app_chrc" where
  "rtbus_ble_app_gatt_value_copy m value len chrc =
     (if RUNTIME_BLE_GATT_VALUE_MAX < unat len then Inl EMSGSIZE
      else if len \<noteq> 0 \<and> value = NULL then Inl EINVAL
      else
        let chrc = (if len \<noteq> 0 then chrc\<lparr>chrc_value := rd m value (unat len) @ drop (unat len) (chrc_value chrc)\<rparr>
                    else chrc)
        in Inr (chrc\<lparr>value_len := unat len\<rparr>))"

definition rtbus_ble_app_gatt_properties :: "ble_chrc_def \<Rightarrow> byte" where
  "rtbus_ble_app_gatt_properties def =
     (if cd_properties def \<noteq> 0 then cd_properties def else BT_GATT_CHRC_READ OR BT_GATT_CHRC_NOTIFY)"

definition rtbus_ble_app_gatt_value_perm :: "ble_chrc_def \<Rightarrow> byte" where
  "rtbus_ble_app_gatt_value_perm def = (if cd_value_perm def \<noteq> 0 then cd_value_perm def else BT_GATT_PERM_READ)"

definition rtbus_ble_app_gatt_ccc_perm :: "ble_chrc_def \<Rightarrow> byte" where
  "rtbus_ble_app_gatt_ccc_perm def =
     (if cd_ccc_perm def \<noteq> 0 then cd_ccc_perm def else BT_GATT_PERM_READ OR BT_GATT_PERM_WRITE)"

definition rtbus_ble_app_gatt_register_ready ::
    "'b bt_stack \<Rightarrow> nat \<Rightarrow> ('f, 'd, 'b, 'a) ble_scheme \<Rightarrow> rc \<times> ('f, 'd, 'b, 'a) ble_scheme" where
  "rtbus_ble_app_gatt_register_ready B h s =
     (if gatt_registered (app_gatts s ! h) then (ok, s)
      else
        let (ret, b) = bt_gatt_service_register B h (app_gatts s ! h) (bt s); s = s\<lparr>bt := b\<rparr>
        in if ret \<noteq> ok then (ret, s) else (ok, set_gatt h ((app_gatts s ! h)\<lparr>gatt_registered := True\<rparr>) s))"

fun register_pending_loop ::
    "'b bt_stack \<Rightarrow> nat list \<Rightarrow> ('f, 'd, 'b, 'a) ble_scheme \<Rightarrow> rc \<times> ('f, 'd, 'b, 'a) ble_scheme" where
  "register_pending_loop B [] s = (ok, s)"
| "register_pending_loop B (i # is) s =
     (let (ret, s) = rtbus_ble_app_gatt_register_ready B i s
      in if ret \<noteq> ok then (ret, s) else register_pending_loop B is s)"

definition rtbus_ble_app_gatt_register_pending ::
    "'b bt_stack \<Rightarrow> ('f, 'd, 'b, 'a) ble_scheme \<Rightarrow> rc \<times> ('f, 'd, 'b, 'a) ble_scheme" where
  "rtbus_ble_app_gatt_register_pending B s = register_pending_loop B [0..<app_gatt_count s] s"

definition rtbus_ble_ad_sync_service_uuid :: "('f, 'd, 'b, 'a) ble_scheme \<Rightarrow> ('f, 'd, 'b, 'a) ble_scheme" where
  "rtbus_ble_ad_sync_service_uuid s =
     (if app_gatt_count s = 0 then s\<lparr>ad_has_service_uuid := False, ad_service_uuid := replicate 16 0\<rparr>
      else s\<lparr>ad_service_uuid := service_uuid (app_gatts s ! 0), ad_has_service_uuid := True\<rparr>)"

text \<open>One characteristic: its declaration, its value and, with the notify property, its descriptor.\<close>

definition gatt_add_chrc :: "mem \<Rightarrow> ble_chrc_def \<Rightarrow> nat \<Rightarrow> app_gatt \<times> nat \<Rightarrow> errno + app_gatt \<times> nat" where
  "gatt_add_chrc m def i = (\<lambda>(gatt, attr_index).
     let properties = rtbus_ble_app_gatt_properties def
     in if length (attrs gatt) < (attr_index + 2) mod 256 then Inl ENOMEM
        else (case rtbus_ble_app_gatt_value_copy m (cd_value_addr def) (cd_value_len def)
                     ((chrcs gatt ! i)\<lparr>value_uuid := cd_value_uuid def\<rparr>) of
          Inl e \<Rightarrow> Inl e
        | Inr chrc \<Rightarrow>
            let gatt = gatt\<lparr>attrs := (attrs gatt)[attr_index := \<lparr>a_uuid = Uuid_chrc, a_read = bt_gatt_attr_read_chrc,
                              a_write = No_write, a_user_data = Value_chrc i, a_perm = BT_GATT_PERM_READ\<rparr>]\<rparr>;
                attr_index = attr_index + 1;
                gatt = gatt\<lparr>chrcs := (chrcs gatt)[i := chrc\<lparr>chrc_properties := properties, value_attr_index := attr_index\<rparr>],
                            attrs := (attrs gatt)[attr_index := \<lparr>a_uuid = Value_uuid i, a_read = app_gatt_read,
                              a_write = No_write, a_user_data = Chrc i, a_perm = rtbus_ble_app_gatt_value_perm def\<rparr>]\<rparr>;
                attr_index = attr_index + 1
            in if properties AND BT_GATT_CHRC_NOTIFY \<noteq> 0 then
                 if length (attrs gatt) \<le> attr_index then Inl ENOMEM
                 else Inr (rtbus_ble_app_gatt_cccd_define i attr_index (rtbus_ble_app_gatt_ccc_perm def) gatt, attr_index + 1)
               else Inr (gatt, attr_index)))"

fun gatt_add_loop :: "mem \<Rightarrow> nat \<Rightarrow> nat list \<Rightarrow> app_gatt \<times> nat \<Rightarrow> errno + app_gatt \<times> nat" where
  "gatt_add_loop m chrc_defs [] ga = Inr ga"
| "gatt_add_loop m chrc_defs (i # is) ga =
     (case gatt_add_chrc m (chrc_def_at m (chrc_defs + 24 * i)) i ga of
        Inl e \<Rightarrow> Inl e
      | Inr ga \<Rightarrow> gatt_add_loop m chrc_defs is ga)"

definition rtbus_ble_app_gatt_notify_register_now ::
    "'b bt_stack \<Rightarrow> 'f native_env \<Rightarrow> ('f \<Rightarrow> mem) \<Rightarrow> nat \<Rightarrow> ('f, 'd, 'b, 'a) ble_scheme \<Rightarrow>
     (errno + nat) \<times> ('f, 'd, 'b, 'a) ble_scheme" where
  "rtbus_ble_app_gatt_notify_register_now B V X def_addr s =
     (let m = cpu_mem V X s; def = service_def_at m def_addr; count = unat (sd_chrc_count def)
      in if def_addr = NULL \<or> count = 0 \<or> RTBUS_BLE_APP_GATT_CHRC_MAX < count \<or> sd_chrcs_addr def = 0
      then (Inl EINVAL, s)
      else if RTBUS_BLE_APP_GATT_MAX \<le> app_gatt_count s then (Inl ENOMEM, s)
      else
        let handle = app_gatt_count s;
            gatt = zero_gatt\<lparr>service_uuid := sd_service_uuid def,
              attrs := (attrs zero_gatt)[0 := \<lparr>a_uuid = Uuid_primary, a_read = bt_gatt_attr_read_service,
                a_write = No_write, a_user_data = Service_uuid, a_perm = BT_GATT_PERM_READ\<rparr>]\<rparr>
        in case gatt_add_loop m (sd_chrcs_addr def) [0..<count] (gatt, 1) of
             Inl e \<Rightarrow> (Inl e, set_gatt handle zero_gatt s)
           | Inr (gatt, attr_index) \<Rightarrow>
               let s = set_gatt handle (gatt\<lparr>chrc_count := count, attr_count := attr_index,
                         service_attr_count := attr_index, gatt_prepared := True\<rparr>) s;
                   s = rtbus_ble_ad_sync_service_uuid (s\<lparr>app_gatt_count := app_gatt_count s + 1\<rparr>)
               in if ble_ready s
                  then (case rtbus_ble_app_gatt_register_ready B handle s of
                          (Inl e, s) \<Rightarrow> (Inl e, s)
                        | (Inr _, s) \<Rightarrow> (Inr handle, s))
                  else (Inr handle, s))"

section \<open>Resetting\<close>

fun gatt_reset_loop :: "'b bt_stack \<Rightarrow> nat list \<Rightarrow> ('f, 'd, 'b, 'a) ble_scheme \<Rightarrow> ('f, 'd, 'b, 'a) ble_scheme" where
  "gatt_reset_loop B [] s = s"
| "gatt_reset_loop B (i # is) s =
     gatt_reset_loop B is
       (if \<not> gatt_registered (app_gatts s ! i) then s else s\<lparr>bt := snd (bt_gatt_service_unregister B i (bt s))\<rparr>)"

definition rtbus_ble_app_gatt_reset :: "'b bt_stack \<Rightarrow> ('f, 'd, 'b, 'a) ble_scheme \<Rightarrow> ('f, 'd, 'b, 'a) ble_scheme" where
  "rtbus_ble_app_gatt_reset B s =
     (let s = gatt_reset_loop B [0..<app_gatt_count s] s
      in rtbus_ble_ad_sync_service_uuid
           (s\<lparr>app_gatt_count := 0, app_gatts := replicate RTBUS_BLE_APP_GATT_MAX zero_gatt\<rparr>))"

definition rtbus_ble_reset_app_state :: "'b bt_stack \<Rightarrow> ('f, 'd, 'b, 'a) ble_scheme \<Rightarrow> ('f, 'd, 'b, 'a) ble_scheme" where
  "rtbus_ble_reset_app_state B s =
     (let s = (if ble_ready s \<and> ble_advertising s then s\<lparr>bt := snd (bt_le_adv_stop B (bt s))\<rparr> else s)
      in rtbus_ble_app_gatt_reset B (s\<lparr>ble_advertising := False, current_conn := 0, gap_security_level := 0,
           gap_flags := 0, app_ad := zero_gap_data, app_sd := zero_gap_data\<rparr>))"

section \<open>Values\<close>

record ble_value_set_req =
  vs_handle :: byte
  vs_chrc :: byte
  vs_value_len :: byte
  vs_value_addr :: nat

definition rtbus_ble_app_gatt_value_set_now ::
    "'b bt_stack \<Rightarrow> 'f native_env \<Rightarrow> ('f \<Rightarrow> mem) \<Rightarrow> ble_value_set_req \<Rightarrow> ('f, 'd, 'b, 'a) ble_scheme \<Rightarrow>
     rc \<times> ('f, 'd, 'b, 'a) ble_scheme" where
  "rtbus_ble_app_gatt_value_set_now B V X req s =
     (let h = unat (vs_handle req); c = unat (vs_chrc req); gatt = app_gatts s ! h
      in if app_gatt_count s \<le> h then (Inl EINVAL, s)
      else if \<not> gatt_prepared gatt \<or> chrc_count gatt \<le> c then (Inl EINVAL, s)
      else (case rtbus_ble_app_gatt_value_copy (cpu_mem V X s) (vs_value_addr req) (vs_value_len req) (chrcs gatt ! c) of
          Inl e \<Rightarrow> (Inl e, s)
        | Inr chrc \<Rightarrow>
            let conn = current_conn s;
                watched = (gatt_registered gatt \<and> has_ccc chrc \<and> conn \<noteq> 0);
                subscribed = (watched \<and> bt_gatt_is_subscribed B conn h (value_attr_index chrc) (bt s));
                chrc = (if watched then chrc\<lparr>notify_enabled := subscribed\<rparr> else chrc);
                s = set_chrc h c chrc s
            in if gatt_registered gatt \<and> has_ccc chrc \<and> subscribed \<and> conn \<noteq> 0
               then
                 let (ret, b) = bt_gatt_notify B conn h (value_attr_index chrc) (take (value_len chrc) (chrc_value chrc)) (bt s)
                 in (ret, s\<lparr>bt := b\<rparr>)
               else (ok, s)))"

section \<open>Advertising data\<close>

record ble_gap_data_def =
  gdd_type :: byte
  gdd_len :: byte
  gdd_addr :: nat

definition gap_data_def_at :: "mem \<Rightarrow> nat \<Rightarrow> ble_gap_data_def" where
  "gap_data_def_at m a = \<lparr>gdd_type = m a, gdd_len = m (a + 1), gdd_addr = a + 2\<rparr>"

record ble_gap_def =
  gap_level :: byte
  gap_def_flags :: byte
  adv_data_count :: byte
  scan_data_count :: byte
  adv_data_addr :: nat
  scan_data_addr :: nat

definition gap_def_at :: "mem \<Rightarrow> nat \<Rightarrow> ble_gap_def" where
  "gap_def_at m a = \<lparr>gap_level = m a, gap_def_flags = m (a + 1), adv_data_count = m (a + 2),
     scan_data_count = m (a + 3), adv_data_addr = ld32 m (a + 4), scan_data_addr = ld32 m (a + 8)\<rparr>"

fun gap_copy_loop :: "mem \<Rightarrow> nat \<Rightarrow> nat list \<Rightarrow> gap_data \<Rightarrow> rc \<times> gap_data" where
  "gap_copy_loop m defs [] g = (ok, g)"
| "gap_copy_loop m defs (i # is) g =
     (let def = gap_data_def_at m (defs + 33 * i); len = unat (gdd_len def)
      in if RUNTIME_BLE_GAP_DATA_VALUE_MAX < len then (Inl EMSGSIZE, g)
         else gap_copy_loop m defs is
           (g\<lparr>gd_values := (gd_values g)[i := rd m (gdd_addr def) len @ drop len (gd_values g ! i)],
              gd_entries := (gd_entries g)[i := \<lparr>bd_type = gdd_type def, bd_len = len, bd_row = Some i\<rparr>]\<rparr>))"

definition rtbus_ble_gap_data_copy :: "mem \<Rightarrow> byte \<Rightarrow> nat \<Rightarrow> gap_data \<Rightarrow> rc \<times> gap_data" where
  "rtbus_ble_gap_data_copy m count defs_addr dst =
     (if RUNTIME_BLE_GAP_DATA_MAX < unat count then (Inl ENOMEM, dst)
      else if count \<noteq> 0 \<and> defs_addr = 0 then (Inl EINVAL, dst)
      else if count = 0 then (ok, zero_gap_data)
      else (case gap_copy_loop m defs_addr [0..<unat count] zero_gap_data of
              (Inl e, g) \<Rightarrow> (Inl e, g)
            | (Inr _, g) \<Rightarrow> (ok, g\<lparr>gd_count := unat count\<rparr>)))"

definition rtbus_ble_gap_init_now ::
    "'f native_env \<Rightarrow> ('f \<Rightarrow> mem) \<Rightarrow> nat \<Rightarrow> ('f, 'd, 'b, 'a) ble_scheme \<Rightarrow> rc \<times> ('f, 'd, 'b, 'a) ble_scheme" where
  "rtbus_ble_gap_init_now V X def_addr s =
     (if def_addr = NULL then (Inl EINVAL, s)
      else
        let m = cpu_mem V X s; def = gap_def_at m def_addr;
            (ret, ad) = rtbus_ble_gap_data_copy m (adv_data_count def) (adv_data_addr def) (app_ad s);
            s = s\<lparr>app_ad := ad\<rparr>
        in if ret \<noteq> ok then (ret, s)
           else
             let (ret, sd) = rtbus_ble_gap_data_copy m (scan_data_count def) (scan_data_addr def) (app_sd s);
                 s = s\<lparr>app_sd := sd\<rparr>
             in if ret \<noteq> ok then (ret, s)
                else (ok, s\<lparr>gap_security_level := gap_level def, gap_flags := gap_def_flags def\<rparr>))"

section \<open>Connection callbacks\<close>

definition RUNTIME_EVENT_GROUP_BLE :: "16 word" where "RUNTIME_EVENT_GROUP_BLE = 1"
definition RUNTIME_EVENT_BLE_CONNECTED :: "16 word" where "RUNTIME_EVENT_BLE_CONNECTED = 1"
definition RUNTIME_EVENT_BLE_DISCONNECTED :: "16 word" where "RUNTIME_EVENT_BLE_DISCONNECTED = 2"
definition RUNTIME_EVENT_BLE_RECYCLED :: "16 word" where "RUNTIME_EVENT_BLE_RECYCLED = 3"
definition RUNTIME_EVENT_BLE_SECURITY_CHANGED :: "16 word" where "RUNTIME_EVENT_BLE_SECURITY_CHANGED = 4"
definition RUNTIME_EVENT_BLE_CONNECT_FAILED :: "16 word" where "RUNTIME_EVENT_BLE_CONNECT_FAILED = 5"

definition rtbus_ble_store_u32_le :: "32 word \<Rightarrow> byte list" where
  "rtbus_ble_store_u32_le v = [ucast v, ucast (drop_bit 8 v), ucast (drop_bit 16 v), ucast (drop_bit 24 v)]"

text \<open>A connection is the address of its object, never zero.\<close>

definition rtbus_ble_connected ::
    "'b bt_stack \<Rightarrow> 32 word \<Rightarrow> byte \<Rightarrow> ('f, 'd, 'b, 'a) ble_scheme \<Rightarrow> ('f, 'd, 'b, 'a) ble_scheme" where
  "rtbus_ble_connected B conn err s =
     (let s = s\<lparr>ble_advertising := False\<rparr>
      in if err \<noteq> 0
         then snd (native_service_emit_event RUNTIME_EVENT_GROUP_BLE RUNTIME_EVENT_BLE_CONNECT_FAILED (Some [err]) 1
                (s\<lparr>current_conn := 0\<rparr>))
         else
           let s = s\<lparr>current_conn := conn\<rparr>;
               s = snd (native_service_emit_event RUNTIME_EVENT_GROUP_BLE RUNTIME_EVENT_BLE_CONNECTED
                     (Some (rtbus_ble_store_u32_le (current_conn s))) 4 s)
           in if gap_security_level s \<noteq> 0
              then s\<lparr>bt := snd (bt_conn_set_security B conn (gap_security_level s) (bt s))\<rparr> else s)"

definition rtbus_ble_disconnected ::
    "32 word \<Rightarrow> byte \<Rightarrow> ('f, 'd, 'b, 'a) ble_scheme \<Rightarrow> ('f, 'd, 'b, 'a) ble_scheme" where
  "rtbus_ble_disconnected conn reason s =
     (let s = (if current_conn s = conn then s\<lparr>current_conn := 0\<rparr> else s)
      in snd (native_service_emit_event RUNTIME_EVENT_GROUP_BLE RUNTIME_EVENT_BLE_DISCONNECTED (Some [reason]) 1 s))"

definition rtbus_ble_recycled :: "('f, 'd, 'b, 'a) ble_scheme \<Rightarrow> ('f, 'd, 'b, 'a) ble_scheme" where
  "rtbus_ble_recycled s =
     snd (native_service_emit_event RUNTIME_EVENT_GROUP_BLE RUNTIME_EVENT_BLE_RECYCLED None 0 (s\<lparr>current_conn := 0\<rparr>))"

section \<open>Security\<close>

text \<open>The stack's reasons for a security failure, in the order of their codes.\<close>

datatype bt_security_err = SECURITY_SUCCESS | AUTH_FAIL | PIN_OR_KEY_MISSING | OOB_NOT_AVAILABLE | AUTH_REQUIREMENT
  | PAIR_NOT_SUPPORTED | PAIR_NOT_ALLOWED | INVALID_PARAM | KEY_REJECTED | UNSPECIFIED

definition bt_security_code :: "bt_security_err \<Rightarrow> byte" where
  "bt_security_code err = (case err of SECURITY_SUCCESS \<Rightarrow> 0 | AUTH_FAIL \<Rightarrow> 1 | PIN_OR_KEY_MISSING \<Rightarrow> 2
     | OOB_NOT_AVAILABLE \<Rightarrow> 3 | AUTH_REQUIREMENT \<Rightarrow> 4 | PAIR_NOT_SUPPORTED \<Rightarrow> 5 | PAIR_NOT_ALLOWED \<Rightarrow> 6
     | INVALID_PARAM \<Rightarrow> 7 | KEY_REJECTED \<Rightarrow> 8 | UNSPECIFIED \<Rightarrow> 9)"

definition rtbus_ble_security_err_stale_bond :: "bt_security_err \<Rightarrow> bool" where
  "rtbus_ble_security_err_stale_bond err \<longleftrightarrow>
     err = AUTH_FAIL \<or> err = PIN_OR_KEY_MISSING \<or> err = AUTH_REQUIREMENT \<or> err = KEY_REJECTED"

definition rtbus_ble_forget_stale_bond ::
    "'b bt_stack \<Rightarrow> 32 word \<Rightarrow> bt_security_err \<Rightarrow> ('f, 'd, 'b, 'a) ble_scheme \<Rightarrow> ('f, 'd, 'b, 'a) ble_scheme" where
  "rtbus_ble_forget_stale_bond B conn err s =
     (if \<not> rtbus_ble_security_err_stale_bond err then s
      else (case bt_conn_get_dst B conn (bt s) of
              None \<Rightarrow> s
            | Some peer \<Rightarrow> s\<lparr>bt := snd (bt_unpair B peer (bt s))\<rparr>))"

definition rtbus_ble_security_changed ::
    "'b bt_stack \<Rightarrow> 32 word \<Rightarrow> byte \<Rightarrow> bt_security_err \<Rightarrow> ('f, 'd, 'b, 'a) ble_scheme \<Rightarrow> ('f, 'd, 'b, 'a) ble_scheme" where
  "rtbus_ble_security_changed B conn level err s =
     (let s = snd (native_service_emit_event RUNTIME_EVENT_GROUP_BLE RUNTIME_EVENT_BLE_SECURITY_CHANGED
                (Some [level, bt_security_code err]) 2 s)
      in if err \<noteq> SECURITY_SUCCESS then rtbus_ble_forget_stale_bond B conn err s else s)"

definition rtbus_ble_pairing_failed ::
    "'b bt_stack \<Rightarrow> 32 word \<Rightarrow> bt_security_err \<Rightarrow> ('f, 'd, 'b, 'a) ble_scheme \<Rightarrow> ('f, 'd, 'b, 'a) ble_scheme" where
  "rtbus_ble_pairing_failed B conn reason s = rtbus_ble_forget_stale_bond B conn reason s"

definition rtbus_ble_register_auth_info_callbacks ::
    "'b bt_stack \<Rightarrow> ('f, 'd, 'b, 'a) ble_scheme \<Rightarrow> rc \<times> ('f, 'd, 'b, 'a) ble_scheme" where
  "rtbus_ble_register_auth_info_callbacks B s =
     (let (ret, b) = bt_conn_auth_info_cb_register B (bt s); s = s\<lparr>bt := b\<rparr>
      in if ret = Inl EALREADY then (ok, s) else (ret, s))"

definition rtbus_ble_set_security_now ::
    "'b bt_stack \<Rightarrow> 32 word \<Rightarrow> byte \<Rightarrow> ('f, 'd, 'b, 'a) ble_scheme \<Rightarrow> rc \<times> ('f, 'd, 'b, 'a) ble_scheme" where
  "rtbus_ble_set_security_now B conn_handle level s =
     (if \<not> CONFIG_BT_SMP B then (Inl ENOTSUP, s)
      else if conn_handle = 0 \<or> current_conn s = 0 \<or> conn_handle \<noteq> current_conn s then (Inl ENOTCONN, s)
      else
        let (ret, b) = bt_conn_set_security B conn_handle level (bt s)
        in (ret, s\<lparr>bt := b\<rparr>))"

definition BT_SECURITY_L2 :: byte where "BT_SECURITY_L2 = 2"

definition rtbus_ble_pair_now ::
    "'b bt_stack \<Rightarrow> 32 word \<Rightarrow> ('f, 'd, 'b, 'a) ble_scheme \<Rightarrow> rc \<times> ('f, 'd, 'b, 'a) ble_scheme" where
  "rtbus_ble_pair_now B conn_handle s = rtbus_ble_set_security_now B conn_handle BT_SECURITY_L2 s"

section \<open>Advertising\<close>

text \<open>The advertising and scan data without data of the application: flags and, with a service, its
  UUID; the device's name.\<close>

definition rtbus_ble_ad :: "('f, 'd, 'b, 'a) ble_scheme \<Rightarrow> (byte \<times> byte list) list" where
  "rtbus_ble_ad s = [(0x01, [0x02 OR 0x04]), (0x07, ad_service_uuid s)]"

definition rtbus_ble_sd :: "'b bt_stack \<Rightarrow> (byte \<times> byte list) list" where
  "rtbus_ble_sd B = [(0x09, CONFIG_BT_DEVICE_NAME B)]"

definition rtbus_ble_ad_count :: "('f, 'd, 'b, 'a) ble_scheme \<Rightarrow> nat" where
  "rtbus_ble_ad_count s = (if ad_has_service_uuid s then length (rtbus_ble_ad s) else 1)"

definition ble_enable :: "'b bt_stack \<Rightarrow> ('f, 'd, 'b, 'a) ble_scheme \<Rightarrow> rc \<times> ('f, 'd, 'b, 'a) ble_scheme" where
  "ble_enable B s =
     (if ble_ready s then (ok, s)
      else
        let (ret, s) = rtbus_ble_app_gatt_register_pending B s
        in if ret \<noteq> ok then (ret, s) else
        let (ret, b) = bt_enable B (bt s); s = s\<lparr>bt := b\<rparr>
        in if ret \<noteq> ok then (ret, s) else
        let (ret, s) = (if CONFIG_BT_SMP B then rtbus_ble_register_auth_info_callbacks B s else (ok, s))
        in if ret \<noteq> ok then (ret, s) else
        let (ret, b) = (if CONFIG_SETTINGS B then settings_load B (bt s) else (ok, bt s)); s = s\<lparr>bt := b\<rparr>
        in if ret \<noteq> ok then (ret, s) else (ok, s\<lparr>ble_ready := True\<rparr>))"

definition rtbus_ble_adv_start_now :: "'b bt_stack \<Rightarrow> ('f, 'd, 'b, 'a) ble_scheme \<Rightarrow> rc \<times> ('f, 'd, 'b, 'a) ble_scheme" where
  "rtbus_ble_adv_start_now B s =
     (let (ret, s) = ble_enable B s
      in if ret \<noteq> ok then (ret, s) else
      let (ret, s) = rtbus_ble_app_gatt_register_pending B s
      in if ret \<noteq> ok then (ret, s) else
      let s = rtbus_ble_ad_sync_service_uuid s
      in if ble_advertising s then (ok, s)
      else
        let (ret, b) =
              (if gd_count (app_ad s) \<noteq> 0 \<or> gd_count (app_sd s) \<noteq> 0
               then bt_le_adv_start B (gap_items (app_ad s)) (gap_items (app_sd s)) (bt s)
               else bt_le_adv_start B (take (rtbus_ble_ad_count s) (rtbus_ble_ad s)) (rtbus_ble_sd B) (bt s));
            s = s\<lparr>bt := b\<rparr>
        in if ret \<noteq> ok then (ret, s) else (ok, s\<lparr>ble_advertising := True\<rparr>))"

section \<open>The task\<close>

definition APPLICATION_BLE_ADV_START :: "32 word" where "APPLICATION_BLE_ADV_START = APP_EVT 1"
definition APPLICATION_BLE_PAIR :: "32 word" where "APPLICATION_BLE_PAIR = APP_EVT 2"
definition APPLICATION_BLE_SET_SECURITY :: "32 word" where "APPLICATION_BLE_SET_SECURITY = APP_EVT 3"
definition APPLICATION_BLE_GAP_INIT :: "32 word" where "APPLICATION_BLE_GAP_INIT = APP_EVT 4"
definition APPLICATION_BLE_GATT_NOTIFY_REGISTER :: "32 word" where "APPLICATION_BLE_GATT_NOTIFY_REGISTER = APP_EVT 5"
definition APPLICATION_BLE_GATT_VALUE_SET :: "32 word" where "APPLICATION_BLE_GATT_VALUE_SET = APP_EVT 6"

text \<open>Words of a request's payload.  A result is the word that \<open>code\<close> gives for \<open>0\<close> or an error, or the
  handle.\<close>

definition req_word :: "nat \<Rightarrow> emos_ctx \<Rightarrow> nat" where
  "req_word i ctx = un_le (slice (4 * i) 4 (ctx_payload ctx))"

definition rtbus_ble_process ::
    "'b bt_stack \<Rightarrow> 'f native_env \<Rightarrow> ('f \<Rightarrow> mem) \<Rightarrow> (rc \<Rightarrow> 32 word) \<Rightarrow> emos_ctx \<Rightarrow> ('f, 'd, 'b, 'a) ble_scheme \<Rightarrow>
     ('f, 'd, 'b, 'a) ble_scheme" where
  "rtbus_ble_process B V X code ctx s =
     (let complete = (\<lambda>(ret, s). snd (native_service_complete_result V (req_word 0 ctx) (code ret) s)); p = ctx_payload ctx
      in if ctx_id ctx = SYS_EVT EMOS_SYS_INIT then rtbus_ble_reset_app_state B s
      else if ctx_id ctx = APPLICATION_BLE_ADV_START then snd (rtbus_ble_adv_start_now B s)
      else if ctx_id ctx = APPLICATION_BLE_PAIR then
        if length p \<noteq> 8 then s else complete (rtbus_ble_pair_now B (of_nat (req_word 1 ctx)) s)
      else if ctx_id ctx = APPLICATION_BLE_SET_SECURITY then
        if length p \<noteq> 12 then s else complete (rtbus_ble_set_security_now B (of_nat (req_word 1 ctx)) (p ! 8) s)
      else if ctx_id ctx = APPLICATION_BLE_GAP_INIT then
        if length p \<noteq> 8 then s else complete (rtbus_ble_gap_init_now V X (req_word 1 ctx) s)
      else if ctx_id ctx = APPLICATION_BLE_GATT_NOTIFY_REGISTER then
        if length p \<noteq> 8 then s
        else (case rtbus_ble_app_gatt_notify_register_now B V X (req_word 1 ctx) s of
                (Inl e, s) \<Rightarrow> complete (Inl e, s)
              | (Inr handle, s) \<Rightarrow> snd (native_service_complete_result V (req_word 0 ctx) (of_nat handle) s))
      else if ctx_id ctx = APPLICATION_BLE_GATT_VALUE_SET then
        if length p \<noteq> 12 then s
        else complete (rtbus_ble_app_gatt_value_set_now B V X
               \<lparr>vs_handle = p ! 4, vs_chrc = p ! 5, vs_value_len = p ! 6, vs_value_addr = req_word 2 ctx\<rparr> s)
      else s)"

end
