(* ===== verification/Ble_Table.thy ===== *)
theory Ble_Table
  imports Ble
begin

text \<open>
  What registering a service builds: the attribute table and the characteristics that the
  application's definition describes.
\<close>

section \<open>The described table\<close>

definition notifies :: "ble_chrc_def \<Rightarrow> bool" where
  "notifies def \<longleftrightarrow> rtbus_ble_app_gatt_properties def AND BT_GATT_CHRC_NOTIFY \<noteq> 0"

definition primary_attr :: bt_gatt_attr where
  "primary_attr = \<lparr>a_uuid = Uuid_primary, a_read = bt_gatt_attr_read_service, a_write = No_write,
     a_user_data = Service_uuid, a_perm = BT_GATT_PERM_READ\<rparr>"

definition chrc_attrs :: "ble_chrc_def \<Rightarrow> nat \<Rightarrow> bt_gatt_attr list" where
  "chrc_attrs def i =
     [\<lparr>a_uuid = Uuid_chrc, a_read = bt_gatt_attr_read_chrc, a_write = No_write, a_user_data = Value_chrc i,
        a_perm = BT_GATT_PERM_READ\<rparr>,
      \<lparr>a_uuid = Value_uuid i, a_read = app_gatt_read, a_write = No_write, a_user_data = Chrc i,
        a_perm = rtbus_ble_app_gatt_value_perm def\<rparr>] @
     (if notifies def then [\<lparr>a_uuid = Uuid_ccc, a_read = bt_gatt_attr_read_ccc, a_write = bt_gatt_attr_write_ccc,
        a_user_data = Value_ccc i, a_perm = rtbus_ble_app_gatt_ccc_perm def\<rparr>] else [])"

fun described_table :: "ble_chrc_def list \<Rightarrow> nat \<Rightarrow> bt_gatt_attr list" where
  "described_table defs 0 = [primary_attr]"
| "described_table defs (Suc i) = described_table defs i @ chrc_attrs (defs ! i) i"

definition described_value :: "mem \<Rightarrow> ble_chrc_def \<Rightarrow> byte list" where
  "described_value m def = (if cd_value_len def = 0 then [] else rd m (cd_value_addr def) (unat (cd_value_len def)))"

definition described_chrc :: "mem \<Rightarrow> ble_chrc_def list \<Rightarrow> nat \<Rightarrow> app_chrc" where
  "described_chrc m defs i =
     (let def = defs ! i; v = described_value m def; a = length (described_table defs i)
      in zero_chrc\<lparr>value_uuid := cd_value_uuid def, value_len := length v,
           chrc_value := v @ replicate (RUNTIME_BLE_GATT_VALUE_MAX - length v) 0,
           chrc_properties := rtbus_ble_app_gatt_properties def, value_attr_index := a + 1,
           has_ccc := notifies def, ccc_set := notifies def,
           ccc_attr_index := (if notifies def then a + 2 else 0)\<rparr>)"

definition chrc_def_ok :: "ble_chrc_def \<Rightarrow> bool" where
  "chrc_def_ok def \<longleftrightarrow> unat (cd_value_len def) \<le> RUNTIME_BLE_GATT_VALUE_MAX \<and>
     (cd_value_len def \<noteq> 0 \<longrightarrow> cd_value_addr def \<noteq> NULL)"

text \<open>The service after its first \<open>k\<close> characteristics.\<close>

definition partial_gatt :: "mem \<Rightarrow> byte list \<Rightarrow> ble_chrc_def list \<Rightarrow> nat \<Rightarrow> app_gatt" where
  "partial_gatt m uuid defs k = zero_gatt\<lparr>service_uuid := uuid,
     attrs := described_table defs k @ replicate (RTBUS_BLE_APP_GATT_ATTR_MAX - length (described_table defs k)) zero_attr,
     chrcs := map (described_chrc m defs) [0..<k] @ replicate (RTBUS_BLE_APP_GATT_CHRC_MAX - k) zero_chrc\<rparr>"

lemma length_chrc_attrs: "2 \<le> length (chrc_attrs def i)" "length (chrc_attrs def i) \<le> 3"
  by (simp_all add: chrc_attrs_def)

lemma length_described_table: "1 + 2 * k \<le> length (described_table defs k)" "length (described_table defs k) \<le> 1 + 3 * k"
proof (induction k)
  case (Suc k)
  { case 1 show ?case using Suc.IH(1) length_chrc_attrs(1) [of "defs ! k" k] by simp }
  { case 2 show ?case using Suc.IH(2) length_chrc_attrs(2) [of "defs ! k" k] by simp }
qed simp_all

lemma value_copied:
  assumes "chrc_def_ok def" "chrc_value ch = replicate RUNTIME_BLE_GATT_VALUE_MAX 0"
  shows "rtbus_ble_app_gatt_value_copy m (cd_value_addr def) (cd_value_len def) ch =
    Inr (ch\<lparr>chrc_value := described_value m def @ replicate (RUNTIME_BLE_GATT_VALUE_MAX - length (described_value m def)) 0,
            value_len := length (described_value m def)\<rparr>)"
proof (cases "cd_value_len def = 0")
  case True
  have "ch = ch\<lparr>chrc_value := replicate RUNTIME_BLE_GATT_VALUE_MAX 0\<rparr>" using assms(2) [symmetric] by simp
  then show ?thesis using True by (simp add: rtbus_ble_app_gatt_value_copy_def described_value_def Let_def)
next
  case False
  then have "unat (cd_value_len def) \<le> RUNTIME_BLE_GATT_VALUE_MAX" "cd_value_addr def \<noteq> NULL"
    using assms(1) by (simp_all add: chrc_def_ok_def)
  then show ?thesis using False assms(2)
    by (simp add: rtbus_ble_app_gatt_value_copy_def described_value_def Let_def)
qed

lemma update_after: "length xs = n \<Longrightarrow> (xs @ z # zs)[n := y] = xs @ y # zs"
  by (simp add: list_update_append)

lemma update_after1: "length xs = n \<Longrightarrow> (xs @ x # z # zs)[Suc n := y] = xs @ x # y # zs"
  by (simp add: list_update_append)

lemma update_after2: "length xs = n \<Longrightarrow> (xs @ w # x # z # zs)[Suc (Suc n) := y] = xs @ w # x # y # zs"
  by (simp add: list_update_append)

lemma add_chrc:
  assumes "attrs g = t @ z1 # z2 # z3 # r" "chrcs g = cs @ c0 # cr" "length t = a" "a + 2 < 256" "length cs = i"
    and "rtbus_ble_app_gatt_value_copy m (cd_value_addr def) (cd_value_len def) (c0\<lparr>value_uuid := cd_value_uuid def\<rparr>) = Inr ch"
  shows "gatt_add_chrc m def i (g, a) =
    Inr (g\<lparr>attrs := t @ chrc_attrs def i @ (if notifies def then r else z3 # r),
           chrcs := cs @ ch\<lparr>chrc_properties := rtbus_ble_app_gatt_properties def, value_attr_index := a + 1,
             has_ccc := (notifies def \<or> has_ccc ch), ccc_set := (notifies def \<or> ccc_set ch),
             ccc_attr_index := (if notifies def then a + 2 else ccc_attr_index ch)\<rparr> # cr\<rparr>,
         a + length (chrc_attrs def i))"
proof -
  have nth: "chrcs g ! i = c0" using assms(2,5) by (simp add: nth_append)
  have room: "\<not> length (attrs g) < (a + 2) mod 256" "length (attrs g) = a + 3 + length r" using assms(1,3,4) by simp_all
  have at: "(attrs g)[a := x, Suc a := y] = t @ x # y # z3 # r" for x y
    using assms(1,3) by (simp add: list_update_append)
  have at3: "(t @ x # y # z3 # r)[Suc (Suc a) := z] = t @ x # y # z # r" for x y z
    using assms(3) by (simp add: list_update_append)
  have cs: "(chrcs g)[i := x] = cs @ x # cr" for x using assms(2,5) by (simp add: list_update_append)
  have cs': "(cs @ x # cr)[i := y] = cs @ y # cr" "(cs @ x # cr) ! i = x" for x y
    using assms(5) by (simp_all add: list_update_append nth_append)
  show ?thesis
  proof (cases "notifies def")
    case True
    then show ?thesis using room assms(3)
      by (simp add: gatt_add_chrc_def Let_def nth assms(6) notifies_def [symmetric] at cs rtbus_ble_app_gatt_cccd_define_def
          at3 cs' chrc_attrs_def)
  next
    case False
    then show ?thesis using room
      by (simp add: gatt_add_chrc_def Let_def nth assms(6) notifies_def [symmetric] at cs chrc_attrs_def)
  qed
qed

lemma chrc_added:
  assumes "chrc_def_ok (defs ! k)" "k < RTBUS_BLE_APP_GATT_CHRC_MAX"
  shows "gatt_add_chrc m (defs ! k) k (partial_gatt m uuid defs k, length (described_table defs k)) =
    Inr (partial_gatt m uuid defs (Suc k), length (described_table defs (Suc k)))"
proof -
  let ?t = "described_table defs k" and ?d = "defs ! k"
  let ?v = "described_value m ?d"
  have len: "length ?t \<le> 10" using length_described_table(2) [of defs k] assms(2) by (simp add: layout_defs)
  define j where "j = 10 - length ?t"
  have j: "RTBUS_BLE_APP_GATT_ATTR_MAX - length ?t = Suc (Suc (Suc j))" using len by (simp add: layout_defs j_def)
  have r: "RTBUS_BLE_APP_GATT_CHRC_MAX - k = Suc (RTBUS_BLE_APP_GATT_CHRC_MAX - Suc k)" using assms(2) by simp
  let ?g = "partial_gatt m uuid defs k"
  have attrs: "attrs ?g = ?t @ zero_attr # zero_attr # zero_attr # replicate j zero_attr"
    by (simp add: partial_gatt_def j)
  have chrcs: "chrcs ?g = map (described_chrc m defs) [0..<k] @ zero_chrc # replicate (RTBUS_BLE_APP_GATT_CHRC_MAX - Suc k) zero_chrc"
    by (simp add: partial_gatt_def r)
  have copy: "rtbus_ble_app_gatt_value_copy m (cd_value_addr ?d) (cd_value_len ?d) (zero_chrc\<lparr>value_uuid := cd_value_uuid ?d\<rparr>) =
    Inr (zero_chrc\<lparr>value_uuid := cd_value_uuid ?d,
      chrc_value := ?v @ replicate (RUNTIME_BLE_GATT_VALUE_MAX - length ?v) 0, value_len := length ?v\<rparr>)"
    using value_copied [OF assms(1), of "zero_chrc\<lparr>value_uuid := cd_value_uuid ?d\<rparr>" m] by (simp add: zero_chrc_def)
  have left: "replicate (RTBUS_BLE_APP_GATT_ATTR_MAX - length (described_table defs (Suc k))) zero_attr =
      (if notifies ?d then replicate j zero_attr else zero_attr # replicate j zero_attr)"
  proof -
    have "RTBUS_BLE_APP_GATT_ATTR_MAX - Suc (Suc (length ?t)) = Suc j"
      "RTBUS_BLE_APP_GATT_ATTR_MAX - Suc (Suc (Suc (length ?t))) = j" using j by simp_all
    then show ?thesis by (simp add: chrc_attrs_def)
  qed
  let ?ch = "zero_chrc\<lparr>value_uuid := cd_value_uuid ?d,
      chrc_value := ?v @ replicate (RUNTIME_BLE_GATT_VALUE_MAX - length ?v) 0, value_len := length ?v\<rparr>"
  have made: "?ch\<lparr>chrc_properties := rtbus_ble_app_gatt_properties ?d, value_attr_index := length ?t + 1,
        has_ccc := (notifies ?d \<or> has_ccc ?ch), ccc_set := (notifies ?d \<or> ccc_set ?ch),
        ccc_attr_index := (if notifies ?d then length ?t + 2 else ccc_attr_index ?ch)\<rparr> = described_chrc m defs k"
    by (simp add: described_chrc_def Let_def zero_chrc_def)
  have "length ?t + 2 < 256" using len by simp
  moreover have "partial_gatt m uuid defs (Suc k) = ?g\<lparr>attrs := ?t @ chrc_attrs ?d k @
      (if notifies ?d then replicate j zero_attr else zero_attr # replicate j zero_attr),
      chrcs := map (described_chrc m defs) [0..<k] @ described_chrc m defs k #
        replicate (RTBUS_BLE_APP_GATT_CHRC_MAX - Suc k) zero_chrc\<rparr>"
    unfolding partial_gatt_def left by simp
  ultimately show ?thesis using add_chrc [OF attrs chrcs refl _ _ copy, unfolded made] by simp
qed

lemma chrcs_added:
  assumes "\<forall>i < n. chrc_def_ok (chrc_def_at m (a + 24 * i))" "n \<le> RTBUS_BLE_APP_GATT_CHRC_MAX"
    and "defs = map (\<lambda>i. chrc_def_at m (a + 24 * i)) [0..<n]" "k \<le> n"
  shows "gatt_add_loop m a [k..<n] (partial_gatt m uuid defs k, length (described_table defs k)) =
    Inr (partial_gatt m uuid defs n, length (described_table defs n))"
  using assms(4)
proof (induction rule: inc_induct)
  case (step k)
  have k: "k < RTBUS_BLE_APP_GATT_CHRC_MAX" "defs ! k = chrc_def_at m (a + 24 * k)" using step(2) assms(2,3) by simp_all
  then have "chrc_def_ok (defs ! k)" using assms(1) step(2) by simp
  from chrc_added [OF this k(1)] step(3) show ?case using step(2) by (simp add: upt_conv_Cons k(2))
qed simp

lemma copied_def_ok: "rtbus_ble_app_gatt_value_copy m (cd_value_addr def) (cd_value_len def) ch = Inr ch' \<Longrightarrow> chrc_def_ok def"
  by (simp add: rtbus_ble_app_gatt_value_copy_def chrc_def_ok_def split: if_splits)

lemma added_def_ok: "gatt_add_chrc m def i ga = Inr ga' \<Longrightarrow> chrc_def_ok def"
  using copied_def_ok by (auto simp: gatt_add_chrc_def Let_def split: prod.splits if_splits sum.splits)

lemma added_defs_ok:
  "gatt_add_loop m a is ga = Inr ga' \<Longrightarrow> \<forall>i \<in> set is. chrc_def_ok (chrc_def_at m (a + 24 * i))"
  by (induction m a "is" ga rule: gatt_add_loop.induct) (auto dest: added_def_ok split: sum.splits)

section \<open>Well-typed services\<close>

text \<open>An attribute's callback gets user data of the type it casts to: the service's UUID, a
  characteristic's declaration, a characteristic, or the descriptor's data.\<close>

definition attr_typed :: "nat \<Rightarrow> bt_gatt_attr \<Rightarrow> bool" where
  "attr_typed n a \<longleftrightarrow> (case a_read a of
      No_read \<Rightarrow> False
    | bt_gatt_attr_read_service \<Rightarrow> a_user_data a = Service_uuid
    | bt_gatt_attr_read_chrc \<Rightarrow> (\<exists>c < n. a_user_data a = Value_chrc c)
    | bt_gatt_attr_read_ccc \<Rightarrow> (\<exists>c < n. a_user_data a = Value_ccc c)
    | app_gatt_read \<Rightarrow> (\<exists>c < n. a_user_data a = Chrc c))"

definition chrc_typed :: "bt_gatt_attr list \<Rightarrow> nat \<Rightarrow> app_chrc \<Rightarrow> bool" where
  "chrc_typed as c ch \<longleftrightarrow> length (chrc_value ch) = RUNTIME_BLE_GATT_VALUE_MAX \<and> value_len ch \<le> RUNTIME_BLE_GATT_VALUE_MAX \<and>
     value_attr_index ch < length as \<and> a_read (as ! value_attr_index ch) = app_gatt_read \<and>
     a_user_data (as ! value_attr_index ch) = Chrc c \<and>
     (has_ccc ch \<longrightarrow> ccc_set ch \<and> ccc_attr_index ch < length as \<and> a_user_data (as ! ccc_attr_index ch) = Value_ccc c)"

definition gatt_ok :: "app_gatt \<Rightarrow> bool" where
  "gatt_ok g \<longleftrightarrow> gatt_prepared g \<and> length (attrs g) = RTBUS_BLE_APP_GATT_ATTR_MAX \<and>
     length (chrcs g) = RTBUS_BLE_APP_GATT_CHRC_MAX \<and> 0 < chrc_count g \<and> chrc_count g \<le> RTBUS_BLE_APP_GATT_CHRC_MAX \<and>
     attr_count g \<le> RTBUS_BLE_APP_GATT_ATTR_MAX \<and> service_attr_count g = attr_count g \<and>
     (\<forall>a \<in> set (take (attr_count g) (attrs g)). attr_typed (chrc_count g) a) \<and>
     (\<forall>c < chrc_count g. chrc_typed (take (attr_count g) (attrs g)) c (chrcs g ! c))"

lemma table_split:
  "c < n \<Longrightarrow> \<exists>rest. described_table defs n = described_table defs c @ chrc_attrs (defs ! c) c @ rest"
  by (induction n) (auto simp: less_Suc_eq)

lemma table_typed: "a \<in> set (described_table defs n) \<Longrightarrow> attr_typed n a"
proof (induction n)
  case 0
  then show ?case by (simp add: attr_typed_def primary_attr_def)
next
  case (Suc n)
  then consider "attr_typed n a" | "a \<in> set (chrc_attrs (defs ! n) n)" by auto
  then show ?case
  proof cases
    case 1
    then show ?thesis by (auto simp: attr_typed_def less_Suc_eq split: attr_read.splits)
  next
    case 2
    then show ?thesis by (auto simp: attr_typed_def chrc_attrs_def split: if_splits)
  qed
qed

lemma described_chrc_typed:
  assumes "c < n" "chrc_def_ok (defs ! c)"
  shows "chrc_typed (described_table defs n) c (described_chrc m defs c)"
proof -
  obtain rest where t: "described_table defs n = described_table defs c @ chrc_attrs (defs ! c) c @ rest"
    using table_split [OF assms(1)] by blast
  have v: "length (described_value m (defs ! c)) \<le> RUNTIME_BLE_GATT_VALUE_MAX"
    using assms(2) by (simp add: described_value_def chrc_def_ok_def)
  show ?thesis using v
    by (simp add: t chrc_typed_def described_chrc_def Let_def chrc_attrs_def nth_append zero_chrc_def)
qed

definition defs_at :: "mem \<Rightarrow> nat \<Rightarrow> nat \<Rightarrow> ble_chrc_def list" where
  "defs_at m a n = map (\<lambda>i. chrc_def_at m (a + 24 * i)) [0..<n]"

definition service_defs :: "mem \<Rightarrow> nat \<Rightarrow> ble_chrc_def list" where
  "service_defs m a = (let d = service_def_at m a in defs_at m (sd_chrcs_addr d) (unat (sd_chrc_count d)))"

definition described_gatt :: "mem \<Rightarrow> nat \<Rightarrow> app_gatt" where
  "described_gatt m a = (let defs = service_defs m a; n = length defs
     in (partial_gatt m (sd_service_uuid (service_def_at m a)) defs n)\<lparr>chrc_count := n,
          attr_count := length (described_table defs n), service_attr_count := length (described_table defs n),
          gatt_prepared := True\<rparr>)"

definition service_def_ok :: "mem \<Rightarrow> nat \<Rightarrow> bool" where
  "service_def_ok m a \<longleftrightarrow> a \<noteq> NULL \<and> sd_chrcs_addr (service_def_at m a) \<noteq> 0 \<and> service_defs m a \<noteq> [] \<and>
     length (service_defs m a) \<le> RTBUS_BLE_APP_GATT_CHRC_MAX \<and> (\<forall>d \<in> set (service_defs m a). chrc_def_ok d)"

lemma described_gatt_ok:
  assumes "service_def_ok m a"
  shows "gatt_ok (described_gatt m a)"
proof -
  let ?defs = "service_defs m a"
  let ?n = "length ?defs" and ?t = "described_table ?defs (length ?defs)"
  have n: "0 < ?n" "?n \<le> RTBUS_BLE_APP_GATT_CHRC_MAX" using assms by (auto simp: service_def_ok_def)
  then have t: "length ?t \<le> RTBUS_BLE_APP_GATT_ATTR_MAX"
    using length_described_table(2) [of ?defs ?n] by (simp add: layout_defs)
  have attrs: "attrs (described_gatt m a) = ?t @ replicate (RTBUS_BLE_APP_GATT_ATTR_MAX - length ?t) zero_attr"
    and chrcs: "chrcs (described_gatt m a) = map (described_chrc m ?defs) [0..<?n] @
      replicate (RTBUS_BLE_APP_GATT_CHRC_MAX - ?n) zero_chrc"
    and counts: "attr_count (described_gatt m a) = length ?t" "chrc_count (described_gatt m a) = ?n"
      "service_attr_count (described_gatt m a) = length ?t" "gatt_prepared (described_gatt m a)"
    by (simp_all add: described_gatt_def partial_gatt_def Let_def)
  have "chrc_typed ?t c (chrcs (described_gatt m a) ! c)" if "c < ?n" for c
    using that assms by (simp add: chrcs nth_append service_def_ok_def described_chrc_typed)
  then show ?thesis using n t table_typed by (simp add: gatt_ok_def attrs counts) (simp add: chrcs)
qed

lemma register_now:
  fixes s :: "('f, 'd, 'b, 'a) ble_scheme"
  assumes "m = cpu_mem V X s" "app_gatt_count s < RTBUS_BLE_APP_GATT_MAX" "service_def_ok m a"
  shows "rtbus_ble_app_gatt_notify_register_now B V X a s =
    (let h = app_gatt_count s; s = rtbus_ble_ad_sync_service_uuid ((set_gatt h (described_gatt m a) s)\<lparr>app_gatt_count := h + 1\<rparr>)
     in if ble_ready s
        then (case rtbus_ble_app_gatt_register_ready B h s of (Inl e, s) \<Rightarrow> (Inl e, s) | (Inr _, s) \<Rightarrow> (Inr h, s))
        else (Inr h, s))"
proof -
  let ?d = "service_def_at m a"
  let ?n = "unat (sd_chrc_count ?d)" and ?defs = "service_defs m a"
  have n: "length ?defs = ?n" by (simp add: service_defs_def defs_at_def Let_def)
  have ok: "\<forall>i < ?n. chrc_def_ok (chrc_def_at m (sd_chrcs_addr ?d + 24 * i))" "?n \<le> RTBUS_BLE_APP_GATT_CHRC_MAX" "0 < ?n"
    using assms(3) n by (auto simp: service_def_ok_def service_defs_def defs_at_def Let_def)
  have p0: "zero_gatt\<lparr>service_uuid := uuid, attrs := (attrs zero_gatt)[0 := primary_attr]\<rparr> = partial_gatt m uuid ?defs 0" for uuid
    by (simp add: partial_gatt_def zero_gatt_def layout_defs numeral_eq_Suc)
  have "gatt_add_loop m (sd_chrcs_addr ?d) [0..<?n] (partial_gatt m uuid ?defs 0, length (described_table ?defs 0)) =
      Inr (partial_gatt m uuid ?defs ?n, length (described_table ?defs ?n))" for uuid
    by (rule chrcs_added [OF ok(1,2)]) (simp_all add: service_defs_def defs_at_def Let_def)
  then have loop: "gatt_add_loop m (sd_chrcs_addr ?d) [0..<?n] (partial_gatt m uuid ?defs 0, 1) =
      Inr (partial_gatt m uuid ?defs ?n, length (described_table ?defs ?n))" for uuid by simp
  have "\<not> (a = NULL \<or> ?n = 0 \<or> RTBUS_BLE_APP_GATT_CHRC_MAX < ?n \<or> sd_chrcs_addr ?d = 0)"
    using assms(3) ok by (simp add: service_def_ok_def)
  then show ?thesis using assms(2)
    unfolding rtbus_ble_app_gatt_notify_register_now_def Let_def assms(1) [symmetric] primary_attr_def [symmetric] p0 loop
    by (simp add: described_gatt_def Let_def n set_gatt_def)
qed

text \<open>A registration that fails before the service is listed leaves the services in use alone.\<close>

lemma register_now_fails:
  fixes s :: "('f, 'd, 'b, 'a) ble_scheme"
  assumes "m = cpu_mem V X s" "\<not> (app_gatt_count s < RTBUS_BLE_APP_GATT_MAX \<and> service_def_ok m a)"
  shows "\<exists>e gs. rtbus_ble_app_gatt_notify_register_now B V X a s = (Inl e, s\<lparr>app_gatts := gs\<rparr>) \<and>
    (gs = app_gatts s \<or> app_gatt_count s < RTBUS_BLE_APP_GATT_MAX \<and> gs = (app_gatts s)[app_gatt_count s := zero_gatt])"
proof -
  let ?d = "service_def_at m a"
  let ?n = "unat (sd_chrc_count ?d)"
  show ?thesis
  proof (cases "(a = NULL \<or> ?n = 0 \<or> RTBUS_BLE_APP_GATT_CHRC_MAX < ?n \<or> sd_chrcs_addr ?d = 0) \<or>
      RTBUS_BLE_APP_GATT_MAX \<le> app_gatt_count s")
    case True
    then have "\<exists>e. rtbus_ble_app_gatt_notify_register_now B V X a s = (Inl e, s)"
      unfolding rtbus_ble_app_gatt_notify_register_now_def Let_def assms(1) [symmetric] by auto
    then show ?thesis by (auto intro!: exI [of _ "app_gatts s"])
  next
    case False
    let ?loop = "\<lambda>g. gatt_add_loop m (sd_chrcs_addr ?d) [0..<?n] g"
    have "\<not> (\<forall>i \<in> set [0..<?n]. chrc_def_ok (chrc_def_at m (sd_chrcs_addr ?d + 24 * i)))"
      using assms(2) False by (auto simp: service_def_ok_def service_defs_def defs_at_def Let_def)
    then have "\<exists>e. ?loop g = Inl e" for g using added_defs_ok [of m "sd_chrcs_addr ?d" "[0..<?n]" g] by (cases "?loop g") auto
    then obtain e where "?loop (zero_gatt\<lparr>service_uuid := sd_service_uuid ?d, attrs := (attrs zero_gatt)[0 := primary_attr]\<rparr>, 1) = Inl e"
      by blast
    then have "rtbus_ble_app_gatt_notify_register_now B V X a s = (Inl e, set_gatt (app_gatt_count s) zero_gatt s)"
      using False unfolding rtbus_ble_app_gatt_notify_register_now_def Let_def assms(1) [symmetric] primary_attr_def [symmetric]
      by simp
    then show ?thesis using False by (auto simp: set_gatt_def)
  qed
qed

end
