(* ===== verification/Ble_Invariant.thy ===== *)
theory Ble_Invariant
  imports Ble_Table
begin

text \<open>
  The Bluetooth service as a state machine: its steps are the stack's callbacks, the requests of its
  task and whatever else runs in between; the invariant that they keep says that every registered
  service is well typed and that the advertised data are what the last requests asked for.
\<close>

section \<open>What the steps leave alone\<close>

lemma emit_frames [simp]:
  fixes s :: "('f, 'd, 'b, 'a) ble_scheme"
  shows "app_gatts (snd (native_service_emit_event g t v l s)) = app_gatts s"
    "app_gatt_count (snd (native_service_emit_event g t v l s)) = app_gatt_count s"
    "ad_has_service_uuid (snd (native_service_emit_event g t v l s)) = ad_has_service_uuid s"
    "ad_service_uuid (snd (native_service_emit_event g t v l s)) = ad_service_uuid s"
    "app_ad (snd (native_service_emit_event g t v l s)) = app_ad s"
    "app_sd (snd (native_service_emit_event g t v l s)) = app_sd s"
    "current_conn (snd (native_service_emit_event g t v l s)) = current_conn s"
    "gap_security_level (snd (native_service_emit_event g t v l s)) = gap_security_level s"
    "ble_ready (snd (native_service_emit_event g t v l s)) = ble_ready s"
    "ble_advertising (snd (native_service_emit_event g t v l s)) = ble_advertising s"
    "bt (snd (native_service_emit_event g t v l s)) = bt s"
  by (simp_all add: native_service_emit_event_def Let_def k_event_post_def)

lemma complete_frames [simp]:
  fixes s :: "('f, 'd, 'b, 'a) ble_scheme"
  shows "app_gatts (snd (native_service_complete_result V a r s)) = app_gatts s"
    "app_gatt_count (snd (native_service_complete_result V a r s)) = app_gatt_count s"
    "ad_has_service_uuid (snd (native_service_complete_result V a r s)) = ad_has_service_uuid s"
    "ad_service_uuid (snd (native_service_complete_result V a r s)) = ad_service_uuid s"
    "app_ad (snd (native_service_complete_result V a r s)) = app_ad s"
    "app_sd (snd (native_service_complete_result V a r s)) = app_sd s"
    "current_conn (snd (native_service_complete_result V a r s)) = current_conn s"
    "ble_ready (snd (native_service_complete_result V a r s)) = ble_ready s"
    "ble_advertising (snd (native_service_complete_result V a r s)) = ble_advertising s"
    "bt (snd (native_service_complete_result V a r s)) = bt s"
  by (simp_all add: native_service_complete_result_def Let_def k_event_post_def)

section \<open>The invariant\<close>

definition gap_ok :: "gap_data \<Rightarrow> bool" where
  "gap_ok g \<longleftrightarrow> length (gd_entries g) = RUNTIME_BLE_GAP_DATA_MAX \<and> length (gd_values g) = RUNTIME_BLE_GAP_DATA_MAX \<and>
     (\<forall>v \<in> set (gd_values g). length v = RUNTIME_BLE_GAP_DATA_VALUE_MAX) \<and> gd_count g \<le> RUNTIME_BLE_GAP_DATA_MAX \<and>
     (\<forall>i < gd_count g. bd_row (gd_entries g ! i) = Some i \<and> bd_len (gd_entries g ! i) \<le> RUNTIME_BLE_GAP_DATA_VALUE_MAX)"

definition ble_inv :: "('f, 'd, 'b, 'a) ble_scheme \<Rightarrow> bool" where
  "ble_inv s \<longleftrightarrow> length (app_gatts s) = RTBUS_BLE_APP_GATT_MAX \<and> app_gatt_count s \<le> RTBUS_BLE_APP_GATT_MAX \<and>
     (\<forall>h < app_gatt_count s. gatt_ok (app_gatts s ! h)) \<and>
     (ad_has_service_uuid s \<longleftrightarrow> app_gatt_count s \<noteq> 0) \<and>
     (app_gatt_count s \<noteq> 0 \<longrightarrow> ad_service_uuid s = service_uuid (app_gatts s ! 0)) \<and>
     gap_ok (app_ad s) \<and> gap_ok (app_sd s)"

lemma gatt_ok_set_chrc:
  assumes "gatt_ok g" "c < chrc_count g" "chrc_typed (take (attr_count g) (attrs g)) c ch"
  shows "gatt_ok (g\<lparr>chrcs := (chrcs g)[c := ch]\<rparr>)"
  using assms by (auto simp: gatt_ok_def nth_list_update)

lemma gatt_ok_registered [simp]: "gatt_ok (g\<lparr>gatt_registered := r\<rparr>) = gatt_ok g"
  by (simp add: gatt_ok_def)

lemma ble_inv_set_chrc:
  assumes "ble_inv s" "h < app_gatt_count s" "c < chrc_count (app_gatts s ! h)"
    and "chrc_typed (take (attr_count (app_gatts s ! h)) (attrs (app_gatts s ! h))) c ch"
  shows "ble_inv (set_chrc h c ch s)"
  using assms gatt_ok_set_chrc [of "app_gatts s ! h" c ch]
  by (auto simp: ble_inv_def set_chrc_def set_gatt_def nth_list_update)

lemma chrc_typed_notify [simp]: "chrc_typed as c (ch\<lparr>notify_enabled := n\<rparr>) = chrc_typed as c ch"
  by (simp add: chrc_typed_def)

lemma chrc_typedD:
  "ble_inv s \<Longrightarrow> h < app_gatt_count s \<Longrightarrow> c < chrc_count (app_gatts s ! h) \<Longrightarrow>
   chrc_typed (take (attr_count (app_gatts s ! h)) (attrs (app_gatts s ! h))) c (chrcs (app_gatts s ! h) ! c)"
  by (simp add: ble_inv_def gatt_ok_def)

lemma ccc_find_unique:
  assumes "\<And>x y. P x \<Longrightarrow> P y \<Longrightarrow> x = y"
  shows "find P xs = Some x \<longleftrightarrow> P x \<and> x \<in> set xs"
  using assms by (induction xs) auto

lemma find_ccc:
  "rtbus_ble_app_gatt_find_chrc_ccc h u s = Some (i, j) \<longleftrightarrow>
     i = h \<and> u = Value_ccc j \<and> h < app_gatt_count s \<and> j < chrc_count (app_gatts s ! h)"
proof -
  have "x = y" if "case x of (i, j) \<Rightarrow> i = h \<and> u = Value_ccc j" "case y of (i, j) \<Rightarrow> i = h \<and> u = Value_ccc j"
    for x y :: "nat \<times> nat" using that by auto
  then show ?thesis unfolding rtbus_ble_app_gatt_find_chrc_ccc_def by (subst ccc_find_unique) (auto intro!: bexI [of _ h])
qed

section \<open>Every operation keeps it\<close>

lemma ccc_changed_inv: "ble_inv s \<Longrightarrow> ble_inv (rtbus_ble_app_gatt_ccc_changed h attr value s)"
proof (cases "rtbus_ble_app_gatt_find_chrc_ccc h (a_user_data attr) s")
  case (Some ij)
  assume inv: "ble_inv s"
  obtain i j where ij: "ij = (i, j)" by force
  then have F: "i < app_gatt_count s" "j < chrc_count (app_gatts s ! i)" using Some find_ccc [of h _ s i j] by auto
  show ?thesis using chrc_typedD [OF inv F] ble_inv_set_chrc [OF inv F, of "(chrcs (app_gatts s ! i) ! j)\<lparr>notify_enabled := n\<rparr>" for n]
    by (simp add: rtbus_ble_app_gatt_ccc_changed_def Some ij)
qed (simp add: rtbus_ble_app_gatt_ccc_changed_def)

lemma ccc_cfg_write_same:
  "snd (rtbus_ble_app_gatt_ccc_cfg_write h attr value s) = rtbus_ble_app_gatt_ccc_changed h attr value s"
  by (simp add: rtbus_ble_app_gatt_ccc_cfg_write_def rtbus_ble_app_gatt_ccc_changed_def)

text \<open>Marking services as registered.\<close>

definition unregistered :: "app_gatt list \<Rightarrow> app_gatt list" where
  "unregistered gs = map (\<lambda>g. g\<lparr>gatt_registered := False\<rparr>) gs"

definition same_but_registered :: "('f, 'd, 'b, 'a) ble_scheme \<Rightarrow> ('f, 'd, 'b, 'a) ble_scheme \<Rightarrow> bool" where
  "same_but_registered s s' \<longleftrightarrow>
     (\<exists>gs b. s' = s\<lparr>app_gatts := gs, bt := b\<rparr> \<and> unregistered gs = unregistered (app_gatts s))"

lemma sameI: "s' = s\<lparr>app_gatts := gs, bt := b\<rparr> \<Longrightarrow> unregistered gs = unregistered (app_gatts s) \<Longrightarrow> same_but_registered s s'"
  by (auto simp: same_but_registered_def)

lemma same_refl [simp]: "same_but_registered s s"
  unfolding same_but_registered_def by (intro exI [of _ "app_gatts s"] exI [of _ "bt s"]) simp

lemma same_bt: "same_but_registered s (s\<lparr>bt := b\<rparr>)"
  by (intro sameI [where gs = "app_gatts s" and b = b]) simp_all

lemma same_trans:
  assumes "same_but_registered s s'" "same_but_registered s' s''"
  shows "same_but_registered s s''"
proof -
  obtain gs b where 1: "s' = s\<lparr>app_gatts := gs, bt := b\<rparr>" "unregistered gs = unregistered (app_gatts s)"
    using assms(1) by (auto simp: same_but_registered_def)
  obtain gs' b' where "s'' = s'\<lparr>app_gatts := gs', bt := b'\<rparr>" "unregistered gs' = unregistered (app_gatts s')"
    using assms(2) by (auto simp: same_but_registered_def)
  then show ?thesis using 1 by (intro sameI [where gs = gs' and b = b']) simp_all
qed

lemma unregistered_nth:
  assumes "unregistered gs' = unregistered gs"
  shows "length gs' = length gs" "h < length gs \<Longrightarrow> gs' ! h = (gs ! h)\<lparr>gatt_registered := gatt_registered (gs' ! h)\<rparr>"
proof -
  show len: "length gs' = length gs" using arg_cong [OF assms, of length] by (simp add: unregistered_def)
  assume h: "h < length gs"
  have "(gs' ! h)\<lparr>gatt_registered := False\<rparr> = (gs ! h)\<lparr>gatt_registered := False\<rparr>"
    using arg_cong [OF assms, of "\<lambda>xs. xs ! h"] h len by (simp add: unregistered_def)
  then have "(gs' ! h)\<lparr>gatt_registered := False\<rparr>\<lparr>gatt_registered := r\<rparr> = (gs ! h)\<lparr>gatt_registered := False\<rparr>\<lparr>gatt_registered := r\<rparr>" for r
    by simp
  from this [of "gatt_registered (gs' ! h)"] show "gs' ! h = (gs ! h)\<lparr>gatt_registered := gatt_registered (gs' ! h)\<rparr>" by simp
qed

lemma register_ready_same: "same_but_registered s (snd (rtbus_ble_app_gatt_register_ready B h s))"
proof -
  obtain ret b where R: "bt_gatt_service_register B h (app_gatts s ! h) (bt s) = (ret, b)" by force
  have "unregistered ((app_gatts s)[h := (app_gatts s ! h)\<lparr>gatt_registered := True\<rparr>]) = unregistered (app_gatts s)"
    unfolding unregistered_def map_update by (simp add: map_update [symmetric])
  then have "same_but_registered s (s\<lparr>bt := b, app_gatts := (app_gatts s)[h := (app_gatts s ! h)\<lparr>gatt_registered := True\<rparr>]\<rparr>)"
    by (intro sameI [where b = b and gs = "(app_gatts s)[h := (app_gatts s ! h)\<lparr>gatt_registered := True\<rparr>]"]) simp_all
  moreover have "same_but_registered s (s\<lparr>bt := b\<rparr>)"
    unfolding same_but_registered_def by (intro exI [of _ "app_gatts s"] exI [of _ b]) simp
  ultimately show ?thesis by (simp add: rtbus_ble_app_gatt_register_ready_def R set_gatt_def Let_def)
qed

lemma register_loop_same: "same_but_registered s (snd (register_pending_loop B hs s))"
proof (induction B hs s rule: register_pending_loop.induct)
  case (2 B i "is" s)
  then show ?case using register_ready_same [of s B i]
    by (auto simp: Let_def split: prod.splits intro: same_trans)
qed simp

lemma same_inv:
  assumes "same_but_registered s s'" "ble_inv s"
  shows "ble_inv s'"
proof -
  have gs: "unregistered (app_gatts s') = unregistered (app_gatts s)"
    and f: "app_gatt_count s' = app_gatt_count s" "ad_has_service_uuid s' = ad_has_service_uuid s"
      "ad_service_uuid s' = ad_service_uuid s" "app_ad s' = app_ad s" "app_sd s' = app_sd s"
    using assms(1) unfolding same_but_registered_def by auto
  have "gatt_ok (app_gatts s' ! h) = gatt_ok (app_gatts s ! h)" "service_uuid (app_gatts s' ! h) = service_uuid (app_gatts s ! h)"
    if "h < length (app_gatts s)" for h
    by (subst unregistered_nth(2) [OF gs that], simp)+
  then show ?thesis using assms(2) unregistered_nth(1) [OF gs] by (auto simp: ble_inv_def f)
qed

lemma register_ready_inv: "ble_inv s \<Longrightarrow> ble_inv (snd (rtbus_ble_app_gatt_register_ready B h s))"
  by (rule same_inv [OF register_ready_same])

lemma register_pending_inv: "ble_inv s \<Longrightarrow> ble_inv (snd (rtbus_ble_app_gatt_register_pending B s))"
  unfolding rtbus_ble_app_gatt_register_pending_def by (rule same_inv [OF register_loop_same])

lemma notify_register_inv:
  assumes "ble_inv s"
  shows "ble_inv (snd (rtbus_ble_app_gatt_notify_register_now B V X a s))"
proof (cases "app_gatt_count s < RTBUS_BLE_APP_GATT_MAX \<and> service_def_ok (cpu_mem V X s) a")
  case True
  let ?h = "app_gatt_count s" and ?g = "described_gatt (cpu_mem V X s) a"
  let ?s = "rtbus_ble_ad_sync_service_uuid ((set_gatt ?h ?g s)\<lparr>app_gatt_count := ?h + 1\<rparr>)"
  have "gatt_ok ?g" using True described_gatt_ok by blast
  then have "ble_inv ?s"
    using assms True by (auto simp: ble_inv_def rtbus_ble_ad_sync_service_uuid_def set_gatt_def nth_list_update less_Suc_eq)
  then show ?thesis using register_ready_inv [of ?s B ?h] register_now [OF refl, of s V X a B] True
    by (auto simp: Let_def split: prod.splits sum.splits)
next
  case False
  from register_now_fails [OF refl this, of B] obtain e gs where
    "rtbus_ble_app_gatt_notify_register_now B V X a s = (Inl e, s\<lparr>app_gatts := gs\<rparr>)"
    "gs = app_gatts s \<or> app_gatt_count s < RTBUS_BLE_APP_GATT_MAX \<and> gs = (app_gatts s)[app_gatt_count s := zero_gatt]" by blast
  then show ?thesis using assms by (auto simp: ble_inv_def nth_list_update)
qed

lemma value_copy_typed:
  assumes "rtbus_ble_app_gatt_value_copy m a l ch = Inr ch'" "chrc_typed as c ch"
  shows "chrc_typed as c ch'"
  using assms by (auto simp: rtbus_ble_app_gatt_value_copy_def chrc_typed_def Let_def split: if_splits)

lemma ble_inv_bt [simp]: "ble_inv (s\<lparr>bt := b\<rparr>) = ble_inv s"
  by (simp add: ble_inv_def)

lemma value_set_inv:
  assumes "ble_inv s"
  shows "ble_inv (snd (rtbus_ble_app_gatt_value_set_now B V X req s))"
proof -
  let ?h = "unat (vs_handle req)" and ?c = "unat (vs_chrc req)"
  let ?copy = "rtbus_ble_app_gatt_value_copy (cpu_mem V X s) (vs_value_addr req) (vs_value_len req) (chrcs (app_gatts s ! ?h) ! ?c)"
  show ?thesis
  proof (cases "?h < app_gatt_count s \<and> ?c < chrc_count (app_gatts s ! ?h)")
    case True
    then have t: "chrc_typed (take (attr_count (app_gatts s ! ?h)) (attrs (app_gatts s ! ?h))) ?c (chrcs (app_gatts s ! ?h) ! ?c)"
      using chrc_typedD [OF assms] by simp
    show ?thesis
    proof (cases ?copy)
      case (Inr ch)
      then have "chrc_typed (take (attr_count (app_gatts s ! ?h)) (attrs (app_gatts s ! ?h))) ?c ch"
        using value_copy_typed t by blast
      then have "ble_inv (set_chrc ?h ?c ch s)" "ble_inv (set_chrc ?h ?c (ch\<lparr>notify_enabled := n\<rparr>) s)" for n
        using ble_inv_set_chrc [OF assms] True by simp_all
      then show ?thesis using assms Inr by (auto simp: rtbus_ble_app_gatt_value_set_now_def Let_def split: prod.splits)
    qed (use assms in \<open>auto simp: rtbus_ble_app_gatt_value_set_now_def Let_def\<close>)
  next
    case False
    then show ?thesis using assms by (auto simp: rtbus_ble_app_gatt_value_set_now_def Let_def)
  qed
qed

text \<open>Advertising data.\<close>

lemma zero_gap_ok: "gap_ok zero_gap_data"
  by (simp add: gap_ok_def zero_gap_data_def)

lemma gap_copy_shape:
  assumes "gap_ok g" "gd_count g = 0"
  shows "gap_ok (snd (gap_copy_loop m a is g)) \<and> gd_count (snd (gap_copy_loop m a is g)) = 0"
  using assms
proof (induction m a "is" g rule: gap_copy_loop.induct)
  case (2 m defs i "is" g)
  let ?d = "gap_data_def_at m (defs + 33 * i)"
  let ?g = "g\<lparr>gd_values := (gd_values g)[i := rd m (gdd_addr ?d) (unat (gdd_len ?d)) @ drop (unat (gdd_len ?d)) (gd_values g ! i)],
              gd_entries := (gd_entries g)[i := \<lparr>bd_type = gdd_type ?d, bd_len = unat (gdd_len ?d), bd_row = Some i\<rparr>]\<rparr>"
  show ?case
  proof (cases "RUNTIME_BLE_GAP_DATA_VALUE_MAX < unat (gdd_len ?d)")
    case False
    have "length v = RUNTIME_BLE_GAP_DATA_VALUE_MAX" if "v \<in> set (gd_values ?g)" for v
    proof (cases "i < length (gd_values g)")
      case True
      then have "length (gd_values g ! i) = RUNTIME_BLE_GAP_DATA_VALUE_MAX" using 2(2) by (simp add: gap_ok_def)
      moreover have "v = rd m (gdd_addr ?d) (unat (gdd_len ?d)) @ drop (unat (gdd_len ?d)) (gd_values g ! i) \<or> v \<in> set (gd_values g)"
        using that set_update_subset_insert [of "gd_values g" i] by auto
      ultimately show ?thesis using False 2(2) by (auto simp: gap_ok_def)
    qed (use that 2(2) in \<open>simp add: gap_ok_def list_update_beyond\<close>)
    then have "gap_ok ?g" "gd_count ?g = 0" using 2(2,3) by (simp_all add: gap_ok_def)
    then show ?thesis using 2(1) [OF refl refl] False by (simp add: Let_def)
  qed (use 2 in \<open>simp add: Let_def\<close>)
qed simp

lemma gap_copied:
  assumes "gap_copy_loop m a [k..<n] g = (ok, g')" "k \<le> n" "n \<le> length (gd_entries g)"
    and "\<forall>i < k. bd_row (gd_entries g ! i) = Some i \<and> bd_len (gd_entries g ! i) \<le> RUNTIME_BLE_GAP_DATA_VALUE_MAX"
  shows "\<forall>i < n. bd_row (gd_entries g' ! i) = Some i \<and> bd_len (gd_entries g' ! i) \<le> RUNTIME_BLE_GAP_DATA_VALUE_MAX"
  using assms(2,1,3,4)
proof (induction arbitrary: g rule: inc_induct)
  case (step k)
  then show ?case
    by (auto simp: upt_conv_Cons Let_def nth_list_update less_Suc_eq split: if_splits)
qed simp

lemma gap_data_copy_ok:
  assumes "gap_ok g"
  shows "gap_ok (snd (rtbus_ble_gap_data_copy m count a g))"
proof -
  let ?l = "gap_copy_loop m a [0..<unat count] zero_gap_data"
  have z: "gap_ok (snd ?l) \<and> gd_count (snd ?l) = 0"
    using gap_copy_shape [OF zero_gap_ok] by (simp add: zero_gap_data_def)
  have "gap_ok (g'\<lparr>gd_count := unat count\<rparr>)" if "?l = (ok, g')" "unat count \<le> RUNTIME_BLE_GAP_DATA_MAX" for g'
    using gap_copied [OF that(1)] that z by (simp add: gap_ok_def zero_gap_data_def)
  then show ?thesis using assms z zero_gap_ok
    by (auto simp: rtbus_ble_gap_data_copy_def split: prod.splits sum.splits)
qed

lemma gap_init_inv:
  assumes "ble_inv s"
  shows "ble_inv (snd (rtbus_ble_gap_init_now V X a s))"
proof -
  let ?m = "cpu_mem V X s" and ?ok = "\<lambda>s. gap_ok (app_ad s) \<and> gap_ok (app_sd s)"
  have g: "gap_ok (app_ad s)" "gap_ok (app_sd s)" using assms by (simp_all add: ble_inv_def)
  have "gap_ok ad" if "rtbus_ble_gap_data_copy ?m n p (app_ad s) = (r, ad)" for n p r ad
    using gap_data_copy_ok [OF g(1)] that by (metis snd_conv)
  moreover have "gap_ok sd" if "rtbus_ble_gap_data_copy ?m n p (app_sd s) = (r, sd)" for n p r sd
    using gap_data_copy_ok [OF g(2)] that by (metis snd_conv)
  ultimately show ?thesis using assms
    by (auto simp: rtbus_ble_gap_init_now_def ble_inv_def Let_def split: prod.splits)
qed

definition same_but_ready :: "('f, 'd, 'b, 'a) ble_scheme \<Rightarrow> ('f, 'd, 'b, 'a) ble_scheme \<Rightarrow> bool" where
  "same_but_ready s s' \<longleftrightarrow> (\<exists>s1 r. s' = s1\<lparr>ble_ready := r\<rparr> \<and> same_but_registered s s1)"

lemma ready_sameI:
  assumes "same_but_registered s s1"
  shows "same_but_ready s s1" "same_but_ready s (s1\<lparr>bt := b\<rparr>)" "same_but_ready s (s1\<lparr>bt := b, ble_ready := r\<rparr>)"
proof -
  have bt: "same_but_registered s (s1\<lparr>bt := b\<rparr>)" by (rule same_trans [OF assms same_bt])
  show "same_but_ready s s1"
    unfolding same_but_ready_def using assms by (intro exI [of _ s1] exI [of _ "ble_ready s1"]) simp
  show "same_but_ready s (s1\<lparr>bt := b\<rparr>)"
    unfolding same_but_ready_def using bt by (intro exI [of _ "s1\<lparr>bt := b\<rparr>"] exI [of _ "ble_ready s1"]) simp
  show "same_but_ready s (s1\<lparr>bt := b, ble_ready := r\<rparr>)"
    unfolding same_but_ready_def using bt by (intro exI [of _ "s1\<lparr>bt := b\<rparr>"] exI [of _ r]) simp
qed

lemma ble_enable_same: "same_but_ready s (snd (ble_enable B s))"
proof (cases "ble_ready s")
  case True
  then show ?thesis using ready_sameI(1) [OF same_refl] by (simp add: ble_enable_def)
next
  case False
  obtain ret s1 where R: "rtbus_ble_app_gatt_register_pending B s = (ret, s1)" by force
  have s1: "same_but_registered s s1"
    using register_loop_same [of s B "[0..<app_gatt_count s]"] R by (simp add: rtbus_ble_app_gatt_register_pending_def)
  obtain r1 b1 where b1: "bt_enable B (bt s1) = (r1, b1)" by force
  obtain r2 b2 where b2: "bt_conn_auth_info_cb_register B b1 = (r2, b2)" by force
  obtain r3 b3 where b3: "settings_load B b2 = (r3, b3)" by force
  obtain r4 b4 where b4: "settings_load B b1 = (r4, b4)" by force
  show ?thesis
    using False by (simp add: ble_enable_def R Let_def rtbus_ble_register_auth_info_callbacks_def b1 b2 b3 b4 ready_sameI [OF s1])
qed

lemma adv_start_inv:
  assumes "ble_inv s"
  shows "ble_inv (snd (rtbus_ble_adv_start_now B s))"
proof -
  obtain ret s1 where E: "ble_enable B s = (ret, s1)" by force
  have s1: "ble_inv s1"
  proof -
    obtain s0 r where "snd (ble_enable B s) = s0\<lparr>ble_ready := r\<rparr>" "same_but_registered s s0"
      using ble_enable_same unfolding same_but_ready_def by blast
    then show ?thesis using same_inv [OF _ assms] by (simp add: E ble_inv_def)
  qed
  obtain ret' s2 where R: "rtbus_ble_app_gatt_register_pending B s1 = (ret', s2)" by force
  have s2: "ble_inv s2" using register_pending_inv [OF s1, of B] R by simp
  then have "ble_inv (rtbus_ble_ad_sync_service_uuid s2)" by (simp add: ble_inv_def rtbus_ble_ad_sync_service_uuid_def)
  then have "ble_inv ((rtbus_ble_ad_sync_service_uuid s2)\<lparr>bt := b, ble_advertising := x\<rparr>)" for b x
    by (simp add: ble_inv_def)
  moreover have "ble_inv ((rtbus_ble_ad_sync_service_uuid s2)\<lparr>bt := b\<rparr>)" for b
    using \<open>ble_inv (rtbus_ble_ad_sync_service_uuid s2)\<close> by simp
  ultimately show ?thesis
    using s1 s2 unfolding rtbus_ble_adv_start_now_def E R Let_def prod.case
    by (auto simp: ble_inv_def split: prod.splits)
qed

lemma reset_loop_bt: "\<exists>b. gatt_reset_loop B is s = s\<lparr>bt := b\<rparr>"
proof (induction B "is" s rule: gatt_reset_loop.induct)
  case (1 B s)
  have "s = s\<lparr>bt := bt s\<rparr>" by simp
  then show ?case by (metis gatt_reset_loop.simps(1))
next
  case (2 B i "is" s)
  then show ?case by (cases "gatt_registered (app_gatts s ! i)") auto
qed

lemma reset_inv: "ble_inv (rtbus_ble_reset_app_state B s)"
proof -
  let ?s1 = "(if ble_ready s \<and> ble_advertising s then s\<lparr>bt := snd (bt_le_adv_stop B (bt s))\<rparr> else s)
    \<lparr>ble_advertising := False, current_conn := 0, gap_security_level := 0, gap_flags := 0,
      app_ad := zero_gap_data, app_sd := zero_gap_data\<rparr>"
  obtain b where "gatt_reset_loop B [0..<app_gatt_count ?s1] ?s1 = ?s1\<lparr>bt := b\<rparr>"
    using reset_loop_bt [of B "[0..<app_gatt_count ?s1]" ?s1] by (elim exE)
  then have "rtbus_ble_reset_app_state B s = rtbus_ble_ad_sync_service_uuid
      (?s1\<lparr>bt := b, app_gatt_count := 0, app_gatts := replicate RTBUS_BLE_APP_GATT_MAX zero_gatt\<rparr>)"
    by (simp add: rtbus_ble_reset_app_state_def rtbus_ble_app_gatt_reset_def Let_def)
  then show ?thesis by (simp add: ble_inv_def rtbus_ble_ad_sync_service_uuid_def zero_gap_ok)
qed

lemma forget_inv: "ble_inv s \<Longrightarrow> ble_inv (rtbus_ble_forget_stale_bond B conn err s)"
  by (simp add: rtbus_ble_forget_stale_bond_def split: option.splits)

lemma frame_inv:
  "app_gatts s' = app_gatts s \<Longrightarrow> app_gatt_count s' = app_gatt_count s \<Longrightarrow>
   ad_has_service_uuid s' = ad_has_service_uuid s \<Longrightarrow> ad_service_uuid s' = ad_service_uuid s \<Longrightarrow>
   app_ad s' = app_ad s \<Longrightarrow> app_sd s' = app_sd s \<Longrightarrow> ble_inv s' = ble_inv s"
  by (simp add: ble_inv_def)

lemma emit_inv [simp]: "ble_inv (snd (native_service_emit_event g t v l s)) = ble_inv s"
  by (rule frame_inv) simp_all

lemma complete_inv [simp]: "ble_inv (snd (native_service_complete_result V a r s)) = ble_inv s"
  by (rule frame_inv) simp_all

lemma conn_inv [simp]: "ble_inv (s\<lparr>current_conn := c\<rparr>) = ble_inv s" "ble_inv (s\<lparr>ble_advertising := x\<rparr>) = ble_inv s"
  by (rule frame_inv; simp)+

lemma callbacks_inv:
  assumes "ble_inv s"
  shows "ble_inv (rtbus_ble_connected B conn err s)" "ble_inv (rtbus_ble_disconnected conn reason s)"
    "ble_inv (rtbus_ble_recycled s)" "ble_inv (rtbus_ble_security_changed B conn level e s)"
    "ble_inv (rtbus_ble_pairing_failed B conn e s)"
  using assms by (simp_all add: rtbus_ble_connected_def rtbus_ble_disconnected_def rtbus_ble_recycled_def
      rtbus_ble_security_changed_def rtbus_ble_pairing_failed_def Let_def forget_inv)

lemma process_inv:
  assumes "ble_inv s"
  shows "ble_inv (rtbus_ble_process B V X code ctx s)"
proof -
  have pair: "ble_inv (snd (rtbus_ble_set_security_now B c l s))" for c l
    using assms by (simp add: rtbus_ble_set_security_now_def Let_def split: prod.splits)
  note ops = assms reset_inv [of B s] adv_start_inv [OF assms, of B] pair gap_init_inv [OF assms, of V X]
    notify_register_inv [OF assms, of B V X] value_set_inv [OF assms, of B V X]
  show ?thesis
    using ops unfolding rtbus_ble_process_def Let_def rtbus_ble_pair_now_def
    by (auto split: prod.splits sum.splits simp: prod_eq_iff)
qed

end
