(* ===== verification/Ble_Machine.thy ===== *)
theory Ble_Machine
  imports Ble_Invariant
begin

text \<open>
  The Bluetooth service (\<open>zephyr/runtime/src/services/rtbus_ble.c\<close>) as a state machine: its requests
  and the callbacks of the stack in any order, the states it can reach, and that in each of them the
  attribute tables handed to the stack are well typed.
\<close>

section \<open>The state machine\<close>

text \<open>What the rest of the system leaves of the service's statics: everything; the stack may make a step
  of its own (\<open>T\<close>).\<close>

definition ble_statics where
  "ble_statics s = (app_gatts s, app_gatt_count s, ad_has_service_uuid s, ad_service_uuid s, app_ad s, app_sd s,
     current_conn s, gap_security_level s, gap_flags s, ble_ready s, ble_advertising s)"

inductive ble_step ::
    "'b bt_stack \<Rightarrow> 'f native_env \<Rightarrow> ('f \<Rightarrow> mem) \<Rightarrow> (rc \<Rightarrow> 32 word) \<Rightarrow> ('b \<Rightarrow> 'b \<Rightarrow> bool) \<Rightarrow>
     ('f, 'd, 'b, 'a) ble_scheme \<Rightarrow> ('f, 'd, 'b, 'a) ble_scheme \<Rightarrow> bool"
  for B V X code T where
  connected: "ble_step B V X code T s (rtbus_ble_connected B conn err s)"
| disconnected: "ble_step B V X code T s (rtbus_ble_disconnected conn reason s)"
| recycled: "ble_step B V X code T s (rtbus_ble_recycled s)"
| security: "ble_step B V X code T s (rtbus_ble_security_changed B conn level e s)"
| pairing: "ble_step B V X code T s (rtbus_ble_pairing_failed B conn e s)"
| ccc_changed: "ble_step B V X code T s (rtbus_ble_app_gatt_ccc_changed h attr value s)"
| ccc_write: "ble_step B V X code T s (snd (rtbus_ble_app_gatt_ccc_cfg_write h attr value s))"
| request: "ble_step B V X code T s (rtbus_ble_process B V X code ctx s)"
| other: "ble_statics s' = ble_statics s \<Longrightarrow> bt s' = bt s \<or> T (bt s) (bt s') \<Longrightarrow> ble_step B V X code T s s'"

inductive_cases ble_stepE: "ble_step B V X code T s s'"

text \<open>From the zeroed statics on.\<close>

inductive ble_reach ::
    "'b bt_stack \<Rightarrow> 'f native_env \<Rightarrow> ('f \<Rightarrow> mem) \<Rightarrow> (rc \<Rightarrow> 32 word) \<Rightarrow> ('b \<Rightarrow> 'b \<Rightarrow> bool) \<Rightarrow>
     ('f, 'd, 'b, 'a) ble_scheme \<Rightarrow> bool"
  for B V X code T where
  boot: "ble_statics s = (replicate RTBUS_BLE_APP_GATT_MAX zero_gatt, 0, False, replicate 16 0, zero_gap_data,
           zero_gap_data, 0, 0, 0, False, False) \<Longrightarrow> ble_reach B V X code T s"
| step: "ble_reach B V X code T s \<Longrightarrow> ble_step B V X code T s s' \<Longrightarrow> ble_reach B V X code T s'"

lemma step_inv: "ble_step B V X code T s s' \<Longrightarrow> ble_inv s \<Longrightarrow> ble_inv s'"
  by (erule ble_stepE)
    (auto simp: callbacks_inv ccc_changed_inv ccc_cfg_write_same process_inv ble_statics_def elim: frame_inv [THEN iffD2, rotated -1])

lemma reach_inv: "ble_reach B V X code T s \<Longrightarrow> ble_inv s"
proof (induction rule: ble_reach.induct)
  case (boot s)
  then show ?case by (simp add: ble_statics_def ble_inv_def zero_gap_ok)
qed (rule step_inv)

section \<open>Demonstration\<close>

lemma rd_wr_in: "k + n \<le> length bs \<Longrightarrow> rd (wr m a bs) (a + k) n = take n (drop k bs)"
  by (rule nth_equalityI) (simp_all add: wr_def)

text \<open>A stack that does what it is asked, with its calls as its state; a service of two characteristics
  in the application's flash.\<close>

datatype bt_call = Enabled | Registered nat | Unregistered nat | Started "(byte \<times> byte list) list" | Stopped
  | Secured "32 word" byte | Unpaired "byte list" | Notified nat nat "byte list"

definition demo_bt :: "bt_call list bt_stack" where
  "demo_bt = \<lparr>CONFIG_BT_SMP = True, CONFIG_SETTINGS = True, CONFIG_BT_DEVICE_NAME = [82],
     bt_enable = (\<lambda>b. if Enabled \<in> set b then (Inl EALREADY, b) else (ok, b @ [Enabled])),
     settings_load = (\<lambda>b. (ok, b)), bt_conn_auth_info_cb_register = (\<lambda>b. (ok, b)),
     bt_gatt_service_register = (\<lambda>h g b. (ok, b @ [Registered h])),
     bt_gatt_service_unregister = (\<lambda>h b. (ok, b @ [Unregistered h])),
     bt_le_adv_start = (\<lambda>ad sd b. (ok, b @ [Started ad])), bt_le_adv_stop = (\<lambda>b. (ok, b @ [Stopped])),
     bt_conn_set_security = (\<lambda>c l b. (ok, b @ [Secured c l])), bt_conn_get_dst = (\<lambda>c b. Some [1]),
     bt_unpair = (\<lambda>p b. (ok, b @ [Unpaired p])), bt_gatt_is_subscribed = (\<lambda>c h i b. True),
     bt_gatt_notify = (\<lambda>c h i v b. (ok, b @ [Notified h i v])),
     bt_gatt_attr_read = (\<lambda>len off v. Inr (take len (drop off v)))\<rparr>"

definition demo_service :: "byte list" where
  "demo_service = replicate 16 7 @ [2, 0, 0, 0] @ [0x18, 0x10, 0, 0] @
     (replicate 16 8 @ [3, 0, 0, 0] @ [0x48, 0x10, 0, 0]) @ (replicate 16 9 @ [0, 2, 0, 0] @ [0, 0, 0, 0]) @ [1, 2, 3]"

definition demo_xip :: "'f \<Rightarrow> mem" where "demo_xip f = wr (\<lambda>_. 0) 0x1000 demo_service"

definition demo_ble :: "(demo_flash, byte list \<times> byte list, bt_call list) ble" where
  "demo_ble = serial.extend (demo_serial []) (ble.fields (replicate 16 0) False zero_gap_data zero_gap_data False False
     0 0 0 (replicate RTBUS_BLE_APP_GATT_MAX zero_gatt) 0 [])"

lemma demo_ble_fields:
  "ble_statics demo_ble = (replicate RTBUS_BLE_APP_GATT_MAX zero_gatt, 0, False, replicate 16 0, zero_gap_data,
     zero_gap_data, 0, 0, 0, False, False)" "bt demo_ble = []" "app_gatt_count demo_ble = 0" "ble_ready demo_ble = False"
  by (simp_all add: demo_ble_def serial.defs ble.defs ble_statics_def)

lemma demo_mem:
  assumes "0x2000 \<le> NATIVE_RAM_BASE V" "k + n \<le> 75"
  shows "rd (cpu_mem V demo_xip s) (0x1000 + k) n = take n (drop k demo_service)"
proof -
  have "rd (cpu_mem V demo_xip s) (0x1000 + k) n = rd (wr (\<lambda>_. 0) 0x1000 demo_service) (0x1000 + k) n"
    using assms by (intro rd_eqI) (simp add: cpu_mem_def demo_xip_def)
  moreover have "length demo_service = 75" by (simp add: demo_service_def)
  ultimately show ?thesis using assms(2) rd_wr_in [of k n demo_service] by simp
qed

lemma demo_mem_at:
  assumes "0x2000 \<le> NATIVE_RAM_BASE V" "k < 75"
  shows "cpu_mem V demo_xip s (0x1000 + k) = demo_service ! k"
proof -
  have "length demo_service = 75" by (simp add: demo_service_def)
  then show ?thesis using assms by (simp add: cpu_mem_def demo_xip_def wr_def)
qed

lemma demo_service_at:
  assumes "0x2000 \<le> NATIVE_RAM_BASE V"
  shows "service_def_at (cpu_mem V demo_xip s) 0x1000 =
      \<lparr>sd_service_uuid = replicate 16 7, sd_chrc_count = 2, sd_chrcs_addr = 0x1018\<rparr>"
    "service_defs (cpu_mem V demo_xip s) 0x1000 =
      [\<lparr>cd_value_uuid = replicate 16 8, cd_value_len = 3, cd_properties = 0, cd_value_perm = 0, cd_ccc_perm = 0,
         cd_value_addr = 0x1048\<rparr>,
       \<lparr>cd_value_uuid = replicate 16 9, cd_value_len = 0, cd_properties = 2, cd_value_perm = 0, cd_ccc_perm = 0,
         cd_value_addr = 0\<rparr>]"
    "service_def_ok (cpu_mem V demo_xip s) 0x1000"
proof -
  let ?m = "cpu_mem V demo_xip s"
  have bytes: "demo_service = replicate 16 7 @ 2 # 0 # 0 # 0 # 0x18 # 0x10 # 0 # 0 #
      replicate 16 8 @ 3 # 0 # 0 # 0 # 0x48 # 0x10 # 0 # 0 # replicate 16 9 @ [0, 2, 0, 0, 0, 0, 0, 0, 1, 2, 3]"
    by (simp add: demo_service_def)
  note rds = demo_mem [OF assms, of 0, simplified] demo_mem [OF assms, of 24, simplified]
    demo_mem [OF assms, of 20, simplified] demo_mem [OF assms, of 44, simplified] demo_mem [OF assms, of 48, simplified]
    demo_mem [OF assms, of 68, simplified] demo_mem_at [OF assms, of 16, simplified]
    demo_mem_at [OF assms, of 40, simplified] demo_mem_at [OF assms, of 41, simplified]
    demo_mem_at [OF assms, of 42, simplified] demo_mem_at [OF assms, of 43, simplified]
    demo_mem_at [OF assms, of 64, simplified] demo_mem_at [OF assms, of 65, simplified]
    demo_mem_at [OF assms, of 66, simplified] demo_mem_at [OF assms, of 67, simplified]
  show d: "service_def_at ?m 0x1000 = \<lparr>sd_service_uuid = replicate 16 7, sd_chrc_count = 2, sd_chrcs_addr = 0x1018\<rparr>"
    by (simp add: service_def_at_def ld32_def rds bytes nth_append)
  show defs: "service_defs ?m 0x1000 =
      [\<lparr>cd_value_uuid = replicate 16 8, cd_value_len = 3, cd_properties = 0, cd_value_perm = 0, cd_ccc_perm = 0,
         cd_value_addr = 0x1048\<rparr>,
       \<lparr>cd_value_uuid = replicate 16 9, cd_value_len = 0, cd_properties = 2, cd_value_perm = 0, cd_ccc_perm = 0,
         cd_value_addr = 0\<rparr>]"
    by (simp add: service_defs_def defs_at_def d upt_rec chrc_def_at_def ld32_def rds bytes nth_append)
  show "service_def_ok ?m 0x1000" by (simp add: service_def_ok_def defs d chrc_def_ok_def layout_defs)
qed

section \<open>Properties\<close>

text \<open>C28: in every state that the callbacks and requests can reach, the stack can call every attribute of
  every service: reading a value attribute finds the characteristic it casts its user data to, with a
  value of at most 32 bytes, and a write to a descriptor is found to belong to its characteristic.\<close>

theorem attributes_well_typed:
  fixes s :: "('f, 'd, 'b, 'a) ble_scheme"
  assumes "ble_reach B V X code T s" "h < app_gatt_count s" "i < attr_count (app_gatts s ! h)"
    and "g = app_gatts s ! h" "a = attrs g ! i"
  shows "app_gatt_count s \<le> 2 \<and> i < length (attrs g) \<and> a_read a \<noteq> No_read \<and>
    (a_read a = app_gatt_read \<longrightarrow> (\<exists>v. length v \<le> 32 \<and> rtbus_ble_app_gatt_read B g a len off = Some (bt_gatt_attr_read B len off v))) \<and>
    (a_read a = bt_gatt_attr_read_ccc \<longrightarrow> (\<exists>c < chrc_count g. a_user_data a = Value_ccc c \<and>
       rtbus_ble_app_gatt_find_chrc_ccc h (a_user_data a) s = Some (h, c)))"
proof -
  have inv: "ble_inv s" by (rule reach_inv [OF assms(1)])
  then have g: "gatt_ok g" "app_gatt_count s \<le> 2" using assms(2,4) by (simp_all add: ble_inv_def layout_defs)
  have i: "i < length (attrs g)" "a = take (attr_count g) (attrs g) ! i" "i < length (take (attr_count g) (attrs g))"
    using g(1) assms(3-5) by (auto simp: gatt_ok_def)
  then have t: "attr_typed (chrc_count g) a" using g(1) nth_mem [OF i(3)] by (simp add: gatt_ok_def)
  have "\<exists>v. length v \<le> 32 \<and> rtbus_ble_app_gatt_read B g a len off = Some (bt_gatt_attr_read B len off v)"
    if app: "a_read a = app_gatt_read"
  proof -
    obtain c where c: "c < chrc_count g" "a_user_data a = Chrc c" using t app by (auto simp: attr_typed_def)
    let ?v = "take (value_len (chrcs g ! c)) (chrc_value (chrcs g ! c))"
    have "length ?v \<le> 32" using g(1) c(1) by (simp add: gatt_ok_def chrc_typed_def layout_defs)
    then show ?thesis using c(2) by (intro exI [of _ ?v]) (simp add: rtbus_ble_app_gatt_read_def)
  qed
  moreover have "\<exists>c < chrc_count g. a_user_data a = Value_ccc c \<and> rtbus_ble_app_gatt_find_chrc_ccc h (a_user_data a) s = Some (h, c)"
    if ccc: "a_read a = bt_gatt_attr_read_ccc"
  proof -
    obtain c where "c < chrc_count g" "a_user_data a = Value_ccc c" using t ccc by (auto simp: attr_typed_def)
    then show ?thesis using assms(2,4) by (auto simp: find_ccc)
  qed
  ultimately show ?thesis using g(2) i(1) t by (auto simp: attr_typed_def split: attr_read.splits)
qed

definition demo_request :: emos_ctx where
  "demo_request = \<lparr>ctx_task_id = 3, ctx_id = APPLICATION_BLE_GATT_NOTIFY_REGISTER, ctx_payload = [0, 0, 0, 0, 0, 0x10, 0, 0]\<rparr>"

lemmas ble_ids = APPLICATION_BLE_ADV_START_def APPLICATION_BLE_PAIR_def APPLICATION_BLE_SET_SECURITY_def
  APPLICATION_BLE_GAP_INIT_def APPLICATION_BLE_GATT_NOTIFY_REGISTER_def APPLICATION_BLE_GATT_VALUE_SET_def
  APP_EVT_def SYS_EVT_def EMOS_CTX_ID_def EMOS_SYS_INIT_def EMOS_SYS_NONE_def CTX_APP_SHIFT_def CTX_SYS_SHIFT_def
  CTX_APP_MASK_def CTX_SYS_MASK_def

definition demo_registered :: "(demo_flash, byte list \<times> byte list, bt_call list) ble" where
  "demo_registered = rtbus_ble_process demo_bt demo_native_env demo_xip (\<lambda>_. 0) demo_request demo_ble"

lemma demo_registered_is:
  "demo_registered = rtbus_ble_ad_sync_service_uuid ((set_gatt 0 (described_gatt (cpu_mem demo_native_env demo_xip demo_ble) 0x1000)
     demo_ble)\<lparr>app_gatt_count := 1\<rparr>)"
proof -
  have ok: "service_def_ok (cpu_mem demo_native_env demo_xip demo_ble) 0x1000"
    by (rule demo_service_at) (simp add: demo_native_env_def)
  have req: "req_word 0 demo_request = 0" "req_word 1 demo_request = 0x1000" "length (ctx_payload demo_request) = 8"
    "ctx_id demo_request = APPLICATION_BLE_GATT_NOTIFY_REGISTER"
    by (simp_all add: req_word_def slice_def demo_request_def)
  have id: "APPLICATION_BLE_GATT_NOTIFY_REGISTER \<noteq> SYS_EVT EMOS_SYS_INIT"
    "APPLICATION_BLE_GATT_NOTIFY_REGISTER \<notin> {APPLICATION_BLE_ADV_START, APPLICATION_BLE_PAIR,
       APPLICATION_BLE_SET_SECURITY, APPLICATION_BLE_GAP_INIT}"
    by (simp_all add: ble_ids)
  show ?thesis
    using register_now [OF refl _ ok, of demo_bt] id
    by (simp add: demo_registered_def rtbus_ble_process_def req native_service_complete_result_def demo_ble_fields layout_defs
        rtbus_ble_ad_sync_service_uuid_def set_gatt_def del: One_nat_def)
qed

lemma demo_registered_fields:
  "app_gatt_count demo_registered = 1" "length (service_uuid (app_gatts demo_registered ! 0)) = 16"
  "take 6 (attrs (app_gatts demo_registered ! 0)) =
     described_table (service_defs (cpu_mem demo_native_env demo_xip demo_ble) 0x1000) 2"
  "attr_count (app_gatts demo_registered ! 0) = 6" "chrc_count (app_gatts demo_registered ! 0) = 2"
  "map a_read (take 6 (attrs (app_gatts demo_registered ! 0))) = [bt_gatt_attr_read_service, bt_gatt_attr_read_chrc,
     app_gatt_read, bt_gatt_attr_read_ccc, bt_gatt_attr_read_chrc, app_gatt_read]"
proof -
  let ?m = "cpu_mem demo_native_env demo_xip demo_ble"
  have V: "0x2000 \<le> NATIVE_RAM_BASE demo_native_env" by (simp add: demo_native_env_def)
  have defs: "length (service_defs ?m 0x1000) = 2" "notifies (service_defs ?m 0x1000 ! 0)" "\<not> notifies (service_defs ?m 0x1000 ! 1)"
    by (simp_all add: demo_service_at [OF V] notifies_def rtbus_ble_app_gatt_properties_def BT_GATT_CHRC_READ_def BT_GATT_CHRC_NOTIFY_def)
  have t: "length (described_table (service_defs ?m 0x1000) 2) = 6" using defs by (simp add: numeral_2_eq_2 chrc_attrs_def)
  have g: "app_gatts demo_registered ! 0 = described_gatt ?m 0x1000"
    by (simp add: demo_registered_is rtbus_ble_ad_sync_service_uuid_def set_gatt_def)
      (use demo_ble_fields(1) in \<open>simp add: ble_statics_def layout_defs\<close>)
  show "app_gatt_count demo_registered = 1" by (simp add: demo_registered_is rtbus_ble_ad_sync_service_uuid_def)
  show "attr_count (app_gatts demo_registered ! 0) = 6" "chrc_count (app_gatts demo_registered ! 0) = 2"
    by (simp_all add: g described_gatt_def Let_def defs t)
  show "length (service_uuid (app_gatts demo_registered ! 0)) = 16"
    by (simp add: g described_gatt_def Let_def partial_gatt_def demo_service_at [OF V])
  show a: "take 6 (attrs (app_gatts demo_registered ! 0)) = described_table (service_defs ?m 0x1000) 2"
    by (simp add: g described_gatt_def Let_def partial_gatt_def defs t)
  show "map a_read (take 6 (attrs (app_gatts demo_registered ! 0))) = [bt_gatt_attr_read_service, bt_gatt_attr_read_chrc,
     app_gatt_read, bt_gatt_attr_read_ccc, bt_gatt_attr_read_chrc, app_gatt_read]"
    unfolding a using defs(2,3) by (simp add: numeral_2_eq_2 chrc_attrs_def primary_attr_def)
qed

lemma demo_registered_reach: "ble_reach demo_bt demo_native_env demo_xip (\<lambda>_. 0) (\<lambda>_ _. False) demo_registered"
  unfolding demo_registered_def by (rule ble_reach.step [OF ble_reach.boot [OF demo_ble_fields(1)] ble_step.request])

theorem attributes_well_typed_witness:
  "\<exists>v. length v \<le> 32 \<and> rtbus_ble_app_gatt_read demo_bt (app_gatts demo_registered ! 0)
     (attrs (app_gatts demo_registered ! 0) ! 2) 8 1 = Some (Inr (take 8 (drop 1 v)))"
proof -
  have "a_read (attrs (app_gatts demo_registered ! 0) ! 2) = map a_read (take 6 (attrs (app_gatts demo_registered ! 0))) ! 2"
    using arg_cong [OF demo_registered_fields(6), of length] by simp
  then have "a_read (attrs (app_gatts demo_registered ! 0) ! 2) = app_gatt_read"
    unfolding demo_registered_fields(6) by simp
  then show ?thesis
    using attributes_well_typed [OF demo_registered_reach, of 0 2 _ _ 8 1] demo_registered_fields(1,4)
    by (auto simp: demo_bt_def)
qed

end
