(* ===== verification/Ble_Values.thy ===== *)
theory Ble_Values
  imports Ble_Machine
begin

text \<open>
  What the application gets from the Bluetooth service: its services as it described them, and a store
  of values that a client of the stack reads.
\<close>

section \<open>The store of values\<close>

text \<open>The specification: a map from service and characteristic to the value.\<close>

definition ble_values :: "('f, 'd, 'b, 'a) ble_scheme \<Rightarrow> nat \<times> nat \<Rightarrow> byte list option" where
  "ble_values s = (\<lambda>(h, c). if h < app_gatt_count s \<and> c < chrc_count (app_gatts s ! h)
     then Some (take (value_len (chrcs (app_gatts s ! h) ! c)) (chrc_value (chrcs (app_gatts s ! h) ! c))) else None)"

definition req_value :: "mem \<Rightarrow> ble_value_set_req \<Rightarrow> byte list" where
  "req_value m req = (if vs_value_len req = 0 then [] else rd m (vs_value_addr req) (unat (vs_value_len req)))"

definition watched :: "'b bt_stack \<Rightarrow> nat \<Rightarrow> nat \<Rightarrow> ('f, 'd, 'b, 'a) ble_scheme \<Rightarrow> bool" where
  "watched B h c s \<longleftrightarrow> current_conn s \<noteq> 0 \<and> gatt_registered (app_gatts s ! h) \<and> has_ccc (chrcs (app_gatts s ! h) ! c) \<and>
     bt_gatt_is_subscribed B (current_conn s) h (value_attr_index (chrcs (app_gatts s ! h) ! c)) (bt s)"

lemma value_copy_cases:
  assumes "length (chrc_value ch) = RUNTIME_BLE_GATT_VALUE_MAX"
  shows "rtbus_ble_app_gatt_value_copy m a l ch =
    (if RUNTIME_BLE_GATT_VALUE_MAX < unat l then Inl EMSGSIZE
     else if l \<noteq> 0 \<and> a = NULL then Inl EINVAL
     else Inr (ch\<lparr>chrc_value := rd m a (unat l) @ drop (unat l) (chrc_value ch), value_len := unat l\<rparr>))"
  by (cases "l = 0") (simp_all add: rtbus_ble_app_gatt_value_copy_def Let_def)

lemma ble_values_set:
  assumes "length (app_gatts s) = RTBUS_BLE_APP_GATT_MAX" "app_gatt_count s \<le> RTBUS_BLE_APP_GATT_MAX"
    and "h < app_gatt_count s" "c < chrc_count (app_gatts s ! h)"
    and "chrc_count (app_gatts s ! h) \<le> length (chrcs (app_gatts s ! h))"
  shows "ble_values (set_chrc h c ch s) = (ble_values s)((h, c) \<mapsto> take (value_len ch) (chrc_value ch))"
  using assms by (auto simp: ble_values_def set_chrc_def set_gatt_def fun_eq_iff nth_list_update)

section \<open>Properties\<close>

text \<open>C29: setting a value refines updating the map.  A request for a characteristic that does not exist or
  with a value that is too long or missing is refused and changes nothing; any other one changes
  exactly that value, and a connected client that has subscribed is notified of it, no other.\<close>

theorem value_set_refines:
  fixes s :: "('f, 'd, 'b, 'a) ble_scheme"
  assumes "ble_reach B V X code T s" "h = unat (vs_handle req)" "c = unat (vs_chrc req)"
    and "rtbus_ble_app_gatt_value_set_now B V X req s = (r, s')" "v = req_value (cpu_mem V X s) req"
  shows "if ble_values s (h, c) = None \<or> 32 < unat (vs_value_len req) \<or> vs_value_len req \<noteq> 0 \<and> vs_value_addr req = NULL
    then s' = s \<and> r \<in> {Inl EINVAL, Inl EMSGSIZE}
    else ble_values s' = (ble_values s)((h, c) \<mapsto> v) \<and>
      (r, bt s') = (if watched B h c s
         then bt_gatt_notify B (current_conn s) h (value_attr_index (chrcs (app_gatts s ! h) ! c)) v (bt s)
         else (ok, bt s))"
proof -
  note run = rtbus_ble_app_gatt_value_set_now_def [of B V X req s, folded assms(2,3), unfolded Let_def]
  show ?thesis
proof (cases "ble_values s (h, c) = None")
  case True
  then have "app_gatt_count s \<le> h \<or> chrc_count (app_gatts s ! h) \<le> c" by (auto simp: ble_values_def split: if_splits)
  then have "rtbus_ble_app_gatt_value_set_now B V X req s = (Inl EINVAL, s)"
    unfolding run by (elim disjE) simp_all
  then show ?thesis using True assms(4) by simp
next
  case False
  have inv: "ble_inv s" by (rule reach_inv [OF assms(1)])
  have hc: "h < app_gatt_count s" "c < chrc_count (app_gatts s ! h)" using False by (auto simp: ble_values_def split: if_splits)
  let ?g = "app_gatts s ! h"
  let ?ch = "chrcs ?g ! c" and ?l = "unat (vs_value_len req)" and ?m = "cpu_mem V X s"
  have "gatt_ok ?g" using inv hc(1) by (simp add: ble_inv_def)
  then have g: "gatt_ok ?g" "gatt_prepared ?g" "chrc_count ?g \<le> length (chrcs ?g)" by (simp_all add: gatt_ok_def)
  have g4: "length (chrc_value ?ch) = RUNTIME_BLE_GATT_VALUE_MAX"
    using chrc_typedD [OF inv hc] by (simp add: chrc_typed_def)
  note copy = value_copy_cases [OF g4, of ?m "vs_value_addr req" "vs_value_len req"]
  show ?thesis
  proof (cases "32 < ?l \<or> vs_value_len req \<noteq> 0 \<and> vs_value_addr req = NULL")
    case True
    then have "\<exists>e \<in> {EINVAL, EMSGSIZE}. rtbus_ble_app_gatt_value_set_now B V X req s = (Inl e, s)"
      using hc g(2) unfolding run copy by (elim disjE) (simp_all add: layout_defs)
    then show ?thesis using True assms(4) by auto
  next
    case small: False
    let ?ch' = "?ch\<lparr>chrc_value := rd ?m (vs_value_addr req) ?l @ drop ?l (chrc_value ?ch), value_len := ?l\<rparr>"
    have copied: "rtbus_ble_app_gatt_value_copy ?m (vs_value_addr req) (vs_value_len req) ?ch = Inr ?ch'"
      unfolding copy using small by (auto simp: layout_defs)
    have v: "rd ?m (vs_value_addr req) ?l = v" "length v = ?l"
      by (cases "vs_value_len req = 0"; simp add: assms(5) req_value_def)+
    have vals: "ble_values (set_chrc h c ?ch' s) = (ble_values s)((h, c) \<mapsto> v)"
      "ble_values (set_chrc h c (?ch'\<lparr>notify_enabled := n\<rparr>) s) = (ble_values s)((h, c) \<mapsto> v)" for n
      using ble_values_set [OF _ _ hc g(3)] inv v by (simp_all add: ble_inv_def)
    have bt: "ble_values (t\<lparr>bt := b\<rparr>) = ble_values t" for t :: "('f, 'd, 'b, 'a) ble_scheme" and b
      by (simp add: ble_values_def fun_eq_iff)
    have set_bt: "bt (set_chrc h c x s) = bt s" for x by (simp add: set_chrc_def set_gatt_def)
    obtain nr nb where N: "bt_gatt_notify B (current_conn s) h (value_attr_index ?ch) v (bt s) = (nr, nb)" by force
    let ?sub = "bt_gatt_is_subscribed B (current_conn s) h (value_attr_index ?ch) (bt s)"
    have "rtbus_ble_app_gatt_value_set_now B V X req s =
      (if gatt_registered ?g \<and> has_ccc ?ch \<and> current_conn s \<noteq> 0
       then (if ?sub then (nr, (set_chrc h c (?ch'\<lparr>notify_enabled := ?sub\<rparr>) s)\<lparr>bt := nb\<rparr>)
             else (ok, set_chrc h c (?ch'\<lparr>notify_enabled := ?sub\<rparr>) s))
       else (ok, set_chrc h c ?ch' s))"
      unfolding run copied using hc g(2) N v by (simp add: set_bt)
    then show ?thesis using False small vals bt set_bt N assms(4) by (auto simp: watched_def split: if_splits)
  qed
qed
qed

definition demo_set :: ble_value_set_req where
  "demo_set = \<lparr>vs_handle = 0, vs_chrc = 0, vs_value_len = 2, vs_value_addr = 0x1048\<rparr>"

theorem value_set_refines_witness:
  "ble_values (snd (rtbus_ble_app_gatt_value_set_now demo_bt demo_native_env demo_xip demo_set demo_registered)) (0, 0) = Some [1, 2]"
proof -
  obtain r s' where S: "rtbus_ble_app_gatt_value_set_now demo_bt demo_native_env demo_xip demo_set demo_registered = (r, s')" by force
  have "rd (cpu_mem demo_native_env demo_xip demo_registered) (0x1000 + 72) 2 = take 2 (drop 72 demo_service)"
    by (rule demo_mem) (simp_all add: demo_native_env_def)
  then have v: "req_value (cpu_mem demo_native_env demo_xip demo_registered) demo_set = [1, 2]"
    by (simp add: req_value_def demo_set_def demo_service_def)
  have "ble_values demo_registered (0, 0) \<noteq> None" by (simp add: ble_values_def demo_registered_fields)
  moreover have "unat (vs_handle demo_set) = 0" "unat (vs_chrc demo_set) = 0" "unat (vs_value_len demo_set) = 2"
    "vs_value_addr demo_set \<noteq> NULL" by (simp_all add: demo_set_def)
  ultimately show ?thesis
    using value_set_refines [OF demo_registered_reach refl refl S v [symmetric]] by (auto simp: S)
qed

text \<open>C30: a service that the application describes is registered as described.  With room for it, and
  before the stack runs or with a stack that takes it, the request returns its handle; the attribute
  table is the one the definition describes, reading a characteristic's value attribute gives the
  value the definition points to, and the other services are as they were.\<close>

theorem service_registered_as_described:
  fixes s :: "('f, 'd, 'b, 'a) ble_scheme"
  assumes "ble_reach B V X code T s" "m = cpu_mem V X s" "service_def_ok m a" "h = app_gatt_count s" "h < 2"
    and "\<not> ble_ready s \<or> (\<forall>g b. fst (bt_gatt_service_register B h g b) = ok)"
    and "defs = service_defs m a" "c < length defs"
  shows "\<exists>s'. rtbus_ble_app_gatt_notify_register_now B V X a s = (Inr h, s') \<and> app_gatt_count s' = h + 1 \<and>
    service_uuid (app_gatts s' ! h) = sd_service_uuid (service_def_at m a) \<and>
    take (attr_count (app_gatts s' ! h)) (attrs (app_gatts s' ! h)) = described_table defs (length defs) \<and>
    rtbus_ble_app_gatt_read B (app_gatts s' ! h)
      (attrs (app_gatts s' ! h) ! value_attr_index (chrcs (app_gatts s' ! h) ! c)) len off =
      Some (bt_gatt_attr_read B len off (described_value m (defs ! c))) \<and>
    (\<forall>i < h. app_gatts s' ! i = app_gatts s ! i)"
proof -
  have inv: "ble_inv s" by (rule reach_inv [OF assms(1)])
  let ?g = "described_gatt m a"
  have g: "gatt_ok ?g" by (rule described_gatt_ok [OF assms(3)])
  define s1 where "s1 = rtbus_ble_ad_sync_service_uuid ((set_gatt h ?g s)\<lparr>app_gatt_count := h + 1\<rparr>)"
  have s1: "app_gatts s1 = (app_gatts s)[h := ?g]" "ble_ready s1 = ble_ready s" "app_gatt_count s1 = h + 1"
    by (simp_all add: s1_def rtbus_ble_ad_sync_service_uuid_def set_gatt_def)
  have h: "h < length (app_gatts s)" "h < RTBUS_BLE_APP_GATT_MAX" using inv assms(5) by (simp_all add: ble_inv_def layout_defs)
  have "rtbus_ble_app_gatt_notify_register_now B V X a s =
      (if ble_ready s1 then (case rtbus_ble_app_gatt_register_ready B h s1 of (Inl e, s) \<Rightarrow> (Inl e, s) | (Inr _, s) \<Rightarrow> (Inr h, s))
       else (Inr h, s1))"
    using register_now [OF assms(2) _ assms(3), of B] h(2) unfolding Let_def s1_def assms(4) by simp
  note now = this [unfolded s1(2)]
  obtain r s' where R: "rtbus_ble_app_gatt_notify_register_now B V X a s = (Inr h, s')"
    "app_gatts s' = (app_gatts s)[h := ?g\<lparr>gatt_registered := r\<rparr>]" "app_gatt_count s' = h + 1"
  proof (cases "ble_ready s")
    case False
    then have "rtbus_ble_app_gatt_notify_register_now B V X a s = (Inr h, s1)"
      by (simp add: now)
    then show ?thesis using that [of s1 "gatt_registered ?g"] s1 by simp
  next
    case True
    obtain b where b: "bt_gatt_service_register B h ?g (bt s1) = (ok, b)" using assms(6) True by (metis prod.collapse)
    have "\<not> gatt_registered ?g" by (simp add: described_gatt_def partial_gatt_def zero_gatt_def Let_def)
    then have "rtbus_ble_app_gatt_register_ready B h s1 = (ok, set_gatt h (?g\<lparr>gatt_registered := True\<rparr>) (s1\<lparr>bt := b\<rparr>))"
      using h(1) b by (simp add: rtbus_ble_app_gatt_register_ready_def s1 Let_def)
    then have "rtbus_ble_app_gatt_notify_register_now B V X a s = (Inr h, set_gatt h (?g\<lparr>gatt_registered := True\<rparr>) (s1\<lparr>bt := b\<rparr>))"
      using True by (simp add: now)
    then show ?thesis using that [of "set_gatt h (?g\<lparr>gatt_registered := True\<rparr>) (s1\<lparr>bt := b\<rparr>)" True] s1 by (simp add: set_gatt_def)
  qed
  let ?n = "length defs"
  have n: "?n \<le> RTBUS_BLE_APP_GATT_CHRC_MAX" "chrc_def_ok (defs ! c)" using assms(3,7,8) by (auto simp: service_def_ok_def)
  then have t: "length (described_table defs ?n) \<le> RTBUS_BLE_APP_GATT_ATTR_MAX"
    using length_described_table(2) [of defs ?n] by (simp add: layout_defs)
  have at: "app_gatts s' ! h = ?g\<lparr>gatt_registered := r\<rparr>" using R(2) h(1) by simp
  have G: "service_uuid ?g = sd_service_uuid (service_def_at m a)" "take (attr_count ?g) (attrs ?g) = described_table defs ?n"
    "chrcs ?g ! c = described_chrc m defs c"
    using t assms(8) by (simp_all add: described_gatt_def partial_gatt_def Let_def assms(7) [symmetric] nth_append)
  have "chrc_typed (described_table defs ?n) c (described_chrc m defs c)" by (rule described_chrc_typed [OF assms(8) n(2)])
  then have va: "value_attr_index (chrcs ?g ! c) < length (take (attr_count ?g) (attrs ?g))"
    "a_user_data (take (attr_count ?g) (attrs ?g) ! value_attr_index (chrcs ?g ! c)) = Chrc c"
    unfolding G by (simp_all add: chrc_typed_def)
  then have "a_user_data (attrs ?g ! value_attr_index (chrcs ?g ! c)) = Chrc c" by simp
  moreover have "take (value_len (chrcs ?g ! c)) (chrc_value (chrcs ?g ! c)) = described_value m (defs ! c)"
    unfolding G by (simp add: described_chrc_def Let_def)
  ultimately show ?thesis using R(1,3) G at by (simp add: rtbus_ble_app_gatt_read_def R(2))
qed

theorem service_registered_as_described_witness:
  "\<exists>s'. rtbus_ble_app_gatt_notify_register_now demo_bt demo_native_env demo_xip 0x1000 demo_ble = (Inr 0, s') \<and>
     app_gatt_count s' = 1 \<and> service_uuid (app_gatts s' ! 0) = replicate 16 7"
proof -
  let ?m = "cpu_mem demo_native_env demo_xip demo_ble"
  have V: "0x2000 \<le> NATIVE_RAM_BASE demo_native_env" by (simp add: demo_native_env_def)
  have r: "ble_reach demo_bt demo_native_env demo_xip (\<lambda>_. 0) (\<lambda>_ _. False) demo_ble"
    by (rule ble_reach.boot [OF demo_ble_fields(1)])
  have "0 < length (service_defs ?m 0x1000)" by (simp add: demo_service_at(2) [OF V])
  from service_registered_as_described [OF r refl demo_service_at(3) [OF V] refl _ _ refl this]
  show ?thesis by (auto simp: demo_ble_fields demo_service_at(1) [OF V])
qed

end
