(* ===== verification/Ble_Stack.thy ===== *)
theory Ble_Stack
  imports Ble_Machine
begin

text \<open>
  The service over a Bluetooth stack that keeps account: whether it is enabled, which services are registered with it
  and whether it advertises.  As its documentation says, it refuses to be enabled twice, to take a service that it
  has and to advertise when it does already.  What every request and callback of \<open>rtbus_ble.c\<close> leaves of
  that, and that the service's own flags agree with the stack's.
\<close>

lemma emit_bt [simp]: "bt (snd (native_service_emit_event g t v l u)) = bt u" for u :: "('f, 'd, 'b, 'a) ble_scheme"
  by (simp add: native_service_emit_event_def k_event_post_def Let_def)

section \<open>A stack that is enabled once\<close>

definition stays :: "('b \<Rightarrow> bool) \<Rightarrow> ('b \<Rightarrow> bool) \<Rightarrow> 'b \<Rightarrow> 'b \<Rightarrow> bool" where
  "stays en adv b b' \<longleftrightarrow> en b' = en b \<and> adv b' = adv b"

text \<open>\<open>en\<close>: the stack is enabled; \<open>adv\<close>: it advertises.  Calls may fail.\<close>

locale bt_stays =
  fixes B :: "'b bt_stack" and en adv :: "'b \<Rightarrow> bool"
  assumes refuses: "en b \<Longrightarrow> bt_enable B b = (Inl EALREADY, b)"
    and settings: "stays en adv b (snd (settings_load B b))"
    and auth: "stays en adv b (snd (bt_conn_auth_info_cb_register B b))"
    and registering: "stays en adv b (snd (bt_gatt_service_register B h g b))"
    and unregistering: "stays en adv b (snd (bt_gatt_service_unregister B h b))"
    and stopping: "en (snd (bt_le_adv_stop B b)) = en b" "\<not> adv (snd (bt_le_adv_stop B b))"
    and securing: "stays en adv b (snd (bt_conn_set_security B c l b))"
    and unpairing: "stays en adv b (snd (bt_unpair B p b))"
    and notifying: "stays en adv b (snd (bt_gatt_notify B c h i v b))"
begin

lemmas calls = settings auth registering unregistering securing unpairing notifying

text \<open>What everything but a start of advertising leaves: readiness and enabling, and no advertising that was not there.\<close>

definition keeps :: "('f, 'd, 'b, 'a) ble_scheme \<Rightarrow> ('f, 'd, 'b, 'a) ble_scheme \<Rightarrow> bool" where
  "keeps s s' \<longleftrightarrow> ble_ready s' = ble_ready s \<and> en (bt s') = en (bt s) \<and> (adv (bt s') \<longrightarrow> adv (bt s)) \<and>
     (ble_advertising s' \<longrightarrow> ble_advertising s)"

lemma keeps_refl [simp]: "keeps s s" by (simp add: keeps_def)
lemma keeps_trans [trans]: "keeps s t \<Longrightarrow> keeps t u \<Longrightarrow> keeps s u" by (auto simp: keeps_def)

lemma keeps_frames [simp]:
  "keeps s (snd (native_service_emit_event g t v l u)) = keeps s u" "keeps s (snd (native_service_complete_result V a r u)) = keeps s u"
  "keeps s (set_gatt h gt u) = keeps s u" "keeps s (set_chrc h c ch u) = keeps s u"
  "keeps s (rtbus_ble_ad_sync_service_uuid u) = keeps s u" "keeps s (u\<lparr>current_conn := cc\<rparr>) = keeps s u"
  "keeps s (u\<lparr>app_gatts := gs\<rparr>) = keeps s u" "keeps s (u\<lparr>app_gatt_count := n\<rparr>) = keeps s u"
  "keeps s (u\<lparr>app_ad := d\<rparr>) = keeps s u" "keeps s (u\<lparr>app_sd := d\<rparr>) = keeps s u"
  "keeps s (u\<lparr>gap_security_level := x\<rparr>) = keeps s u" "keeps s (u\<lparr>gap_flags := x\<rparr>) = keeps s u"
  "keeps s u \<Longrightarrow> keeps s (u\<lparr>ble_advertising := False\<rparr>)"
  by (simp_all add: keeps_def set_chrc_def set_gatt_def rtbus_ble_ad_sync_service_uuid_def)

lemma keeps_bt: "keeps s u \<Longrightarrow> stays en adv (bt u) b \<Longrightarrow> keeps s (u\<lparr>bt := b\<rparr>)"
  by (auto simp: keeps_def stays_def)

lemma keeps_call: "keeps s u \<Longrightarrow> stays en adv (bt u) (snd p) \<Longrightarrow> keeps s (snd (case p of (ret, b) \<Rightarrow> (ret, u\<lparr>bt := b\<rparr>)))"
  by (cases p) (simp add: keeps_bt)

lemma register_ready_keeps: "keeps s u \<Longrightarrow> keeps s (snd (rtbus_ble_app_gatt_register_ready B h u))"
  by (simp add: rtbus_ble_app_gatt_register_ready_def Let_def case_prod_beta keeps_bt registering)

lemma register_loop_keeps: "keeps s u \<Longrightarrow> keeps s (snd (register_pending_loop B hs u))"
proof (induction hs arbitrary: u)
  case (Cons h hs)
  then show ?case using register_ready_keeps [of s u h] by (simp add: Let_def case_prod_beta)
qed simp

lemma register_pending_keeps: "keeps s u \<Longrightarrow> keeps s (snd (rtbus_ble_app_gatt_register_pending B u))"
  by (simp add: rtbus_ble_app_gatt_register_pending_def register_loop_keeps)

lemma reset_loop_keeps: "keeps s u \<Longrightarrow> keeps s (gatt_reset_loop B hs u)"
  by (induction hs arbitrary: u) (simp_all add: keeps_bt unregistering)

lemma reset_keeps: "keeps s (rtbus_ble_reset_app_state B s)"
proof -
  have "keeps s (s\<lparr>bt := snd (bt_le_adv_stop B (bt s))\<rparr>)" using stopping by (simp add: keeps_def)
  then show ?thesis by (simp add: rtbus_ble_reset_app_state_def rtbus_ble_app_gatt_reset_def Let_def reset_loop_keeps)
qed

lemma forget_keeps: "keeps s u \<Longrightarrow> keeps s (rtbus_ble_forget_stale_bond B conn e u)"
  by (auto simp: rtbus_ble_forget_stale_bond_def keeps_bt unpairing split: option.split)

lemma connected_keeps: "keeps s (rtbus_ble_connected B conn err s)"
  by (simp add: rtbus_ble_connected_def Let_def keeps_bt securing)

lemma ccc_keeps: "keeps s (rtbus_ble_app_gatt_ccc_changed h attr value s)"
  by (simp add: rtbus_ble_app_gatt_ccc_changed_def split: option.splits prod.splits)

lemma callbacks_keep:
  "keeps s (rtbus_ble_connected B conn err s)" "keeps s (rtbus_ble_disconnected conn reason s)" "keeps s (rtbus_ble_recycled s)"
  "keeps s (rtbus_ble_forget_stale_bond B conn e s)" "keeps s (rtbus_ble_security_changed B conn level e s)"
  "keeps s (rtbus_ble_app_gatt_ccc_changed h attr value s)"
  by (simp_all add: connected_keeps rtbus_ble_disconnected_def rtbus_ble_recycled_def rtbus_ble_security_changed_def
      forget_keeps ccc_keeps Let_def)

lemma security_keeps: "keeps s (snd (rtbus_ble_set_security_now B c l s))"
  by (simp add: rtbus_ble_set_security_now_def keeps_call securing)

lemma register_now_keeps: "keeps s (snd (rtbus_ble_app_gatt_notify_register_now B V X a s))"
proof -
  have "keeps s (snd (case rtbus_ble_app_gatt_register_ready B h u of (Inl e, s) \<Rightarrow> (Inl e, s) | (Inr _, s) \<Rightarrow> (Inr h', s)))"
    if "keeps s u" for h u and h' :: nat
    using register_ready_keeps [OF that, of h] by (simp add: case_prod_beta split: sum.split)
  then show ?thesis by (simp add: rtbus_ble_app_gatt_notify_register_now_def Let_def split: sum.split)
qed

lemma value_set_keeps: "keeps s (snd (rtbus_ble_app_gatt_value_set_now B V X req s))"
proof -
  have b: "bt (set_chrc x y z s) = bt s" for x y z by (simp add: set_chrc_def set_gatt_def)
  have "keeps s (snd (case bt_gatt_notify B c h i v (bt s) of (ret, b) \<Rightarrow> (ret, (set_chrc x y z s)\<lparr>bt := b\<rparr>)))" for c h i v x y z
    by (rule keeps_call) (simp_all add: b notifying)
  then show ?thesis by (simp add: rtbus_ble_app_gatt_value_set_now_def Let_def b split: sum.split)
qed

lemma gap_init_keeps: "keeps s (snd (rtbus_ble_gap_init_now V X a s))"
  by (simp add: rtbus_ble_gap_init_now_def Let_def case_prod_beta)

lemma process_keeps:
  assumes "ctx_id ctx \<noteq> APPLICATION_BLE_ADV_START \<or> keeps s (snd (rtbus_ble_adv_start_now B s))"
  shows "keeps s (rtbus_ble_process B V X code ctx s)"
proof -
  have complete: "keeps s (case p of (ret, s) \<Rightarrow> snd (native_service_complete_result V a (code ret) s)) = keeps s (snd p)" for p a
    by (cases p) simp
  have reg: "keeps s (case p of (Inl e, s) \<Rightarrow> case (Inl e, s) of (ret, s) \<Rightarrow> snd (native_service_complete_result V a (code ret) s)
      | (Inr h, s) \<Rightarrow> snd (native_service_complete_result V a (of_nat h) s)) = keeps s (snd p)" for p :: "(errno + nat) \<times> _" and a
    by (cases p; cases "fst p") simp_all
  show ?thesis
    unfolding rtbus_ble_process_def Let_def rtbus_ble_pair_now_def
    using assms by (auto simp: complete reg reset_keeps security_keeps gap_init_keeps register_now_keeps value_set_keeps)
qed

text \<open>A start while the stack is enabled but the service does not take it for ready goes nowhere.\<close>

lemma refused_start:
  assumes "\<not> ble_ready s" "en (bt s)"
  shows "keeps s (snd (rtbus_ble_adv_start_now B s))" "fst (rtbus_ble_adv_start_now B s) \<noteq> ok"
proof -
  obtain r s1 where R: "rtbus_ble_app_gatt_register_pending B s = (r, s1)" by force
  then have s1: "keeps s s1" using register_pending_keeps [OF keeps_refl, of s] by simp
  then have "bt_enable B (bt s1) = (Inl EALREADY, bt s1)" using assms by (intro refuses) (simp add: keeps_def)
  then have "rtbus_ble_adv_start_now B s = (if r \<noteq> ok then r else Inl EALREADY, s1)"
    using assms(1) by (simp add: rtbus_ble_adv_start_now_def ble_enable_def R Let_def)
  then show "keeps s (snd (rtbus_ble_adv_start_now B s))" "fst (rtbus_ble_adv_start_now B s) \<noteq> ok" using s1 by simp_all
qed

text \<open>A step of the service, and one of the stack's own.\<close>

lemma step_keeps:
  assumes "ble_step B V X code T s s'" "\<not> ble_ready s" "en (bt s)"
    and "\<And>b b'. T b b' \<Longrightarrow> en b' = en b \<and> (adv b' \<longrightarrow> adv b)"
  shows "keeps s s'"
  using assms(1)
proof cases
  case other
  then show ?thesis using assms(4) by (auto simp: keeps_def ble_statics_def)
qed (simp_all add: callbacks_keep rtbus_ble_pairing_failed_def ccc_cfg_write_same process_keeps refused_start [OF assms(2,3)])

lemma steps_keep:
  assumes "(ble_step B V X code T)\<^sup>*\<^sup>* s s'" "\<not> ble_ready s" "en (bt s)"
    and "\<And>b b'. T b b' \<Longrightarrow> en b' = en b \<and> (adv b' \<longrightarrow> adv b)"
  shows "keeps s s'"
  using assms(1)
proof (induction rule: rtranclp_induct)
  case (step t u)
  then have "\<not> ble_ready t" "en (bt t)" using assms(2,3) by (simp_all add: keeps_def)
  from step_keeps [OF step.hyps(2) this assms(4)] step.IH show ?case by (rule keeps_trans [rotated])
qed simp

end

section \<open>A stack that works\<close>

text \<open>\<open>reg\<close>: the services that are registered with the stack, by their handles.  A call that the documentation allows
  in the state of the stack succeeds, any other is refused.\<close>

locale bt_host = bt_stays B en adv for B :: "'b bt_stack" and en adv :: "'b \<Rightarrow> bool" +
  fixes reg :: "'b \<Rightarrow> nat set"
  assumes enables: "\<not> en b \<Longrightarrow> bt_enable B b = (r, b') \<Longrightarrow> r = ok \<and> en b' \<and> adv b' = adv b \<and> reg b' = reg b"
    and loads: "en b \<Longrightarrow> fst (settings_load B b) = ok" "reg (snd (settings_load B b)) = reg b"
    and takes_auth: "fst (bt_conn_auth_info_cb_register B b) \<in> {ok, Inl EALREADY}" "reg (snd (bt_conn_auth_info_cb_register B b)) = reg b"
    and registers: "h \<notin> reg b \<Longrightarrow> bt_gatt_service_register B h g b = (r, b') \<Longrightarrow> r = ok \<and> reg b' = insert h (reg b)"
    and registered: "h \<in> reg b \<Longrightarrow> bt_gatt_service_register B h g b = (Inl EALREADY, b)"
    and unregisters: "reg (snd (bt_gatt_service_unregister B h b)) = reg b - {h}"
    and advertises: "en b \<Longrightarrow> \<not> adv b \<Longrightarrow> bt_le_adv_start B ad sd b = (r, b') \<Longrightarrow>
      r = ok \<and> en b' \<and> adv b' \<and> reg b' = reg b"
    and refuses_adv: "adv b \<Longrightarrow> bt_le_adv_start B ad sd b = (Inl EALREADY, b)"
    and not_registering: "reg (snd (bt_le_adv_stop B b)) = reg b" "reg (snd (bt_conn_set_security B c l b)) = reg b"
      "reg (snd (bt_unpair B p b)) = reg b" "reg (snd (bt_gatt_notify B c h i v b)) = reg b"
begin

text \<open>The service's account agrees with the stack's.\<close>

definition accounted :: "('f, 'd, 'b, 'a) ble_scheme \<Rightarrow> bool" where
  "accounted s \<longleftrightarrow> (\<forall>h. h \<in> reg (bt s) \<longleftrightarrow> h < app_gatt_count s \<and> gatt_registered (app_gatts s ! h))"

lemma set_chrc_registered: "gatt_registered (app_gatts (set_chrc h c ch s) ! k) = gatt_registered (app_gatts s ! k)"
  by (cases "h < length (app_gatts s)") (simp_all add: set_chrc_def set_gatt_def nth_list_update list_update_beyond)

lemma accounted_frames [simp]:
  "accounted (snd (native_service_emit_event g t v l u)) = accounted u" "accounted (snd (native_service_complete_result V a r u)) = accounted u"
  "accounted (set_chrc h c ch u) = accounted u" "accounted (rtbus_ble_ad_sync_service_uuid u) = accounted u"
  "accounted (u\<lparr>current_conn := cc\<rparr>) = accounted u" "accounted (u\<lparr>app_ad := d\<rparr>) = accounted u" "accounted (u\<lparr>app_sd := d\<rparr>) = accounted u"
  "accounted (u\<lparr>gap_security_level := x\<rparr>) = accounted u" "accounted (u\<lparr>gap_flags := x\<rparr>) = accounted u"
  "accounted (u\<lparr>ble_advertising := y\<rparr>) = accounted u" "accounted (u\<lparr>ble_ready := y\<rparr>) = accounted u"
  by (simp_all add: accounted_def set_chrc_registered rtbus_ble_ad_sync_service_uuid_def)
    (simp_all add: set_chrc_def set_gatt_def)

lemma accounted_bt: "reg b = reg (bt u) \<Longrightarrow> accounted (u\<lparr>bt := b\<rparr>) = accounted u"
  by (simp add: accounted_def)

lemma accounted_call: "reg (snd p) = reg (bt u) \<Longrightarrow> accounted (snd (case p of (ret, b) \<Rightarrow> (ret, u\<lparr>bt := b\<rparr>))) = accounted u"
  by (cases p) (simp add: accounted_bt)

text \<open>Registering what is not, marks it and nothing else.\<close>

definition marks :: "nat set \<Rightarrow> ('f, 'd, 'b, 'a) ble_scheme \<Rightarrow> ('f, 'd, 'b, 'a) ble_scheme \<Rightarrow> bool" where
  "marks H s s' \<longleftrightarrow> (\<exists>gs b. s' = s\<lparr>app_gatts := gs, bt := b\<rparr> \<and> unregistered gs = unregistered (app_gatts s) \<and>
     (\<forall>h < length gs. gatt_registered (gs ! h) \<longleftrightarrow> h \<in> H \<or> gatt_registered (app_gatts s ! h)) \<and> stays en adv (bt s) b)"

lemma marks_refl: "marks {} s s"
  unfolding marks_def by (intro exI [of _ "app_gatts s"] exI [of _ "bt s"]) (simp add: stays_def)

lemma marks_trans:
  assumes "marks H s t" "marks K t u"
  shows "marks (H \<union> K) s u"
proof -
  obtain gs b where 1: "t = s\<lparr>app_gatts := gs, bt := b\<rparr>" "unregistered gs = unregistered (app_gatts s)"
    "\<forall>h < length gs. gatt_registered (gs ! h) \<longleftrightarrow> h \<in> H \<or> gatt_registered (app_gatts s ! h)" "stays en adv (bt s) b"
    using assms(1) unfolding marks_def by blast
  obtain gs' b' where 2: "u = t\<lparr>app_gatts := gs', bt := b'\<rparr>" "unregistered gs' = unregistered (app_gatts t)"
    "\<forall>h < length gs'. gatt_registered (gs' ! h) \<longleftrightarrow> h \<in> K \<or> gatt_registered (app_gatts t ! h)" "stays en adv (bt t) b'"
    using assms(2) unfolding marks_def by blast
  have "length gs' = length gs" using unregistered_nth(1) [OF 2(2)] 1(1) by simp
  then show ?thesis unfolding marks_def using 1 2
    by (intro exI [of _ gs'] exI [of _ b']) (auto simp: stays_def)
qed

lemma register_ready_marks:
  assumes "accounted s" "h < app_gatt_count s" "app_gatt_count s \<le> length (app_gatts s)"
  shows "\<exists>s'. rtbus_ble_app_gatt_register_ready B h s = (ok, s') \<and> accounted s' \<and> marks {h} s s'"
proof (cases "gatt_registered (app_gatts s ! h)")
  case True
  then have "marks {h} s s"
    unfolding marks_def by (intro exI [of _ "app_gatts s"] exI [of _ "bt s"]) (auto simp: stays_def)
  then show ?thesis using True assms(1) by (simp add: rtbus_ble_app_gatt_register_ready_def)
next
  case False
  obtain r b where R: "bt_gatt_service_register B h (app_gatts s ! h) (bt s) = (r, b)" by force
  have "h \<notin> reg (bt s)" using False assms(1) by (simp add: accounted_def)
  then have b: "r = ok" "reg b = insert h (reg (bt s))" using registers [OF _ R] by simp_all
  let ?gs = "(app_gatts s)[h := (app_gatts s ! h)\<lparr>gatt_registered := True\<rparr>]"
  have "unregistered ?gs = unregistered (app_gatts s)"
    unfolding unregistered_def map_update by (simp add: map_update [symmetric])
  moreover have "stays en adv (bt s) b" using registering [of "bt s" h "app_gatts s ! h"] by (simp add: R)
  ultimately have "marks {h} s (s\<lparr>app_gatts := ?gs, bt := b\<rparr>)"
    unfolding marks_def using assms(2,3) by (intro exI [of _ ?gs] exI [of _ b]) (auto simp: nth_list_update split: if_splits)
  moreover have "accounted (s\<lparr>app_gatts := ?gs, bt := b\<rparr>)" using assms b(2) by (auto simp: accounted_def nth_list_update)
  ultimately show ?thesis using False b(1) R
    by (intro exI [of _ "s\<lparr>app_gatts := ?gs, bt := b\<rparr>"]) (simp add: rtbus_ble_app_gatt_register_ready_def Let_def set_gatt_def)
qed

lemma register_loop_marks:
  assumes "accounted s" "\<forall>h \<in> set hs. h < app_gatt_count s" "app_gatt_count s \<le> length (app_gatts s)"
  shows "\<exists>s'. register_pending_loop B hs s = (ok, s') \<and> accounted s' \<and> marks (set hs) s s'"
  using assms
proof (induction hs arbitrary: s)
  case Nil
  then show ?case using marks_refl by simp
next
  case (Cons h hs)
  obtain t where t: "rtbus_ble_app_gatt_register_ready B h s = (ok, t)" "accounted t" "marks {h} s t"
    using register_ready_marks [OF Cons.prems(1) _ Cons.prems(3), of h] Cons.prems(2) by auto
  then have "app_gatt_count t = app_gatt_count s" "length (app_gatts t) = length (app_gatts s)"
    by (auto simp: marks_def dest: unregistered_nth(1))
  then obtain u where "register_pending_loop B hs t = (ok, u)" "accounted u" "marks (set hs) t u"
    using Cons.IH [OF t(2)] Cons.prems(2,3) by auto
  then show ?case using t marks_trans [OF t(3), of "set hs" u] by simp
qed

text \<open>The invariant of the service over such a stack.\<close>

definition synced :: "('f, 'd, 'b, 'a) ble_scheme \<Rightarrow> bool" where
  "synced s \<longleftrightarrow> ble_inv s \<and> ble_ready s = en (bt s) \<and> accounted s"

lemma pending_marks:
  assumes "ble_inv s" "accounted s"
  shows "\<exists>s'. rtbus_ble_app_gatt_register_pending B s = (ok, s') \<and> accounted s' \<and> ble_inv s' \<and> marks {..<app_gatt_count s} s s'"
proof -
  have "app_gatt_count s \<le> length (app_gatts s)" using assms(1) by (simp add: ble_inv_def)
  then obtain s' where s': "register_pending_loop B [0..<app_gatt_count s] s = (ok, s')" "accounted s'"
    "marks (set [0..<app_gatt_count s]) s s'" using register_loop_marks [OF assms(2), of "[0..<app_gatt_count s]"] by auto
  moreover have "ble_inv s'" using same_inv [OF _ assms(1), of s'] s'(3) unfolding marks_def same_but_registered_def by blast
  ultimately show ?thesis by (auto simp: rtbus_ble_app_gatt_register_pending_def atLeast0LessThan)
qed

lemma enable_marks:
  assumes "synced s"
  shows "\<exists>t. ble_enable B s = (ok, t) \<and> synced t \<and> ble_ready t \<and> adv (bt t) = adv (bt s) \<and>
    (\<exists>gs b. t = s\<lparr>app_gatts := gs, bt := b, ble_ready := True\<rparr> \<and> unregistered gs = unregistered (app_gatts s))"
proof (cases "ble_ready s")
  case True
  then have "ble_enable B s = (ok, s)" "s = s\<lparr>app_gatts := app_gatts s, bt := bt s, ble_ready := True\<rparr>" by (simp_all add: ble_enable_def)
  then show ?thesis using assms True by blast
next
  case False
  obtain s1 where s1: "rtbus_ble_app_gatt_register_pending B s = (ok, s1)" "accounted s1" "ble_inv s1" "marks {..<app_gatt_count s} s s1"
    using pending_marks assms by (auto simp: synced_def)
  obtain gs b where m: "s1 = s\<lparr>app_gatts := gs, bt := b\<rparr>" "unregistered gs = unregistered (app_gatts s)" "stays en adv (bt s) b"
    using s1(4) unfolding marks_def by blast
  obtain r b1 where b1: "bt_enable B b = (r, b1)" by force
  have "\<not> en b" using m(3) False assms by (simp add: stays_def synced_def)
  from enables [OF this b1] have e: "r = ok" "en b1" "adv b1 = adv (bt s)" "reg b1 = reg b" using m(3) by (simp_all add: stays_def)
  define b2 where "b2 = (if CONFIG_BT_SMP B then snd (bt_conn_auth_info_cb_register B b1) else b1)"
  have e2: "en b2" "adv b2 = adv (bt s)" "reg b2 = reg b"
    using auth [of b1] takes_auth(2) [of b1] e by (simp_all add: b2_def stays_def)
  define b3 where "b3 = (if CONFIG_SETTINGS B then snd (settings_load B b2) else b2)"
  have e3: "en b3" "adv b3 = adv (bt s)" "reg b3 = reg b" "CONFIG_SETTINGS B \<Longrightarrow> settings_load B b2 = (ok, b3)"
    using settings [of b2] loads(1) [OF e2(1)] loads(2) [of b2] e2 by (simp_all add: b3_def stays_def prod_eq_iff)
  let ?t = "s\<lparr>app_gatts := gs, bt := b3, ble_ready := True\<rparr>"
  have A: "(if CONFIG_BT_SMP B then rtbus_ble_register_auth_info_callbacks B (s1\<lparr>bt := b1\<rparr>) else (ok, s1\<lparr>bt := b1\<rparr>)) = (ok, s1\<lparr>bt := b2\<rparr>)"
    using takes_auth(1) [of b1] by (auto simp: rtbus_ble_register_auth_info_callbacks_def b2_def Let_def case_prod_beta)
  have S: "(if CONFIG_SETTINGS B then settings_load B (bt (s1\<lparr>bt := b2\<rparr>)) else (ok, bt (s1\<lparr>bt := b2\<rparr>))) = (ok, b3)"
    using e3(4) by (simp add: b3_def)
  have E: "bt_enable B (bt s1) = (ok, b1)" using b1 e(1) by (simp add: m(1))
  have "ble_enable B s = (ok, s1\<lparr>bt := b2, bt := b3, ble_ready := True\<rparr>)"
    by (simp only: ble_enable_def False if_False s1(1) Let_def prod.case E A S simp_thms)
  then have "ble_enable B s = (ok, ?t)" by (simp add: m(1))
  moreover have "accounted ?t" using s1(2) e3(3) m(1) by (simp add: accounted_def)
  moreover have "ble_inv ?t" using s1(3) m(1) by (simp add: ble_inv_def)
  ultimately show ?thesis using m(2) e3 by (auto simp: synced_def)
qed

text \<open>All that a start does, on such a stack.\<close>

lemma adv_start_cases:
  assumes "synced s"
  obtains s2 gs b where "synced s2" "ble_ready s2" "s2 = rtbus_ble_ad_sync_service_uuid (s\<lparr>app_gatts := gs, bt := b, ble_ready := True\<rparr>)"
    "unregistered gs = unregistered (app_gatts s)" "\<forall>h < app_gatt_count s. gatt_registered (gs ! h)" "adv b = adv (bt s)"
    "rtbus_ble_adv_start_now B s =
       (if ble_advertising s then (ok, s2)
        else case (if gd_count (app_ad s) \<noteq> 0 \<or> gd_count (app_sd s) \<noteq> 0
              then bt_le_adv_start B (gap_items (app_ad s)) (gap_items (app_sd s)) b
              else bt_le_adv_start B (take (rtbus_ble_ad_count s2) (rtbus_ble_ad s2)) (rtbus_ble_sd B) b) of
          (ret, b') \<Rightarrow> if ret \<noteq> ok then (ret, s2\<lparr>bt := b'\<rparr>) else (ok, s2\<lparr>bt := b', ble_advertising := True\<rparr>))"
proof -
  obtain t gs b where t: "ble_enable B s = (ok, t)" "synced t" "ble_ready t" "adv (bt t) = adv (bt s)"
    "t = s\<lparr>app_gatts := gs, bt := b, ble_ready := True\<rparr>" "unregistered gs = unregistered (app_gatts s)"
    using enable_marks [OF assms] by blast
  obtain u where u: "rtbus_ble_app_gatt_register_pending B t = (ok, u)" "accounted u" "ble_inv u" "marks {..<app_gatt_count t} t u"
    using pending_marks t(2) by (auto simp: synced_def)
  obtain gs' b' where m: "u = t\<lparr>app_gatts := gs', bt := b'\<rparr>" "unregistered gs' = unregistered (app_gatts t)"
    "\<forall>h < length gs'. gatt_registered (gs' ! h) \<longleftrightarrow> h \<in> {..<app_gatt_count t} \<or> gatt_registered (app_gatts t ! h)" "stays en adv (bt t) b'"
    using u(4) unfolding marks_def by blast
  have u': "u = s\<lparr>app_gatts := gs', bt := b', ble_ready := True\<rparr>" using m(1) t(5) by simp
  define s2 where "s2 = rtbus_ble_ad_sync_service_uuid u"
  have "ble_inv s2" using u(3) by (simp add: s2_def ble_inv_def rtbus_ble_ad_sync_service_uuid_def)
  moreover have f: "ble_ready s2" "bt s2 = b'" "app_ad s2 = app_ad s" "app_sd s2 = app_sd s" "ble_advertising s2 = ble_advertising s"
    by (simp_all add: s2_def u' rtbus_ble_ad_sync_service_uuid_def)
  moreover have "accounted s2" using u(2) by (simp add: s2_def)
  moreover have "en b'" using m(4) t(2,3) by (simp add: stays_def synced_def)
  ultimately have "synced s2" by (simp add: synced_def)
  moreover have "\<forall>h < app_gatt_count s. gatt_registered (gs' ! h)"
  proof -
    have "app_gatt_count s \<le> length gs'" using u(3) by (simp add: ble_inv_def u')
    then show ?thesis using m(3) by (simp add: t(5))
  qed
  moreover have "rtbus_ble_adv_start_now B s =
      (if ble_advertising s then (ok, s2)
       else case (if gd_count (app_ad s) \<noteq> 0 \<or> gd_count (app_sd s) \<noteq> 0
             then bt_le_adv_start B (gap_items (app_ad s)) (gap_items (app_sd s)) b'
             else bt_le_adv_start B (take (rtbus_ble_ad_count s2) (rtbus_ble_ad s2)) (rtbus_ble_sd B) b') of
         (ret, b') \<Rightarrow> if ret \<noteq> ok then (ret, s2\<lparr>bt := b'\<rparr>) else (ok, s2\<lparr>bt := b', ble_advertising := True\<rparr>))"
    by (simp only: rtbus_ble_adv_start_now_def t(1) u(1) Let_def prod.case simp_thms if_False s2_def [symmetric] f)
  moreover have "adv b' = adv (bt s)" "unregistered gs' = unregistered (app_gatts s)"
    using m(2,4) t(4-6) by (simp_all add: stays_def)
  ultimately show thesis using that [of s2 b' gs'] f(1) s2_def u' by blast
qed

text \<open>Every step keeps the accounts together.\<close>

lemma adv_start_synced:
  assumes "synced s"
  shows "synced (snd (rtbus_ble_adv_start_now B s))"
proof -
  obtain s2 gs b where s2: "synced s2" "ble_ready s2" "s2 = rtbus_ble_ad_sync_service_uuid (s\<lparr>app_gatts := gs, bt := b, ble_ready := True\<rparr>)"
    and run: "rtbus_ble_adv_start_now B s =
       (if ble_advertising s then (ok, s2)
        else case (if gd_count (app_ad s) \<noteq> 0 \<or> gd_count (app_sd s) \<noteq> 0
              then bt_le_adv_start B (gap_items (app_ad s)) (gap_items (app_sd s)) b
              else bt_le_adv_start B (take (rtbus_ble_ad_count s2) (rtbus_ble_ad s2)) (rtbus_ble_sd B) b) of
          (ret, b') \<Rightarrow> if ret \<noteq> ok then (ret, s2\<lparr>bt := b'\<rparr>) else (ok, s2\<lparr>bt := b', ble_advertising := True\<rparr>))"
    by (rule adv_start_cases [OF assms]) (rule that)
  have b: "bt s2 = b" by (simp add: s2(3) rtbus_ble_ad_sync_service_uuid_def)
  have en: "en b" using s2(1,2) b by (simp add: synced_def)
  have start: "en b' \<and> reg b' = reg b" if "bt_le_adv_start B ad sd b = (r, b')" for ad sd r b'
    using advertises [OF en, of ad sd r b'] refuses_adv [of b ad sd] that en by auto
  have keep: "synced (s2\<lparr>bt := b'\<rparr>)" "synced (s2\<lparr>bt := b', ble_advertising := True\<rparr>)" if "en b'" "reg b' = reg b" for b'
    using s2(1,2) that b by (simp_all add: synced_def accounted_bt)
  show ?thesis
  proof (cases "ble_advertising s")
    case True
    then show ?thesis using run s2(1) by simp
  next
    case False
    obtain r b' where p: "(if gd_count (app_ad s) \<noteq> 0 \<or> gd_count (app_sd s) \<noteq> 0
              then bt_le_adv_start B (gap_items (app_ad s)) (gap_items (app_sd s)) b
              else bt_le_adv_start B (take (rtbus_ble_ad_count s2) (rtbus_ble_ad s2)) (rtbus_ble_sd B) b) = (r, b')" by force
    then have "en b' \<and> reg b' = reg b"
      using start by (cases "gd_count (app_ad s) \<noteq> 0 \<or> gd_count (app_sd s) \<noteq> 0") simp_all
    then show ?thesis using run False keep [of b'] unfolding p by simp
  qed
qed

lemma accounted_same:
  "reg (bt s') = reg (bt s) \<Longrightarrow> app_gatts s' = app_gatts s \<Longrightarrow> app_gatt_count s' = app_gatt_count s \<Longrightarrow> accounted s' = accounted s"
  by (simp add: accounted_def)

lemma reset_loop_reg:
  "reg (bt (gatt_reset_loop B hs s)) = reg (bt s) - {h \<in> set hs. gatt_registered (app_gatts s ! h)}"
  by (induction hs arbitrary: s) (auto simp: unregisters)

lemma reset_accounted:
  assumes "accounted s"
  shows "accounted (rtbus_ble_reset_app_state B s)"
proof -
  define s1 where "s1 = (if ble_ready s \<and> ble_advertising s then s\<lparr>bt := snd (bt_le_adv_stop B (bt s))\<rparr> else s)
    \<lparr>ble_advertising := False, current_conn := 0, gap_security_level := 0, gap_flags := 0, app_ad := zero_gap_data, app_sd := zero_gap_data\<rparr>"
  have "accounted s1" using assms by (simp add: s1_def accounted_bt not_registering)
  then have "reg (bt (gatt_reset_loop B [0..<app_gatt_count s1] s1)) = {}" by (auto simp: reset_loop_reg accounted_def)
  moreover have "app_gatt_count s1 = app_gatt_count s" by (simp add: s1_def)
  ultimately show ?thesis
    by (simp add: rtbus_ble_reset_app_state_def Let_def s1_def [symmetric] rtbus_ble_app_gatt_reset_def) (simp add: accounted_def)
qed

lemma register_now_accounted:
  assumes "synced s"
  shows "accounted (snd (rtbus_ble_app_gatt_notify_register_now B V X a s))"
proof (cases "app_gatt_count s < RTBUS_BLE_APP_GATT_MAX \<and> service_def_ok (cpu_mem V X s) a")
  case True
  define h where "h = app_gatt_count s"
  define t where "t = rtbus_ble_ad_sync_service_uuid ((set_gatt h (described_gatt (cpu_mem V X s) a) s)\<lparr>app_gatt_count := h + 1\<rparr>)"
  have acc: "accounted s" and len: "h < length (app_gatts s)" using assms True by (simp_all add: synced_def ble_inv_def h_def)
  have "\<not> gatt_registered (described_gatt m a)" for m
    by (simp add: described_gatt_def partial_gatt_def zero_gatt_def Let_def)
  then have t: "accounted t"
    using acc len unfolding t_def accounted_frames
    by (auto simp: accounted_def set_gatt_def nth_list_update h_def [symmetric] less_Suc_eq)
  have "app_gatt_count t = h + 1" "length (app_gatts t) = length (app_gatts s)"
    by (simp_all add: t_def rtbus_ble_ad_sync_service_uuid_def set_gatt_def)
  then obtain u where "rtbus_ble_app_gatt_register_ready B h t = (ok, u)" "accounted u"
    using register_ready_marks [OF t, of h] len by auto
  moreover have "rtbus_ble_app_gatt_notify_register_now B V X a s = (if ble_ready t
      then case rtbus_ble_app_gatt_register_ready B h t of (Inl e, s) \<Rightarrow> (Inl e, s) | (Inr _, s) \<Rightarrow> (Inr h, s) else (Inr h, t))"
    using register_now [OF refl, of s V X a B] True by (simp only: Let_def h_def t_def simp_thms)
  ultimately show ?thesis using t by simp
next
  case False
  from register_now_fails [OF refl this, of B] obtain e gs where
    R: "rtbus_ble_app_gatt_notify_register_now B V X a s = (Inl e, s\<lparr>app_gatts := gs\<rparr>)"
    and gs: "gs = app_gatts s \<or> gs = (app_gatts s)[app_gatt_count s := zero_gatt]" by blast
  have "gs ! h = app_gatts s ! h" if "h < app_gatt_count s" for h using gs that by auto
  then have "accounted (s\<lparr>app_gatts := gs\<rparr>)" using assms by (auto simp: synced_def accounted_def)
  then show ?thesis by (simp add: R)
qed

lemma value_set_accounted: "accounted s \<Longrightarrow> accounted (snd (rtbus_ble_app_gatt_value_set_now B V X req s))"
proof -
  assume s: "accounted s"
  have b: "bt (set_chrc x y z s) = bt s" for x y z by (simp add: set_chrc_def set_gatt_def)
  have "accounted (snd (case bt_gatt_notify B c h i v (bt s) of (ret, b) \<Rightarrow> (ret, (set_chrc x y z s)\<lparr>bt := b\<rparr>)))" for c h i v x y z
    using s by (subst accounted_call) (simp_all add: b not_registering)
  then show ?thesis using s by (simp add: rtbus_ble_app_gatt_value_set_now_def Let_def b split: sum.split)
qed

lemma gap_init_accounted: "accounted (snd (rtbus_ble_gap_init_now V X a s)) = accounted s"
  by (simp add: rtbus_ble_gap_init_now_def Let_def case_prod_beta)

lemma security_accounted: "accounted (snd (rtbus_ble_set_security_now B c l s)) = accounted s"
  by (simp add: rtbus_ble_set_security_now_def accounted_call not_registering)

lemma process_accounted:
  assumes "synced s"
  shows "accounted (rtbus_ble_process B V X code ctx s)"
proof -
  have acc: "accounted s" "accounted (snd (rtbus_ble_adv_start_now B s))"
    using assms adv_start_synced [OF assms] by (simp_all add: synced_def)
  have complete: "accounted (case p of (ret, s) \<Rightarrow> snd (native_service_complete_result V a (code ret) s)) = accounted (snd p)" for p a
    by (cases p) simp
  have answer: "accounted (case p of (Inl e, s) \<Rightarrow> case (Inl e, s) of (ret, s) \<Rightarrow> snd (native_service_complete_result V a (code ret) s)
      | (Inr h, s) \<Rightarrow> snd (native_service_complete_result V a (of_nat h) s)) = accounted (snd p)" for p :: "(errno + nat) \<times> _" and a
    by (cases p; cases "fst p") simp_all
  show ?thesis
    unfolding rtbus_ble_process_def Let_def rtbus_ble_pair_now_def
    by (simp add: acc complete answer reset_accounted security_accounted gap_init_accounted register_now_accounted [OF assms]
        value_set_accounted)
qed

lemma callbacks_accounted:
  assumes "accounted s"
  shows "accounted (rtbus_ble_connected B conn err s)" "accounted (rtbus_ble_disconnected conn reason s)"
    "accounted (rtbus_ble_recycled s)" "accounted (rtbus_ble_forget_stale_bond B conn e s)"
    "accounted (rtbus_ble_security_changed B conn level e s)" "accounted (rtbus_ble_app_gatt_ccc_changed h attr value s)"
  using assms by (simp_all add: rtbus_ble_connected_def rtbus_ble_disconnected_def rtbus_ble_recycled_def
      rtbus_ble_security_changed_def Let_def accounted_bt not_registering rtbus_ble_forget_stale_bond_def
      rtbus_ble_app_gatt_ccc_changed_def split: option.split prod.split)

lemma step_synced:
  assumes "ble_step B V X code T s s'" "synced s" and T: "\<And>b b'. T b b' \<Longrightarrow> en b' = en b \<and> reg b' = reg b"
  shows "synced s'"
proof -
  have inv: "ble_inv s'" using step_inv [OF assms(1)] assms(2) by (simp add: synced_def)
  have acc: "accounted s" using assms(2) by (simp add: synced_def)
  have sync: "synced s'" if "keeps s s'" "accounted s'" using that inv assms(2) by (simp add: synced_def keeps_def)
  show ?thesis
    using assms(1)
  proof cases
    case (request ctx)
    show ?thesis
    proof (cases "ctx_id ctx = APPLICATION_BLE_ADV_START")
      case True
      then have "s' = snd (rtbus_ble_adv_start_now B s)"
        using request by (simp add: rtbus_ble_process_def ble_ids)
      then show ?thesis using adv_start_synced [OF assms(2)] by simp
    next
      case False
      then have "keeps s s'" unfolding request by (intro process_keeps) simp
      moreover have "accounted s'" unfolding request by (rule process_accounted [OF assms(2)])
      ultimately show ?thesis by (rule sync)
    qed
  next
    case other
    then have "ble_ready s' = ble_ready s" "app_gatts s' = app_gatts s" "app_gatt_count s' = app_gatt_count s"
      by (simp_all add: ble_statics_def)
    moreover have "en (bt s') = en (bt s)" "reg (bt s') = reg (bt s)" using other T by auto
    ultimately show ?thesis using inv assms(2) accounted_same [of s' s] by (simp add: synced_def)
  qed (rule sync; simp add: callbacks_keep callbacks_accounted acc rtbus_ble_pairing_failed_def ccc_cfg_write_same)+
qed

lemma steps_synced:
  assumes "(ble_step B V X code T)\<^sup>*\<^sup>* s s'" "synced s" "\<And>b b'. T b b' \<Longrightarrow> en b' = en b \<and> reg b' = reg b"
  shows "synced s'"
  using assms(1,2) by (induction rule: rtranclp_induct) (auto intro: step_synced [OF _ _ assms(3)])

end

end
