(* ===== verification/Ble_Start.thy ===== *)
theory Ble_Start
  imports Ble_Stack
begin

text \<open>
  Starting to advertise (\<open>rtbus_ble_adv_start_now\<close> of \<open>rtbus_ble.c\<close>): what a start leaves over a stack that works, in every
  state that the service reaches, and what becomes of a start that fails after it has enabled the stack.
\<close>

section \<open>Demonstration\<close>

text \<open>The stack that keeps the list of its calls, with the refusals of the documentation.\<close>

definition demo_reg :: "bt_call list \<Rightarrow> nat set" where
  "demo_reg b = fold (\<lambda>c R. case c of Registered h \<Rightarrow> insert h R | Unregistered h \<Rightarrow> R - {h} | _ \<Rightarrow> R) b {}"

definition demo_adv :: "bt_call list \<Rightarrow> bool" where
  "demo_adv b = fold (\<lambda>c a. case c of Started _ \<Rightarrow> True | Stopped \<Rightarrow> False | _ \<Rightarrow> a) b False"

lemma demo_account [simp]:
  "demo_reg [] = {}" "demo_reg (b @ [c]) = (case c of Registered h \<Rightarrow> insert h (demo_reg b) | Unregistered h \<Rightarrow> demo_reg b - {h} | _ \<Rightarrow> demo_reg b)"
  "\<not> demo_adv []" "demo_adv (b @ [c]) = (case c of Started _ \<Rightarrow> True | Stopped \<Rightarrow> False | _ \<Rightarrow> demo_adv b)"
  by (simp_all add: demo_reg_def demo_adv_def split: bt_call.split)


text \<open>One whose settings cannot be loaded the first time.\<close>

definition demo_bt3 :: "bt_call list bt_stack" where
  "demo_bt3 = demo_bt\<lparr>settings_load := (\<lambda>b. if b = [Enabled] then (Inl EIO, b @ [Stopped]) else (ok, b))\<rparr>"

interpretation demo_stays: bt_stays demo_bt3 "\<lambda>b. Enabled \<in> set b" demo_adv
  by unfold_locales (auto simp: stays_def demo_bt3_def demo_bt_def demo_adv_def)


section \<open>Properties\<close>



text \<open>C32: a start that fails after it has enabled the stack never comes back.  If the stack was enabled but the callbacks
  for pairing could not be registered or the settings not be loaded, so that the service is not ready, it takes the stack
  for not enabled for ever: whatever happens later, requests, callbacks and steps of the stack in any order, each start
  fails, because a stack that runs refuses to be enabled again, and nothing is advertised any more.\<close>

theorem interrupted_start_stays_down:
  fixes s :: "('f, 'd, 'b, 'a) ble_scheme"
  assumes "bt_stays B en adv" "\<And>b b'. T b b' \<Longrightarrow> en b' = en b \<and> (adv b' \<longrightarrow> adv b)"
    and "\<not> ble_ready s" "\<not> ble_advertising s" "rtbus_ble_app_gatt_register_pending B s = (ok, s0)"
    and "bt_enable B (bt s0) = (ok, b0)" "en b0" "\<not> adv b0"
    and "rtbus_ble_adv_start_now B s = (r, s1)" "\<not> ble_ready s1" "(ble_step B V X code T)\<^sup>*\<^sup>* s1 s2"
  shows "r \<noteq> ok \<and> \<not> ble_ready s2 \<and> fst (rtbus_ble_adv_start_now B s2) \<noteq> ok \<and>
    en (bt s2) \<and> \<not> ble_advertising s2 \<and> \<not> adv (bt s2)"
proof -
  note S = assms(1)
  let ?keeps = "bt_stays.keeps en adv"
  define t where "t = s0\<lparr>bt := b0\<rparr>"
  have "?keeps s s0" using bt_stays.register_pending_keeps [OF S bt_stays.keeps_refl [OF S], of s] by (simp add: assms(5))
  then have t: "\<not> ble_ready t" "\<not> ble_advertising t" "en (bt t)" "\<not> adv (bt t)"
    using assms(3,4,7,8) by (simp_all add: t_def bt_stays.keeps_def [OF S])
  obtain ra ta where A: "(if CONFIG_BT_SMP B then rtbus_ble_register_auth_info_callbacks B t else (ok, t)) = (ra, ta)" by force
  then have ta: "?keeps t ta"
    using bt_stays.keeps_bt [OF S bt_stays.keeps_refl [OF S] bt_stays.auth [OF S], of t] bt_stays.keeps_refl [OF S, of t]
    by (auto simp: rtbus_ble_register_auth_info_callbacks_def Let_def case_prod_beta split: if_splits)
  obtain rs bs where L: "(if CONFIG_SETTINGS B then settings_load B (bt ta) else (ok, bt ta)) = (rs, bs)" by force
  then have "stays en adv (bt ta) bs"
    using bt_stays.settings [OF S, of "bt ta"] by (auto simp: stays_def split: if_splits)
  then have tb: "?keeps t (ta\<lparr>bt := bs\<rparr>)" by (rule bt_stays.keeps_bt [OF S ta])
  have E: "ble_enable B s = (if ra \<noteq> ok then (ra, ta) else if rs \<noteq> ok then (rs, ta\<lparr>bt := bs\<rparr>) else (ok, ta\<lparr>bt := bs, ble_ready := True\<rparr>))"
    using A L by (simp only: ble_enable_def assms(3,5,6) if_False Let_def prod.case t_def simp_thms)
  have failed: "\<not> (ra = ok \<and> rs = ok)"
  proof
    assume "ra = ok \<and> rs = ok"
    then have en: "ble_enable B s = (ok, ta\<lparr>bt := bs, ble_ready := True\<rparr>)" using E by simp
    obtain rp u where P: "rtbus_ble_app_gatt_register_pending B (ta\<lparr>bt := bs, ble_ready := True\<rparr>) = (rp, u)" by force
    have "ble_ready u"
      using bt_stays.register_pending_keeps [OF S bt_stays.keeps_refl [OF S], of "ta\<lparr>bt := bs, ble_ready := True\<rparr>"]
      by (simp add: P bt_stays.keeps_def [OF S])
    then have "ble_ready (rtbus_ble_ad_sync_service_uuid u)" by (simp add: rtbus_ble_ad_sync_service_uuid_def)
    moreover have "s1 = snd (rtbus_ble_adv_start_now B s)" using assms(9) by simp
    ultimately have "ble_ready s1"
      using \<open>ble_ready u\<close> unfolding rtbus_ble_adv_start_now_def en P Let_def prod.case by (simp add: case_prod_beta)
    then show False using assms(10) by simp
  qed
  then have "r \<noteq> ok" "?keeps t s1"
    using E ta tb assms(9) by (auto simp: rtbus_ble_adv_start_now_def split: if_splits)
  moreover from this t have s1: "en (bt s1)" "\<not> adv (bt s1)" "\<not> ble_advertising s1" by (auto simp: bt_stays.keeps_def [OF S])
  moreover have "?keeps s1 s2" by (rule bt_stays.steps_keep [OF S assms(11,10) s1(1) assms(2)])
  moreover from this s1 assms(10) have "\<not> ble_ready s2" "en (bt s2)" by (simp_all add: bt_stays.keeps_def [OF S])
  moreover note bt_stays.refused_start(2) [OF S this]
  ultimately show ?thesis by (simp add: bt_stays.keeps_def [OF S])
qed

theorem interrupted_start_stays_down_witness:
  "fst (rtbus_ble_adv_start_now demo_bt3 demo_ble) = Inl EIO \<and>
   fst (rtbus_ble_adv_start_now demo_bt3 (snd (rtbus_ble_adv_start_now demo_bt3 demo_ble))) \<noteq> ok"
proof -
  obtain r s1 where S: "rtbus_ble_adv_start_now demo_bt3 demo_ble = (r, s1)" by force
  have p: "rtbus_ble_app_gatt_register_pending demo_bt3 demo_ble = (ok, demo_ble)"
    by (simp add: rtbus_ble_app_gatt_register_pending_def demo_ble_fields)
  have b: "bt_enable demo_bt3 (bt demo_ble) = (ok, [Enabled])" by (simp add: demo_bt3_def demo_bt_def demo_ble_fields)
  have f: "\<not> ble_ready demo_ble" "\<not> ble_advertising demo_ble" using demo_ble_fields by (simp_all add: ble_statics_def)
  have "ble_enable demo_bt3 demo_ble = (Inl EIO, demo_ble\<lparr>bt := [Enabled, Stopped]\<rparr>)"
    using f p by (simp add: ble_enable_def b rtbus_ble_register_auth_info_callbacks_def Let_def) (simp add: demo_bt3_def demo_bt_def)
  then have r: "r = Inl EIO" "\<not> ble_ready s1" using S f by (auto simp: rtbus_ble_adv_start_now_def)
  have "\<not> demo_adv [Enabled]" by (simp add: demo_adv_def)
  from interrupted_start_stays_down [OF demo_stays.bt_stays_axioms _ f p b _ this S r(2) rtranclp.rtrancl_refl, where T = "\<lambda>_ _. False"]
  show ?thesis by (simp add: S r(1))
qed

end
