(* ===== verification/Ble_Events.thy ===== *)
theory Ble_Events
  imports Ble_Machine
begin

text \<open>
  The events of the Bluetooth service as the application reads them: the decoders of
  \<open>system/include/runtime_ble_api.h\<close>, and that each event the service queues is read back by the decoder
  that it is meant for and by no other.
\<close>

section \<open>Events of the Bluetooth service\<close>

text \<open>The decoders of \<open>runtime_ble_api.h\<close>: what they store, if they accept the event.\<close>

definition runtime_event_is_ble_disconnected :: "runtime_event_tlv \<Rightarrow> byte option" where
  "runtime_event_is_ble_disconnected event =
     (if ev_group event \<noteq> RUNTIME_EVENT_GROUP_BLE \<or> ev_tag event \<noteq> RUNTIME_EVENT_BLE_DISCONNECTED \<or> ev_len event \<noteq> 1
      then None else Some (ev_value event ! 0))"

definition runtime_event_is_ble_connect_failed :: "runtime_event_tlv \<Rightarrow> byte option" where
  "runtime_event_is_ble_connect_failed event =
     (if ev_group event \<noteq> RUNTIME_EVENT_GROUP_BLE \<or> ev_tag event \<noteq> RUNTIME_EVENT_BLE_CONNECT_FAILED \<or> ev_len event \<noteq> 1
      then None else Some (ev_value event ! 0))"

definition runtime_event_is_ble_connected :: "runtime_event_tlv \<Rightarrow> 32 word option" where
  "runtime_event_is_ble_connected event =
     (if ev_group event \<noteq> RUNTIME_EVENT_GROUP_BLE \<or> ev_tag event \<noteq> RUNTIME_EVENT_BLE_CONNECTED \<or> ev_len event \<noteq> 4
      then None
      else Some (ucast (ev_value event ! 0) OR push_bit 8 (ucast (ev_value event ! 1)) OR
        push_bit 16 (ucast (ev_value event ! 2)) OR push_bit 24 (ucast (ev_value event ! 3))))"

definition runtime_event_is_ble_recycled :: "runtime_event_tlv \<Rightarrow> bool" where
  "runtime_event_is_ble_recycled event \<longleftrightarrow>
     \<not> (ev_group event \<noteq> RUNTIME_EVENT_GROUP_BLE \<or> ev_tag event \<noteq> RUNTIME_EVENT_BLE_RECYCLED \<or> ev_len event \<noteq> 0)"

definition runtime_event_is_ble_security_changed :: "runtime_event_tlv \<Rightarrow> (byte \<times> byte) option" where
  "runtime_event_is_ble_security_changed event =
     (if ev_group event \<noteq> RUNTIME_EVENT_GROUP_BLE \<or> ev_tag event \<noteq> RUNTIME_EVENT_BLE_SECURITY_CHANGED \<or> ev_len event \<noteq> 2
      then None else Some (ev_value event ! 0, ev_value event ! 1))"

lemma store_u32_back:
  "ucast (rtbus_ble_store_u32_le w ! 0) OR push_bit 8 (ucast (rtbus_ble_store_u32_le w ! 1)) OR
     push_bit 16 (ucast (rtbus_ble_store_u32_le w ! 2)) OR push_bit 24 (ucast (rtbus_ble_store_u32_le w ! 3)) = w"
proof (rule bit_word_eqI)
  fix n assume n: "n < LENGTH(32)"
  let ?bs = "rtbus_ble_store_u32_le w"
  show "bit (ucast (?bs ! 0) OR push_bit 8 (ucast (?bs ! 1)) OR push_bit 16 (ucast (?bs ! 2)) OR
      push_bit 24 (ucast (?bs ! 3)) :: 32 word) n = bit w n"
    using n by (cases "n < 8"; cases "n < 16"; cases "n < 24") (auto simp: bit_simps rtbus_ble_store_u32_le_def)
qed

text \<open>What an event reads as.\<close>

definition ble_event where
  "ble_event event = (runtime_event_is_ble_connected event, runtime_event_is_ble_connect_failed event,
     runtime_event_is_ble_disconnected event, runtime_event_is_ble_recycled event,
     runtime_event_is_ble_security_changed event)"

lemmas event_defs = RUNTIME_EVENT_GROUP_BLE_def RUNTIME_EVENT_BLE_CONNECTED_def RUNTIME_EVENT_BLE_DISCONNECTED_def
  RUNTIME_EVENT_BLE_RECYCLED_def RUNTIME_EVENT_BLE_SECURITY_CHANGED_def RUNTIME_EVENT_BLE_CONNECT_FAILED_def

lemmas decoder_defs = runtime_event_is_ble_connected_def runtime_event_is_ble_connect_failed_def
  runtime_event_is_ble_disconnected_def runtime_event_is_ble_recycled_def runtime_event_is_ble_security_changed_def

lemma emit_room:
  fixes s :: "('f, 'a) native_scheme"
  assumes "length (event_msgq s) < 8" "unat len \<le> 8" "len \<noteq> 0 \<Longrightarrow> length v = unat len"
  shows "event_msgq (snd (native_service_emit_event g tag (if len = 0 then None else Some v) len s)) = event_msgq s @
    [\<lparr>ev_group = g, ev_tag = tag, ev_len = len, ev_flags = 0,
      ev_value = (if len = 0 then [] else v) @ drop (unat len) (replicate RUNTIME_EVENT_VALUE_MAX 0)\<rparr>]"
  using assms by (auto simp: native_service_emit_event_def Let_def layout_defs k_event_post_def)

lemma emit_event:
  fixes s :: "('f, 'a) native_scheme"
  assumes "length (event_msgq s) < 8" "length v = unat len" "len \<noteq> 0" "unat len \<le> 8"
  shows "event_msgq (snd (native_service_emit_event g tag (Some v) len s)) =
    event_msgq s @ [\<lparr>ev_group = g, ev_tag = tag, ev_len = len, ev_flags = 0,
      ev_value = v @ drop (unat len) (replicate RUNTIME_EVENT_VALUE_MAX 0)\<rparr>]"
  using emit_room [of s len v g tag] assms by simp

text \<open>C33: an event that the service queues is read back by exactly one of the application's decoders, with
  what was put in: the connection's handle or the error, the reason, nothing, or the level and error
  of a security change.\<close>

theorem ble_events_decode:
  fixes s :: "('f, 'd, 'b, 'a) ble_scheme"
  assumes "length (event_msgq s) < 8"
  shows "(\<exists>e. event_msgq (rtbus_ble_connected B conn err s) = event_msgq s @ [e] \<and>
       ble_event e = (if err = 0 then (Some conn, None, None, False, None) else (None, Some err, None, False, None))) \<and>
    (\<exists>e. event_msgq (rtbus_ble_disconnected conn reason s) = event_msgq s @ [e] \<and>
       ble_event e = (None, None, Some reason, False, None)) \<and>
    (\<exists>e. event_msgq (rtbus_ble_recycled s) = event_msgq s @ [e] \<and> ble_event e = (None, None, None, True, None)) \<and>
    (\<exists>e. event_msgq (rtbus_ble_security_changed B conn level serr s) = event_msgq s @ [e] \<and>
       ble_event e = (None, None, None, False, Some (level, bt_security_code serr)))"
proof (intro conjI)
  have l: "length (rtbus_ble_store_u32_le w) = 4" for w by (simp add: rtbus_ble_store_u32_le_def)
  show "\<exists>e. event_msgq (rtbus_ble_connected B conn err s) = event_msgq s @ [e] \<and>
      ble_event e = (if err = 0 then (Some conn, None, None, False, None) else (None, Some err, None, False, None))"
  proof (cases "err = 0")
    case True
    then have "event_msgq (rtbus_ble_connected B conn err s) = event_msgq s @ [\<lparr>ev_group = RUNTIME_EVENT_GROUP_BLE,
        ev_tag = RUNTIME_EVENT_BLE_CONNECTED, ev_len = 4, ev_flags = 0,
        ev_value = rtbus_ble_store_u32_le conn @ drop 4 (replicate RUNTIME_EVENT_VALUE_MAX 0)\<rparr>]"
      using assms by (simp add: rtbus_ble_connected_def Let_def emit_event l)
    then show ?thesis using True store_u32_back [of conn]
      by (simp add: ble_event_def decoder_defs event_defs nth_append l)
  next
    case False
    then show ?thesis using assms
      by (simp add: rtbus_ble_connected_def Let_def emit_event ble_event_def decoder_defs event_defs)
  qed
  show "\<exists>e. event_msgq (rtbus_ble_disconnected conn reason s) = event_msgq s @ [e] \<and>
      ble_event e = (None, None, Some reason, False, None)"
    using assms by (simp add: rtbus_ble_disconnected_def Let_def emit_event ble_event_def decoder_defs event_defs)
  show "\<exists>e. event_msgq (rtbus_ble_recycled s) = event_msgq s @ [e] \<and> ble_event e = (None, None, None, True, None)"
    using assms emit_room [of "s\<lparr>current_conn := 0\<rparr>" 0 "[]"]
    by (simp add: rtbus_ble_recycled_def ble_event_def decoder_defs event_defs)
  show "\<exists>e. event_msgq (rtbus_ble_security_changed B conn level serr s) = event_msgq s @ [e] \<and>
      ble_event e = (None, None, None, False, Some (level, bt_security_code serr))"
  proof -
    have "event_msgq (rtbus_ble_forget_stale_bond B conn serr t) = event_msgq t" for t :: "('f, 'd, 'b, 'a) ble_scheme"
      by (simp add: rtbus_ble_forget_stale_bond_def split: option.split)
    then have "event_msgq (rtbus_ble_security_changed B conn level serr s) = event_msgq s @ [\<lparr>ev_group = RUNTIME_EVENT_GROUP_BLE,
        ev_tag = RUNTIME_EVENT_BLE_SECURITY_CHANGED, ev_len = 2, ev_flags = 0,
        ev_value = [level, bt_security_code serr] @ drop 2 (replicate RUNTIME_EVENT_VALUE_MAX 0)\<rparr>]"
      using assms by (simp add: rtbus_ble_security_changed_def Let_def emit_event)
    then show ?thesis by (simp add: ble_event_def decoder_defs event_defs)
  qed
qed

theorem ble_events_decode_witness:
  "\<exists>e. event_msgq (rtbus_ble_connected demo_bt 0x20001234 0 demo_ble) = [e] \<and>
     runtime_event_is_ble_connected e = Some 0x20001234"
proof -
  have "event_msgq demo_ble = []" by (simp add: demo_ble_def demo_serial_def demo_cli_def demo_native_def
      demo_rtbus_def rtbus.defs ble.defs serial.defs cli.defs native.defs)
  then show ?thesis using ble_events_decode [of demo_ble demo_bt "0x20001234" 0 0 0 SECURITY_SUCCESS]
    by (auto simp: ble_event_def)
qed

end
