(* ===== verification/Delay.thy ===== *)
theory Delay
  imports Native
begin

text \<open>
  Waiting in the application: \<open>native_api_k_delay\<close> (\<open>native_service/api.c\<close>) over a kernel and a
  callback of the application that keep a contract, the locale \<open>waiting_application\<close>.  A delay returns, not
  before its time unless an upgrade asked the application to stop, and every event that was queued
  before or during the delay has gone to the callback, in order: the history of what was queued and the log of
  what the callback got are compared.
\<close>

section \<open>The contract of waiting\<close>

text \<open>The clock reads \<open>clk\<close> and is never turned back.  A wait ends at a later time, or early by one of
  finitely many wake-ups (\<open>wakes\<close>), and meanwhile the rest of the system may queue events behind those
  that wait; \<open>came\<close> is the history of all events that were ever queued.  The callback returns, takes note of its
  event (\<open>log\<close>) and leaves the queue alone.  Neither log nor history is the delay's own: nothing that the delay
  itself does to the queue or to the wake-up flags changes them.\<close>

locale waiting_application =
  fixes K :: "('f, 'a) native_scheme kernel" and A :: "('f, 'a) native_scheme app" and cb :: nat
    and log came :: "('f, 'a) native_scheme \<Rightarrow> runtime_event_tlv list" and clk :: "('f, 'a) native_scheme \<Rightarrow> int"
    and wakes :: "('f, 'a) native_scheme \<Rightarrow> nat"
  assumes reads_clock: "k_uptime_get K s = (clk s, s)"
    and answers: "event_callback s = cb \<Longrightarrow> \<exists>s'. app_callback A cb e s = Some s' \<and> event_msgq s' = event_msgq s \<and>
      event_callback s' = cb \<and> log s' = log s @ [e] \<and> came s' = came s \<and> (clk s < clk s' \<or> clk s = clk s' \<and> wakes s' \<le> wakes s)"
    and listens: "cb \<noteq> NULL"
    and queue_only: "log (s\<lparr>event_msgq := q\<rparr>) = log s" "clk (s\<lparr>event_msgq := q\<rparr>) = clk s"
      "wakes (s\<lparr>event_msgq := q\<rparr>) = wakes s" "came (s\<lparr>event_msgq := q\<rparr>) = came s"
    and wake_only: "log (s\<lparr>wake_event := b\<rparr>) = log s" "clk (s\<lparr>wake_event := b\<rparr>) = clk s"
      "wakes (s\<lparr>wake_event := b\<rparr>) = wakes s" "came (s\<lparr>wake_event := b\<rparr>) = came s"
    and waits: "event_callback s = cb \<Longrightarrow> 0 < n \<Longrightarrow> \<exists>es. event_msgq (k_block_ms K n s) = event_msgq s @ es \<and>
      came (k_block_ms K n s) = came s @ es \<and> event_callback (k_block_ms K n s) = cb \<and> log (k_block_ms K n s) = log s \<and>
      (clk s < clk (k_block_ms K n s) \<or> clk s = clk (k_block_ms K n s) \<and> wakes (k_block_ms K n s) < wakes s)"
begin

definition later :: "('f, 'a) native_scheme \<Rightarrow> ('f, 'a) native_scheme \<Rightarrow> bool" where
  "later s s' \<longleftrightarrow> clk s < clk s' \<or> clk s = clk s' \<and> wakes s' \<le> wakes s"

lemma later_refl [simp]: "later s s" by (simp add: later_def)

lemma later_trans [trans]: "later s s' \<Longrightarrow> later s' s'' \<Longrightarrow> later s s''" by (auto simp: later_def)

lemmas frame = queue_only wake_only

lemma dispatches_all:
  "event_callback s = cb \<Longrightarrow> \<exists>s'. dispatch_events A s = Some s' \<and> event_msgq s' = [] \<and> event_callback s' = cb \<and>
     log s' = log s @ event_msgq s \<and> came s' = came s \<and> later s s'"
proof (induction "event_msgq s" arbitrary: s)
  case Nil
  then show ?case by (subst dispatch_events.simps) simp
next
  case (Cons e rest)
  obtain s1 where s1: "app_callback A cb e (s\<lparr>event_msgq := rest\<rparr>) = Some s1" "event_msgq s1 = rest"
    "event_callback s1 = cb" "log s1 = log s @ [e]" "later s s1" "came s1 = came s"
    using answers [of "s\<lparr>event_msgq := rest\<rparr>" e] Cons.prems by (auto simp: later_def frame)
  have "dispatch_events A s = dispatch_events A s1"
    using Cons.hyps(2) [symmetric] Cons.prems s1(1) listens by (subst dispatch_events.simps) simp
  then show ?case using Cons.hyps(1) [of s1] s1 Cons.hyps(2) [symmetric] later_trans [OF s1(5)] by auto
qed

text \<open>What a delay leaves: exactly what came, in order and each once, and the reason to return.\<close>

definition delivered :: "('f, 'a) native_scheme \<Rightarrow> ('f, 'a) native_scheme \<Rightarrow> bool" where
  "delivered s s' \<longleftrightarrow> (\<exists>es. came s' = came s @ es \<and> log s' @ event_msgq s' = log s @ event_msgq s @ es)"

lemma delivered_trans: "delivered s s' \<Longrightarrow> delivered s' s'' \<Longrightarrow> delivered s s''"
  unfolding delivered_def by (metis append_assoc)

definition waited :: "int \<Rightarrow> ('f, 'a) native_scheme \<Rightarrow> rc \<Rightarrow> ('f, 'a) native_scheme \<Rightarrow> bool" where
  "waited deadline s r s' \<longleftrightarrow> delivered s s' \<and>
     (r = ok \<and> deadline \<le> clk s' \<and> event_msgq s' = [] \<or> r = Inl EINTR \<and> patch_handoff s')"

lemma waited_trans: "delivered s s1 \<Longrightarrow> waited deadline s1 r s' \<Longrightarrow> waited deadline s r s'"
  unfolding waited_def using delivered_trans by blast

lemma delay_loop_returns:
  "event_callback s = cb \<Longrightarrow> \<exists>r s'. k_delay_loop K A deadline s = Some (r, s') \<and> waited deadline s r s'"
proof (induction s rule: wf_induct_rule [OF wf_measures [of "[\<lambda>s. nat (deadline - clk s), wakes]"]])
  case (1 s)
  consider (stop) "patch_handoff s" | (over) "\<not> patch_handoff s" "deadline \<le> clk s"
    | (wait) "\<not> patch_handoff s" "clk s < deadline" by linarith
  then show ?case
  proof cases
    case stop
    then show ?thesis by (subst k_delay_loop.simps) (simp add: reads_clock waited_def delivered_def)
  next
    case over
    obtain s' where "dispatch_events A s = Some s'" "event_msgq s' = []" "log s' = log s @ event_msgq s" "later s s'" "came s' = came s"
      using dispatches_all [OF 1(2)] by blast
    then show ?thesis using over by (subst k_delay_loop.simps) (auto simp: reads_clock waited_def delivered_def later_def)
  next
    case wait
    let ?n = "deadline - clk s"
    define s1 where "s1 = k_block_ms K ?n (s\<lparr>wake_event := 0\<rparr>)"
    obtain es where s1: "event_msgq s1 = event_msgq s @ es" "event_callback s1 = cb" "log s1 = log s" "came s1 = came s @ es"
      "clk s < clk s1 \<or> clk s = clk s1 \<and> wakes s1 < wakes s"
      using waits [of "s\<lparr>wake_event := 0\<rparr>" ?n] 1(2) wait(2) unfolding s1_def by (auto simp: frame)
    define step where "step = (if wake_event s1 AND NATIVE_WAKE_ALL AND NATIVE_WAKE_IRQ \<noteq> 0 then dispatch_events A s1 else Some s1)"
    have "\<exists>s2. step = Some s2 \<and> event_callback s2 = cb \<and> later s1 s2 \<and>
        log s2 @ event_msgq s2 = log s @ event_msgq s @ es \<and> came s2 = came s @ es"
      using dispatches_all [OF s1(2)] s1
      by (cases "wake_event s1 AND NATIVE_WAKE_ALL AND NATIVE_WAKE_IRQ \<noteq> 0") (auto simp: step_def)
    then obtain s2 where s2: "step = Some s2" "event_callback s2 = cb" "later s1 s2"
      "delivered s s2" by (auto simp: delivered_def)
    have "(s2, s) \<in> measures [\<lambda>s. nat (deadline - clk s), wakes]"
      using s1(5) s2(3) wait(2) by (auto simp: later_def)
    from 1(1) [OF this s2(2)] obtain r s' where R: "k_delay_loop K A deadline s2 = Some (r, s')" "waited deadline s2 r s'"
      by blast
    have "k_delay_loop K A deadline s = k_delay_loop K A deadline s2"
      using wait s2(1) by (subst k_delay_loop.simps) (simp add: reads_clock s1_def [symmetric] step_def [symmetric])
    then show ?thesis using R waited_trans [OF s2(4)] by auto
  qed
qed

lemma delay_returns:
  assumes "event_callback s = cb"
  shows "\<exists>r s'. native_api_k_delay K A ms s = Some (r, s') \<and> waited (clk s + uint ms) s r s'"
proof -
  obtain s1 where s1: "dispatch_events A s = Some s1" "event_msgq s1 = []" "event_callback s1 = cb"
    "delivered s s1" using dispatches_all [OF assms] by (auto simp: delivered_def)
  then obtain r s' where "k_delay_loop K A (clk s + uint ms) s1 = Some (r, s')" "waited (clk s + uint ms) s1 r s'"
    using delay_loop_returns by blast
  then show ?thesis using s1 waited_trans [of s s1] by (auto simp: native_api_k_delay_def reads_clock)
qed

end

section \<open>Property\<close>

text \<open>C24: a delay returns and delivers.  The application's delay ends; it ends well only when its time is
  over, with every event that waited or was queued meanwhile handed to the callback in order, none lost and none twice: the
  log of the callback grows by the events that waited and by just those that the history of the queue has grown by.  It
  ends early only because the application is asked to stop, and then what is not yet handed over is still queued.\<close>

theorem delay_waits_and_delivers:
  assumes "waiting_application K A cb log came clk wakes" "event_callback s = cb"
  shows "\<exists>r s' es. native_api_k_delay K A ms s = Some (r, s') \<and>
    came s' = came s @ es \<and> log s' @ event_msgq s' = log s @ event_msgq s @ es \<and>
    (r = ok \<and> clk s + uint ms \<le> clk s' \<and> event_msgq s' = [] \<or> r = Inl EINTR \<and> patch_handoff s')"
  using waiting_application.delay_returns [OF assms, of ms] waiting_application.waited_def [OF assms(1)]
    waiting_application.delivered_def [OF assms(1)] by auto

text \<open>A demonstration: the clock is the semaphore's counter, each wait takes the time it asks for and one
  event arrives during it.  The state carries the log and the history.\<close>

definition demo_waiting :: "(demo_flash, runtime_event_tlv list \<times> runtime_event_tlv list) native_scheme kernel" where
  "demo_waiting = \<lparr>k_uptime_get = (\<lambda>s. (int (event_sem s), s)), k_sleep_ms = (\<lambda>n s. s),
     k_block_ms = (\<lambda>n s.
       let s1 = snd (native_service_emit_event 1 3 None 0 (s\<lparr>event_sem := event_sem s + nat n\<rparr>))
       in native.more_update (\<lambda>(l, c). (l, c @ drop (length (event_msgq s)) (event_msgq s1))) s1)\<rparr>"

definition demo_delaying :: "(demo_flash, runtime_event_tlv list \<times> runtime_event_tlv list) native_scheme app" where
  "demo_delaying = \<lparr>app_entry = (\<lambda>_ s. Some s), app_callback = (\<lambda>_ e s. Some (native.more_update (\<lambda>(l, c). (l @ [e], c)) s))\<rparr>"

definition demo_delay_state :: "(demo_flash, runtime_event_tlv list \<times> runtime_event_tlv list) native_scheme" where
  "demo_delay_state = native.extend (demo_native\<lparr>event_callback := 0x901\<rparr>) ([], [])"

lemma demo_delay_fields: "event_callback demo_delay_state = 0x901" "event_sem demo_delay_state = 0"
  "native.more demo_delay_state = ([], [])" "event_msgq demo_delay_state = []"
proof -
  have "event_sem demo_native = 0" by (simp add: demo_native_def demo_rtbus_def rtbus.defs native.defs)
  then show "event_callback demo_delay_state = 0x901" "event_sem demo_delay_state = 0"
    "native.more demo_delay_state = ([], [])" "event_msgq demo_delay_state = []"
    by (simp_all add: demo_delay_state_def native.defs demo_native_fields)
qed

interpretation demo_wait: waiting_application demo_waiting demo_delaying "0x901" "\<lambda>s. fst (native.more s)"
  "\<lambda>s. snd (native.more s)" "\<lambda>s. int (event_sem s)" "\<lambda>_. 0"
proof unfold_locales
  fix s :: "(demo_flash, runtime_event_tlv list \<times> runtime_event_tlv list) native_scheme" and n :: int
  assume "event_callback s = 0x901" "0 < n"
  then show "\<exists>es. event_msgq (k_block_ms demo_waiting n s) = event_msgq s @ es \<and>
      snd (native.more (k_block_ms demo_waiting n s)) = snd (native.more s) @ es \<and>
      event_callback (k_block_ms demo_waiting n s) = 0x901 \<and> fst (native.more (k_block_ms demo_waiting n s)) = fst (native.more s) \<and>
      (int (event_sem s) < int (event_sem (k_block_ms demo_waiting n s)) \<or>
       int (event_sem s) = int (event_sem (k_block_ms demo_waiting n s)) \<and> (0 :: nat) < 0)"
    by (cases "length (event_msgq s) < NATIVE_EVENT_QUEUE_DEPTH")
      (simp_all add: demo_waiting_def native_service_emit_event_def k_event_post_def Let_def case_prod_beta)
qed (simp_all add: demo_waiting_def demo_delaying_def case_prod_beta)

theorem delay_waits_and_delivers_witness:
  "\<exists>r s'. native_api_k_delay demo_waiting demo_delaying 20 demo_delay_state = Some (r, s') \<and>
     (r = ok \<and> 20 \<le> event_sem s' \<and> fst (native.more s') = snd (native.more s') \<or> r = Inl EINTR)"
proof -
  note l = demo_delay_fields
  obtain r s' es where D: "native_api_k_delay demo_waiting demo_delaying 20 demo_delay_state = Some (r, s')"
    "snd (native.more s') = es" "fst (native.more s') @ event_msgq s' = es"
    "r = ok \<and> int (event_sem demo_delay_state) + uint (20 :: 32 word) \<le> int (event_sem s') \<and> event_msgq s' = [] \<or>
     r = Inl EINTR \<and> patch_handoff s'"
    using delay_waits_and_delivers [OF demo_wait.waiting_application_axioms l(1), of 20] by (auto simp: l)
  from D(2-4) have "r = ok \<and> 20 \<le> event_sem s' \<and> fst (native.more s') = snd (native.more s') \<or> r = Inl EINTR"
    by (auto simp: l(2))
  then show ?thesis using D(1) by blast
qed

end
