(* ===== verification/Arduino.thy ===== *)
theory Arduino
  imports Native_Api App_Start Delay
begin

text \<open>
  The Arduino core of a board, after \<open>cores/rak4631\<close> (the other boards with serial input have the
  same sources): \<open>main.c\<close>, \<open>wiring_digital.cpp\<close>, \<open>wiring_time.c\<close> and \<open>HardwareSerial.cpp\<close>, over the
  API table that \<open>system/startup.S\<close> jumps through.

  A serial object is its port number, the index into \<open>serial_instances\<close>; an \<open>unsigned long\<close> has 32
  bits.  The functions that a sketch may replace (they are weak) are taken as the core has them.
\<close>

section \<open>The API table\<close>

text \<open>What a call through slot \<open>slot\<close> of the table jumps to, and the check at the start of \<open>main\<close>.\<close>

definition api_slot :: "'f native_env \<Rightarrow> ('f, 'a) native_scheme \<Rightarrow> nat \<Rightarrow> nat" where
  "api_slot V s slot = ld32 (sram s) (NATIVE_API_TABLE_BASE V + 4 * slot)"

definition rtbus_api_is_ready :: "'f native_env \<Rightarrow> ('f, 'a) native_scheme \<Rightarrow> bool" where
  "rtbus_api_is_ready V s \<longleftrightarrow>
     (if api_slot V s 0 \<noteq> RTBUS_API_MAGIC then False
      else if api_slot V s 1 \<noteq> NATIVE_REQUIRED_ABI_VERSION then False
      else \<not> api_slot V s 2 < RTBUS_API_SLOT_COUNT)"

text \<open>\<open>main\<close>: an error, or the state after \<open>arduino_setup\<close> and \<open>n\<close> rounds of \<open>arduino_loop\<close> (it does not return).\<close>

definition RTBUS_ENOSYS :: int where "RTBUS_ENOSYS = 38"

definition arduino_main ::
    "'f native_env \<Rightarrow> (('f, 'a) native_scheme \<Rightarrow> ('f, 'a) native_scheme) \<Rightarrow>
     (('f, 'a) native_scheme \<Rightarrow> ('f, 'a) native_scheme) \<Rightarrow> nat \<Rightarrow> ('f, 'a) native_scheme \<Rightarrow>
     int + ('f, 'a) native_scheme" where
  "arduino_main V arduino_setup arduino_loop n s =
     (if \<not> rtbus_api_is_ready V s then Inl (- RTBUS_ENOSYS) else Inr ((arduino_loop ^^ n) (arduino_setup s)))"

section \<open>Pins\<close>

definition pinMode where "pinMode G pin mode s = snd (native_api_gpio_configure G pin mode s)"
definition digitalWrite where "digitalWrite G pin v s = snd (native_api_gpio_write G pin v s)"
definition digitalRead where
  "digitalRead G pin s =
     (case native_api_gpio_read G pin s of (Inl _, s) \<Rightarrow> (0 :: int, s) | (Inr v, s) \<Rightarrow> (if 0 < v then 1 else 0, s))"

section \<open>Time\<close>

definition arduino_delay where "arduino_delay K A ms s = map_option snd (native_api_k_delay K A ms s)"
definition arduino_millis where "arduino_millis K s = native_api_millis K s"

section \<open>Serial ports\<close>

text \<open>The calls of the API table that the serial objects use; beginning may not return.\<close>

record ('s, 'm) serial_api =
  rtbus_serial_write :: "nat \<Rightarrow> byte list option \<Rightarrow> nat \<Rightarrow> 's \<Rightarrow> nat \<times> 's"
  rtbus_serial_read :: "nat \<Rightarrow> 's \<Rightarrow> int \<times> 's"
  rtbus_serial_vprintf :: "nat \<Rightarrow> 'm option \<Rightarrow> 's \<Rightarrow> nat \<times> 's"
  rtbus_serial_begin :: "nat \<Rightarrow> 32 word \<Rightarrow> 's \<Rightarrow> (32 word \<times> 's) option"

record serial_instance =
  si_port :: nat
  peeked :: int

record 's sketch =
  serial_instances :: "serial_instance list"
  runtime :: 's

definition arduino_start :: "'s \<Rightarrow> 's sketch" where
  "arduino_start s = \<lparr>serial_instances = [\<lparr>si_port = 0, peeked = -1\<rparr>, \<lparr>si_port = 1, peeked = -1\<rparr>], runtime = s\<rparr>"

definition runtime_arduino_serial_write ::
    "('s, 'm) serial_api \<Rightarrow> nat \<Rightarrow> byte list option \<Rightarrow> nat \<Rightarrow> 's \<Rightarrow> nat \<times> 's" where
  "runtime_arduino_serial_write A port data n s =
     (if data = None \<or> n = 0 then (0, s) else rtbus_serial_write A port data n s)"

definition runtime_arduino_serial_begin ::
    "('s, 'm) serial_api \<Rightarrow> nat \<Rightarrow> 32 word \<Rightarrow> 's \<Rightarrow> (32 word \<times> 's) option" where
  "runtime_arduino_serial_begin A port baud s = rtbus_serial_begin A port baud s"

fun arduino_read_loop :: "('s, 'm) serial_api \<Rightarrow> nat \<Rightarrow> nat \<Rightarrow> 's \<Rightarrow> byte list \<times> 's" where
  "arduino_read_loop A port 0 s = ([], s)"
| "arduino_read_loop A port (Suc n) s =
     (let (v, s) = rtbus_serial_read A port s
      in if v < 0 then ([], s)
         else let (bs, s) = arduino_read_loop A port n s in (of_int v # bs, s))"

text \<open>A read returns the bytes that it stores at the start of the buffer; a buffer is given.\<close>

definition runtime_arduino_serial_read :: "('s, 'm) serial_api \<Rightarrow> nat \<Rightarrow> nat \<Rightarrow> 's \<Rightarrow> byte list \<times> 's" where
  "runtime_arduino_serial_read A port n s = (if n = 0 then ([], s) else arduino_read_loop A port n s)"

definition set_peeked :: "nat \<Rightarrow> int \<Rightarrow> 's sketch \<Rightarrow> 's sketch" where
  "set_peeked k v w = w\<lparr>serial_instances := (serial_instances w)[k := (serial_instances w ! k)\<lparr>peeked := v\<rparr>]\<rparr>"

definition HardwareSerial_begin :: "('s, 'm) serial_api \<Rightarrow> nat \<Rightarrow> 32 word \<Rightarrow> 's sketch \<Rightarrow> 's sketch option" where
  "HardwareSerial_begin A k baud w =
     map_option (\<lambda>(_, s). w\<lparr>runtime := s\<rparr>)
       (runtime_arduino_serial_begin A (si_port (serial_instances w ! k)) baud (runtime w))"

definition HardwareSerial_available :: "('s, 'm) serial_api \<Rightarrow> nat \<Rightarrow> 's sketch \<Rightarrow> int \<times> 's sketch" where
  "HardwareSerial_available A k w =
     (let instance = serial_instances w ! k
      in if 0 \<le> peeked instance then (1, w)
         else
           let (bs, s) = runtime_arduino_serial_read A (si_port instance) 1 (runtime w); w = w\<lparr>runtime := s\<rparr>
           in case bs of [] \<Rightarrow> (0, w) | b # _ \<Rightarrow> (1, set_peeked k (uint b) w))"

definition HardwareSerial_peek :: "('s, 'm) serial_api \<Rightarrow> nat \<Rightarrow> 's sketch \<Rightarrow> int \<times> 's sketch" where
  "HardwareSerial_peek A k w =
     (let (n, w) = HardwareSerial_available A k w
      in if n = 0 then (-1, w) else (peeked (serial_instances w ! k), w))"

definition HardwareSerial_read :: "('s, 'm) serial_api \<Rightarrow> nat \<Rightarrow> 's sketch \<Rightarrow> int \<times> 's sketch" where
  "HardwareSerial_read A k w =
     (let instance = serial_instances w ! k
      in if 0 \<le> peeked instance then (peeked instance, set_peeked k (-1) w)
         else
           let (bs, s) = runtime_arduino_serial_read A (si_port instance) 1 (runtime w); w = w\<lparr>runtime := s\<rparr>
           in case bs of [] \<Rightarrow> (-1, w) | b # _ \<Rightarrow> (uint b, w))"

fun readBytes_loop :: "('s, 'm) serial_api \<Rightarrow> nat \<Rightarrow> nat \<Rightarrow> 's sketch \<Rightarrow> byte list \<times> 's sketch" where
  "readBytes_loop A k 0 w = ([], w)"
| "readBytes_loop A k (Suc n) w =
     (let (v, w) = HardwareSerial_read A k w
      in if v < 0 then ([], w)
         else let (bs, w) = readBytes_loop A k n w in (of_int v # bs, w))"

definition HardwareSerial_readBytes :: "('s, 'm) serial_api \<Rightarrow> nat \<Rightarrow> nat \<Rightarrow> 's sketch \<Rightarrow> byte list \<times> 's sketch" where
  "HardwareSerial_readBytes A k n w = (if n = 0 then ([], w) else readBytes_loop A k n w)"

section \<open>Printing\<close>

definition HardwareSerial_write ::
    "('s, 'm) serial_api \<Rightarrow> nat \<Rightarrow> byte list option \<Rightarrow> nat \<Rightarrow> 's sketch \<Rightarrow> nat \<times> 's sketch" where
  "HardwareSerial_write A k buffer n w =
     (if buffer = None \<or> n = 0 then (0, w)
      else
        let (sent, s) = runtime_arduino_serial_write A (si_port (serial_instances w ! k)) buffer n (runtime w)
        in (sent, w\<lparr>runtime := s\<rparr>))"

definition HardwareSerial_write1 :: "('s, 'm) serial_api \<Rightarrow> nat \<Rightarrow> byte \<Rightarrow> 's sketch \<Rightarrow> nat \<times> 's sketch" where
  "HardwareSerial_write1 A k v w = HardwareSerial_write A k (Some [v]) 1 w"

definition HardwareSerial_printf :: "('s, 'm) serial_api \<Rightarrow> nat \<Rightarrow> 'm option \<Rightarrow> 's sketch \<Rightarrow> nat \<times> 's sketch" where
  "HardwareSerial_printf A k fmt w =
     (if fmt = None then (0, w)
      else
        let (sent, s) = rtbus_serial_vprintf A (si_port (serial_instances w ! k)) fmt (runtime w)
        in (sent, w\<lparr>runtime := s\<rparr>))"

text \<open>A C string is its characters up to the terminating zero.\<close>

fun string_length :: "byte list \<Rightarrow> nat" where
  "string_length [] = 0"
| "string_length (c # cs) = (if c = 0 then 0 else Suc (string_length cs))"

definition HardwareSerial_print :: "('s, 'm) serial_api \<Rightarrow> nat \<Rightarrow> byte list option \<Rightarrow> 's sketch \<Rightarrow> nat \<times> 's sketch" where
  "HardwareSerial_print A k txt w =
     HardwareSerial_write A k txt (case txt of None \<Rightarrow> 0 | Some cs \<Rightarrow> string_length cs) w"

text \<open>The digits, in the order they are computed, and the loop that sends them backwards.\<close>

fun digits_loop :: "nat \<Rightarrow> 32 word \<Rightarrow> byte list" where
  "digits_loop 0 v = []"
| "digits_loop (Suc room) v =
     (48 + ucast (v mod 10)) # (if v div 10 \<noteq> 0 then digits_loop room (v div 10) else [])"

fun send_digits :: "('s, 'm) serial_api \<Rightarrow> nat \<Rightarrow> byte list \<Rightarrow> nat \<Rightarrow> 's sketch \<Rightarrow> nat \<times> 's sketch" where
  "send_digits A k [] sent w = (sent, w)"
| "send_digits A k (d # ds) sent w =
     (let (n, w) = HardwareSerial_write1 A k d w in send_digits A k ds (sent + n) w)"

definition serial_print_unsigned :: "('s, 'm) serial_api \<Rightarrow> nat \<Rightarrow> 32 word \<Rightarrow> 's sketch \<Rightarrow> nat \<times> 's sketch" where
  "serial_print_unsigned A k v w = send_digits A k (rev (digits_loop 10 v)) 0 w"

definition HardwareSerial_print_unsigned where
  "HardwareSerial_print_unsigned A k v w = serial_print_unsigned A k v w"

definition HardwareSerial_print_long :: "('s, 'm) serial_api \<Rightarrow> nat \<Rightarrow> 32 word \<Rightarrow> 's sketch \<Rightarrow> nat \<times> 's sketch" where
  "HardwareSerial_print_long A k v w =
     (let (sent, w) = (if sint v < 0 then HardwareSerial_write1 A k 45 w else (0, w));
          magnitude = (if sint v < 0 then 0 - v else v);
          (n, w) = serial_print_unsigned A k magnitude w
      in (sent + n, w))"

definition HardwareSerial_print_int where "HardwareSerial_print_int A k v w = HardwareSerial_print_long A k v w"
definition HardwareSerial_print_unsigned_int where
  "HardwareSerial_print_unsigned_int A k v w = HardwareSerial_print_unsigned A k v w"

definition HardwareSerial_newline :: "('s, 'm) serial_api \<Rightarrow> nat \<Rightarrow> 's sketch \<Rightarrow> nat \<times> 's sketch" where
  "HardwareSerial_newline A k w = HardwareSerial_write A k (Some [13, 10]) 2 w"

definition println_after :: "('s sketch \<Rightarrow> nat \<times> 's sketch) \<Rightarrow> ('s, 'm) serial_api \<Rightarrow> nat \<Rightarrow> 's sketch \<Rightarrow> nat \<times> 's sketch" where
  "println_after printed A k w =
     (let (sent, w) = printed w; (n, w) = HardwareSerial_newline A k w in (sent + n, w))"

definition HardwareSerial_println where
  "HardwareSerial_println A k txt = println_after (HardwareSerial_print A k txt) A k"

definition HardwareSerial_println_unsigned where
  "HardwareSerial_println_unsigned A k v = println_after (HardwareSerial_print_unsigned A k v) A k"

definition HardwareSerial_println_long where
  "HardwareSerial_println_long A k v = println_after (HardwareSerial_print_long A k v) A k"

definition HardwareSerial_println_int where
  "HardwareSerial_println_int A k v = println_after (HardwareSerial_print_int A k v) A k"

definition HardwareSerial_println_unsigned_int where
  "HardwareSerial_println_unsigned_int A k v = println_after (HardwareSerial_print_unsigned_int A k v) A k"

section \<open>Reading\<close>

text \<open>A serial object in front of a source of bytes: the byte it has looked at, then the source's.\<close>

definition looked_at :: "nat \<Rightarrow> 's sketch \<Rightarrow> byte list" where
  "looked_at k w = (let v = peeked (serial_instances w ! k) in if 0 \<le> v then [of_int v] else [])"

definition sketch_ok :: "nat \<Rightarrow> nat \<Rightarrow> 's sketch \<Rightarrow> bool" where
  "sketch_ok port k w \<longleftrightarrow> k < length (serial_instances w) \<and> si_port (serial_instances w ! k) = port \<and>
     -1 \<le> peeked (serial_instances w ! k) \<and> peeked (serial_instances w ! k) < 256"

lemma set_peeked_simps [simp]:
  "runtime (set_peeked k v w) = runtime w"
  "sketch_ok port k w \<Longrightarrow> sketch_ok port k (set_peeked k v w) \<longleftrightarrow> -1 \<le> v \<and> v < 256"
  "sketch_ok port k w \<Longrightarrow> looked_at k (set_peeked k v w) = (if 0 \<le> v then [of_int v] else [])"
  "sketch_ok port k (w\<lparr>runtime := s\<rparr>) = sketch_ok port k w"
  "looked_at k (w\<lparr>runtime := s\<rparr>) = looked_at k w"
  by (auto simp: set_peeked_def sketch_ok_def looked_at_def Let_def)

lemma byte_int [simp]:
  fixes b :: byte
  shows "-1 \<le> uint b" "uint b < 256" "\<not> uint b < 0"
proof -
  have "0 \<le> uint b" "uint b < 256" using unsigned_less [where w = b and 'a = int] by simp_all
  then show "-1 \<le> uint b" "uint b < 256" "\<not> uint b < 0" by linarith+
qed

locale arduino_port = byte_source "rtbus_serial_read A port" good pend
    for A :: "('s, 'm) serial_api" and port :: nat and good pend +
  fixes k :: nat
begin

definition fine :: "'s sketch \<Rightarrow> bool" where "fine w \<longleftrightarrow> sketch_ok port k w \<and> good (runtime w)"
definition waiting :: "'s sketch \<Rightarrow> byte list" where "waiting w = looked_at k w @ pend (runtime w)"

lemma read_one_byte:
  assumes "good s"
  shows "\<exists>s'. runtime_arduino_serial_read A port 1 s = (take 1 (pend s), s') \<and> good s' \<and> pend s' = tl (pend s)"
proof -
  obtain s' where "rtbus_serial_read A port s = (case pend s of [] \<Rightarrow> -1 | b # _ \<Rightarrow> uint b, s')" "good s'" "pend s' = tl (pend s)"
    using reads [OF assms] by blast
  then show ?thesis by (cases "pend s") (simp_all add: runtime_arduino_serial_read_def)
qed

lemma read_next:
  assumes "fine w"
  shows "\<exists>w'. HardwareSerial_read A k w = (case waiting w of [] \<Rightarrow> -1 | b # _ \<Rightarrow> uint b, w') \<and> fine w' \<and>
    waiting w' = tl (waiting w)"
proof (cases "0 \<le> peeked (serial_instances w ! k)")
  case True
  then show ?thesis using assms
    by (auto simp: HardwareSerial_read_def fine_def waiting_def Let_def looked_at_def sketch_ok_def
        set_peeked_def take_bit_int_eq_self word_of_int_inverse)
next
  case False
  then have p: "peeked (serial_instances w ! k) = -1" using assms by (simp add: fine_def sketch_ok_def)
  obtain s' where s': "runtime_arduino_serial_read A port 1 (runtime w) = (take 1 (pend (runtime w)), s')"
    "good s'" "pend s' = tl (pend (runtime w))" using read_one_byte [of "runtime w"] assms by (auto simp: fine_def)
  have port: "si_port (serial_instances w ! k) = port" using assms by (simp add: fine_def sketch_ok_def)
  have "HardwareSerial_read A k w = (case waiting w of [] \<Rightarrow> -1 | b # _ \<Rightarrow> uint b, w\<lparr>runtime := s'\<rparr>)"
    using p s'(1) port by (cases "pend (runtime w)")
      (simp_all add: HardwareSerial_read_def waiting_def looked_at_def)
  then show ?thesis using s' assms p by (auto simp: fine_def waiting_def looked_at_def sketch_ok_def)
qed

end

sublocale arduino_port \<subseteq> object: byte_source "HardwareSerial_read A k" fine waiting
  by unfold_locales (rule read_next)

context arduino_port
begin

lemma available_spec:
  assumes "fine w"
  shows "\<exists>w'. HardwareSerial_available A k w = (if waiting w = [] then 0 else 1, w') \<and> fine w' \<and> waiting w' = waiting w \<and>
    (waiting w \<noteq> [] \<longrightarrow> peeked (serial_instances w' ! k) = uint (hd (waiting w)))"
proof (cases "0 \<le> peeked (serial_instances w ! k)")
  case True
  then show ?thesis using assms
    by (auto simp: HardwareSerial_available_def fine_def waiting_def Let_def looked_at_def sketch_ok_def
        take_bit_int_eq_self word_of_int_inverse)
next
  case False
  then have p: "peeked (serial_instances w ! k) = -1" using assms by (simp add: fine_def sketch_ok_def)
  obtain s' where s': "runtime_arduino_serial_read A port 1 (runtime w) = (take 1 (pend (runtime w)), s')"
    "good s'" "pend s' = tl (pend (runtime w))" using read_one_byte [of "runtime w"] assms by (auto simp: fine_def)
  have w: "si_port (serial_instances w ! k) = port" "k < length (serial_instances w)" "sketch_ok port k w"
    using assms by (simp_all add: fine_def sketch_ok_def)
  show ?thesis
  proof (cases "pend (runtime w)")
    case Nil
    then show ?thesis using s' w p
      by (auto simp: HardwareSerial_available_def fine_def waiting_def looked_at_def)
  next
    case (Cons b bs)
    then show ?thesis using s' w p
      by (auto simp: HardwareSerial_available_def fine_def waiting_def) (simp_all add: looked_at_def set_peeked_def)
  qed
qed

lemma peek_spec:
  assumes "fine w"
  shows "\<exists>w'. HardwareSerial_peek A k w = (case waiting w of [] \<Rightarrow> -1 | b # _ \<Rightarrow> uint b, w') \<and> fine w' \<and>
    waiting w' = waiting w"
  using available_spec [OF assms] by (cases "waiting w") (auto simp: HardwareSerial_peek_def)

lemma readBytes_loop_spec:
  "fine w \<Longrightarrow> \<exists>w'. readBytes_loop A k n w = (take n (waiting w), w') \<and> fine w' \<and> waiting w' = drop n (waiting w)"
proof (induction n arbitrary: w)
  case 0
  then show ?case by simp
next
  case (Suc n)
  obtain w1 where w1: "HardwareSerial_read A k w = (case waiting w of [] \<Rightarrow> -1 | b # _ \<Rightarrow> uint b, w1)" "fine w1"
    "waiting w1 = tl (waiting w)" using read_next [OF Suc.prems] by blast
  show ?case
  proof (cases "waiting w")
    case Nil
    then show ?thesis using w1 by simp
  next
    case (Cons b bs)
    moreover obtain w2 where "readBytes_loop A k n w1 = (take n (waiting w1), w2)" "fine w2" "waiting w2 = drop n (waiting w1)"
      using Suc.IH [OF w1(2)] by blast
    ultimately show ?thesis using w1 by simp
  qed
qed

lemma readBytes_spec:
  "fine w \<Longrightarrow> \<exists>w'. HardwareSerial_readBytes A k n w = (take n (waiting w), w') \<and> fine w' \<and> waiting w' = drop n (waiting w)"
  using readBytes_loop_spec [of w n] by (cases "n = 0") (auto simp: HardwareSerial_readBytes_def)

end

section \<open>The objects over the API table\<close>

definition arduino_api ::
    "'d uart_driver \<Rightarrow> (nat \<Rightarrow> ('f, 'd, 'a) serial_scheme \<Rightarrow> ('f, 'd, 'a) serial_scheme) \<Rightarrow>
     (nat \<Rightarrow> 'm \<Rightarrow> int \<times> byte list) \<Rightarrow>
     (nat \<Rightarrow> 32 word \<Rightarrow> ('f, 'd, 'a) serial_scheme \<Rightarrow> (32 word \<times> ('f, 'd, 'a) serial_scheme) option) \<Rightarrow>
     (('f, 'd, 'a) serial_scheme, 'm) serial_api" where
  "arduino_api U irq vsnprintk begins =
     \<lparr>rtbus_serial_write = native_api_serial_write U, rtbus_serial_read = (\<lambda>port. native_api_serial_read U (irq port) port),
      rtbus_serial_vprintf = native_api_serial_vprintf U vsnprintk, rtbus_serial_begin = begins\<rparr>"

sublocale uart_works \<subseteq> sketch: arduino_port "arduino_api U (\<lambda>_. irq) vs begins" port
    "\<lambda>s. port_good port s \<and> \<not> console_suppressed s" "port_pending port rx" k
  for vs :: "nat \<Rightarrow> 'm \<Rightarrow> int \<times> byte list" and begins and k
  using source.reads by unfold_locales (simp add: arduino_api_def)

text \<open>The bytes that a sketch can still read: the one it has looked at and those of the port.\<close>

definition sketch_waiting ::
    "nat \<Rightarrow> ('d \<Rightarrow> byte list) \<Rightarrow> nat \<Rightarrow> ('f, 'd, 'a) serial_scheme sketch \<Rightarrow> byte list" where
  "sketch_waiting port rx k w = looked_at k w @ port_pending port rx (runtime w)"

context uart_works
begin

lemma object_is_queue:
  assumes "sketch_ok port k w" "port_good port (runtime w)" "\<not> console_suppressed (runtime w)"
    and "A = arduino_api U (\<lambda>_. irq) vs begins" "q = sketch_waiting port rx k w"
  shows "(\<exists>w'. HardwareSerial_available A k w = (if q = [] then 0 else 1, w') \<and> sketch_waiting port rx k w' = q) \<and>
    (\<exists>w'. HardwareSerial_peek A k w = (case q of [] \<Rightarrow> -1 | b # _ \<Rightarrow> uint b, w') \<and> sketch_waiting port rx k w' = q) \<and>
    (\<exists>w'. HardwareSerial_read A k w = (case q of [] \<Rightarrow> -1 | b # _ \<Rightarrow> uint b, w') \<and> sketch_waiting port rx k w' = tl q) \<and>
    (\<exists>w'. HardwareSerial_readBytes A k n w = (take n q, w') \<and> sketch_waiting port rx k w' = drop n q)"
proof -
  have f: "sketch.fine k w" and q: "sketch.waiting k w' = sketch_waiting port rx k w'" for w'
    using assms by (simp_all add: sketch.fine_def sketch.waiting_def sketch_waiting_def)
  show ?thesis
    using sketch.available_spec [OF f] sketch.peek_spec [OF f] sketch.read_next [OF f] sketch.readBytes_spec [OF f]
    unfolding q assms(4,5) by blast
qed

end

text \<open>C21: a serial object is a queue of bytes.  Over a driver that works, with the bytes that the object has
  looked at and those of its port as the queue, \<open>available\<close> says whether there are any and
  \<open>peek\<close> shows the first, both without taking anything; \<open>read\<close> takes the first, and \<open>readBytes\<close>
  the first \<open>n\<close> or as many as there are.\<close>

theorem serial_object_is_queue:
  fixes w :: "('f, 'd, 'a) serial_scheme sketch"
  assumes "uart_works U irq K port rx tx time" "sketch_ok port k w" "port_good port (runtime w)"
    "\<not> console_suppressed (runtime w)"
    and "A = arduino_api U (\<lambda>_. irq) vs begins" "q = sketch_waiting port rx k w"
  shows "(\<exists>w'. HardwareSerial_available A k w = (if q = [] then 0 else 1, w') \<and> sketch_waiting port rx k w' = q) \<and>
    (\<exists>w'. HardwareSerial_peek A k w = (case q of [] \<Rightarrow> -1 | b # _ \<Rightarrow> uint b, w') \<and> sketch_waiting port rx k w' = q) \<and>
    (\<exists>w'. HardwareSerial_read A k w = (case q of [] \<Rightarrow> -1 | b # _ \<Rightarrow> uint b, w') \<and> sketch_waiting port rx k w' = tl q) \<and>
    (\<exists>w'. HardwareSerial_readBytes A k n w = (take n q, w') \<and> sketch_waiting port rx k w' = drop n q)"
  by (rule uart_works.object_is_queue [OF assms])

definition demo_sketch :: "byte list \<Rightarrow> (demo_flash, byte list \<times> byte list) serial sketch" where
  "demo_sketch bs = arduino_start (demo_serial bs)"

lemma demo_sketch_ok: "sketch_ok 1 1 (demo_sketch bs)" "runtime (demo_sketch bs) = demo_serial bs"
  "looked_at 1 (demo_sketch bs) = []"
  by (simp_all add: demo_sketch_def arduino_start_def sketch_ok_def looked_at_def)

theorem serial_object_is_queue_witness:
  "\<exists>w'. HardwareSerial_peek (arduino_api demo_uart (\<lambda>_. demo_irq 1) (\<lambda>_ _ :: unit. (0, [])) (\<lambda>_ _ s. Some (0, s))) 1
     (demo_sketch [7, 64, 10]) = (7, w') \<and> sketch_waiting 1 fst 1 w' = [7, 64, 10]"
proof -
  have "port_pending 1 fst (demo_serial [7, 64, 10]) = [7, 64, 10]"
    using demo_serial_fields(3,6) demo_serial_native(5) by (simp add: port_pending_def routed_def)
  then have q: "[7, 64, 10] = sketch_waiting 1 fst 1 (demo_sketch [7, 64, 10])"
    by (simp add: sketch_waiting_def demo_sketch_ok del: One_nat_def)
  show ?thesis
    using serial_object_is_queue [OF demo_port.uart_works_axioms demo_sketch_ok(1) _ _ refl q,
        where vs = "\<lambda>_ _ :: unit. (0, [])" and begins = "\<lambda>_ _ s. Some (0, s)"]
      demo_serial_fields(5) demo_serial_native(2) by (auto simp: demo_sketch_ok simp del: One_nat_def)
qed

section \<open>Printing numbers\<close>

text \<open>The number that digits stand for, least significant first.\<close>

fun digits_value :: "byte list \<Rightarrow> nat" where
  "digits_value [] = 0"
| "digits_value (d # ds) = (unat d - 48) + 10 * digits_value ds"

lemma digit_unat: "unat (48 + ucast (v mod 10) :: byte) = 48 + unat v mod 10" for v :: "32 word"
proof -
  have "unat v mod 10 < 10" by simp
  moreover have "unat (ucast (v mod 10) :: byte) = unat v mod 10"
    using \<open>unat v mod 10 < 10\<close> by (simp add: unsigned_ucast_eq take_bit_nat_eq_self unat_mod)
  ultimately show ?thesis by (subst unat_add_lem [THEN iffD1]) simp_all
qed

lemma digits_loop_spec:
  assumes "unat v < 10 ^ n" "0 < n"
  shows "digits_value (digits_loop n v) = unat v \<and> (\<forall>d \<in> set (digits_loop n v). 48 \<le> unat d \<and> unat d < 58) \<and>
    length (digits_loop n v) \<in> {1..n} \<and> (v \<noteq> 0 \<longrightarrow> last (digits_loop n v) \<noteq> 48)"
  using assms
proof (induction n arbitrary: v)
  case 0
  then show ?case by simp
next
  case (Suc n)
  define d :: byte where "d = 48 + ucast (v mod 10)"
  have dig: "unat d = 48 + unat v mod 10" by (simp only: d_def digit_unat)
  have u: "unat (v div 10) = unat v div 10" by (simp add: unat_div)
  have unroll: "digits_loop (Suc n) v = d # (if v div 10 \<noteq> 0 then digits_loop n (v div 10) else [])" by (simp add: d_def)
  show ?case
  proof (cases "v div 10 = 0")
    case True
    then have "unat v < 10" using u by simp
    moreover have "d \<noteq> 48" if "v \<noteq> 0" using that dig \<open>unat v < 10\<close> by (auto simp: unat_eq_zero)
    ultimately show ?thesis using True dig by (simp add: unroll del: digits_loop.simps)
  next
    case False
    then have "unat (v div 10) \<noteq> 0" by (simp add: unat_eq_zero)
    then have v: "10 \<le> unat v" using u by simp
    then have n: "0 < n" using Suc.prems(1) by (cases n) simp_all
    moreover have "unat (v div 10) < 10 ^ n"
      using Suc.prems(1) by (simp add: u div_less_iff_less_mult mult.commute)
    ultimately have IH: "digits_value (digits_loop n (v div 10)) = unat (v div 10)"
      "\<forall>d \<in> set (digits_loop n (v div 10)). 48 \<le> unat d \<and> unat d < 58"
      "length (digits_loop n (v div 10)) \<in> {1..n}" "last (digits_loop n (v div 10)) \<noteq> 48"
      using Suc.IH [of "v div 10"] False by auto
    then have "digits_loop n (v div 10) \<noteq> []" by auto
    then show ?thesis using False IH dig u by (simp add: unroll del: digits_loop.simps)
  qed
qed

text \<open>A text that is the decimal form of a number: a sign for the negative ones, digits, no leading zero.\<close>

definition number_text :: "byte list \<Rightarrow> int \<Rightarrow> bool" where
  "number_text t n \<longleftrightarrow>
     (let ds = (if n < 0 then tl t else t) in
      ds \<noteq> [] \<and> (\<forall>d \<in> set ds. 48 \<le> unat d \<and> unat d < 58) \<and> (n \<noteq> 0 \<longrightarrow> hd ds \<noteq> 48) \<and> length ds \<le> 10 \<and>
      int (digits_value (rev ds)) = \<bar>n\<bar> \<and> (n < 0 \<longrightarrow> hd t = 45 \<and> t \<noteq> []))"

lemma unsigned_text:
  "number_text (rev (digits_loop 10 v)) (uint v)"
proof -
  have "unat v < 4294967296" using unsigned_less [where w = v and 'a = nat] by simp
  then have b: "unat v < 10 ^ 10" by (rule less_trans) simp
  have "digits_loop 10 v \<noteq> []" using digits_loop_spec [OF b] by auto
  moreover have "v \<noteq> 0 \<longleftrightarrow> uint v \<noteq> 0" by (simp add: uint_0_iff)
  ultimately show ?thesis using digits_loop_spec [OF b]
    by (auto simp: number_text_def Let_def hd_rev not_less)
qed

lemma neg_magnitude: "sint v < 0 \<Longrightarrow> uint (- v) = - sint v" for v :: "32 word"
proof -
  assume n: "sint v < 0"
  have "- (2 ^ 31) \<le> sint v" using sint_greater_eq [of v] by simp
  then have "(- sint v) mod 2 ^ 32 = - sint v" using n by (intro mod_pos_pos_trivial) auto
  moreover have "- v = word_of_int (- sint v)" by simp
  ultimately show ?thesis by (simp only: uint_word_of_int) simp
qed

lemma negative_text:
  fixes v :: "32 word"
  assumes "sint v < 0"
  shows "number_text (45 # rev (digits_loop 10 (- v))) (sint v)"
proof -
  have "number_text (rev (digits_loop 10 (- v))) (- sint v)" using unsigned_text [of "- v"] neg_magnitude [OF assms] by simp
  then show ?thesis using assms by (simp add: number_text_def Let_def)
qed

lemma positive_text: "\<not> sint v < 0 \<Longrightarrow> number_text (rev (digits_loop 10 v)) (sint v)" for v :: "32 word"
proof -
  assume "\<not> sint v < 0"
  moreover have "sint v < 2 ^ 32" using sint_less [of v] by simp
  ultimately have "take_bit 32 (sint v) = sint v" by (simp add: take_bit_int_eq_self)
  then show ?thesis using unsigned_text [of v] by (simp add: uint_sint)
qed

text \<open>The object can print to its port, and what printing leaves.\<close>

definition prints :: "nat \<Rightarrow> nat \<Rightarrow> ('f, 'd, 'a) serial_scheme sketch \<Rightarrow> bool" where
  "prints port k w \<longleftrightarrow> sketch_ok port k w \<and> \<not> console_suppressed (runtime w) \<and> native_api_serial_device port (runtime w)"

definition sends_text ::
    "nat \<Rightarrow> ('d \<Rightarrow> byte list) \<Rightarrow> nat \<Rightarrow> byte list \<Rightarrow> ('f, 'd, 'a) serial_scheme sketch \<Rightarrow>
     ('f, 'd, 'a) serial_scheme sketch \<Rightarrow> bool" where
  "sends_text port tx k t w w' \<longleftrightarrow> prints port k w' \<and> tx (uart (runtime w')) = tx (uart (runtime w)) @ t \<and>
     serial_instances w' = serial_instances w"

lemma sends_trans: "sends_text port tx k t w w' \<Longrightarrow> sends_text port tx k u w' w'' \<Longrightarrow> sends_text port tx k (t @ u) w w''"
  by (simp add: sends_text_def)

context uart_works
begin

abbreviation "api vs begins \<equiv> arduino_api U (\<lambda>_. irq) vs begins"

lemma object_writes:
  assumes "prints port k w" "n \<le> length bs"
  shows "\<exists>w'. HardwareSerial_write (api vs begins) k (Some bs) n w = (n, w') \<and> sends_text port tx k (take n bs) w w'"
proof (cases "n = 0")
  case True
  then show ?thesis using assms by (simp add: HardwareSerial_write_def sends_text_def)
next
  case False
  obtain v where "uart_line_ctrl_dtr U port (uart (runtime w)) = Inr v" "v \<noteq> 0" using has_dtr by blast
  then have "writable U port (runtime w)"
    using assms(1) is_ready by (simp add: prints_def writable_def native_api_serial_tx_ready_def)
  note W = write_spec [OF this False, of bs]
  have "tx (fold (uart_poll_out U port) cs d) = tx d @ cs" for cs d using sends by (induction cs arbitrary: d) simp_all
  moreover have "si_port (serial_instances w ! k) = port" using assms(1) by (simp add: prints_def sketch_ok_def)
  ultimately show ?thesis using W False assms(1)
    by (simp add: HardwareSerial_write_def runtime_arduino_serial_write_def arduino_api_def sends_text_def prints_def
        native_api_serial_device_def)
qed

lemma object_writes1:
  "prints port k w \<Longrightarrow> \<exists>w'. HardwareSerial_write1 (api vs begins) k b w = (1, w') \<and> sends_text port tx k [b] w w'"
  using object_writes [of k w 1 "[b]"] by (simp add: HardwareSerial_write1_def)

lemma sends_digits:
  "prints port k w \<Longrightarrow> \<exists>w'. send_digits (api vs begins) k ds m w = (m + length ds, w') \<and> sends_text port tx k ds w w'"
proof (induction ds arbitrary: m w)
  case Nil
  then show ?case by (simp add: sends_text_def)
next
  case (Cons d ds)
  obtain w1 where w1: "HardwareSerial_write1 (api vs begins) k d w = (1, w1)" "sends_text port tx k [d] w w1"
    using object_writes1 [OF Cons.prems] by blast
  obtain w2 where "send_digits (api vs begins) k ds (m + 1) w1 = (m + 1 + length ds, w2)" "sends_text port tx k ds w1 w2"
    using Cons.IH [of w1 "m + 1"] w1(2) by (auto simp: sends_text_def)
  then show ?case using w1 sends_trans [OF w1(2)] by fastforce
qed

lemma prints_unsigned:
  assumes "prints port k w"
  shows "\<exists>t w'. HardwareSerial_print_unsigned (api vs begins) k v w = (length t, w') \<and>
     sends_text port tx k t w w' \<and> number_text t (uint v)"
proof -
  let ?t = "rev (digits_loop 10 v)"
  obtain w2 where "send_digits (api vs begins) k ?t 0 w = (0 + length ?t, w2)" "sends_text port tx k ?t w w2"
    using sends_digits [OF assms, of vs begins ?t 0] by blast
  then show ?thesis using unsigned_text [of v]
    by (intro exI [of _ ?t] exI [of _ w2]) (simp add: HardwareSerial_print_unsigned_def serial_print_unsigned_def)
qed

lemma prints_long:
  assumes "prints port k w"
  shows "\<exists>t w'. HardwareSerial_print_long (api vs begins) k v w = (length t, w') \<and>
     sends_text port tx k t w w' \<and> number_text t (sint v)"
proof (cases "sint v < 0")
  case True
  let ?t = "rev (digits_loop 10 (- v))"
  obtain w1 where w1: "HardwareSerial_write1 (api vs begins) k 45 w = (1, w1)" "sends_text port tx k [45] w w1"
    using object_writes1 [OF assms] by blast
  obtain w2 where w2: "send_digits (api vs begins) k ?t 0 w1 = (0 + length ?t, w2)" "sends_text port tx k ?t w1 w2"
    using sends_digits [of k w1 vs begins ?t 0] w1(2) by (auto simp: sends_text_def)
  have "HardwareSerial_print_long (api vs begins) k v w = (length (45 # ?t), w2)"
    using True w1(1) w2(1) by (simp add: HardwareSerial_print_long_def serial_print_unsigned_def)
  moreover have "sends_text port tx k (45 # ?t) w w2" using sends_trans [OF w1(2) w2(2)] by simp
  ultimately show ?thesis using negative_text [OF True] by blast
next
  case False
  let ?t = "rev (digits_loop 10 v)"
  obtain w2 where "send_digits (api vs begins) k ?t 0 w = (0 + length ?t, w2)" "sends_text port tx k ?t w w2"
    using sends_digits [OF assms, of vs begins ?t 0] by blast
  then show ?thesis using False positive_text [OF False]
    by (intro exI [of _ ?t] exI [of _ w2]) (simp add: HardwareSerial_print_long_def serial_print_unsigned_def)
qed

lemma prints_line:
  assumes "\<exists>t w'. f w = (length t, w') \<and> sends_text port tx k t w w' \<and> number_text t n"
  shows "\<exists>t w'. println_after f (api vs begins) k w = (length t + 2, w') \<and> sends_text port tx k (t @ [13, 10]) w w' \<and> number_text t n"
proof -
  obtain t w1 where f: "f w = (length t, w1)" "sends_text port tx k t w w1" "number_text t n" using assms by blast
  then obtain w2 where "HardwareSerial_newline (api vs begins) k w1 = (2, w2)" "sends_text port tx k [13, 10] w1 w2"
    using object_writes [of k w1 2 "[13, 10]"] by (auto simp: HardwareSerial_newline_def sends_text_def)
  then show ?thesis using f sends_trans [OF f(2)] by (fastforce simp: println_after_def)
qed

end

text \<open>C22: numbers are printed in full.  Over a driver that works, printing a number sends its decimal form,
  signed for \<open>int\<close> and \<open>long\<close> (the least one included), and returns the number of characters;
  \<open>println\<close> adds the line end.\<close>

theorem numbers_print_exactly:
  fixes w :: "('f, 'd, 'a) serial_scheme sketch"
  assumes "uart_works U irq K port rx tx time" "prints port k w" "A = arduino_api U (\<lambda>_. irq) vs begins"
  shows "(\<exists>t w'. HardwareSerial_print_long A k v w = (length t, w') \<and> sends_text port tx k t w w' \<and> number_text t (sint v)) \<and>
    (\<exists>t w'. HardwareSerial_print_unsigned A k v w = (length t, w') \<and> sends_text port tx k t w w' \<and> number_text t (uint v)) \<and>
    (\<exists>t w'. HardwareSerial_println_long A k v w = (length t + 2, w') \<and> sends_text port tx k (t @ [13, 10]) w w' \<and>
       number_text t (sint v)) \<and>
    (\<exists>t w'. HardwareSerial_println_unsigned A k v w = (length t + 2, w') \<and> sends_text port tx k (t @ [13, 10]) w w' \<and>
       number_text t (uint v))"
proof -
  note pl = uart_works.prints_long [OF assms(1,2), of vs begins v, folded assms(3)]
  note pu = uart_works.prints_unsigned [OF assms(1,2), of vs begins v, folded assms(3)]
  note pn = uart_works.prints_line [OF assms(1), where vs = vs and begins = begins, folded assms(3)]
  show ?thesis using pl pu pn [where f = "HardwareSerial_print_long A k v", OF pl]
      pn [where f = "HardwareSerial_print_unsigned A k v", OF pu]
    by (simp add: HardwareSerial_println_long_def HardwareSerial_println_unsigned_def)
qed

theorem numbers_print_exactly_witness:
  "\<exists>t w'. HardwareSerial_println_long (arduino_api demo_uart (\<lambda>_. demo_irq 1) (\<lambda>_ _ :: unit. (0, [])) (\<lambda>_ _ s. Some (0, s))) 1
     0x80000000 (demo_sketch []) = (length t + 2, w') \<and> snd (uart (runtime w')) = t @ [13, 10] \<and> number_text t (-2147483648)"
proof -
  let ?A = "arduino_api demo_uart (\<lambda>_. demo_irq 1) (\<lambda>_ _ :: unit. (0, [])) (\<lambda>_ _ s. Some (0, s))"
  have "prints 1 1 (demo_sketch [])"
    using demo_serial_native demo_sketch_ok
    by (simp add: prints_def native_api_serial_device_def del: One_nat_def)
  note P = numbers_print_exactly [where A = ?A and v = "0x80000000", OF demo_port.uart_works_axioms this refl]
  have least: "sint (0x80000000 :: 32 word) = -2147483648"
  proof -
    have "sint (word_of_int (-2147483648) :: 32 word) = -2147483648"
      by (subst sint_sbintrunc') (simp add: signed_take_bit_int_eq_self)
    then show ?thesis by simp
  qed
  have "\<exists>t w'. HardwareSerial_println_long ?A 1 0x80000000 (demo_sketch []) = (length t + 2, w') \<and>
      sends_text 1 snd 1 (t @ [13, 10]) (demo_sketch []) w' \<and> number_text t (-2147483648)"
    using P unfolding least by blast
  moreover have "snd (uart (demo_serial [])) = []" by (simp add: demo_serial_fields)
  ultimately show ?thesis by (auto simp: sends_text_def demo_sketch_ok simp del: One_nat_def)
qed

section \<open>The application and the API table\<close>

lemma installed_slot:
  assumes "slot \<in> {0..4} \<union> {6..15}" "\<forall>slot < RTBUS_API_SLOT_COUNT. api_function V slot < 4294967296"
  shows "api_slot V (native_api_table_install V s) slot =
    (if slot = 0 then RTBUS_API_MAGIC else if slot = 1 then NATIVE_REQUIRED_ABI_VERSION
     else if slot = 2 then RTBUS_API_SLOT_COUNT else api_function V slot)"
proof -
  have "slot \<in> {0, 1, 2, 3, 4, 6, 7, 8, 9, 10, 11, 12, 13, 14, 15}"
    using assms(1) by simp presburger
  then show ?thesis using assms(2)
    by (auto simp: api_slot_def native_api_table_install_def layout_defs mem_simps)
qed

text \<open>C20: a started application finds its API.  After a start that succeeds, on a board whose API table lies
  outside the RAM of applications, every slot that \<open>startup.S\<close> jumps through holds the runtime's
  function, whatever the image loaded; the check at the start of \<open>main\<close> passes, and the sketch runs
  \<open>arduino_setup\<close> once and then \<open>arduino_loop\<close> again and again.\<close>

theorem started_application_finds_api:
  assumes "flash_laws (image_of V) view" "NATIVE_RAM_SIZE V < 4294967296"
    and "\<not> patch_handoff s" "\<not> native_thread s" "native_service_start V s = (ok, s')"
    and "NATIVE_API_TABLE_BASE V + 4 * RTBUS_API_SLOT_COUNT \<le> NATIVE_RAM_BASE V \<or>
      NATIVE_RAM_BASE V + NATIVE_RAM_SIZE V \<le> NATIVE_API_TABLE_BASE V"
    and "\<forall>slot < RTBUS_API_SLOT_COUNT. api_function V slot < 4294967296"
  shows "(\<forall>slot \<in> {3, 4} \<union> {6..15}. api_slot V s' slot = api_function V slot) \<and>
    arduino_main V arduino_setup arduino_loop n s' = Inr ((arduino_loop ^^ n) (arduino_setup s'))"
proof -
  let ?s1 = "native_api_table_install V s"
  obtain s2 where L: "native_load V ?s1 = (ok, s2)" "s' = s2\<lparr>native_thread := True\<rparr>"
    using assms(3-5) by (auto simp: native_service_start_def Let_def split: prod.splits if_splits)
  have same: "api_slot V s' slot = api_slot V ?s1 slot" if "slot < RTBUS_API_SLOT_COUNT" for slot
  proof -
    have "rd (sram s2) (NATIVE_API_TABLE_BASE V + 4 * slot) 4 = rd (sram ?s1) (NATIVE_API_TABLE_BASE V + 4 * slot) 4"
      unfolding rd_def using native_load_ram [OF assms(1,2) L(1)] that assms(6)
      by (intro map_cong refl) (auto simp: RTBUS_API_SLOT_COUNT_def)
    then show ?thesis using L(2) by (simp add: api_slot_def ld32_def)
  qed
  have "api_slot V s' slot = (if slot = 0 then RTBUS_API_MAGIC else if slot = 1 then NATIVE_REQUIRED_ABI_VERSION
     else if slot = 2 then RTBUS_API_SLOT_COUNT else api_function V slot)" if "slot \<in> {0..4} \<union> {6..15}" for slot
    using same [of slot] installed_slot [OF that assms(7), of s] that by (auto simp: RTBUS_API_SLOT_COUNT_def)
  then show ?thesis by (simp add: arduino_main_def rtbus_api_is_ready_def)
qed

theorem started_application_finds_api_witness:
  "\<exists>s'. native_service_start tool_native_env demo_installed = (ok, s') \<and> api_slot tool_native_env s' 8 = 0x1080 \<and>
     arduino_main tool_native_env (\<lambda>s. s\<lparr>api_busy := 7\<rparr>) (\<lambda>s. s\<lparr>api_busy := api_busy s + 1\<rparr>) 2 s' =
       Inr (s'\<lparr>api_busy := 9\<rparr>)"
proof -
  obtain s' where s': "native_service_start tool_native_env demo_installed = (ok, s')"
    using packaged_application_starts_witness by blast
  have z: "\<not> patch_handoff demo_installed" "\<not> native_thread demo_installed"
    by (simp_all add: demo_installed_def demo_native_fields)
  have env: "NATIVE_API_TABLE_BASE tool_native_env = 0x20003F00" "NATIVE_RAM_BASE tool_native_env = 0x20001000"
    "api_function tool_native_env = (\<lambda>slot. 0x1000 + 16 * slot)"
    by (simp_all add: tool_native_env_def demo_native_env_def)
  have "api_slot tool_native_env s' 8 = 0x1080 \<and>
      arduino_main tool_native_env (\<lambda>s. s\<lparr>api_busy := 7\<rparr>) (\<lambda>s. s\<lparr>api_busy := api_busy s + 1\<rparr>) 2 s' =
        Inr (((\<lambda>s. s\<lparr>api_busy := api_busy s + 1\<rparr>) ^^ 2) (s'\<lparr>api_busy := 7\<rparr>))"
    using started_application_finds_api [OF _ _ z s', where view = demo_view and n = 2 and
        arduino_setup = "\<lambda>s. s\<lparr>api_busy := 7\<rparr>" and arduino_loop = "\<lambda>s. s\<lparr>api_busy := api_busy s + 1\<rparr>"]
      tool_env_laws tool_native_facts by (simp add: env RTBUS_API_SLOT_COUNT_def)
  then show ?thesis using s' by (simp add: numeral_2_eq_2)
qed

end
