(* ===== verification/Runtime.thy ===== *)
theory Runtime
  imports Commands Ble_Machine
begin

text \<open>
  The runtime as a whole: its four tasks on the event core, and the application's side of a request
  (\<open>system/include/runtime_*_api.h\<close> and \<open>rtbus_post_wait_result\<close> of \<open>system/startup.S\<close>).

  A request posts its words through the API table, waits for the completion and reads the result from
  the application's RAM.  \<open>run\<close> is what the rest of the system does while the application's thread
  waits; a request whose completion does not come is \<open>None\<close>.
\<close>

section \<open>The tasks\<close>

text \<open>The four registrations, in the order of their names; the addresses of the task functions are any
  four different ones, and no other is ever called.\<close>

definition runtime_tasks :: "emos_entry list" where
  "runtime_tasks = [EMOS_TASK_ENTRY 3 2 1, EMOS_TASK_ENTRY 1 2 2, EMOS_TASK_ENTRY 0 2 3, EMOS_TASK_ENTRY 2 2 4]"

definition runtime_call ::
    "'b bt_stack \<Rightarrow> 'd uart_driver \<Rightarrow> 'f native_env \<Rightarrow> ('f \<Rightarrow> mem) \<Rightarrow> (rc \<Rightarrow> 32 word) \<Rightarrow>
     (('f, 'd, 'b, 'a) ble_scheme \<Rightarrow> ('f, 'd, 'b, 'a) ble_scheme) \<Rightarrow>
     ('f, 'd, 'b, 'a) ble_scheme rtbus_cli_command list \<Rightarrow> ('f, 'd, 'b, 'a) ble_scheme handlers" where
  "runtime_call B U V X code irq cmds f ctx s =
     (if f = 1 then Some (rtbus_ble_process B V X code ctx s)
      else if f = 2 then rtbus_cli_process irq cmds ctx s
      else if f = 3 then Some (rtbus_diagnostics_process V ctx s)
      else Some (rtbus_runtime_serial_process U V code ctx s))"

section \<open>Requests of the application\<close>

definition RTBUS_EINPROGRESS :: nat where "RTBUS_EINPROGRESS = 115"
definition RTBUS_WAIT_FOREVER :: "32 word" where "RTBUS_WAIT_FOREVER = 0xFFFFFFFF"

definition rtbus_post_wait_result ::
    "(('f, 'a) native_scheme \<Rightarrow> ('f, 'a) native_scheme option) \<Rightarrow> (rc \<Rightarrow> 32 word) \<Rightarrow> byte \<Rightarrow> 32 word \<Rightarrow> byte list \<Rightarrow>
     nat \<Rightarrow> ('f, 'a) native_scheme \<Rightarrow> (32 word \<times> ('f, 'a) native_scheme) option" where
  "rtbus_post_wait_result run code task_id cid payload result s =
     (let s = s\<lparr>sram := st32 (sram s) result (2 ^ 32 - RTBUS_EINPROGRESS)\<rparr>;
          (ret, s) = native_api_rtbus_post task_id cid (Some payload) (length payload) s
      in if ret \<noteq> ok then Some (code ret, s)
      else
        case native_api_result_wait RTBUS_WAIT_FOREVER s of
          (Taken, s) \<Rightarrow> Some (of_nat (ld32 (sram s) result), s)
        | (_, s) \<Rightarrow> do {
            s \<leftarrow> run s;
            case native_api_result_wait RTBUS_WAIT_FOREVER s of
              (Taken, s) \<Rightarrow> Some (of_nat (ld32 (sram s) result), s)
            | _ \<Rightarrow> None
          })"

definition RTBUS_TASK_RUNTIME_SERIAL :: byte where "RTBUS_TASK_RUNTIME_SERIAL = 2"
definition RTBUS_TASK_RUNTIME_BLE :: byte where "RTBUS_TASK_RUNTIME_BLE = 3"

text \<open>\<open>result\<close> is the address of the request's static variable.\<close>

definition runtime_diagnostics_add where
  "runtime_diagnostics_add run code result lhs rhs =
     rtbus_post_wait_result run code RTBUS_TASK_DIAGNOSTICS APPLICATION_DIAGNOSTICS_ADD
       (le32 result @ le32 (unat (lhs :: 32 word)) @ le32 (unat (rhs :: 32 word))) result"

definition runtime_serial_begin where
  "runtime_serial_begin run code result port baud =
     rtbus_post_wait_result run code RTBUS_TASK_RUNTIME_SERIAL APPLICATION_RUNTIME_SERIAL_BEGIN
       (le32 result @ le32 (unat (port :: 32 word)) @ le32 (unat (baud :: 32 word))) result"

definition runtime_ble_adv_start :: "('f, 'a) native_scheme \<Rightarrow> rc \<times> ('f, 'a) native_scheme" where
  "runtime_ble_adv_start s = native_api_rtbus_post RTBUS_TASK_RUNTIME_BLE APPLICATION_BLE_ADV_START None 0 s"

definition runtime_ble_gap_init where
  "runtime_ble_gap_init run code result def =
     rtbus_post_wait_result run code RTBUS_TASK_RUNTIME_BLE APPLICATION_BLE_GAP_INIT (le32 result @ le32 def) result"

definition runtime_ble_set_security where
  "runtime_ble_set_security run code result conn level =
     rtbus_post_wait_result run code RTBUS_TASK_RUNTIME_BLE APPLICATION_BLE_SET_SECURITY
       (le32 result @ le32 (unat (conn :: 32 word)) @ [level, 0, 0, 0]) result"

definition runtime_ble_pair where
  "runtime_ble_pair run code result conn =
     rtbus_post_wait_result run code RTBUS_TASK_RUNTIME_BLE APPLICATION_BLE_PAIR
       (le32 result @ le32 (unat (conn :: 32 word))) result"

definition runtime_ble_gatt_service_register where
  "runtime_ble_gatt_service_register run code result def =
     rtbus_post_wait_result run code RTBUS_TASK_RUNTIME_BLE APPLICATION_BLE_GATT_NOTIFY_REGISTER
       (le32 result @ le32 def) result"

text \<open>A service of one characteristic: its definition is put together on the stack of the application,
  at \<open>frame\<close>.\<close>

definition notify_service_def :: "mem \<Rightarrow> nat \<Rightarrow> byte list" where
  "notify_service_def m def = rd m def 16 @ [1, 0, 0, 0] @ le32 (u32 (def + 16))"

definition runtime_ble_gatt_notify_register where
  "runtime_ble_gatt_notify_register V X run code result frame def s =
     runtime_ble_gatt_service_register run code result frame
       (s\<lparr>sram := wr (sram s) frame (notify_service_def (cpu_mem V X s) def)\<rparr>)"

definition runtime_ble_gatt_value_set where
  "runtime_ble_gatt_value_set run code result handle chrc value len =
     rtbus_post_wait_result run code RTBUS_TASK_RUNTIME_BLE APPLICATION_BLE_GATT_VALUE_SET
       (le32 result @ [handle, chrc, len, 0] @ le32 value) result"

text \<open>One step of the runtime thread, as what runs while a request waits.\<close>

definition runtime_step where
  "runtime_step be call s = map_option snd (emos_process be call (rtbus_process_async_posts be) s)"

section \<open>One round of a request\<close>

lemma bus_truncate:
  fixes s t :: "'a emos_scheme"
  assumes "emos.truncate s = emos.truncate t"
  shows "emos_bus be s es bs N = emos_bus be t es bs N" "queues s N = queues t N"
    "poll_next_index s = poll_next_index t"
proof -
  have f: "pool_mem s = pool_mem t" "last_heap_object s = last_heap_object t" "heap_of_memory s = heap_of_memory t"
    "top_of_heap s = top_of_heap t" "this_active s = this_active t" "registered_entries s = registered_entries t"
    "registered_entry_count s = registered_entry_count t" "task_tbl s = task_tbl t" "entry_count s = entry_count t"
    "poll_next_index s = poll_next_index t" "event_sem s = event_sem t"
    using assms by (simp_all add: emos.truncate_def emos.ext_inject entries.ext_inject pools.ext_inject)
  then show "poll_next_index s = poll_next_index t" by simp
  show "queues s N = queues t N" by (simp add: queues_def f fun_eq_iff)
  have "pool_inv 0 s bs = pool_inv 0 t bs" by (rule pool_inv_cong) (simp_all add: f)
  moreover have "backend_holds be s es = backend_holds be t es" by (rule backend_holds_cong) (simp_all add: f)
  ultimately show "emos_bus be s es bs N = emos_bus be t es bs N"
    by (simp add: emos_bus_def emos_rep_def f plist_def)
qed

lemma native_of_more:
  fixes s t :: "('f, 'a) native_scheme"
  assumes "emos.more s = emos.more t"
  shows "api_busy s = api_busy t" "post_msgq s = post_msgq t" "sram s = sram t" "result_sem s = result_sem t"
  using assms by (cases s; cases t; simp)+

lemma native_more_update:
  fixes s t :: "('f, 'a) native_scheme"
  assumes "emos.more s = emos.more t"
  shows "emos.more (s\<lparr>sram := m, wake_event := w, result_sem := r\<rparr>) = emos.more (t\<lparr>sram := m, wake_event := w, result_sem := r\<rparr>)"
  using assms by (cases s; cases t) simp

lemma result_sem_same:
  fixes s :: "('f, 'a) native_scheme"
  assumes "result_sem s = r"
  shows "s\<lparr>sram := m, wake_event := w, result_sem := r\<rparr> = s\<lparr>sram := m, wake_event := w\<rparr>"
  using assms by (cases s) simp

text \<open>A message that the application has handed over, on a bus where nothing else is pending: one step
  forwards it, calls the task's handler on it and is done.\<close>

lemma request_round:
  fixes s :: "('f, 'a) native_scheme"
  assumes bus: "emos_bus be s es [] (\<lambda>_. [])" and room: "pool_has_room s [] (16 + pm_payload_len m)"
    and m: "post_msgq s = [m]" "post_msg_ok m" "api_busy s = 0"
    and e: "List.find (\<lambda>e. e_task_id e = pm_task_id m) es = Some e"
    and h: "\<And>t :: ('f, 'a) native_scheme. call (e_task_entry e) (msg_ctx m) t = Some (h t)"
      "\<And>t :: ('f, 'a) native_scheme. emos.truncate (h t) = emos.truncate t"
  shows "\<exists>s1 s'. emos_process be call (rtbus_process_async_posts be) s = Some (Inr 1, s') \<and>
    emos.more s' = emos.more (h s1) \<and> emos.more s1 = emos.more (s\<lparr>post_msgq := []\<rparr>)"
proof -
  let ?p = "if pm_payload_len m = 0 then None else Some (pm_payload m)" and ?k = "unat (e_priority e)"
  define s0 where "s0 = s\<lparr>post_msgq := [], api_busy := 1\<rparr>"
  have bus0: "emos_bus be s0 es [] (\<lambda>_. [])" "pool_has_room s0 [] (16 + pm_payload_len m)"
  proof -
    have "high_water 0 s0 = high_water 0 s" by (simp add: high_water_def s0_def)
    then show "pool_has_room s0 [] (16 + pm_payload_len m)" using room by (simp add: pool_has_room_def) (simp add: s0_def)
  qed (use bus in \<open>simp add: s0_def\<close>)
  have pok: "payload_ok ?p (pm_payload_len m)" "pm_payload_len m < 4294967280" "pm_payload_len m \<le> 32"
    using m(2) by (auto simp: post_msg_ok_def payload_ok_def layout_defs)
  obtain r s1 bs1 N1 where P: "emos_post be (pm_task_id m) (pm_ctx_id m) ?p (pm_payload_len m) s0 = Some (r, s1)"
    "emos_bus be s1 es bs1 N1" "(r, queues s1 N1) = spec_post es (pool_has_room s0 [] (16 + pm_payload_len m))
       (pm_task_id m) (pm_ctx_id m) ?p (pm_payload_len m) (queues s0 (\<lambda>_. []))" "emos.more s1 = emos.more s0"
    using emos_post_total [OF bus0(1) pok(1,2)] by blast
  have q0: "queues s0 (\<lambda>_. []) = (\<lambda>_. [])" by (simp add: queues_def fun_eq_iff)
  have r: "r = ok" "queues s1 N1 = (\<lambda>_. [])(?k := [msg_ctx m])"
  proof -
    have "spec_post es True (pm_task_id m) (pm_ctx_id m) ?p (pm_payload_len m) (\<lambda>_. []) =
        (ok, (\<lambda>_. [])(?k := [msg_ctx m]))"
      using pok(3) e by (cases "pm_payload_len m = 0") (simp_all add: spec_post_def msg_ctx_def)
    then have "(r, queues s1 N1) = (ok, (\<lambda>_. [])(?k := [msg_ctx m]))" using P(3) bus0(2) by (simp only: q0)
    then show "r = ok" "queues s1 N1 = (\<lambda>_. [])(?k := [msg_ctx m])" by simp_all
  qed
  define s2 where "s2 = s1\<lparr>api_busy := 0\<rparr>"
  have f1: "api_busy s1 = 1" "post_msgq s1 = []"
    using native_of_more [OF P(4)] by (simp_all add: s0_def)
  have more2: "emos.more s2 = emos.more (s\<lparr>post_msgq := []\<rparr>)"
  proof -
    have "emos.more s2 = emos.more (s0\<lparr>api_busy := 0\<rparr>)" using P(4) unfolding s2_def by (cases s1; cases s0) simp
    also have "s0\<lparr>api_busy := 0\<rparr> = s\<lparr>post_msgq := []\<rparr>" using m(3) unfolding s0_def by (cases s) simp
    finally show ?thesis .
  qed
  have async: "rtbus_process_async_posts be s = Some (ok, s2)"
  proof -
    have "rtbus_post be (pm_task_id m) (pm_ctx_id m) ?p (pm_payload_len m) s0 = Some (ok, s1)"
      using P(1) r(1) by (simp add: rtbus_post_def)
    moreover have "rtbus_process_async_posts be s2 = Some (ok, s2)"
      by (subst rtbus_process_async_posts.simps) (simp add: s2_def f1)
    ultimately show ?thesis
      by (subst rtbus_process_async_posts.simps) (simp add: m s0_def [symmetric] Let_def f1 s2_def [symmetric])
  qed
  have bus2: "emos_bus be s2 es bs1 N1" "queues s2 N1 = (\<lambda>_. [])(?k := [msg_ctx m])"
    using P(2) r(2) by (simp_all add: s2_def)
  have k: "?k < 3" "e_task_id e = pm_task_id m" "e_task_entry e \<noteq> NULL"
  proof -
    have "emos_entry_find be (pm_task_id m) s = Some e" using bus e by (simp add: emos_bus_def eb.find_law [of be s es])
    from emos_bus_find [OF bus this] show "?k < 3" "e_task_id e = pm_task_id m" "e_task_entry e \<noteq> NULL" by simp_all
  qed
  then have np: "next_prio (queues s2 N1) = Some ?k" by (auto simp: bus2(2) next_prio_def less_Suc_eq numeral_3_eq_3)
  have BH: "bus_handlers be (\<lambda>_ _ t :: ('f, 'a) native_scheme. Some (h t))"
  proof
    fix t :: "('f, 'a) native_scheme" and es bs N
    assume "emos_bus be t es bs N"
    then show "\<exists>s' bs' N'. Some (h t) = Some s' \<and> emos_bus be s' es bs' (\<lambda>k. N k @ N' k) \<and>
        (\<forall>k. \<exists>ms. queues s' (\<lambda>k. N k @ N' k) k = queues t N k @ ms) \<and> poll_next_index s' = poll_next_index t"
      using bus_truncate [OF h(2) [of t]] by (intro exI [of _ "h t"] exI [of _ bs] exI [of _ "\<lambda>_. []"]) simp
  qed
  have rep: "emos_rep s2 bs1 N1" using bus2(1) by (simp add: emos_bus_def)
  have same: "emos_process_queued_event be call s2 = emos_process_queued_event be (\<lambda>_ _ t. Some (h t)) s2"
  proof -
    have "map (node_msg (pool_mem s2)) (N1 ?k) = [msg_ctx m]" using fun_cong [OF bus2(2), of ?k] by (simp add: queues_def)
    then obtain p where N: "N1 ?k = [p]" and "node_msg (pool_mem s2) p = msg_ctx m" by auto
    moreover from N have "task_tbl s2 ?k = p" using emos_repD(2) [OF rep k(1)] by (auto dest: plist_head)
    moreover have "task_tbl s2 ?k \<noteq> NULL" using queued_loop_next(2) [OF rep np] by simp
    moreover have "emos_entry_find be (ctx_task_id (msg_ctx m)) s2 = Some e"
      using bus2(1) e by (simp add: emos_bus_def eb.find_law [of be s2 es] msg_ctx_def post_ctx_def)
    ultimately have "emos_queued_loop be call ?k 1 s2 = emos_queued_loop be (\<lambda>_ _ t. Some (h t)) ?k 1 s2"
      using h(1) k(3) by (simp add: Let_def)
    then show ?thesis using queued_loop_next(1) [OF rep] np by simp
  qed
  from bus_handlers.queued_step [OF BH bus2(1) np] obtain s3 s' where
    Q: "emos_process_queued_event be (\<lambda>_ _ t. Some (h t)) s2 = Some (1, s')"
      "dispatches be (\<lambda>_ _ t. Some (h t)) (hd (queues s2 N1 ?k)) s2 s3" "emos.more s' = emos.more s3" by blast
  have "emos_entry_find be (pm_task_id m) s2 = Some e" using bus2(1) e by (simp add: emos_bus_def eb.find_law [of be s2 es])
  then have "s3 = h s2" using Q(2) by (simp add: dispatches_def bus2(2) msg_ctx_def post_ctx_def)
  moreover have "emos_process be call (rtbus_process_async_posts be) s = Some (Inr 1, s')"
    using bus Q(1) by (simp add: emos_process_def emos_bus_def table_ok_def async same)
  ultimately show ?thesis using Q(3) more2 by (intro exI [of _ s2] exI [of _ s']) simp
qed

lemma bus_updates:
  fixes s :: "('f, 'a) native_scheme"
  shows "emos_bus be (s\<lparr>event_sem := n\<rparr>) es bs N = emos_bus be s es bs N"
    "emos_bus be (s\<lparr>sram := r\<rparr>) es bs N = emos_bus be s es bs N"
proof -
  have "backend_holds be (s\<lparr>event_sem := n\<rparr>) es = backend_holds be s es" by (rule backend_holds_cong) simp_all
  then show "emos_bus be (s\<lparr>event_sem := n\<rparr>) es bs N = emos_bus be s es bs N"
    by (simp add: emos_bus_def emos_rep_def plist_def)
  show "emos_bus be (s\<lparr>sram := r\<rparr>) es bs N = emos_bus be s es bs N"
    by (rule bus_truncate) (simp add: emos.truncate_def)
qed

text \<open>The application at rest on an idle bus: nothing is pending, handed over or completed, and the pool
  has room for a request.\<close>

definition at_rest :: "backend \<Rightarrow> emos_entry list \<Rightarrow> ('f, 'a) native_scheme \<Rightarrow> bool" where
  "at_rest be es s \<longleftrightarrow> emos_bus be s es [] (\<lambda>_. []) \<and> pool_has_room s [] 48 \<and> post_msgq s = [] \<and> api_busy s = 0 \<and>
     result_sem s = 0"

lemma room_less: "pool_has_room s [] 48 \<Longrightarrow> n \<le> 32 \<Longrightarrow> pool_has_room s [] (16 + n)"
proof -
  assume "pool_has_room s [] 48" "n \<le> 32"
  moreover have "round_up4 (16 + n) \<le> round_up4 48" using \<open>n \<le> 32\<close> by (simp add: round_up4_def div_le_mono)
  ultimately show ?thesis by (simp add: pool_has_room_def split: if_splits)
qed

lemma request_answered:
  fixes s :: "('f, 'a) native_scheme"
  assumes rest: "at_rest be es s" and e: "List.find (\<lambda>e. e_task_id e = t) es = Some e"
    and p: "length p \<le> 32" "p \<noteq> []"
    and h: "\<And>u :: ('f, 'a) native_scheme. call (e_task_entry e) \<lparr>ctx_task_id = t, ctx_id = cid, ctx_payload = p\<rparr> u = Some (h u)"
      "\<And>u :: ('f, 'a) native_scheme. emos.truncate (h u) = emos.truncate u"
    and fin: "\<And>u. emos.more u = emos.more (s\<lparr>sram := st32 (sram s) result (2 ^ 32 - RTBUS_EINPROGRESS)\<rparr>) \<Longrightarrow> result_sem (h u) = 1"
  shows "\<exists>u s'. rtbus_post_wait_result (runtime_step be call) code t cid p result s =
      Some (of_nat (ld32 (sram (h u)) result), s') \<and>
    emos.more u = emos.more (s\<lparr>sram := st32 (sram s) result (2 ^ 32 - RTBUS_EINPROGRESS)\<rparr>) \<and>
    emos.more s' = emos.more ((h u)\<lparr>result_sem := 0\<rparr>)"
proof -
  note R = rest [unfolded at_rest_def]
  define a where "a = s\<lparr>sram := st32 (sram s) result (2 ^ 32 - RTBUS_EINPROGRESS)\<rparr>"
  define m where "m = \<lparr>pm_task_id = t, pm_ctx_id = cid, pm_payload_len = length p,
    pm_payload = p @ replicate (32 - length p) 0\<rparr>"
  define b where "b = a\<lparr>post_msgq := [m], event_sem := 1\<rparr>"
  have a: "api_busy a = 0" "post_msgq a = []" "result_sem a = 0" "emos_bus be a es [] (\<lambda>_. [])"
    using R by (simp_all add: a_def bus_updates)
  have ev: "min 1 (n + 1) = (1 :: nat)" for n by simp
  have post: "native_api_rtbus_post t cid (Some p) (length p) a = (ok, b)"
  proof -
    have "a\<lparr>api_busy := 0\<rparr> = a" using a(1) by (cases a) simp
    then show ?thesis using p a(1,2)
      by (simp add: native_api_rtbus_post_def layout_defs Let_def runtime_event_signal_def b_def m_def)
  qed
  have b: "emos_bus be b es [] (\<lambda>_. [])" "post_msgq b = [m]" "post_msg_ok m" "api_busy b = 0" "result_sem b = 0"
    using a p(1) by (simp_all add: b_def bus_updates m_def post_msg_ok_def layout_defs)
  have room: "pool_has_room b [] (16 + pm_payload_len m)"
  proof -
    have "high_water 0 b = high_water 0 s" "top_of_heap b = top_of_heap s" by (simp_all add: high_water_def b_def a_def)
    then show ?thesis using room_less [of s "length p"] R p(1) by (simp add: pool_has_room_def m_def)
  qed
  have mc: "msg_ctx m = \<lparr>ctx_task_id = t, ctx_id = cid, ctx_payload = p\<rparr>" "pm_task_id m = t"
    using p(2) by (simp_all add: msg_ctx_def m_def post_ctx_def)
  have ba: "emos.more (b\<lparr>post_msgq := []\<rparr>) = emos.more a" using a(2) by (cases a) (simp add: b_def)
  obtain u s' where Q: "emos_process be call (rtbus_process_async_posts be) b = Some (Inr 1, s')"
    "emos.more s' = emos.more (h u)" "emos.more u = emos.more a"
    using request_round [where h = h and call = call, OF b(1) room b(2-4) _ h(1) [folded mc(1)] h(2)] e mc(2) ba by auto
  note S = native_of_more [OF Q(2)]
  have sem: "result_sem s' = 1" using fin [of u] Q(3) S(4) by (simp add: a_def)
  have "emos.more (s'\<lparr>result_sem := 0\<rparr>) = emos.more ((h u)\<lparr>result_sem := 0\<rparr>)" using Q(2) by (cases s'; cases "h u") simp
  moreover have "rtbus_post_wait_result (runtime_step be call) code t cid p result s =
      Some (of_nat (ld32 (sram (h u)) result), s'\<lparr>result_sem := 0\<rparr>)"
    unfolding rtbus_post_wait_result_def Let_def a_def [symmetric] post prod.case
    using b(5) sem Q(1) S(3) by (simp add: native_api_result_wait_def runtime_step_def)
  ultimately show ?thesis using Q(3) unfolding a_def by blast
qed

text \<open>Completing a request writes the result and gives the semaphore.\<close>

lemma complete_answers:
  fixes s :: "('f, 'a) native_scheme"
  assumes "native_result_addr_valid V a" "a \<noteq> 0" "result_sem s = 0"
  shows "result_sem (snd (native_service_complete_result V a v s)) = 1"
    "sram (snd (native_service_complete_result V a v s)) = st32 (sram s) a (unat v)"
  using assms by (simp_all add: native_service_complete_result_def k_event_post_def Let_def)

lemma complete_truncate [simp]:
  fixes s :: "('f, 'a) native_scheme"
  shows "emos.truncate (snd (native_service_complete_result V a v s)) = emos.truncate s"
  by (simp add: native_service_complete_result_def k_event_post_def Let_def emos.truncate_def)

lemma result_read: "of_nat (ld32 (st32 m a (unat (v :: 32 word))) a) = v"
  using unsigned_less [of v] by (simp add: mem_simps)

text \<open>A service of one characteristic is a service of the table that follows its UUID.\<close>

lemma rd_wr_part:
  assumes "o' + n \<le> length bs"
  shows "rd (wr m a bs) (a + o') n = slice o' n bs"
  using assms by (auto simp: rd_def wr_def slice_def intro: nth_equalityI)

lemma notify_service_def_at:
  assumes "def + 16 < 4294967296" "m' = wr m frame (notify_service_def m def)"
  shows "service_def_at m' frame = \<lparr>sd_service_uuid = rd m def 16, sd_chrc_count = 1, sd_chrcs_addr = def + 16\<rparr>"
proof -
  have l: "length (notify_service_def m def) = 24" by (simp add: notify_service_def_def)
  have "rd m' frame 16 = rd m def 16" using rd_wr_part [of 0 16 "notify_service_def m def" m frame]
    by (simp add: assms(2) l) (simp add: notify_service_def_def slice_def)
  moreover have "m' (frame + 16) = 1" by (simp add: assms(2) wr_def l) (simp add: notify_service_def_def nth_append)
  moreover have "ld32 m' (frame + 20) = def + 16"
    using rd_wr_part [of 20 4 "notify_service_def m def" m frame] assms(1)
    by (simp add: ld32_def assms(2) l) (simp add: notify_service_def_def slice_def un_le32)
  ultimately show ?thesis by (simp add: service_def_at_def)
qed

text \<open>A round of the diagnostics task: the sum, and only the application's RAM and the wake-up flags changed.\<close>

lemma diagnostics_add_round:
  fixes s :: "('f, 'd, 'b, 'a) ble_scheme"
  assumes "at_rest be runtime_tasks s" "native_result_addr_valid V result" "0 < result" "result < 4294967296"
  shows "\<exists>m w s'. runtime_diagnostics_add (runtime_step be (runtime_call B U V X code irq cmds)) code result lhs rhs s =
    Some (lhs + rhs, s') \<and> emos.more s' = emos.more (s\<lparr>sram := m, wake_event := w\<rparr>)"
proof -
  let ?p = "le32 result @ le32 (unat lhs) @ le32 (unat rhs)"
  let ?h = "\<lambda>u :: ('f, 'd, 'b, 'a) ble_scheme. snd (native_service_complete_result V result (lhs + rhs) u)"
  let ?ctx = "\<lparr>ctx_task_id = RTBUS_TASK_DIAGNOSTICS, ctx_id = APPLICATION_DIAGNOSTICS_ADD, ctx_payload = ?p\<rparr>"
  have e: "List.find (\<lambda>e. e_task_id e = RTBUS_TASK_DIAGNOSTICS) runtime_tasks = Some (EMOS_TASK_ENTRY 0 2 3)"
    by (simp add: runtime_tasks_def RTBUS_TASK_DIAGNOSTICS_def EMOS_TASK_ENTRY_def)
  have words: "un_le (slice 0 4 ?p) = result" "un_le (slice 4 4 ?p) = unat lhs" "un_le (slice 8 4 ?p) = unat rhs"
    using assms(4) unsigned_less [of lhs] unsigned_less [of rhs] by (simp_all add: slice_def un_le32)
  have ids: "APPLICATION_DIAGNOSTICS_ADD \<noteq> SYS_EVT EMOS_SYS_INIT" "APPLICATION_DIAGNOSTICS_ADD \<noteq> APPLICATION_DIAGNOSTICS_CLI"
    by (simp_all add: APPLICATION_DIAGNOSTICS_ADD_def APPLICATION_DIAGNOSTICS_CLI_def ble_ids)
  have call: "runtime_call B U V X code irq cmds (e_task_entry (EMOS_TASK_ENTRY 0 2 3)) ?ctx u = Some (?h u)" for u
    using ids by (simp add: runtime_call_def EMOS_TASK_ENTRY_def rtbus_diagnostics_process_def words Let_def)
  have "\<exists>u s'. rtbus_post_wait_result (runtime_step be (runtime_call B U V X code irq cmds)) code RTBUS_TASK_DIAGNOSTICS
      APPLICATION_DIAGNOSTICS_ADD ?p result s = Some (of_nat (ld32 (sram (?h u)) result), s') \<and>
    emos.more u = emos.more (s\<lparr>sram := st32 (sram s) result (2 ^ 32 - RTBUS_EINPROGRESS)\<rparr>) \<and>
    emos.more s' = emos.more ((?h u)\<lparr>result_sem := 0\<rparr>)"
  proof (rule request_answered [where h = ?h and call = "runtime_call B U V X code irq cmds", OF assms(1) e _ _ call])
    fix u assume "emos.more u = emos.more (s\<lparr>sram := st32 (sram s) result (2 ^ 32 - RTBUS_EINPROGRESS)\<rparr>)"
    from native_of_more(4) [OF this] show "result_sem (?h u) = 1"
      using complete_answers(1) [OF assms(2)] assms(1,3) by (simp add: at_rest_def)
  qed (simp_all add: le32_def)
  then obtain u s' where Q: "rtbus_post_wait_result (runtime_step be (runtime_call B U V X code irq cmds)) code RTBUS_TASK_DIAGNOSTICS
      APPLICATION_DIAGNOSTICS_ADD ?p result s = Some (of_nat (ld32 (sram (?h u)) result), s')"
    "emos.more u = emos.more (s\<lparr>sram := st32 (sram s) result (2 ^ 32 - RTBUS_EINPROGRESS)\<rparr>)"
    "emos.more s' = emos.more ((?h u)\<lparr>result_sem := 0\<rparr>)" by blast
  have r0: "result_sem u = 0" "post_msgq u = []" using native_of_more [OF Q(2)] assms(1) by (simp_all add: at_rest_def)
  have v: "of_nat (ld32 (sram (?h u)) result) = lhs + rhs"
    using complete_answers(2) [OF assms(2) _ r0(1), of "lhs + rhs"] assms(3) by (simp add: result_read)
  let ?m = "sram (?h u)" and ?w = "wake_event (?h u)"
  have "emos.more s' = emos.more (u\<lparr>sram := ?m, wake_event := ?w, result_sem := 0\<rparr>)"
    using Q(3) assms(2,3) by (simp add: native_service_complete_result_def k_event_post_def Let_def)
  also have "\<dots> = emos.more (s\<lparr>sram := ?m, wake_event := ?w, result_sem := 0\<rparr>)"
    using native_more_update [OF Q(2)] by simp
  also have "s\<lparr>sram := ?m, wake_event := ?w, result_sem := 0\<rparr> = s\<lparr>sram := ?m, wake_event := ?w\<rparr>"
    using assms(1) by (intro result_sem_same) (simp add: at_rest_def)
  finally have "emos.more s' = emos.more (s\<lparr>sram := ?m, wake_event := ?w\<rparr>)" .
  then show ?thesis using Q(1) v by (auto simp: runtime_diagnostics_add_def)
qed

section \<open>Properties\<close>

text \<open>A request of the application is answered.  With the application at rest on an idle bus, adding two
  numbers over the bus (the post, the hand-over, the queue, the diagnostics task, the completion in
  the application's RAM and the wait) returns their sum, with 32-bit wrap-around.\<close>

theorem application_adds:
  fixes s :: "('f, 'd, 'b, 'a) ble_scheme"
  assumes "at_rest be runtime_tasks s" "native_result_addr_valid V result" "0 < result" "result < 4294967296"
  shows "\<exists>s'. runtime_diagnostics_add (runtime_step be (runtime_call B U V X code irq cmds)) code result lhs rhs s =
    Some (lhs + rhs, s') \<and> result_sem s' = 0 \<and> post_msgq s' = []"
proof -
  obtain m w s' where "runtime_diagnostics_add (runtime_step be (runtime_call B U V X code irq cmds)) code result lhs rhs s =
      Some (lhs + rhs, s')" "emos.more s' = emos.more (s\<lparr>sram := m, wake_event := w\<rparr>)"
    using diagnostics_add_round [OF assms] by blast
  then show ?thesis using native_of_more [of s' "s\<lparr>sram := m, wake_event := w\<rparr>"] assms(1) by (auto simp: at_rest_def)
qed

text \<open>A demonstration: the four tasks on a pool of 256 bytes, the application's RAM from 0x20004000 on.\<close>

definition demo_runtime :: "(demo_flash, byte list \<times> byte list, bt_call list) ble" where
  "demo_runtime = demo_ble\<lparr>registered_entries := Some runtime_tasks, registered_entry_count := 4, entry_count := 4\<rparr>"

lemma demo_runtime_rest: "at_rest Entry_Table runtime_tasks demo_runtime"
proof -
  note defs = demo_runtime_def demo_ble_def demo_serial_def demo_cli_def demo_native_def demo_rtbus_def
    rtbus.defs native.defs cli.defs serial.defs ble.defs
  have "pool_inv 0 demo_runtime []"
    by (rule pool_inv_cong(1) [THEN iffD2, OF _ _ _ _ _ demo_pool_inv]) (simp_all add: defs)
  then have "emos_rep demo_runtime [] (\<lambda>_. [])" by (simp add: emos_rep_def defs)
  moreover have "table_ok runtime_tasks"
    by (simp add: table_ok_def runtime_tasks_def entry_ok_def EMOS_TASK_ENTRY_def EMOS_TASK_PRIORITY_NUMBER_def)
  ultimately have "emos_bus Entry_Table demo_runtime runtime_tasks [] (\<lambda>_. [])"
    by (simp add: emos_bus_def defs) (simp add: runtime_tasks_def)
  moreover have "pool_has_room demo_runtime [] 48"
    using pool_inv_cong(2) [of demo_runtime demo_pool 0] by (simp add: pool_has_room_def defs demo_pool_fields round_up4_def)
  ultimately show ?thesis by (simp add: at_rest_def) (simp add: defs)
qed

theorem application_adds_witness:
  "\<exists>s'. runtime_diagnostics_add (runtime_step Entry_Table (runtime_call demo_bt demo_uart demo_native_env demo_xip (\<lambda>_. 0)
     (\<lambda>s. s) [])) (\<lambda>_. 0) 0x20004010 7 0xFFFFFFFF demo_runtime = Some (6, s')"
proof -
  have "native_result_addr_valid demo_native_env 0x20004010"
    by (simp add: native_result_addr_valid_def demo_native_env_def NATIVE_RAM_SIZE_def demo_env_def)
  from application_adds [OF demo_runtime_rest this, where lhs = 7 and rhs = "0xFFFFFFFF" and B = demo_bt and U = demo_uart and
      X = demo_xip and code = "\<lambda>_. 0" and irq = "\<lambda>s. s" and cmds = "[]"]
  show ?thesis by auto
qed

text \<open>The same for the Bluetooth service: pairing over the bus answers with what the stack says.\<close>

lemma ble_of_more:
  fixes s t :: "('f, 'd, 'b, 'a) ble_scheme"
  assumes "emos.more s = emos.more t"
  shows "current_conn s = current_conn t" "bt s = bt t"
  using assms by (cases s; cases t; simp)+

lemma pair_now_frame [simp]:
  "emos.truncate (snd (rtbus_ble_pair_now B conn s)) = emos.truncate s"
  "result_sem (snd (rtbus_ble_pair_now B conn s)) = result_sem s"
  "post_msgq (snd (rtbus_ble_pair_now B conn s)) = post_msgq s"
  by (simp_all add: rtbus_ble_pair_now_def rtbus_ble_set_security_now_def emos.truncate_def split: prod.split)

text \<open>The answer to a request for pairing, and the stack afterwards.\<close>

definition spec_pair :: "'b bt_stack \<Rightarrow> 32 word \<Rightarrow> 32 word \<Rightarrow> 'b \<Rightarrow> rc \<times> 'b" where
  "spec_pair B current conn b =
     (if \<not> CONFIG_BT_SMP B then (Inl ENOTSUP, b)
      else if conn = 0 \<or> conn \<noteq> current then (Inl ENOTCONN, b)
      else bt_conn_set_security B conn BT_SECURITY_L2 b)"

lemma pair_now_spec:
  "spec_pair B (current_conn s) conn (bt s) =
     (fst (rtbus_ble_pair_now B conn s), bt (snd (rtbus_ble_pair_now B conn s)))"
  by (simp add: spec_pair_def rtbus_ble_pair_now_def rtbus_ble_set_security_now_def split: prod.split)

text \<open>C27: a request to pair is answered.  With the application at rest on an idle bus, \<open>runtime_ble_pair\<close>
  returns what the stack says about raising the security of that very connection, and the stack is
  asked once; for any other connection than the current one, or after it is gone, it returns
  \<open>-ENOTCONN\<close> and the stack is not asked at all.\<close>

theorem pairing_answers:
  fixes s :: "('f, 'd, 'b, 'a) ble_scheme"
  assumes "at_rest be runtime_tasks s" "native_result_addr_valid V result" "0 < result" "result < 4294967296"
  shows "\<exists>r b s'. spec_pair B (current_conn s) conn (bt s) = (r, b) \<and>
    runtime_ble_pair (runtime_step be (runtime_call B U V X code irq cmds)) code result conn s = Some (code r, s') \<and>
    bt s' = b \<and> current_conn s' = current_conn s \<and> result_sem s' = 0 \<and> post_msgq s' = []"
proof -
  let ?p = "le32 result @ le32 (unat conn)" and ?pair = "\<lambda>u :: ('f, 'd, 'b, 'a) ble_scheme. rtbus_ble_pair_now B conn u"
  let ?h = "\<lambda>u. snd (native_service_complete_result V result (code (fst (?pair u))) (snd (?pair u)))"
  let ?ctx = "\<lparr>ctx_task_id = RTBUS_TASK_RUNTIME_BLE, ctx_id = APPLICATION_BLE_PAIR, ctx_payload = ?p\<rparr>"
  let ?sent = "s\<lparr>sram := st32 (sram s) result (2 ^ 32 - RTBUS_EINPROGRESS)\<rparr>"
  have e: "List.find (\<lambda>e. e_task_id e = RTBUS_TASK_RUNTIME_BLE) runtime_tasks = Some (EMOS_TASK_ENTRY 3 2 1)"
    by (simp add: runtime_tasks_def RTBUS_TASK_RUNTIME_BLE_def EMOS_TASK_ENTRY_def)
  have words: "un_le (slice 0 4 ?p) = result" "un_le (slice 4 4 ?p) = unat conn" "length ?p = 8"
    using assms(4) unsigned_less [of conn] by (simp_all add: slice_def un_le32)
  have call: "runtime_call B U V X code irq cmds (e_task_entry (EMOS_TASK_ENTRY 3 2 1)) ?ctx u = Some (?h u)" for u
    using words by (simp add: runtime_call_def EMOS_TASK_ENTRY_def rtbus_ble_process_def req_word_def ble_ids Let_def
        split: prod.split)
  have "\<exists>u s'. rtbus_post_wait_result (runtime_step be (runtime_call B U V X code irq cmds)) code RTBUS_TASK_RUNTIME_BLE
      APPLICATION_BLE_PAIR ?p result s = Some (of_nat (ld32 (sram (?h u)) result), s') \<and>
    emos.more u = emos.more ?sent \<and> emos.more s' = emos.more ((?h u)\<lparr>result_sem := 0\<rparr>)"
  proof (rule request_answered [where h = ?h and call = "runtime_call B U V X code irq cmds", OF assms(1) e _ _ call])
    fix u :: "('f, 'd, 'b, 'a) ble_scheme" assume "emos.more u = emos.more ?sent"
    from native_of_more(4) [OF this] show "result_sem (?h u) = 1"
      using complete_answers(1) [OF assms(2), where s = "snd (?pair u)"] assms(1,3) by (simp add: at_rest_def)
  qed (simp_all add: le32_def)
  then obtain u s' where Q: "rtbus_post_wait_result (runtime_step be (runtime_call B U V X code irq cmds)) code
      RTBUS_TASK_RUNTIME_BLE APPLICATION_BLE_PAIR ?p result s = Some (of_nat (ld32 (sram (?h u)) result), s')"
    "emos.more u = emos.more ?sent" "emos.more s' = emos.more ((?h u)\<lparr>result_sem := 0\<rparr>)" by blast
  have r0: "result_sem u = 0" "post_msgq u = []" using native_of_more [OF Q(2)] assms(1) by (simp_all add: at_rest_def)
  have v: "of_nat (ld32 (sram (?h u)) result) = code (fst (?pair u))"
    using complete_answers(2) [OF assms(2), where s = "snd (?pair u)"] r0(1) assms(3) by (simp add: result_read)
  have h: "post_msgq (?h u) = []" "bt (?h u) = bt (snd (?pair u))" "current_conn (?h u) = current_conn u"
    using r0(2) by (simp_all add: native_service_complete_result_def k_event_post_def Let_def rtbus_ble_pair_now_def
        rtbus_ble_set_security_now_def split: prod.split)
  have "spec_pair B (current_conn s) conn (bt s) = (fst (?pair u), bt (snd (?pair u)))"
    using pair_now_spec [of B u conn] ble_of_more [OF Q(2)] by simp
  then show ?thesis using Q(1) v h native_of_more [OF Q(3)] ble_of_more [OF Q(3)] ble_of_more [OF Q(2)]
    by (simp add: runtime_ble_pair_def)
qed

theorem pairing_answers_witness:
  "\<exists>s'. runtime_ble_pair (runtime_step Entry_Table (runtime_call demo_bt demo_uart demo_native_env demo_xip
     (\<lambda>r. if r = ok then 0 else 1) (\<lambda>s. s) [])) (\<lambda>r. if r = ok then 0 else 1) 0x20004010 77 demo_runtime = Some (1, s') \<and>
     bt s' = []"
proof -
  have "native_result_addr_valid demo_native_env 0x20004010"
    by (simp add: native_result_addr_valid_def demo_native_env_def NATIVE_RAM_SIZE_def demo_env_def)
  note P = pairing_answers [OF demo_runtime_rest this, where conn = 77 and B = demo_bt and U = demo_uart and
      X = demo_xip and code = "\<lambda>r. if r = ok then 0 else 1" and irq = "\<lambda>s. s" and cmds = "[]"]
  have "current_conn demo_runtime = 0" "bt demo_runtime = []"
    by (simp_all add: demo_runtime_def demo_ble_def serial.defs ble.defs)
  then have "spec_pair demo_bt (current_conn demo_runtime) 77 (bt demo_runtime) = (Inl ENOTCONN, [])"
    by (simp add: spec_pair_def demo_bt_def)
  then show ?thesis using P by auto
qed

end
