(* ===== verification/Application.thy ===== *)
theory Application
  imports Arduino Runtime
begin

text \<open>
  The sample application of a core (\<open>cores/rak4631/main.c\<close> without \<open>ARDUINO\<close>): it waits, adds over the
  bus, and reports on the serial port.
\<close>

definition report_text :: "byte list" where
  "report_text = map (\<lambda>c. of_nat (of_char c)) ''application: diagnostics add complete'' @ [10]"

text \<open>What \<open>main\<close> returns, the application's counter and the state; \<open>None\<close> when a call does not return.\<close>

definition module_main ::
    "'f native_env \<Rightarrow> 'd uart_driver \<Rightarrow> ('f, 'd, 'b, 'a) ble_scheme kernel \<Rightarrow> ('f, 'd, 'b, 'a) ble_scheme app \<Rightarrow>
     (('f, 'd, 'b, 'a) ble_scheme \<Rightarrow> ('f, 'd, 'b, 'a) ble_scheme option) \<Rightarrow> (rc \<Rightarrow> 32 word) \<Rightarrow> nat \<Rightarrow> 32 word \<Rightarrow>
     ('f, 'd, 'b, 'a) ble_scheme \<Rightarrow> (int \<times> 32 word \<times> ('f, 'd, 'b, 'a) ble_scheme) option" where
  "module_main V U K A run code result module_count s =
     (if \<not> rtbus_api_is_ready V s then Some (- RTBUS_ENOSYS, module_count, s)
      else do {
        (_, s) \<leftarrow> native_api_k_delay K A 2000 s;
        (module_count, s) \<leftarrow> runtime_diagnostics_add run code result module_count 2 s;
        let (_, s) = native_api_serial_write U 0 (Some report_text) (length report_text) s;
        Some (0, module_count, s)
      })"

lemma serial_of_more:
  fixes s t :: "('f, 'd, 'a) serial_scheme"
  assumes "emos.more s = emos.more t"
  shows "console_suppressed s = console_suppressed t" "ports s = ports t" "uart s = uart t"
  using assms by (cases s; cases t; simp)+

text \<open>C19: the sample application works.  When its API is ready and its delay ends with the bus idle and the
  port free to send, \<open>main\<close> returns 0, has counted up by two through a request to the diagnostics
  task, and has sent its report.\<close>

theorem sample_application_reports:
  fixes s :: "('f, 'd, 'b, 'a) ble_scheme"
  assumes "rtbus_api_is_ready V s" "native_api_k_delay K A 2000 s = Some (r, s1)"
    and "at_rest be runtime_tasks s1" "writable U 0 s1"
    and "native_result_addr_valid V result" "0 < result" "result < 4294967296"
    and "\<forall>b d. tx (uart_poll_out U 0 b d) = tx d @ [b]"
  shows "\<exists>s'. module_main V U K A (runtime_step be (runtime_call B U V X code irq cmds)) code result module_count s =
      Some (0, module_count + 2, s') \<and> tx (uart s') = tx (uart s1) @ report_text"
proof -
  obtain m w s2 where R: "runtime_diagnostics_add (runtime_step be (runtime_call B U V X code irq cmds)) code result
      module_count 2 s1 = Some (module_count + 2, s2)" "emos.more s2 = emos.more (s1\<lparr>sram := m, wake_event := w\<rparr>)"
    using diagnostics_add_round [OF assms(3,5-7)] by blast
  note same = serial_of_more [OF R(2)]
  have "writable U 0 s2"
    using assms(4) same by (simp add: writable_def native_api_serial_device_def native_api_serial_tx_ready_def
        native_api_serial_is_cdc_def)
  moreover have "length report_text \<noteq> 0" by (simp add: report_text_def)
  ultimately have W: "native_api_serial_write U 0 (Some report_text) (length report_text) s2 =
      (length report_text, s2\<lparr>uart := fold (uart_poll_out U 0) report_text (uart s2)\<rparr>)"
    by (simp add: write_spec)
  have "tx (fold (uart_poll_out U 0) bs d) = tx d @ bs" for bs d
    using assms(8) by (induction bs arbitrary: d) simp_all
  then show ?thesis using assms(1,2) R(1) W same by (simp add: module_main_def)
qed

text \<open>A demonstration: a clock that only waiting moves, an application without callback, the API table
  installed.\<close>

definition demo_clock :: "('f, 'a) native_scheme kernel" where
  "demo_clock = \<lparr>k_uptime_get = (\<lambda>s. (int (event_sem s), s)), k_sleep_ms = (\<lambda>n s. s),
     k_block_ms = (\<lambda>n s. s\<lparr>event_sem := event_sem s + nat n\<rparr>)\<rparr>"

definition demo_silent :: "'s app" where
  "demo_silent = \<lparr>app_entry = (\<lambda>_ s. Some s), app_callback = (\<lambda>_ _ s. Some s)\<rparr>"

definition demo_ready :: "(demo_flash, byte list \<times> byte list, bt_call list) ble" where
  "demo_ready = native_api_table_install demo_native_env demo_runtime"

lemma demo_ready_fields:
  "event_msgq demo_ready = []" "patch_handoff demo_ready = False" "event_sem demo_ready = 0"
  "post_msgq demo_ready = []" "api_busy demo_ready = 0" "result_sem demo_ready = 0"
  "console_suppressed demo_ready = False" "length (ports demo_ready) = 2" "has_dev (ports demo_ready ! 0)"
  "uart demo_ready = ([], [])"
  by (simp_all add: demo_ready_def native_api_table_install_def demo_runtime_def demo_ble_def demo_serial_def demo_cli_def
      demo_native_def demo_rtbus_def rtbus.defs native.defs cli.defs serial.defs ble.defs)

lemma demo_delay:
  "native_api_k_delay demo_clock demo_silent 2000 demo_ready = Some (ok, demo_ready\<lparr>wake_event := 0, event_sem := 2000\<rparr>)"
proof -
  have d: "dispatch_events A s = Some s" if "event_msgq s = []" for A and s :: "('f, 'a) native_scheme"
    using that by (subst dispatch_events.simps) simp
  have c: "k_uptime_get demo_clock s = (int (event_sem s), s)"
    "k_block_ms demo_clock n s = s\<lparr>event_sem := event_sem s + nat n\<rparr>" for n and s :: "('f, 'a) native_scheme"
    by (simp_all add: demo_clock_def)
  have e: "k_delay_loop demo_clock demo_silent 2000 (demo_ready\<lparr>wake_event := 0, event_sem := 2000\<rparr>) =
      Some (ok, demo_ready\<lparr>wake_event := 0, event_sem := 2000\<rparr>)"
    by (subst k_delay_loop.simps) (simp add: c demo_ready_fields d)
  have "k_delay_loop demo_clock demo_silent 2000 demo_ready = Some (ok, demo_ready\<lparr>wake_event := 0, event_sem := 2000\<rparr>)"
    by (subst k_delay_loop.simps) (simp add: c demo_ready_fields e)
  then show ?thesis by (simp add: native_api_k_delay_def d demo_ready_fields c)
qed

lemma demo_ready_rest: "at_rest Entry_Table runtime_tasks (demo_ready\<lparr>wake_event := 0, event_sem := 2000\<rparr>)"
proof -
  let ?s = "demo_runtime\<lparr>sram := sram demo_ready, wake_event := 0\<rparr>"
  have s: "demo_ready\<lparr>wake_event := 0, event_sem := 2000\<rparr> = ?s\<lparr>event_sem := 2000\<rparr>"
    by (simp add: demo_ready_def native_api_table_install_def)
  have "emos_bus Entry_Table ?s runtime_tasks [] (\<lambda>_. []) = emos_bus Entry_Table demo_runtime runtime_tasks [] (\<lambda>_. [])"
    by (rule bus_truncate) (simp add: emos.truncate_def)
  moreover have "pool_has_room (?s\<lparr>event_sem := 2000\<rparr>) [] 48 = pool_has_room demo_runtime [] 48"
    using pool_inv_cong(2) [of "?s\<lparr>event_sem := 2000\<rparr>" demo_runtime 0] by (simp add: pool_has_room_def)
  ultimately show ?thesis using demo_runtime_rest demo_ready_fields unfolding s by (simp add: at_rest_def bus_updates)
qed

theorem sample_application_reports_witness:
  "\<exists>s'. module_main demo_native_env demo_uart demo_clock demo_silent
     (runtime_step Entry_Table (runtime_call demo_bt demo_uart demo_native_env demo_xip (\<lambda>_. 0) (\<lambda>s. s) []))
     (\<lambda>_. 0) 0x20004010 5 demo_ready = Some (0, 7, s') \<and> snd (uart s') = report_text"
proof -
  have "rtbus_api_is_ready demo_native_env demo_ready"
    using installed_slot [of _ demo_native_env demo_runtime]
    by (simp add: rtbus_api_is_ready_def demo_ready_def demo_native_env_def RTBUS_API_SLOT_COUNT_def)
  moreover have "writable demo_uart 0 (demo_ready\<lparr>wake_event := 0, event_sem := 2000\<rparr>)"
    by (simp add: writable_def native_api_serial_device_def native_api_serial_tx_ready_def demo_ready_fields demo_uart_def)
  moreover have "native_result_addr_valid demo_native_env 0x20004010"
    by (simp add: native_result_addr_valid_def demo_native_env_def NATIVE_RAM_SIZE_def demo_env_def)
  ultimately show ?thesis
    using sample_application_reports [where module_count = 5 and tx = snd and U = demo_uart and B = demo_bt and X = demo_xip
        and code = "\<lambda>_. 0" and irq = "\<lambda>s. s" and cmds = "[]", OF _ demo_delay demo_ready_rest]
    by (auto simp: demo_uart_def demo_ready_fields)
qed

end
