(* ===== verification/Startup.thy ===== *)
theory Startup
  imports Prelude
begin

text \<open>
  The start-up service (\<open>zephyr/runtime/src/services/startup_service.c\<close>): bringing up the USB console,
  the work item that waits for a terminal to open it, and the check of the flash device.  The USB stack
  and the drivers are the parameter \<open>usb_stack\<close>; log messages are left out.
\<close>

section \<open>State and drivers\<close>

datatype descriptor = Usb_lang | Usb_mfr | Usb_product | Usb_sn
datatype line_ctrl = UART_LINE_CTRL_DCD | UART_LINE_CTRL_DSR

text \<open>The build: whether the board has an identity for the serial number, a second console, and the
  flash; and the calls of the USB stack and the serial driver.\<close>

record 'u usb_stack =
  CONFIG_USB :: bool
  CONFIG_HWINFO :: bool
  has_mcumgr :: bool
  has_nor_flash :: bool
  usbd_add_descriptor :: "descriptor \<Rightarrow> 'u \<Rightarrow> rc \<times> 'u"
  usbd_add_configuration :: "'u \<Rightarrow> rc \<times> 'u"
  usbd_register_class :: "string \<Rightarrow> 'u \<Rightarrow> rc \<times> 'u"
  usbd_device_set_code_triple :: "'u \<Rightarrow> rc \<times> 'u"
  usbd_init :: "'u \<Rightarrow> rc \<times> 'u"
  usbd_enable :: "'u \<Rightarrow> rc \<times> 'u"
  uart_is_ready :: "'u \<Rightarrow> bool"
  flash_is_ready :: "'u \<Rightarrow> bool"
  uart_line_ctrl_get :: "'u \<Rightarrow> errno + nat"
  uart_line_ctrl_set :: "line_ctrl \<Rightarrow> nat \<Rightarrow> 'u \<Rightarrow> 'u"

text \<open>The statics; the work item is not queued, or due after some milliseconds.\<close>

record 'u startup =
  startup_usb_ready :: bool
  startup_usb_dtr_ready :: bool
  startup_usb_dtr_work :: "nat option"
  usb :: 'u

definition STARTUP_USB_DTR_POLL_INTERVAL_MS :: nat where "STARTUP_USB_DTR_POLL_INTERVAL_MS = 100"

section \<open>Operations\<close>

text \<open>Calls in sequence, up to the first that fails.\<close>

fun calls :: "('u \<Rightarrow> rc \<times> 'u) list \<Rightarrow> 'u \<Rightarrow> rc \<times> 'u" where
  "calls [] u = (ok, u)"
| "calls (f # fs) u = (let (ret, u) = f u in if ret \<noteq> ok then (ret, u) else calls fs u)"

definition startup_usb_register_cdc_acm :: "'u usb_stack \<Rightarrow> 'u \<Rightarrow> rc \<times> 'u" where
  "startup_usb_register_cdc_acm B u =
     calls ([usbd_add_configuration B, usbd_register_class B ''cdc_acm_0''] @
       (if has_mcumgr B then [usbd_register_class B ''cdc_acm_1''] else []) @ [usbd_device_set_code_triple B]) u"

definition startup_usb_dtr_work_handler :: "'u usb_stack \<Rightarrow> 'u startup \<Rightarrow> 'u startup" where
  "startup_usb_dtr_work_handler B s =
     (let again = s\<lparr>startup_usb_dtr_work := Some STARTUP_USB_DTR_POLL_INTERVAL_MS\<rparr>
      in if \<not> uart_is_ready B (usb s) then again
      else if (case uart_line_ctrl_get B (usb s) of Inl _ \<Rightarrow> True | Inr dtr \<Rightarrow> dtr = 0) then
        if startup_usb_ready s then again else s
      else if \<not> startup_usb_dtr_ready s then
        s\<lparr>usb := uart_line_ctrl_set B UART_LINE_CTRL_DSR 1 (uart_line_ctrl_set B UART_LINE_CTRL_DCD 1 (usb s)),
          startup_usb_dtr_ready := True\<rparr>
      else s)"

definition startup_usb_calls :: "'u usb_stack \<Rightarrow> ('u \<Rightarrow> rc \<times> 'u) list" where
  "startup_usb_calls B =
     [usbd_add_descriptor B Usb_lang, usbd_add_descriptor B Usb_mfr, usbd_add_descriptor B Usb_product] @
     (if CONFIG_HWINFO B then [usbd_add_descriptor B Usb_sn] else []) @
     [startup_usb_register_cdc_acm B, usbd_init B, usbd_enable B]"

definition startup_usb_init :: "'u usb_stack \<Rightarrow> 'u startup \<Rightarrow> rc \<times> 'u startup" where
  "startup_usb_init B s =
     (if startup_usb_ready s then (ok, s)
      else
        let (ret, u) = calls (startup_usb_calls B) (usb s);
            s = s\<lparr>usb := u\<rparr>
        in if ret \<noteq> ok then (ret, s)
        else if \<not> uart_is_ready B (usb s) then (Inl ENODEV, s)
        else (ok, s\<lparr>startup_usb_ready := True, startup_usb_dtr_work := Some 0\<rparr>))"

definition startup_service_init :: "'u usb_stack \<Rightarrow> 'u startup \<Rightarrow> rc \<times> 'u startup" where
  "startup_service_init B s =
     (let (ret, s) = (if CONFIG_USB B then startup_usb_init B s else (ok, s))
      in if ret \<noteq> ok then (ret, s)
      else if has_nor_flash B \<and> \<not> flash_is_ready B (usb s) then (Inl ENODEV, s)
      else (ok, s))"

section \<open>The console as a state machine\<close>

text \<open>The initialisation, the work item when it is due, and steps of the USB stack and the host (\<open>T\<close>).\<close>

inductive usb_step :: "'u usb_stack \<Rightarrow> ('u \<Rightarrow> 'u \<Rightarrow> bool) \<Rightarrow> 'u startup \<Rightarrow> 'u startup \<Rightarrow> bool" for B T where
  initialise: "usb_step B T s (snd (startup_service_init B s))"
| work_due: "startup_usb_dtr_work s = Some n \<Longrightarrow>
    usb_step B T s (startup_usb_dtr_work_handler B (s\<lparr>startup_usb_dtr_work := None\<rparr>))"
| outside: "T (usb s) u \<Longrightarrow> usb_step B T s (s\<lparr>usb := u\<rparr>)"

inductive usb_reach :: "'u usb_stack \<Rightarrow> ('u \<Rightarrow> 'u \<Rightarrow> bool) \<Rightarrow> 'u startup \<Rightarrow> bool" for B T where
  fresh: "usb_reach B T \<lparr>startup_usb_ready = False, startup_usb_dtr_ready = False, startup_usb_dtr_work = None, usb = u\<rparr>"
| more: "usb_reach B T s \<Longrightarrow> usb_step B T s s' \<Longrightarrow> usb_reach B T s'"

definition usb_inv :: "'u startup \<Rightarrow> bool" where
  "usb_inv s \<longleftrightarrow> (startup_usb_ready s \<and> \<not> startup_usb_dtr_ready s \<longrightarrow> startup_usb_dtr_work s \<noteq> None) \<and>
     (startup_usb_dtr_ready s \<or> startup_usb_dtr_work s \<noteq> None \<longrightarrow> startup_usb_ready s)"

lemma init_ready:
  "startup_usb_ready s \<Longrightarrow> snd (startup_usb_init B s) = s"
  "fst (startup_usb_init B s) = ok \<Longrightarrow> startup_usb_ready (snd (startup_usb_init B s))"
  by (auto simp: startup_usb_init_def Let_def split: prod.splits if_splits)

lemma init_inv: "usb_inv s \<Longrightarrow> usb_inv (snd (startup_service_init B s))"
proof -
  assume i: "usb_inv s"
  then have "usb_inv (snd (startup_usb_init B s))"
    by (auto simp: startup_usb_init_def Let_def usb_inv_def split: prod.splits if_splits)
  then show ?thesis using i by (auto simp: startup_service_init_def Let_def split: prod.splits if_splits)
qed

lemma work_inv:
  "usb_inv s \<Longrightarrow> startup_usb_dtr_work s = Some n \<Longrightarrow>
     usb_inv (startup_usb_dtr_work_handler B (s\<lparr>startup_usb_dtr_work := None\<rparr>))"
  by (auto simp: startup_usb_dtr_work_handler_def usb_inv_def Let_def)

lemma reach_usb_inv: "usb_reach B T s \<Longrightarrow> usb_inv s"
proof (induction rule: usb_reach.induct)
  case (fresh u)
  then show ?case by (simp add: usb_inv_def)
next
  case (more s s')
  from more(2) show ?case
  proof (cases rule: usb_step.cases)
    case outside
    then show ?thesis using more(3) by (simp add: usb_inv_def)
  qed (use more(3) init_inv work_inv in auto)
qed

section \<open>Property\<close>

text \<open>C25: the console is watched until a terminal opens it.  In every reachable state with the console up and
  no terminal seen yet, the work item is queued, and when it is due it either sees the terminal, raises
  both lines once and is done, or leaves the lines alone and comes back after 100 ms; once a terminal
  was seen the work item never touches the lines again.\<close>

theorem console_watched_until_opened:
  assumes "usb_reach B T s" "startup_usb_ready s"
    and "s' = startup_usb_dtr_work_handler B (s\<lparr>startup_usb_dtr_work := None\<rparr>)"
    and "opened \<longleftrightarrow> uart_is_ready B (usb s) \<and> (\<exists>dtr. uart_line_ctrl_get B (usb s) = Inr dtr \<and> dtr \<noteq> 0)"
  shows "(\<not> startup_usb_dtr_ready s \<longrightarrow> startup_usb_dtr_work s \<noteq> None) \<and>
    (opened \<and> \<not> startup_usb_dtr_ready s \<longrightarrow> startup_usb_dtr_ready s' \<and> startup_usb_dtr_work s' = None \<and>
       usb s' = uart_line_ctrl_set B UART_LINE_CTRL_DSR 1 (uart_line_ctrl_set B UART_LINE_CTRL_DCD 1 (usb s))) \<and>
    (\<not> opened \<longrightarrow> startup_usb_dtr_work s' = Some 100 \<and> usb s' = usb s) \<and>
    (startup_usb_dtr_ready s \<longrightarrow> usb s' = usb s)"
  using reach_usb_inv [OF assms(1)] assms(2-4)
  by (cases "uart_line_ctrl_get B (usb s)")
    (auto simp: usb_inv_def startup_usb_dtr_work_handler_def STARTUP_USB_DTR_POLL_INTERVAL_MS_def Let_def)

text \<open>A demonstration: a stack whose calls succeed, on which a terminal is open and which records the lines.\<close>

definition demo_usb :: "line_ctrl list usb_stack" where
  "demo_usb = \<lparr>CONFIG_USB = True, CONFIG_HWINFO = True, has_mcumgr = False, has_nor_flash = True,
     usbd_add_descriptor = (\<lambda>_ u. (ok, u)), usbd_add_configuration = (\<lambda>u. (ok, u)),
     usbd_register_class = (\<lambda>_ u. (ok, u)), usbd_device_set_code_triple = (\<lambda>u. (ok, u)), usbd_init = (\<lambda>u. (ok, u)),
     usbd_enable = (\<lambda>u. (ok, u)), uart_is_ready = (\<lambda>_. True), flash_is_ready = (\<lambda>_. True),
     uart_line_ctrl_get = (\<lambda>_. Inr 1), uart_line_ctrl_set = (\<lambda>l _ u. u @ [l])\<rparr>"

theorem console_watched_until_opened_witness:
  "usb (startup_usb_dtr_work_handler demo_usb \<lparr>startup_usb_ready = True, startup_usb_dtr_ready = False,
     startup_usb_dtr_work = None, usb = []\<rparr>) = [UART_LINE_CTRL_DCD, UART_LINE_CTRL_DSR]"
proof -
  let ?s = "\<lparr>startup_usb_ready = True, startup_usb_dtr_ready = False, startup_usb_dtr_work = Some 0, usb = []\<rparr> ::
    line_ctrl list startup"
  have "snd (startup_service_init demo_usb \<lparr>startup_usb_ready = False, startup_usb_dtr_ready = False,
      startup_usb_dtr_work = None, usb = []\<rparr>) = ?s"
    by (simp add: startup_service_init_def startup_usb_init_def startup_usb_calls_def
      startup_usb_register_cdc_acm_def demo_usb_def)
  then have "usb_reach demo_usb (\<lambda>_ _. False) ?s" using usb_reach.more [OF usb_reach.fresh usb_step.initialise] by metis
  from console_watched_until_opened [OF this _ refl refl] show ?thesis by (simp add: demo_usb_def)
qed

end
