(* ===== verification/Ymodem_Quiet.thy ===== *)
theory Ymodem_Quiet
  imports Ymodem
begin

text \<open>
  The YMODEM receiver returns (\<open>services/rtbus_ymodem.c\<close>): whatever arrives, once nothing more arrives.

  A quiet line need not deliver: bytes may be lost, delayed or wrong and calls may fail.  It only has an end (\<open>left\<close>
  bounds the bytes that reads will still return) and a clock that sleeping moves on.
\<close>

locale quiet_line =
  fixes L :: "'w line" and port :: nat and good :: "'w \<Rightarrow> bool" and left :: "'w \<Rightarrow> nat" and clk :: "'w \<Rightarrow> int"
  assumes begins: "good w \<Longrightarrow> serial_begin L port 115200 w = (r, w') \<Longrightarrow> good w'"
    and flushes: "good w \<Longrightarrow> good (serial_flush_rx L port w)"
    and reads: "good w \<Longrightarrow> serial_read L port n w = (got, w') \<Longrightarrow>
      good w' \<and> left w' + length got \<le> left w \<and> clk w \<le> clk w'"
    and writes: "good w \<Longrightarrow> good (serial_write L port bs w) \<and> left (serial_write L port bs w) \<le> left w \<and>
      clk w \<le> clk (serial_write L port bs w)"
    and tells: "good w \<Longrightarrow> uptime L w = (t, w') \<Longrightarrow> t = clk w' \<and> good w' \<and> left w' \<le> left w \<and> clk w \<le> clk w'"
    and sleeps: "good w \<Longrightarrow> good (sleep_ms L n w) \<and> left (sleep_ms L n w) \<le> left w \<and> clk w + int n \<le> clk (sleep_ms L n w)"

text \<open>What a step of the receiver leaves: a good line with less to come, by \<open>n\<close> bytes at least.\<close>

definition spent :: "('w \<Rightarrow> bool) \<Rightarrow> ('w \<Rightarrow> nat) \<Rightarrow> nat \<Rightarrow> 'w \<Rightarrow> 'w \<Rightarrow> bool" where
  "spent good left n w w' \<longleftrightarrow> good w' \<and> left w' + n \<le> left w"

lemma spent_trans: "spent good left n w1 w2 \<Longrightarrow> left w1 \<le> left w \<Longrightarrow> spent good left n w w2"
  by (simp add: spent_def)

context quiet_line
begin

lemma put_spent: "good w \<Longrightarrow> spent good left n v w \<Longrightarrow> spent good left n v (ymodem_put L port b w)"
  using writes [of w "[b]"] by (simp add: ymodem_put_def spent_def)

lemma byte_loop_returns:
  assumes "good w"
  shows "\<exists>r w'. read_byte_loop L port deadline w = Some (r, w') \<and> spent good left (if isl r then 0 else 1) w w'"
  using assms
proof (induction "nat (deadline - clk w)" arbitrary: w rule: less_induct)
  case less
  obtain now w1 where T: "uptime L w = (now, w1)" by force
  note t = tells [OF less.prems T]
  obtain got w2 where R: "serial_read L port 1 w1 = (got, w2)" by force
  have r: "good w2" "left w2 + length got \<le> left w1" "clk w1 \<le> clk w2" using reads [OF _ R] t by simp_all
  note S = sleeps [OF r(1), of 1]
  consider "deadline \<le> now" | "now < deadline" "length got = 1" | "now < deadline" "length got \<noteq> 1" by linarith
  then show ?case
  proof cases
    case 1
    then show ?thesis using T t by (subst read_byte_loop.simps) (simp add: spent_def)
  next
    case 2
    then show ?thesis using T R t r by (subst read_byte_loop.simps) (simp add: spent_def)
  next
    case 3
    have "nat (deadline - clk (sleep_ms L 1 w2)) < nat (deadline - clk w)" using 3(1) S r(3) t by linarith
    from less.hyps [OF this] S obtain q w' where
      "read_byte_loop L port deadline (sleep_ms L 1 w2) = Some (q, w')"
      "spent good left (if isl q then 0 else 1) (sleep_ms L 1 w2) w'" by blast
    moreover from this(2) have "spent good left (if isl q then 0 else 1) w w'"
      by (rule spent_trans) (use S r(2) t in linarith)
    ultimately show ?thesis using 3 T R by (subst read_byte_loop.simps) simp
  qed
qed

lemma byte_returns:
  assumes "good w"
  shows "\<exists>r w'. ymodem_read_byte L port t w = Some (r, w') \<and> spent good left (if isl r then 0 else 1) w w'"
proof -
  obtain now w1 where T: "uptime L w = (now, w1)" by force
  note t = tells [OF assms T]
  obtain r w' where "read_byte_loop L port (now + t) w1 = Some (r, w')" "spent good left (if isl r then 0 else 1) w1 w'"
    using byte_loop_returns t by blast
  then show ?thesis using T t by (auto simp: ymodem_read_byte_def intro: spent_trans)
qed

lemma exact_loop_returns:
  assumes "good w"
  shows "\<exists>r w'. read_exact_loop L port len t received deadline w = Some (r, w') \<and> spent good left 0 w w'"
  using assms
proof (induction "(left w, nat (deadline - clk w))" arbitrary: w received deadline
    rule: wf_induct_rule [OF wf_lex_prod [OF wf_less_than wf_less_than]])
  case 1
  obtain got w1 where R: "serial_read L port (len - length received) w = (got, w1)" by force
  note r = reads [OF 1(2) R]
  obtain now w2 where T: "uptime L w1 = (now, w2)" by force
  have t: "now = clk w2" "good w2" "left w2 \<le> left w1" "clk w1 \<le> clk w2" using tells [OF _ T] r by simp_all
  note S = sleeps [OF t(2), of 1]
  have IH: "\<exists>r w'. read_exact_loop L port len t q d v = Some (r, w') \<and> spent good left 0 w w'"
    if "good v" "left v < left w \<or> left v \<le> left w \<and> nat (d - clk v) < nat (deadline - clk w)" for q d v
  proof -
    have m: "((left v, nat (d - clk v)), (left w, nat (deadline - clk w))) \<in> less_than <*lex*> less_than"
      using that(2) by auto
    note v = that
    obtain r w' where "read_exact_loop L port len t q d v = Some (r, w')" "spent good left 0 v w'"
      using 1(1) [OF m v(1)] by blast
    moreover from this(2) have "spent good left 0 w w'" by (rule spent_trans) (use v(2) in linarith)
    ultimately show ?thesis by blast
  qed
  consider "len \<le> length received" | "length received < len" "got \<noteq> []"
    | "length received < len" "got = []" "deadline \<le> now" | "length received < len" "got = []" "now < deadline" by linarith
  then show ?case
  proof cases
    case 1
    then show ?thesis using \<open>good w\<close> by (subst read_exact_loop.simps) (simp add: spent_def)
  next
    case 2
    then have "left w2 < left w" using r t(3) by (cases got) auto
    then show ?thesis using IH [OF t(2)] 2 R T by (subst read_exact_loop.simps) simp
  next
    case 3
    then show ?thesis using R T t r by (subst read_exact_loop.simps) (simp add: spent_def)
  next
    case 4
    have "left (sleep_ms L 1 w2) \<le> left w" "nat (deadline - clk (sleep_ms L 1 w2)) < nat (deadline - clk w)"
      using 4(3) S r t by linarith+
    then show ?thesis using IH [of "sleep_ms L 1 w2"] S 4 R T by (subst read_exact_loop.simps) simp
  qed
qed

lemma header_loop_returns:
  assumes "good w"
  shows "\<exists>r w'. wait_header_loop L port deadline next_ready w = Some (r, w') \<and> spent good left (if isl r then 0 else 1) w w'"
  using assms
proof (induction "nat (deadline - clk w)" arbitrary: w next_ready rule: less_induct)
  case less
  obtain now w1 where T: "uptime L w = (now, w1)" by force
  note t = tells [OF less.prems T]
  obtain now2 w2 where T2: "uptime L w1 = (now2, w2)" by force
  have t2: "good w2" "left w2 \<le> left w1" "clk w1 \<le> clk w2" using tells [OF _ T2] t by simp_all
  define w3 where "w3 = ymodem_put L port YMODEM_CRC w2"
  have w3: "good w3" "left w3 \<le> left w2" "clk w2 \<le> clk w3" using writes [OF t2(1)] by (simp_all add: w3_def ymodem_put_def)
  obtain now4 w4 where T4: "uptime L w3 = (now4, w4)" by force
  have t4: "good w4" "left w4 \<le> left w3" "clk w3 \<le> clk w4" using tells [OF w3(1) T4] by simp_all
  define nr w5 where "nr = (if next_ready \<le> now2 then now4 + YMODEM_READY_INTERVAL_MS else next_ready)"
    and "w5 = (if next_ready \<le> now2 then w4 else w2)"
  have w5: "good w5" "left w5 \<le> left w" "clk w \<le> clk w5" using t t2 w3 t4 by (auto simp: w5_def)
  obtain got w6 where R: "serial_read L port 1 w5 = (got, w6)" by force
  note r = reads [OF w5(1) R]
  have S: "good (sleep_ms L 1 w6)" "left (sleep_ms L 1 w6) \<le> left w6" "clk w6 + 1 \<le> clk (sleep_ms L 1 w6)"
    using sleeps [of w6 1] r by simp_all
  have code: "wait_header_loop L port deadline next_ready w =
    (if now < deadline then if length got = 1 then Some (Inr (hd got), w6)
       else wait_header_loop L port deadline nr (sleep_ms L 1 w6) else Some (Inl ETIMEDOUT, w1))"
    by (subst wait_header_loop.simps) (use T T2 T4 R in \<open>auto simp: Let_def w3_def [symmetric] nr_def w5_def split: prod.splits\<close>)
  consider "deadline \<le> now" | "now < deadline" "length got = 1" | "now < deadline" "length got \<noteq> 1" by linarith
  then show ?case
  proof cases
    case 1
    then show ?thesis using code t by (simp add: spent_def)
  next
    case 2
    then show ?thesis using code r w5 by (simp add: spent_def)
  next
    case 3
    have "clk w1 \<le> clk w5" using t2 w3 t4 by (auto simp: w5_def)
    then have "nat (deadline - clk (sleep_ms L 1 w6)) < nat (deadline - clk w)" using 3(1) S r t by linarith
    from less.hyps [OF this S(1), of nr] obtain q w' where
      "wait_header_loop L port deadline nr (sleep_ms L 1 w6) = Some (q, w')"
      "spent good left (if isl q then 0 else 1) (sleep_ms L 1 w6) w'" by blast
    moreover from this(2) have "spent good left (if isl q then 0 else 1) w w'"
      by (rule spent_trans) (use S r w5 in linarith)
    ultimately show ?thesis using 3 code by auto
  qed
qed

lemma header_returns:
  assumes "good w"
  shows "\<exists>r w'. ymodem_wait_header L port w = Some (r, w') \<and> spent good left (if isl r then 0 else 1) w w'"
proof -
  obtain now w1 where T: "uptime L w = (now, w1)" by force
  note t = tells [OF assms T]
  obtain r w' where "wait_header_loop L port (now + YMODEM_START_TIMEOUT_MS) 0 w1 = Some (r, w')"
    "spent good left (if isl r then 0 else 1) w1 w'" using header_loop_returns t by blast
  then show ?thesis using T t by (auto simp: ymodem_wait_header_def intro: spent_trans)
qed

lemma packet_returns:
  assumes "good w"
  shows "\<exists>r w'. ymodem_read_packet L port header w = Some (r, w') \<and> spent good left 0 w w'"
proof -
  have E: "\<exists>r w'. ymodem_read_exact L port n t w = Some (r, w') \<and> spent good left 0 w w'" for n t
  proof -
    obtain now w1 where T: "uptime L w = (now, w1)" by force
    note t = tells [OF assms T]
    obtain r w' where "read_exact_loop L port n t [] (now + t) w1 = Some (r, w')" "spent good left 0 w1 w'"
      using exact_loop_returns t by blast
    then show ?thesis using T t by (auto simp: ymodem_read_exact_def intro: spent_trans)
  qed
  have "spent good left 0 w w" using assms by (simp add: spent_def)
  then show ?thesis
    using E [of "(if header = YMODEM_SOH then YMODEM_BLOCK_128 else YMODEM_BLOCK_1024) + YMODEM_PACKET_OVERHEAD"
        YMODEM_BYTE_TIMEOUT_MS] by (auto simp: ymodem_read_packet_def Let_def)
qed

text \<open>A round ends the transfer, or it has used up a byte.\<close>

definition goes_on :: "nat \<Rightarrow> 'w \<Rightarrow> ('w, 'f) ymodem_round \<Rightarrow> bool" where
  "goes_on n w res \<longleftrightarrow> (case res of Inl (r, w', s') \<Rightarrow> good w' | Inr (st', w', s') \<Rightarrow> spent good left n w w')"

lemma goes_on_simps [simp]:
  "goes_on n w (Inl (r, w', s')) = good w'" "goes_on n w (Inr (st', w', s')) = spent good left n w w'"
  by (simp_all add: goes_on_def)

lemma put_keeps [simp]: "good w \<Longrightarrow> good (ymodem_put L port b w)"
  using writes [of w "[b]"] by (simp add: ymodem_put_def)

lemma puts_spent: "good w1 \<Longrightarrow> left w1 + n \<le> left w \<Longrightarrow> spent good left n w (ymodem_put L port b w1)"
  using put_spent [of w1 n w b] writes [of w1 "[b]"] by (simp add: spent_def ymodem_put_def)

lemma block_returns:
  assumes laws: "flash_laws E view" and inv: "recv_inv E view st s" "got_metadata st"
    and w: "good w1" "left w1 + 1 \<le> left w"
  shows "\<exists>res. ymodem_block L E port n d st w1 s = Some res \<and> goes_on 1 w res"
proof -
  obtain data where D: "store_inv E view data s" "length data = received_size st" using inv by (auto simp: recv_inv_def)
  define wl where "wl = (if psub (expected_file_size st) (received_size st) < length d
      then psub (expected_file_size st) (received_size st) else length d)"
  obtain rw s1 where W: "rtbus_image_store_write E (length data) (Some (take wl d)) (length (take wl d)) s = Some (rw, s1)"
    using store_write_spec [OF laws D(1), of "take wl d"] by blast
  have "rtbus_image_store_write E (received_size st) (Some d) wl s = Some (rw, s1)"
    using store_write_pad [OF laws D(1), of "length data" "take wl d" "drop wl d"] W D(2) by (simp add: wl_def)
  then show ?thesis
    using w by (auto simp: ymodem_block_def Let_def wl_def [symmetric] puts_spent split: prod.split)
qed

lemma metadata_goes_on:
  assumes "good w1" "left w1 + 1 \<le> left w"
  shows "goes_on 1 w (ymodem_metadata L E port n d st w1 s)"
proof -
  have "spent good left 1 w (ymodem_put L port c (ymodem_put L port b w1))" for b c
    by (rule put_spent [OF put_keeps [OF assms(1)] puts_spent [OF assms]])
  then show ?thesis using assms by (auto simp: ymodem_metadata_def Let_def puts_spent split: prod.split)
qed

lemma round_returns:
  assumes laws: "flash_laws E view" and inv: "round_inv E view st s" and w: "good w"
  shows "\<exists>res. ymodem_round L E port st w s = Some res \<and> goes_on 1 w res"
proof -
  obtain h w1 where H: "(if \<not> got_metadata st then ymodem_wait_header L port w
      else ymodem_read_byte L port YMODEM_BYTE_TIMEOUT_MS w) = Some (h, w1)" "spent good left (if isl h then 0 else 1) w w1"
    using header_returns [OF w] byte_returns [OF w, of YMODEM_BYTE_TIMEOUT_MS] by (cases "got_metadata st") auto
  show ?thesis
  proof (cases h)
    case (Inl e)
    then show ?thesis using H by (simp add: ymodem_round_def spent_def)
  next
    case (Inr header)
    then have w1: "good w1" "left w1 + 1 \<le> left w" using H(2) by (simp_all add: spent_def)
    have two: "spent good left 1 w (ymodem_put L port c (ymodem_put L port b w1))" for b c
      by (rule put_spent [OF put_keeps [OF w1(1)] puts_spent [OF w1]])
    obtain pr w2 where P: "ymodem_read_packet L port header w1 = Some (pr, w2)" "spent good left 0 w1 w2"
      using packet_returns [OF w1(1)] by blast
    then have w2: "good w2" "left w2 + 1 \<le> left w" using w1 by (simp_all add: spent_def)
    consider "header = YMODEM_CAN \<or> header = YMODEM_EOT" | e where "header \<noteq> YMODEM_CAN" "header \<noteq> YMODEM_EOT" "pr = Inl e"
      | n d where "header \<noteq> YMODEM_CAN" "header \<noteq> YMODEM_EOT" "pr = Inr (n, d)" by (cases pr) auto
    then show ?thesis
    proof cases
      case 1
      then show ?thesis using H(1) Inr w1 two byte_codes by (auto simp: ymodem_round_def puts_spent)
    next
      case 2
      then show ?thesis using H(1) Inr P(1) puts_spent [OF w2] by (simp add: ymodem_round_def)
    next
      case 3
      have "\<exists>res. ymodem_block L E port n d st w2 s = Some res \<and> goes_on 1 w res" if "got_metadata st"
        using block_returns [OF laws _ that w2] inv by (simp add: round_inv_def)
      then show ?thesis using 3 H(1) Inr P(1) metadata_goes_on [OF w2, of E n d st s] by (simp add: ymodem_round_def)
    qed
  qed
qed

lemma loop_returns:
  assumes "flash_laws E view" "crc_laws E" "0 < pending_max E"
  shows "round_inv E view st s \<Longrightarrow> good w \<Longrightarrow> \<exists>r w' s'. ymodem_loop L E port st w s = Some (r, w', s') \<and> good w'"
proof (induction "left w" arbitrary: st w s rule: less_induct)
  case less
  obtain res where R: "ymodem_round L E port st w s = Some res" "goes_on 1 w res"
    using round_returns [OF assms(1) less.prems] by blast
  have ok: "round_ok E view res" by (rule round_preserves [OF assms less.prems(1) R(1)])
  show ?case
  proof (cases res)
    case (Inl d)
    then show ?thesis using R by (cases d) (subst ymodem_loop.simps, simp)
  next
    case (Inr x)
    obtain st' w' s' where x: "x = (st', w', s')" by (cases x) auto
    then have "round_inv E view st' s'" "good w'" "left w' < left w" using R(2) ok Inr by (simp_all add: spent_def)
    from less.hyps [OF this(3,1,2)] show ?thesis using R(1) Inr x by (subst ymodem_loop.simps) simp
  qed
qed

lemma recv_returns:
  assumes "flash_laws E view" "crc_laws E" "0 < pending_max E" "\<not> active s" "good w"
  shows "\<exists>r w' s'. rtbus_ymodem_recv L E port w s = Some (r, w', s') \<and> good w' \<and> \<not> active s'"
proof -
  obtain r w1 where B: "serial_begin L port 115200 w = (r, w1)" by force
  have inv: "round_inv E view ymodem_start s" using assms(4) by (simp add: round_inv_def recv_inv_def ymodem_start_def)
  obtain r' w' s' where R: "ymodem_loop L E port ymodem_start (serial_flush_rx L port w1) s = Some (r', w', s')" "good w'"
    using loop_returns [OF assms(1-3) inv flushes [OF begins [OF assms(5) B]]] by blast
  have "\<not> active s'" using loop_verified [OF R(1) assms(1-3) inv] by (simp add: verified_end_def)
  then show ?thesis using B R assms(4) begins [OF assms(5) B] by (simp add: rtbus_ymodem_recv_def)
qed

end

end
