(* ===== verification/Serial_Quiet.thy ===== *)
theory Serial_Quiet
  imports Serial Ymodem_Quiet
begin

text \<open>
  A port as a quiet line: with a driver that may fail, lose bytes or deliver them late, but has an end, every
  operation of the serial service (\<open>services/rtbus_serial.c\<close>) leaves the ring sound and no more to come.  So the
  YMODEM receiver returns over every port.
\<close>

definition port_sound :: "nat \<Rightarrow> ('f, 'd, 'a) serial_scheme \<Rightarrow> bool" where
  "port_sound port s \<longleftrightarrow> port < length (ports s) \<and> ring_ok (ports s ! port)"

text \<open>What reads can still return: the bytes in the ring and those to arrive.\<close>

definition budget :: "nat \<Rightarrow> ('d \<Rightarrow> nat) \<Rightarrow> ('f, 'd, 'a) serial_scheme \<Rightarrow> nat" where
  "budget port left s = ring_count (ports s ! port) + left (uart s)"

definition steady :: "('d \<Rightarrow> nat) \<Rightarrow> ('d \<Rightarrow> int) \<Rightarrow> 'd \<Rightarrow> 'd \<Rightarrow> bool" where
  "steady left time d d' \<longleftrightarrow> left d' \<le> left d \<and> time d \<le> time d'"

lemma steady_refl [simp]: "steady left time d d" by (simp add: steady_def)
lemma steady_trans: "steady left time d d' \<Longrightarrow> steady left time d' d'' \<Longrightarrow> steady left time d d''" by (simp add: steady_def)

text \<open>\<open>keep\<close> is any property of the state that the interrupts and the other threads keep.\<close>

locale uart_finite =
  fixes U :: "'d uart_driver" and irq :: "('f, 'd, 'a) serial_scheme \<Rightarrow> ('f, 'd, 'a) serial_scheme"
    and K :: "('f, 'd, 'a) serial_scheme kernel" and port :: nat and left :: "'d \<Rightarrow> nat" and time :: "'d \<Rightarrow> int"
    and keep :: "('f, 'd, 'a) serial_scheme \<Rightarrow> bool"
  assumes configures: "steady left time d (snd (uart_configure U port c d))"
    and callbacks: "steady left time d (snd (uart_irq_callback_set U port cdc d))"
    and enables: "steady left time d (uart_irq_rx_enable U port d)"
    and disables: "steady left time d (uart_irq_rx_disable U port d)"
    and sends: "steady left time d (uart_poll_out U port b d)"
    and polls: "uart_poll_in U port d = (x, d') \<Longrightarrow> left d' + (if x = None then 0 else 1) \<le> left d \<and> time d \<le> time d'"
    and interrupts: "port_sound port s \<Longrightarrow> keep s \<Longrightarrow> port_sound port (irq s) \<and> keep (irq s) \<and>
      budget port left (irq s) \<le> budget port left s \<and> time (uart s) \<le> time (uart (irq s))"
    and ticks: "k_uptime_get K s = (time (uart s), s)"
    and waits: "port_sound port s \<Longrightarrow> keep s \<Longrightarrow> port_sound port (k_sleep_ms K n s) \<and> keep (k_sleep_ms K n s) \<and>
      budget port left (k_sleep_ms K n s) \<le> budget port left s \<and> time (uart s) + n \<le> time (uart (k_sleep_ms K n s))"
    and keep_uart: "keep s \<Longrightarrow> keep (s\<lparr>uart := d\<rparr>)" and keep_port: "keep s \<Longrightarrow> keep (set_port port p s)"

text \<open>A step of the service on the port.\<close>

definition port_step ::
    "nat \<Rightarrow> ('d \<Rightarrow> nat) \<Rightarrow> ('d \<Rightarrow> int) \<Rightarrow> (('f, 'd, 'a) serial_scheme \<Rightarrow> bool) \<Rightarrow> nat \<Rightarrow> ('f, 'd, 'a) serial_scheme \<Rightarrow>
     ('f, 'd, 'a) serial_scheme \<Rightarrow> bool" where
  "port_step port left time keep n s s' \<longleftrightarrow> port_sound port s' \<and> keep s' \<and>
     budget port left s' + n \<le> budget port left s \<and> time (uart s) \<le> time (uart s')"

lemma port_step_trans:
  "port_step port left time keep n s t \<Longrightarrow> port_step port left time keep m t u \<Longrightarrow> port_step port left time keep (n + m) s u"
  by (auto simp: port_step_def)

context uart_finite
begin

lemma step_refl: "port_sound port s \<Longrightarrow> keep s \<Longrightarrow> port_step port left time keep 0 s s"
  by (simp add: port_step_def)

lemma step_uart:
  "port_sound port s \<Longrightarrow> keep s \<Longrightarrow> steady left time (uart s) d \<Longrightarrow> port_step port left time keep 0 s (s\<lparr>uart := d\<rparr>)"
  using keep_uart [of s d] by (simp add: port_step_def port_sound_def budget_def steady_def)

lemma step_port:
  assumes "port_sound port s" "keep s" "ring_ok p" "ring_count p + n \<le> ring_count (ports s ! port)"
  shows "port_step port left time keep n s (set_port port p s)"
  using assms keep_port [of s p] by (simp add: port_step_def port_sound_def budget_def)

lemma ring_flags [simp]: "ring_ok (p\<lparr>rx_ready := a\<rparr>) = ring_ok p" "ring_ok (p\<lparr>prepared := a\<rparr>) = ring_ok p"
  "ring_count (p\<lparr>rx_ready := a\<rparr>) = ring_count p" "ring_count (p\<lparr>prepared := a\<rparr>) = ring_count p"
  by (simp_all add: ring_ok_def ring_count_def)

lemma prepare_step:
  assumes "port_sound port s" "keep s"
  shows "port_step port left time keep 0 s (snd (serial_prepare_rx U port s))"
proof -
  let ?p = "ports s ! port"
  obtain ret d where C: "uart_irq_callback_set U port (is_cdc ?p) (uart s) = (ret, d)" by force
  have d: "steady left time (uart s) d" using callbacks [of "uart s" "is_cdc ?p"] C by simp
  define s2 where "s2 = s\<lparr>uart := uart_irq_rx_enable U port d\<rparr>"
  have s1: "port_step port left time keep 0 s (s\<lparr>uart := d\<rparr>)" by (rule step_uart [OF assms d])
  have s2: "port_step port left time keep 0 s s2"
    unfolding s2_def by (rule step_uart [OF assms steady_trans [OF d enables]])
  have "port_step port left time keep 0 s2 (set_port port (?p\<lparr>rx_ready := True\<rparr>) s2)"
    using assms(1) s2 by (intro step_port) (auto simp: port_step_def port_sound_def s2_def)
  from port_step_trans [OF s2 this]
  have s3: "port_step port left time keep 0 s (set_port port (?p\<lparr>rx_ready := True\<rparr>) s2)" by simp
  show ?thesis unfolding serial_prepare_rx_def Let_def C prod.case
    using s1 s3 step_refl [OF assms] by (simp add: s2_def)
qed

lemma configure_step:
  assumes "port_sound port s" "keep s"
  shows "port_step port left time keep 0 s (snd (serial_configure U port baud s))"
proof -
  define b where "b = (\<not> is_cdc (ports s ! port) \<and> rx_ready (ports s ! port))"
  define c where "c = (case uart_config_get U port (uart s) of
    Inl _ \<Rightarrow> plain_config U baud | Inr c \<Rightarrow> c\<lparr>baudrate := baud\<rparr>)"
  define d0 where "d0 = (if b then uart_irq_rx_disable U port (uart s) else uart s)"
  obtain ret d1 where C: "uart_configure U port c d0 = (ret, d1)" by force
  have "steady left time (uart s) d0" using disables by (simp add: d0_def)
  from steady_trans [OF this configures [of d0 c]] have "steady left time (uart s) d1" by (simp add: C)
  then have "steady left time (uart s) (if b then uart_irq_rx_enable U port d1 else d1)"
    using steady_trans [OF _ enables] by simp
  note step_uart [OF assms this]
  then show ?thesis using step_refl [OF assms]
    by (simp add: serial_configure_def b_def [symmetric] c_def [symmetric] d0_def [symmetric] C Let_def)
qed

lemma begin_step:
  assumes "port_sound port s" "keep s"
  shows "port_step port left time keep 0 s (snd (rtbus_runtime_serial_begin U port baud s))"
proof -
  obtain r s1 where C: "serial_configure U port baud s = (r, s1)" by force
  have s1: "port_step port left time keep 0 s s1" using configure_step [OF assms, of baud] C by simp
  then have g: "port_sound port s1" "keep s1" by (simp_all add: port_step_def)
  obtain r' s2 where P: "serial_prepare_rx U port s1 = (r', s2)" by force
  have s2: "port_step port left time keep 0 s s2"
    using port_step_trans [OF s1 prepare_step [OF g]] P by simp
  then have g2: "port_sound port s2" "keep s2" by (simp_all add: port_step_def)
  have "port_step port left time keep 0 s2 (set_port port ((ports s2 ! port)\<lparr>prepared := True\<rparr>) s2)"
    using g2 by (intro step_port) (auto simp: port_sound_def)
  from port_step_trans [OF s2 this] show ?thesis
    using C P s1 s2 step_refl [OF assms] by (simp add: rtbus_runtime_serial_begin_def)
qed

lemma read_loop_step:
  "port_sound port s \<Longrightarrow> keep s \<Longrightarrow>
   port_step port left time keep (length (fst (read_loop U irq port n s))) s (snd (read_loop U irq port n s))"
proof (induction n arbitrary: s)
  case 0
  then show ?case by (simp add: step_refl)
next
  case (Suc n)
  let ?s = "irq s" and ?step = "port_step port left time keep"
  let ?p = "ports (irq s) ! port"
  have I: "?step 0 s ?s" using interrupts [OF Suc.prems] by (simp add: port_step_def)
  then have g: "port_sound port ?s" "keep ?s" "ring_ok ?p" by (simp_all add: port_step_def port_sound_def)
  note G = rx_get_spec [OF g(3)]
  show ?case
  proof (cases "rx_get ?p")
    case (Pair got p)
    show ?thesis
    proof (cases got)
      case (Some b)
      have p: "ring_ok p" "ring_count p + 1 \<le> ring_count ?p"
        using G Pair Some by (auto simp flip: length_ring_content split: if_splits)
      have s1: "?step 1 ?s (set_port port p ?s)" using g p by (intro step_port) auto
      then have "port_sound port (set_port port p ?s)" "keep (set_port port p ?s)" by (simp_all add: port_step_def)
      note L = Suc.IH [OF this]
      from port_step_trans [OF port_step_trans [OF I s1] L] show ?thesis
        using Pair Some by (simp add: Let_def case_prod_beta)
    next
      case None
      obtain x d where P: "uart_poll_in U port (uart ?s) = (x, d)" by force
      note pl = polls [OF P]
      have s1: "?step (if x = None then 0 else 1) ?s (?s\<lparr>uart := d\<rparr>)"
        using pl g keep_uart by (auto simp: port_step_def port_sound_def budget_def)
      then have "port_sound port (?s\<lparr>uart := d\<rparr>)" "keep (?s\<lparr>uart := d\<rparr>)" by (simp_all add: port_step_def)
      note L = Suc.IH [OF this]
      show ?thesis
      proof (cases "is_cdc ?p \<or> rx_ready ?p")
        case True
        then show ?thesis using Pair None I by (simp add: Let_def)
      next
        case False
        then show ?thesis
          using Pair None P port_step_trans [OF I s1] port_step_trans [OF port_step_trans [OF I s1] L]
          by (cases x) (auto simp: Let_def split: prod.splits)
      qed
    qed
  qed
qed

lemma write_step:
  assumes "port_sound port s" "keep s"
  shows "port_step port left time keep 0 s (snd (rtbus_runtime_serial_write U port bs s))"
proof -
  have "steady left time d (fold (uart_poll_out U port) bs d)" for d
    by (induction bs arbitrary: d) (auto intro: steady_trans [OF sends])
  then show ?thesis using step_refl [OF assms] step_uart [OF assms] by (simp add: rtbus_runtime_serial_write_def)
qed

end

sublocale uart_finite \<subseteq> quiet: quiet_line "serial_line U irq K" port "\<lambda>s. port_sound port s \<and> keep s" "budget port left"
    "\<lambda>s. time (uart s)"
proof unfold_locales
  fix s s' :: "('f, 'd, 'a) serial_scheme" and n :: nat and got bs :: "byte list" and t :: int and r :: rc
  assume "port_sound port s \<and> keep s"
  then have g: "port_sound port s" "keep s" by simp_all
  show "port_sound port s' \<and> keep s'" if "serial_begin (serial_line U irq K) port 115200 s = (r, s')"
    using begin_step [OF g, of 115200] that by (simp add: serial_line_def port_step_def)
  have "ring_ok (rx_clear (ports s ! port))" "ring_count (rx_clear (ports s ! port)) = 0"
    using g(1) rx_clear_spec [of "ports s ! port"] by (auto simp: port_sound_def simp flip: length_ring_content)
  from step_port [OF g this(1), of 0] this(2)
  show "port_sound port (serial_flush_rx (serial_line U irq K) port s) \<and> keep (serial_flush_rx (serial_line U irq K) port s)"
    using g by (simp add: serial_line_def rtbus_runtime_serial_flush_rx_def port_step_def)
  show "(port_sound port s' \<and> keep s') \<and> budget port left s' + length got \<le> budget port left s \<and>
      time (uart s) \<le> time (uart s')" if "serial_read (serial_line U irq K) port n s = (got, s')"
    using read_loop_step [OF g, of n] step_refl [OF g] that
    by (auto simp: serial_line_def rtbus_runtime_serial_read_def port_step_def split: if_splits)
  show "(port_sound port (serial_write (serial_line U irq K) port bs s) \<and> keep (serial_write (serial_line U irq K) port bs s)) \<and>
      budget port left (serial_write (serial_line U irq K) port bs s) \<le> budget port left s \<and>
      time (uart s) \<le> time (uart (serial_write (serial_line U irq K) port bs s))"
    using write_step [OF g, of bs] by (simp add: serial_line_def port_step_def)
  show "t = time (uart s') \<and> (port_sound port s' \<and> keep s') \<and> budget port left s' \<le> budget port left s \<and>
      time (uart s) \<le> time (uart s')" if "uptime (serial_line U irq K) s = (t, s')"
    using ticks [of s] g that by (auto simp: serial_line_def)
  show "(port_sound port (sleep_ms (serial_line U irq K) n s) \<and> keep (sleep_ms (serial_line U irq K) n s)) \<and>
      budget port left (sleep_ms (serial_line U irq K) n s) \<le> budget port left s \<and>
      time (uart s) + int n \<le> time (uart (sleep_ms (serial_line U irq K) n s))"
    using waits [OF g, of "int n"] by (simp add: serial_line_def)
qed

text \<open>So the receiver returns over a port.\<close>

context uart_finite
begin

lemma recv_over_port_returns:
  assumes "flash_laws E view" "crc_laws E" "0 < pending_max E" "\<not> active st" "port_sound port s" "keep s"
  shows "\<exists>r s' st'. rtbus_ymodem_recv (serial_line U irq K) E port s st = Some (r, s', st') \<and> port_sound port s' \<and>
    keep s' \<and> \<not> active st'"
  using quiet.recv_returns [OF assms(1-4), of s] assms(5,6) by auto

end

section \<open>A demonstration\<close>

lemma routed_shorter: "length (routed port s bs) \<le> length bs"
proof -
  have "length (passed c st bs) \<le> length bs" for c st by (induction c st bs rule: passed.induct) auto
  then show ?thesis by (simp add: routed_def)
qed

text \<open>What arrives goes to the ring, or is lost.\<close>

lemma receive_sound:
  assumes "port_sound port s"
  shows "port_sound port (fold (receive_byte port) bs s)"
    "ring_count (ports (fold (receive_byte port) bs s) ! port) \<le> ring_count (ports s ! port) + length bs"
proof -
  have p: "port < length (ports s)" "ring_ok (ports s ! port)" using assms by (simp_all add: port_sound_def)
  note R = receive_all [OF p(1), of bs "[]"]
  let ?p = "fold rx_put (routed port s bs) (ports s ! port)"
  have q: "ring_ok ?p" "length (ring_content ?p) \<le> length (ring_content (ports s ! port)) + length (routed port s bs)"
    using ring.put_all [OF p(2), of "routed port s bs"] by simp_all
  then show "port_sound port (fold (receive_byte port) bs s)" using R p(1) by (simp add: port_sound_def)
  show "ring_count (ports (fold (receive_byte port) bs s) ! port) \<le> ring_count (ports s ! port) + length bs"
    using R p(1) q(2) routed_shorter [of port s bs] by simp
qed

text \<open>A clock for the driver over two lists: a character goes out every millisecond, also while the thread sleeps.\<close>

definition idle_kernel :: "('f, byte list \<times> byte list, 'a) serial_scheme kernel" where
  "idle_kernel = \<lparr>k_uptime_get = (\<lambda>s. (int (length (snd (uart s))), s)),
     k_sleep_ms = (\<lambda>n s. s\<lparr>uart := (fst (uart s), snd (uart s) @ replicate (nat n) 0)\<rparr>), k_block_ms = (\<lambda>n s. s)\<rparr>"

lemma demo_finite:
  fixes keep :: "('f, byte list \<times> byte list, 'a) serial_scheme \<Rightarrow> bool"
  assumes "\<And>s d. keep s \<Longrightarrow> keep (s\<lparr>uart := d\<rparr>)" "\<And>s p. keep s \<Longrightarrow> keep (set_port port p s)"
    "\<And>s. keep s \<Longrightarrow> keep (demo_irq port s)"
  shows "uart_finite demo_uart (demo_irq port) idle_kernel port (\<lambda>d. length (fst d)) (\<lambda>d. int (length (snd d))) keep"
proof
  fix s :: "('f, byte list \<times> byte list, 'a) serial_scheme" and n :: int
  assume s: "port_sound port s" "keep s"
  have p: "port < length (ports s)" "ring_ok (ports s ! port)" using s(1) by (simp_all add: port_sound_def)
  obtain k where k: "demo_irq port s =
      (fold (receive_byte port) (take k (fst (uart s))) s)\<lparr>uart := (drop k (fst (uart s)), snd (uart s))\<rparr>"
    using feed_delivers [OF p, of "fst (uart s)"] by (auto simp: demo_irq_def)
  note R = receive_sound [OF s(1), of "take k (fst (uart s))"]
  have "length (take k (fst (uart s))) + length (drop k (fst (uart s))) = length (fst (uart s))" by simp
  then show "port_sound port (demo_irq port s) \<and> keep (demo_irq port s) \<and>
      budget port (\<lambda>d. length (fst d)) (demo_irq port s) \<le> budget port (\<lambda>d. length (fst d)) s \<and>
      int (length (snd (uart s))) \<le> int (length (snd (uart (demo_irq port s))))"
    using R assms(3) [OF s(2)] by (simp add: k port_sound_def budget_def)
  show "port_sound port (k_sleep_ms idle_kernel n s) \<and> keep (k_sleep_ms idle_kernel n s) \<and>
      budget port (\<lambda>d. length (fst d)) (k_sleep_ms idle_kernel n s) \<le> budget port (\<lambda>d. length (fst d)) s \<and>
      int (length (snd (uart s))) + n \<le> int (length (snd (uart (k_sleep_ms idle_kernel n s))))"
    using s assms(1) by (simp add: idle_kernel_def port_sound_def budget_def)
qed (use assms in \<open>auto simp: demo_uart_def idle_kernel_def steady_def split: prod.splits\<close>)

interpretation quiet_port: uart_finite demo_uart "demo_irq port" idle_kernel port "\<lambda>d. length (fst d)"
    "\<lambda>d. int (length (snd d))" "\<lambda>_. True" for port
  by (rule demo_finite) simp_all

end
