(* ===== verification/Runtime_Bus.thy ===== *)
theory Runtime_Bus
  imports Runtime Serial_Quiet
begin

text \<open>
  The event core with the runtime's own tasks: the four task functions keep the contract that the core
  relies on (\<open>bus_handlers\<close>), so the core's theorems hold of the runtime as a whole.
\<close>

section \<open>What leaves the bus alone\<close>

text \<open>\<open>calm\<close>: nothing of the bus changes, no post is added, and the console port and the image store stay usable for an
  upgrade (\<open>device_ok\<close>).\<close>

definition device_ok :: "('f, 'd, 'a) serial_scheme \<Rightarrow> bool" where
  "device_ok s \<longleftrightarrow> port_sound 0 s \<and> \<not> active (img_store s)"

definition calm :: "('f, 'd, 'a) serial_scheme \<Rightarrow> ('f, 'd, 'a) serial_scheme \<Rightarrow> bool" where
  "calm s s' \<longleftrightarrow> emos.truncate s' = emos.truncate s \<and> set (post_msgq s') \<subseteq> set (post_msgq s) \<and>
     (device_ok s \<longrightarrow> device_ok s')"

lemma calm_refl [simp]: "calm s s" by (simp add: calm_def)
lemma calm_trans [trans]: "calm s s' \<Longrightarrow> calm s' s'' \<Longrightarrow> calm s s''" by (auto simp: calm_def)

lemmas calm_defs = calm_def device_ok_def port_sound_def emos.truncate_def

lemma calm_native [simp]:
  fixes s t :: "('f, 'd, 'a) serial_scheme"
  shows "calm s (t\<lparr>sram := a\<rparr>) = calm s t" "calm s (t\<lparr>native_entry := b\<rparr>) = calm s t"
    "calm s (t\<lparr>last_error := c\<rparr>) = calm s t" "calm s (t\<lparr>native_thread := d\<rparr>) = calm s t"
    "calm s (t\<lparr>result_sem := e\<rparr>) = calm s t" "calm s (t\<lparr>wake_event := f\<rparr>) = calm s t"
    "calm s (t\<lparr>event_msgq := g\<rparr>) = calm s t" "calm s (t\<lparr>event_callback := h\<rparr>) = calm s t"
    "calm s (t\<lparr>console_suppressed := i\<rparr>) = calm s t" "calm s (t\<lparr>patch_handoff := ph\<rparr>) = calm s t"
    "calm s (t\<lparr>api_busy := bz\<rparr>) = calm s t" "calm s t \<Longrightarrow> calm s (t\<lparr>post_msgq := []\<rparr>)"
  by (auto simp: calm_defs)

lemma calm_serial [simp]:
  fixes s t :: "('f, 'd, 'a) serial_scheme"
  shows "calm s (t\<lparr>uart := a\<rparr>) = calm s t" "calm s (t\<lparr>cli_line := l\<rparr>) = calm s t" "calm s (t\<lparr>input_msgq := m\<rparr>) = calm s t"
    "calm s (t\<lparr>input_enabled := b\<rparr>) = calm s t" "calm s (t\<lparr>input_pending := n\<rparr>) = calm s t"
    "calm s (t\<lparr>input_work := w\<rparr>) = calm s t"
  by (simp_all add: calm_defs)

text \<open>The flags of a port are no part of its ring.\<close>

lemma calm_port:
  fixes s t :: "('f, 'd, 'a) serial_scheme"
  assumes "calm s t" "ring_ok (ports t ! port) \<longrightarrow> ring_ok p"
  shows "calm s (set_port port p t)"
  using assms by (cases "port = 0") (auto simp: calm_defs set_port_def)

lemma ring_of_flags [simp]: "ring_ok (p\<lparr>rx_ready := a\<rparr>) = ring_ok p" "ring_ok (p\<lparr>prepared := a\<rparr>) = ring_ok p"
  by (simp_all add: ring_ok_def)

lemma calm_ble [simp]:
  fixes s t :: "('f, 'd, 'b, 'a) ble_scheme"
  shows "calm s (t\<lparr>bt := a\<rparr>) = calm s t" "calm s (t\<lparr>app_gatts := b\<rparr>) = calm s t"
    "calm s (t\<lparr>app_gatt_count := c\<rparr>) = calm s t" "calm s (t\<lparr>ad_has_service_uuid := d\<rparr>) = calm s t"
    "calm s (t\<lparr>ad_service_uuid := e\<rparr>) = calm s t" "calm s (t\<lparr>app_ad := f\<rparr>) = calm s t"
    "calm s (t\<lparr>app_sd := g\<rparr>) = calm s t" "calm s (t\<lparr>current_conn := h\<rparr>) = calm s t"
    "calm s (t\<lparr>gap_security_level := i\<rparr>) = calm s t" "calm s (t\<lparr>gap_flags := j\<rparr>) = calm s t"
    "calm s (t\<lparr>ble_ready := k\<rparr>) = calm s t" "calm s (t\<lparr>ble_advertising := l\<rparr>) = calm s t"
    "calm s (set_gatt n o' t) = calm s t" "calm s (set_chrc p q r t) = calm s t"
    "calm s (rtbus_ble_ad_sync_service_uuid t) = calm s t"
  by (simp_all add: calm_defs set_gatt_def set_chrc_def rtbus_ble_ad_sync_service_uuid_def)

lemma calm_complete [simp]:
  fixes s t :: "('f, 'd, 'a) serial_scheme"
  shows "calm s (snd (native_service_complete_result V a v t)) = calm s t"
  by (simp add: native_service_complete_result_def k_event_post_def Let_def)

section \<open>The tasks\<close>

lemma calm_start: "calm s (snd (native_service_start V s))"
proof -
  define s1 where "s1 = native_api_table_install V s"
  obtain r s2 where L: "native_load V s1 = (r, s2)" by force
  have "calm s s1" by (simp add: s1_def native_api_table_install_def)
  then have "calm s s2" by (subst native_load_frame(1) [OF L]) simp
  then show ?thesis
    by (auto simp: native_service_start_def s1_def [symmetric] L Let_def native_service_force_stop_thread_def)
qed

lemma calm_diagnostics: "calm s (rtbus_diagnostics_process V ctx s)"
  by (simp add: rtbus_diagnostics_process_def Let_def calm_start)

lemma calm_prepare: "calm s (snd (serial_prepare_rx U port s))"
  by (simp add: serial_prepare_rx_def Let_def calm_port split: prod.split)

lemma calm_configure: "calm s (snd (serial_configure U port baud s))"
  by (simp add: serial_configure_def Let_def split: prod.split)

lemma calm_begin: "calm s (snd (rtbus_runtime_serial_begin U port baud s))"
proof -
  obtain r s1 where C: "serial_configure U port baud s = (r, s1)" by force
  obtain r' s2 where P: "serial_prepare_rx U port s1 = (r', s2)" by force
  have "calm s s1" using calm_configure [of s U port baud] by (simp add: C)
  moreover from this have "calm s s2" using calm_prepare [of s1 U port] calm_trans by (auto simp: P)
  ultimately show ?thesis by (simp add: rtbus_runtime_serial_begin_def C P calm_port)
qed

lemma calm_start_port: "calm s t \<Longrightarrow> calm s (snd (serial_start_port U port t))"
proof -
  assume t: "calm s t"
  obtain r u where P: "serial_prepare_rx U port t = (r, u)" by force
  have "calm s u" using calm_trans [OF t calm_prepare [of t U port]] by (simp add: P)
  then show ?thesis using t by (simp add: serial_start_port_def P calm_port)
qed

lemma calm_serial_start: "calm s (snd (serial_start U s))"
proof -
  have "calm s (fold (\<lambda>port s. snd (serial_start_port U port s)) ps t)" if "calm s t" for ps t
    using that by (induction ps arbitrary: t) (simp_all add: calm_start_port)
  then show ?thesis by (simp add: serial_start_def)
qed

lemma calm_snd: "calm s (snd x) \<Longrightarrow> x = (r, t) \<Longrightarrow> calm s t" by simp

lemma calm_serial_task: "calm s (rtbus_runtime_serial_process U V code ctx s)"
proof -
  have "calm s t" if "rtbus_runtime_serial_begin U port baud s = (r, t)" for port baud r t
    by (rule calm_snd [OF calm_begin that])
  then show ?thesis by (auto simp: rtbus_runtime_serial_process_def Let_def calm_serial_start split: prod.split)
qed

lemma calm_same_but_registered: "same_but_registered s s' \<Longrightarrow> calm s s'"
  by (auto simp: same_but_registered_def)

lemma calm_register_ready: "calm s (snd (rtbus_ble_app_gatt_register_ready B h s))"
  by (rule calm_same_but_registered [OF register_ready_same])

lemma calm_register_pending: "calm s (snd (rtbus_ble_app_gatt_register_pending B s))"
  unfolding rtbus_ble_app_gatt_register_pending_def by (rule calm_same_but_registered [OF register_loop_same])

lemma calm_enable: "calm s (snd (ble_enable B s))"
  using ble_enable_same [of s B] calm_same_but_registered by (auto simp: same_but_ready_def)

lemma calm_adv_start: "calm s (snd (rtbus_ble_adv_start_now B s))"
proof -
  obtain r s1 where E: "ble_enable B s = (r, s1)" by force
  obtain r' s2 where R: "rtbus_ble_app_gatt_register_pending B s1 = (r', s2)" by force
  have s1: "calm s s1" using calm_enable [of s B] by (simp add: E)
  then have s2: "calm s s2" using calm_register_pending [of s1 B] calm_trans by (auto simp: R)
  show ?thesis
    unfolding rtbus_ble_adv_start_now_def E R Let_def prod.case using s1 s2 by (auto split: prod.splits)
qed

lemma calm_register: "calm s (snd (rtbus_ble_app_gatt_notify_register_now B V X a s))"
proof -
  have "calm s t" if "rtbus_ble_app_gatt_register_ready B h u = (r, t)" "calm s u" for h u r t
    by (rule calm_trans [OF that(2) calm_snd [OF calm_register_ready that(1)]])
  then show ?thesis
    by (auto simp: rtbus_ble_app_gatt_notify_register_now_def Let_def split: sum.split prod.split)
qed

lemma calm_reset: "calm s (rtbus_ble_reset_app_state B s)"
proof -
  have "calm s (gatt_reset_loop B is t)" if "calm s t" for "is" t
    using that reset_loop_bt [of B "is" t] by auto
  then show ?thesis by (simp add: rtbus_ble_reset_app_state_def rtbus_ble_app_gatt_reset_def Let_def)
qed

lemma calm_value_set: "calm s (snd (rtbus_ble_app_gatt_value_set_now B V X req s))"
  by (auto simp: rtbus_ble_app_gatt_value_set_now_def Let_def split: sum.splits prod.splits)

lemma calm_gap_init: "calm s (snd (rtbus_ble_gap_init_now V X a s))"
  by (auto simp: rtbus_ble_gap_init_now_def Let_def split: prod.splits)

lemma calm_security:
  "calm s (snd (rtbus_ble_set_security_now B conn level s))" "calm s (snd (rtbus_ble_pair_now B conn s))"
  by (simp_all add: rtbus_ble_pair_now_def rtbus_ble_set_security_now_def split: prod.split)

text \<open>Every request ends in a completion.\<close>

lemma calm_answer:
  assumes "calm s (snd x)"
  shows "calm s (case x of (ret, s) \<Rightarrow> snd (native_service_complete_result V a (code ret) s))"
  using assms by (cases x) simp

lemma calm_ble_task: "calm s (rtbus_ble_process B V X code ctx s)"
proof -
  note A = calm_answer [OF calm_security(1)] calm_answer [OF calm_security(2)] calm_answer [OF calm_gap_init]
    calm_answer [OF calm_value_set]
  have R: "calm s (case rtbus_ble_app_gatt_notify_register_now B V X d s of
      (Inl e, s) \<Rightarrow> snd (native_service_complete_result V a (code (Inl e)) s)
    | (Inr h, s) \<Rightarrow> snd (native_service_complete_result V a (of_nat h) s))" for d a
    using calm_register [of s B V X d] by (auto split: prod.split sum.split)
  show ?thesis
    unfolding rtbus_ble_process_def Let_def prod.case by (simp add: calm_reset calm_adv_start A R)
qed

section \<open>The contract of the tasks\<close>

text \<open>A handler may post: the queues are extended at their ends, and only the queue that all four tasks
  share.\<close>

definition bus_posts :: "backend \<Rightarrow> ('f, 'd, 'a) serial_scheme \<Rightarrow> ('f, 'd, 'a) serial_scheme \<Rightarrow> bool" where
  "bus_posts be s s' \<longleftrightarrow> set (post_msgq s') \<subseteq> set (post_msgq s) \<and>
     (\<forall>bs N. emos_bus be s runtime_tasks bs N \<longrightarrow> (\<exists>bs' N'. emos_bus be s' runtime_tasks bs' (\<lambda>k. N k @ N' k) \<and>
        (\<forall>k. \<exists>ms. queues s' (\<lambda>k. N k @ N' k) k = queues s N k @ ms \<and> (k \<noteq> 2 \<longrightarrow> ms = []))))"

lemma calm_bus_posts: "calm s s' \<Longrightarrow> bus_posts be s s'" for s :: "('f, 'd, 'a) serial_scheme"
proof -
  assume c: "calm s s'"
  then have t: "emos.truncate s' = emos.truncate s" by (simp add: calm_def)
  have "\<exists>bs' N'. emos_bus be s' runtime_tasks bs' (\<lambda>k. N k @ N' k) \<and>
      (\<forall>k. \<exists>ms. queues s' (\<lambda>k. N k @ N' k) k = queues s N k @ ms \<and> (k \<noteq> 2 \<longrightarrow> ms = []))" if "emos_bus be s runtime_tasks bs N" for bs N
    using that bus_truncate [OF t] by (intro exI [of _ bs] exI [of _ "\<lambda>_. []"]) simp
  then show ?thesis using c by (simp add: bus_posts_def calm_def)
qed

lemma bus_posts_trans: "bus_posts be s t \<Longrightarrow> bus_posts be t u \<Longrightarrow> bus_posts be s u"
proof -
  assume a: "bus_posts be s t" and b: "bus_posts be t u"
  have "\<exists>bs' N'. emos_bus be u runtime_tasks bs' (\<lambda>k. N k @ N' k) \<and>
      (\<forall>k. \<exists>ms. queues u (\<lambda>k. N k @ N' k) k = queues s N k @ ms \<and> (k \<noteq> 2 \<longrightarrow> ms = []))" if bus: "emos_bus be s runtime_tasks bs N" for bs N
  proof -
    from a bus obtain bs1 N1 where A: "emos_bus be t runtime_tasks bs1 (\<lambda>k. N k @ N1 k)"
      "\<And>k. \<exists>ms. queues t (\<lambda>k. N k @ N1 k) k = queues s N k @ ms \<and> (k \<noteq> 2 \<longrightarrow> ms = [])" unfolding bus_posts_def by blast
    from b A(1) obtain bs2 N2 where B: "emos_bus be u runtime_tasks bs2 (\<lambda>k. (N k @ N1 k) @ N2 k)"
      "\<And>k. \<exists>ms. queues u (\<lambda>k. (N k @ N1 k) @ N2 k) k = queues t (\<lambda>k. N k @ N1 k) k @ ms \<and> (k \<noteq> 2 \<longrightarrow> ms = [])" unfolding bus_posts_def by blast
    have "\<exists>ms. queues u (\<lambda>k. (N k @ N1 k) @ N2 k) k = queues s N k @ ms \<and> (k \<noteq> 2 \<longrightarrow> ms = [])" for k
      using A(2) [of k] B(2) [of k] by auto
    then show ?thesis using B(1) by (intro exI [of _ bs2] exI [of _ "\<lambda>k. N1 k @ N2 k"]) simp
  qed
  then show ?thesis using a b unfolding bus_posts_def by blast
qed

lemma bus_posts_same:
  fixes s t t' :: "('f, 'd, 'a) serial_scheme"
  assumes "bus_posts be s t" "emos.truncate t' = emos.truncate t" "post_msgq t' = post_msgq t"
  shows "bus_posts be s t'"
  using assms(1) bus_truncate [OF assms(2)] assms(3) by (simp add: bus_posts_def)

definition posts_only :: "backend \<Rightarrow> ('f, 'd, 'a) serial_scheme \<Rightarrow> ('f, 'd, 'a) serial_scheme \<Rightarrow> bool" where
  "posts_only be s s' \<longleftrightarrow> bus_posts be s s' \<and> (device_ok s \<longrightarrow> device_ok s')"

lemma calm_posts_only: "calm s s' \<Longrightarrow> posts_only be s s'"
  using calm_bus_posts by (simp add: posts_only_def calm_def)

lemma posts_only_trans: "posts_only be s t \<Longrightarrow> posts_only be t u \<Longrightarrow> posts_only be s u"
  using bus_posts_trans by (auto simp: posts_only_def)

text \<open>\<open>reads_input cmds s w\<close>: the loop over the input gets from \<open>s\<close> to \<open>w\<close>, its commands carried out.  Then a
  line can end that asks for a reboot, with no argument or an empty one.\<close>

definition asks_reboot :: "byte list \<Rightarrow> bool" where
  "asks_reboot line \<longleftrightarrow> (\<exists>command. take (length RTBUS_CLI_HEADER) line = RTBUS_CLI_HEADER \<and>
     takeWhile (\<lambda>b. b \<noteq> 0) (drop (length RTBUS_CLI_HEADER) line) = command \<and>
     (command = map of_char ''REBOOT'' \<or> command = map of_char ''REBOOT'' @ [61]))"

inductive reads_input ::
    "('f, 'a) cli_scheme rtbus_cli_command list \<Rightarrow> ('f, 'a) cli_scheme \<Rightarrow> ('f, 'a) cli_scheme \<Rightarrow> bool"
  for cmds where
  here: "reads_input cmds s s"
| byte: "input_msgq s = b # rest \<Longrightarrow> rtbus_cli_process_byte cmds b (s\<lparr>input_msgq := rest\<rparr>) = Some s1 \<Longrightarrow>
    reads_input cmds s1 w \<Longrightarrow> reads_input cmds s w"

definition reads_reboot :: "('f, 'a) cli_scheme rtbus_cli_command list \<Rightarrow> ('f, 'a) cli_scheme \<Rightarrow> bool" where
  "reads_reboot cmds s \<longleftrightarrow> (\<exists>w b rest. reads_input cmds s w \<and> input_msgq w = b # rest \<and> is_line_end b \<and> asks_reboot (cli_line w))"

lemma reads_reboot_later:
  "input_msgq s = b # rest \<Longrightarrow> rtbus_cli_process_byte cmds b (s\<lparr>input_msgq := rest\<rparr>) = Some s1 \<Longrightarrow>
   reads_reboot cmds s1 \<Longrightarrow> reads_reboot cmds s"
  unfolding reads_reboot_def by (elim exE conjE, drule (2) reads_input.byte) blast

lemma reads_no_reboot: "input_msgq s = [] \<Longrightarrow> \<not> reads_reboot cmds s"
  by (auto simp: reads_reboot_def elim: reads_input.cases)

text \<open>What the runtime needs of its commands and of the interrupts that come in while input is processed: a command returns,
  it does no more to the bus than to post, and no input is queued while it runs (the upgrade command, which takes long,
  disables it).  Only the reboot, asked for without an argument, does not return.\<close>

locale runtime_commands =
  fixes be :: backend and irq :: "('f, 'd, 'b, 'a) ble_scheme \<Rightarrow> ('f, 'd, 'b, 'a) ble_scheme"
    and cmds :: "('f, 'd, 'b, 'a) ble_scheme rtbus_cli_command list"
  assumes irq_posts: "posts_only be s (irq s)"
    and command_returns: "c \<in> set cmds \<Longrightarrow> cmd_handler c = Some h \<Longrightarrow> emos_bus be s runtime_tasks bs N \<Longrightarrow> device_ok s \<Longrightarrow>
      (\<exists>r s'. h args s = Some (r, s') \<and> posts_only be s s' \<and> length (input_msgq s') \<le> length (input_msgq s)) \<or>
      h args s = None \<and> cmd_name c = Some (map of_char ''REBOOT'') \<and> args = []"

lemma find_command_in: "find_command name cmds = Some h \<Longrightarrow> \<exists>c \<in> set cmds. cmd_name c = Some name \<and> cmd_handler c = Some h"
  by (induction cmds) (auto split: if_splits)

lemma posts_only_bus: "posts_only be s s' \<Longrightarrow> emos_bus be s runtime_tasks bs N \<Longrightarrow> \<exists>bs' N'. emos_bus be s' runtime_tasks bs' N'"
  unfolding posts_only_def bus_posts_def by blast

context runtime_commands
begin

lemma line_returns:
  assumes "emos_bus be s runtime_tasks bs N" "device_ok s"
  shows "(\<exists>s'. rtbus_cli_dispatch_line cmds s = Some s' \<and> posts_only be s s' \<and> length (input_msgq s') \<le> length (input_msgq s)) \<or>
    rtbus_cli_dispatch_line cmds s = None \<and> asks_reboot (cli_line s)"
proof -
  define command where "command = takeWhile (\<lambda>b. b \<noteq> 0) (drop (length RTBUS_CLI_HEADER) (cli_line s))"
  define name where "name = takeWhile (\<lambda>b. b \<noteq> 61) command"
  define args where "args = (if 61 \<in> set command then tl (dropWhile (\<lambda>b. b \<noteq> 61) command) else [])"
  have line: "posts_only be s (s\<lparr>cli_line := l\<rparr>)" for l by (simp add: calm_posts_only)
  have after: "posts_only be s (t\<lparr>cli_line := l\<rparr>)" if "posts_only be s t" for t l
    by (rule posts_only_trans [OF that]) (simp add: calm_posts_only)
  consider "cli_line s = []" | "cli_line s \<noteq> []" "take (length RTBUS_CLI_HEADER) (cli_line s) \<noteq> RTBUS_CLI_HEADER"
    | (run) "cli_line s \<noteq> []" "take (length RTBUS_CLI_HEADER) (cli_line s) = RTBUS_CLI_HEADER" by blast
  then show ?thesis
  proof cases
    case run
    then have D: "rtbus_cli_dispatch_line cmds s = (case find_command name cmds of
        Some handler \<Rightarrow> do { (_, s) \<leftarrow> handler args s; Some (s\<lparr>cli_line := []\<rparr>) } | None \<Rightarrow> Some (s\<lparr>cli_line := []\<rparr>))"
      unfolding args_def name_def command_def rtbus_cli_dispatch_line_def Let_def by simp
    show ?thesis
    proof (cases "find_command name cmds")
      case None
      then show ?thesis using D line [of "[]"] by simp
    next
      case (Some h)
      from find_command_in [OF Some] obtain c where c: "c \<in> set cmds" "cmd_name c = Some name" "cmd_handler c = Some h" by blast
      from command_returns [OF c(1,3) assms, of args] consider
        r s' where "h args s = Some (r, s')" "posts_only be s s'" "length (input_msgq s') \<le> length (input_msgq s)"
        | (reboot) "h args s = None" "name = map of_char ''REBOOT''" "args = []" using c(2) by auto
      then show ?thesis
      proof cases
        case 1
        then show ?thesis using D Some after by auto
      next
        case reboot
        have "command = name @ dropWhile (\<lambda>b. b \<noteq> 61) command" by (simp add: name_def)
        moreover have "dropWhile (\<lambda>b. b \<noteq> 61) command \<in> {[], [61]}"
        proof (cases "61 \<in> set command")
          case True
          then have "dropWhile (\<lambda>b. b \<noteq> 61) command \<noteq> []" "hd (dropWhile (\<lambda>b. b \<noteq> 61) command) = 61"
            using hd_dropWhile [of "\<lambda>b. b \<noteq> 61" command] by auto
          then show ?thesis using reboot(3) True by (cases "dropWhile (\<lambda>b. b \<noteq> 61) command") (auto simp: args_def)
        qed (auto simp: dropWhile_eq_Nil_conv)
        ultimately have "asks_reboot (cli_line s)"
          unfolding asks_reboot_def using run(2) reboot(2) command_def by (metis append_Nil2 insertE singletonD)
        then show ?thesis using D Some reboot(1) by simp
      qed
    qed
  qed (use line [of "[]"] calm_posts_only [OF calm_refl] in \<open>simp_all add: rtbus_cli_dispatch_line_def\<close>)
qed

lemma byte_returns:
  assumes "emos_bus be s runtime_tasks bs N" "device_ok s"
  shows "(\<exists>s'. rtbus_cli_process_byte cmds b s = Some s' \<and> posts_only be s s' \<and> length (input_msgq s') \<le> length (input_msgq s)) \<or>
    rtbus_cli_process_byte cmds b s = None \<and> is_line_end b \<and> asks_reboot (cli_line s)"
proof -
  have "posts_only be s (s\<lparr>cli_line := l\<rparr>)" for l by (simp add: calm_posts_only)
  then show ?thesis using line_returns [OF assms] by (simp add: rtbus_cli_process_byte_def)
qed

lemma input_returns:
  assumes "emos_bus be s runtime_tasks bs N" "device_ok s"
  shows "(\<exists>s'. input_loop cmds s = Some s' \<and> posts_only be s s') \<or> input_loop cmds s = None \<and> reads_reboot cmds s"
  using assms
proof (induction "length (input_msgq s)" arbitrary: s bs N rule: less_induct)
  case less
  show ?case
  proof (cases "input_msgq s")
    case Nil
    then show ?thesis using calm_posts_only [OF calm_refl] by simp
  next
    case (Cons b rest)
    define s0 where "s0 = s\<lparr>input_msgq := rest\<rparr>"
    have s0: "posts_only be s s0" by (simp add: s0_def calm_posts_only)
    obtain bs0 N0 where bus0: "emos_bus be s0 runtime_tasks bs0 N0" using posts_only_bus [OF s0 less.prems(1)] by blast
    have dev0: "device_ok s0" using s0 less.prems(2) by (simp add: posts_only_def)
    from byte_returns [OF bus0 dev0, of b] show ?thesis
    proof (elim disjE exE conjE)
      assume "rtbus_cli_process_byte cmds b s0 = None" "is_line_end b" "asks_reboot (cli_line s0)"
      moreover from this have "reads_reboot cmds s"
        unfolding reads_reboot_def using Cons reads_input.here [of cmds s] by (auto simp: s0_def)
      ultimately show ?thesis by (simp add: input_loop_Cons [OF Cons] s0_def)
    next
      fix s1
      assume s1: "rtbus_cli_process_byte cmds b s0 = Some s1" "posts_only be s0 s1" "length (input_msgq s1) \<le> length (input_msgq s0)"
      note p1 = posts_only_trans [OF s0 s1(2)]
      obtain bs1 N1 where "emos_bus be s1 runtime_tasks bs1 N1" using posts_only_bus [OF p1 less.prems(1)] by blast
      moreover have "length (input_msgq s1) < length (input_msgq s)" using s1(3) Cons by (simp add: s0_def)
      moreover have "device_ok s1" using p1 less.prems(2) by (simp add: posts_only_def)
      ultimately have "(\<exists>s'. input_loop cmds s1 = Some s' \<and> posts_only be s1 s') \<or> input_loop cmds s1 = None \<and> reads_reboot cmds s1"
        using less.hyps by blast
      then show ?thesis using s1(1) posts_only_trans [OF p1] reads_reboot_later [OF Cons, of cmds s1]
        by (auto simp: input_loop_Cons [OF Cons] s0_def)
    qed
  qed
qed

lemma cli_returns:
  assumes "emos_bus be s runtime_tasks bs N" "device_ok s"
  shows "(\<exists>s'. rtbus_cli_process irq cmds ctx s = Some s' \<and> posts_only be s s') \<or>
    rtbus_cli_process irq cmds ctx s = None \<and> ctx_id ctx = RTBUS_CLI_INPUT \<and> reads_reboot cmds s"
proof (cases "ctx_id ctx = RTBUS_CLI_INPUT")
  case True
  from input_returns [OF assms] show ?thesis
  proof (elim disjE exE conjE)
    fix s1
    assume s1: "input_loop cmds s = Some s1" "posts_only be s s1"
    have "posts_only be s ((irq s1)\<lparr>input_pending := False\<rparr>)" "posts_only be s ((irq s1)\<lparr>input_pending := True, input_work := True\<rparr>)"
      by (rule posts_only_trans [OF posts_only_trans [OF s1(2) irq_posts] calm_posts_only], simp)+
    then show ?thesis using s1(1) True by (simp add: rtbus_cli_process_def rtbus_cli_process_input_def Let_def)
  qed (use True in \<open>simp add: rtbus_cli_process_def rtbus_cli_process_input_def\<close>)
qed (simp add: rtbus_cli_process_def calm_posts_only)

lemma task_returns:
  assumes "emos_bus be s runtime_tasks bs N" "device_ok s"
  shows "(\<exists>s'. runtime_call B U V X code irq cmds f ctx s = Some s' \<and> posts_only be s s') \<or>
    runtime_call B U V X code irq cmds f ctx s = None \<and> f = 2 \<and> ctx_id ctx = RTBUS_CLI_INPUT \<and> reads_reboot cmds s"
proof -
  have "posts_only be s (rtbus_ble_process B V X code ctx s)" "posts_only be s (rtbus_runtime_serial_process U V code ctx s)"
    "posts_only be s (rtbus_diagnostics_process V ctx s)"
    by (rule calm_posts_only, rule calm_ble_task calm_serial_task calm_diagnostics)+
  then show ?thesis using cli_returns [OF assms, of ctx] by (simp add: runtime_call_def)
qed

end

text \<open>The command that posts keeps the contract, with bytes coming in from an interrupt.\<close>

lemma device_of_more:
  fixes s t :: "('f, 'd, 'a) serial_scheme"
  assumes "emos.more s = emos.more t"
  shows "device_ok s = device_ok t"
  using assms by (cases s; cases t) (simp add: device_ok_def port_sound_def)

lemma post_posts_only:
  fixes s :: "('f, 'd, 'a) serial_scheme"
  assumes "emos_bus be s runtime_tasks bs N"
  shows "\<exists>r s'. rtbus_post be t cid None 0 s = Some (r, s') \<and> posts_only be s s' \<and> emos.more s' = emos.more s"
proof -
  have pok: "payload_ok None 0" by (simp add: payload_ok_def)
  have "\<exists>r s'. emos_post be t cid None 0 s = Some (r, s') \<and> posts_only be s s' \<and> emos.more s' = emos.more s"
  proof -
    obtain r s' where P: "emos_post be t cid None 0 s = Some (r, s')" "emos.more s' = emos.more s"
      using emos_post_total [OF assms pok, of t cid] by auto
    have "\<exists>bs' N'. emos_bus be s' runtime_tasks bs' (\<lambda>k. M k @ N' k) \<and>
        (\<forall>k. \<exists>ms. queues s' (\<lambda>k. M k @ N' k) k = queues s M k @ ms \<and> (k \<noteq> 2 \<longrightarrow> ms = []))"
      if bus: "emos_bus be s runtime_tasks cs M" for cs M
    proof -
      obtain bs' N' where Q: "emos_bus be s' runtime_tasks bs' N'"
        "(r, queues s' N') = spec_post runtime_tasks (pool_has_room s cs (16 + 0)) t cid None 0 (queues s M)"
        "\<forall>k. \<exists>xs. N' k = M k @ xs"
        using emos_post_total [OF bus pok, of t cid] P(1) by auto
      have "unat (e_priority e) = 2" if "List.find (\<lambda>e. e_task_id e = t) runtime_tasks = Some e" for e
        using that by (auto simp: runtime_tasks_def EMOS_TASK_ENTRY_def split: if_splits)
      then have "\<exists>ms. queues s' N' k = queues s M k @ ms \<and> (k \<noteq> 2 \<longrightarrow> ms = [])" for k
        using Q(2) by (auto simp: spec_post_def split: option.splits if_splits)
      then show ?thesis using Q(1) extend_fun [OF Q(3)] by auto
    qed
    then have "bus_posts be s s'" using native_of_more(2) [OF P(2)] by (simp add: bus_posts_def)
    then show ?thesis using P device_of_more [OF P(2)] by (intro exI [of _ r] exI [of _ s']) (simp add: posts_only_def)
  qed
  then show ?thesis unfolding rtbus_post_def by auto
qed

definition test_command :: "backend \<Rightarrow> ('f, 'd, 'a) serial_scheme rtbus_cli_command" where
  "test_command be = \<lparr>cmd_name = Some (map of_char ''TEST''), cmd_handler = Some (rtbus_cli_test_handler be)\<rparr>"

lemma test_command_listed: "test_command be \<in> set (rtbus_cli_commands be U irq K V sys_reboot)"
  by (simp add: rtbus_cli_commands_def test_command_def)

lemma calm_submit: "calm s (rtbus_cli_submit_byte b s)" for s :: "('f, 'd, 'a) serial_scheme"
  unfolding rtbus_cli_submit_byte_def Let_def by simp

lemma test_command_keeps:
  "runtime_commands be (rtbus_cli_submit_byte b :: ('f, 'd, 'b, 'a) ble_scheme \<Rightarrow> _) [test_command be]"
proof
  show "posts_only be s (rtbus_cli_submit_byte b s)" for s :: "('f, 'd, 'b, 'a) ble_scheme"
    by (rule calm_posts_only [OF calm_submit])
  fix c :: "('f, 'd, 'b, 'a) ble_scheme rtbus_cli_command" and s :: "('f, 'd, 'b, 'a) ble_scheme"
    and h bs N args
  assume "c \<in> set [test_command be]" "cmd_handler c = Some h" and bus: "emos_bus be s runtime_tasks bs N" "device_ok s"
  then have h: "h = rtbus_cli_test_handler be" by (simp add: test_command_def)
  obtain r s' where P: "rtbus_post be RTBUS_TASK_DIAGNOSTICS APPLICATION_DIAGNOSTICS_CLI None 0 s = Some (r, s')"
    "posts_only be s s'" "emos.more s' = emos.more s" using post_posts_only [OF bus(1)] by blast
  have "input_msgq s' = input_msgq s" using P(3) by (cases s'; cases s) simp
  then show "(\<exists>r s'. h args s = Some (r, s') \<and> posts_only be s s' \<and> length (input_msgq s') \<le> length (input_msgq s)) \<or>
      h args s = None \<and> cmd_name c = Some (map of_char ''REBOOT'') \<and> args = []"
    using P(1,2) by (auto simp: h rtbus_cli_test_handler_def)
qed

interpretation tc: runtime_commands be "rtbus_cli_submit_byte b" "[test_command be]" for be b
  by (rule test_command_keeps)

section \<open>The rounds of the runtime thread\<close>

text \<open>The message that is next, as the core sees it in memory.\<close>

definition front_msg :: "'a emos_scheme \<Rightarrow> emos_ctx option" where
  "front_msg s =
     (if task_tbl s 0 \<noteq> NULL then Some (node_msg (pool_mem s) (task_tbl s 0))
      else if task_tbl s 1 \<noteq> NULL then Some (node_msg (pool_mem s) (task_tbl s 1))
      else if task_tbl s 2 \<noteq> NULL then Some (node_msg (pool_mem s) (task_tbl s 2)) else None)"

text \<open>\<open>serves call async n s cs s'\<close>: in \<open>n\<close> rounds from \<open>s\<close> to \<open>s'\<close> the messages \<open>cs\<close> are given to their tasks,
  in this order; a round that cannot hand over a post of the application gives none.\<close>

inductive serves ::
    "backend \<Rightarrow> 'a emos_scheme handlers \<Rightarrow> ('a emos_scheme \<Rightarrow> (rc \<times> 'a emos_scheme) option) \<Rightarrow>
     nat \<Rightarrow> 'a emos_scheme \<Rightarrow> emos_ctx list \<Rightarrow> 'a emos_scheme \<Rightarrow> bool"
  for be call async where
  no_round: "serves be call async 0 s [] s"
| refused: "emos_process be call async s = Some (Inl e, s1) \<Longrightarrow> serves be call async n s1 cs s' \<Longrightarrow>
    serves be call async (Suc n) s cs s'"
| served: "async s = Some (ok, t) \<Longrightarrow> front_msg t = Some c \<Longrightarrow> dispatches be call c t u \<Longrightarrow>
    emos_process be call async s = Some (Inr 1, s1) \<Longrightarrow> emos.more s1 = emos.more u \<Longrightarrow>
    serves be call async n s1 cs s' \<Longrightarrow> serves be call async (Suc n) s (c # cs) s'"

lemma front_msg_shared:
  assumes bus: "emos_bus be s es bs N" and q: "queues s N 0 = []" "queues s N 1 = []"
  shows "front_msg s = (case queues s N 2 of [] \<Rightarrow> None | c # cs \<Rightarrow> Some c)"
proof -
  have rep: "emos_rep s bs N" using bus by (simp add: emos_bus_def)
  have z: "task_tbl s 0 = NULL" "task_tbl s 1 = NULL" "task_tbl s 2 = NULL \<longleftrightarrow> queues s N 2 = []"
    using rep_empty_queue [OF rep, of 0] rep_empty_queue [OF rep, of 1] rep_empty_queue [OF rep, of 2] q by simp_all
  show ?thesis
  proof (cases "N 2")
    case Nil
    then show ?thesis using z by (simp add: front_msg_def queues_def)
  next
    case (Cons p ps)
    then have "task_tbl s 2 = p" using emos_repD(2) [OF rep, of 2] by (auto dest: plist_head)
    then show ?thesis using z Cons by (simp add: front_msg_def queues_def)
  qed
qed

lemma runtime_never_polls:
  assumes "emos_bus be s runtime_tasks bs N"
  shows "emos_process_poll_event be call s = Some (0, s)"
proof -
  have "emos_entry_get_by_index be i s = (if i < 4 then Some (runtime_tasks ! i) else None)" for i
    using eb.get_law [of be s runtime_tasks i] assms by (simp add: emos_bus_def) (simp add: runtime_tasks_def)
  moreover have "\<not> e_always (runtime_tasks ! i)" if "i < 4" for i
    using that by (auto simp: runtime_tasks_def EMOS_TASK_ENTRY_def less_Suc_eq eval_nat_numeral)
  ultimately have "emos_poll_loop be call i n s = Some (0, s)" for i n
    by (induction n arbitrary: i) (simp_all add: Let_def)
  then show ?thesis by (simp add: emos_process_poll_event_def)
qed

text \<open>A bus on which only the queue of the four tasks is in use, with sound posts of the application.\<close>

definition bus_ready :: "backend \<Rightarrow> ('f, 'd, 'a) serial_scheme \<Rightarrow> (nat \<Rightarrow> nat list) \<Rightarrow> bool" where
  "bus_ready be s N \<longleftrightarrow> (\<exists>bs. emos_bus be s runtime_tasks bs N) \<and> queues s N 0 = [] \<and> queues s N 1 = [] \<and>
     (\<forall>m \<in> set (post_msgq s). post_msg_ok m) \<and> device_ok s"

text \<open>Handing over touches nothing else of the device.\<close>

lemma async_keeps:
  fixes s :: "('f, 'a) native_scheme"
  assumes "emos_bus be s es bs N" "\<forall>m \<in> set (post_msgq s). post_msg_ok m"
  shows "rtbus_process_async_posts be s = Some (r, t) \<Longrightarrow> native.more t = native.more s \<and> img_store t = img_store s"
  using assms
proof (induction "post_msgq s" arbitrary: s bs N)
  case Nil
  then show ?case by (subst (asm) rtbus_process_async_posts.simps) simp
next
  case (Cons m rest)
  define s0 where "s0 = s\<lparr>post_msgq := rest, api_busy := api_busy s + 1\<rparr>"
  have bus0: "emos_bus be s0 es bs N" using Cons.prems(2) by (simp add: s0_def)
  have ok_m: "post_msg_ok m" "\<forall>m \<in> set rest. post_msg_ok m" using Cons.prems(3) Cons.hyps(2) [symmetric] by simp_all
  obtain r1 s1 bs1 N1 where P: "rtbus_post be (pm_task_id m) (pm_ctx_id m)
      (if pm_payload_len m = 0 then None else Some (pm_payload m)) (pm_payload_len m) s0 = Some (r1, s1)"
    "emos_bus be s1 es bs1 N1" "emos.more s1 = emos.more s0"
    using forward_one [OF bus0 ok_m(1)] by blast
  define s2 where "s2 = s1\<lparr>api_busy := api_busy s1 - 1\<rparr>"
  have s1: "native.more s1 = native.more s0" "img_store s1 = img_store s0" "post_msgq s1 = post_msgq s0"
    using P(3) by (cases s1; cases s0; simp)+
  then have s2: "native.more s2 = native.more s" "img_store s2 = img_store s" "rest = post_msgq s2" "emos_bus be s2 es bs1 N1"
    using P(2) by (simp_all add: s2_def s0_def)
  have "rtbus_process_async_posts be s = (if r1 \<noteq> ok then Some (r1, s2) else rtbus_process_async_posts be s2)"
    using P(1) Cons.hyps(2) [symmetric]
    by (subst rtbus_process_async_posts.simps) (simp add: s0_def [symmetric] s2_def Let_def)
  then show ?case using Cons.prems(1) s2(1,2) Cons.hyps(1) [OF s2(3) _ s2(4)] s2(3) ok_m(2) by (simp split: if_splits)
qed

lemma forwarded_shared: "k \<noteq> 2 \<Longrightarrow> forwarded runtime_tasks ms k = []"
  by (auto simp: forwarded_def goes_to_def runtime_tasks_def EMOS_TASK_ENTRY_def filter_empty_conv split: if_splits)

lemma hand_over:
  fixes s :: "('f, 'd, 'a) serial_scheme"
  assumes "bus_ready be s N"
  shows "\<exists>r t N1 ms. rtbus_process_async_posts be s = Some (r, t) \<and> bus_ready be t N1 \<and>
    queues t N1 2 = queues s N 2 @ ms \<and>
    (if r = ok then post_msgq t = [] else length (post_msgq t) < length (post_msgq s))"
proof -
  obtain bs where bus: "emos_bus be s runtime_tasks bs N" using assms by (auto simp: bus_ready_def)
  obtain r t sent where D: "rtbus_process_async_posts be s = Some (r, t)" "drained be runtime_tasks s N r t sent"
    using posts_drain [OF bus] assms by (auto simp: bus_ready_def)
  then obtain bs1 N1 where N1: "emos_bus be t runtime_tasks bs1 N1"
    "\<And>k. queues t N1 k = queues s N k @ forwarded runtime_tasks sent k" by (auto simp: drained_def)
  have "set (post_msgq t) \<subseteq> set (post_msgq s)"
    "if r = ok then post_msgq t = [] else length (post_msgq t) < length (post_msgq s)"
    using D(2) by (auto simp: drained_def)
  moreover have "device_ok t"
  proof -
    have "native.more t = native.more s" "img_store t = img_store s"
      using async_keeps [OF bus _ D(1)] assms by (simp_all add: bus_ready_def)
    then have "ports t = ports s" "img_store t = img_store s" by (cases t; cases s; simp)+
    then show ?thesis using assms by (simp add: bus_ready_def device_ok_def port_sound_def)
  qed
  moreover from this have "bus_ready be t N1"
    using assms N1 calculation(1) forwarded_shared [of 0] forwarded_shared [of 1] by (auto simp: bus_ready_def)
  ultimately show ?thesis using D(1) N1(2) by blast
qed

text \<open>The one message that is not served to its end: input of the command line with a line that asks for a reboot.  The
  round in which it is next does not return.\<close>

definition takes_reboot :: "('f, 'a) cli_scheme rtbus_cli_command list \<Rightarrow> emos_ctx \<Rightarrow> ('f, 'a) cli_scheme \<Rightarrow> bool" where
  "takes_reboot cmds c t \<longleftrightarrow> ctx_task_id c = RTBUS_TASK_CLI \<and> ctx_id c = RTBUS_CLI_INPUT \<and> reads_reboot cmds t"

definition round_reboots where
  "round_reboots be call async cmds c s \<longleftrightarrow> emos_process be call async s = None \<and>
     (\<exists>t. async s = Some (ok, t) \<and> front_msg t = Some c \<and> takes_reboot cmds c t)"

lemma entry_of_cli:
  assumes "emos_bus be t runtime_tasks bs N" "emos_entry_find be i t = Some e" "e_task_entry e = 2"
  shows "i = RTBUS_TASK_CLI"
proof -
  have "e \<in> set runtime_tasks" "e_task_id e = i" using emos_bus_find [OF assms(1,2)] by simp_all
  then show ?thesis using assms(3) by (auto simp: runtime_tasks_def EMOS_TASK_ENTRY_def RTBUS_TASK_CLI_def)
qed

context runtime_commands
begin

text \<open>A round with a message next either serves it, or meets the reboot.\<close>

lemma task_serves:
  assumes "bus_ready be t N" "queues t N 2 = c # cs"
  shows "(\<exists>u s1 N1 ms. dispatches be (runtime_call B U V X code irq cmds) c t u \<and>
      emos_process_queued_event be (runtime_call B U V X code irq cmds) t = Some (1, s1) \<and> emos.more s1 = emos.more u \<and>
      bus_ready be s1 N1 \<and> queues s1 N1 2 = cs @ ms \<and> set (post_msgq s1) \<subseteq> set (post_msgq t)) \<or>
    emos_process_queued_event be (runtime_call B U V X code irq cmds) t = None \<and> takes_reboot cmds c t"
proof -
  let ?call = "runtime_call B U V X code irq cmds"
  obtain bs where bus: "emos_bus be t runtime_tasks bs N" using assms(1) by (auto simp: bus_ready_def)
  have rep: "emos_rep t bs N" using bus by (simp add: emos_bus_def)
  have q: "next_prio (queues t N) = Some 2" using assms by (simp add: bus_ready_def next_prio_def)
  obtain p ps where N: "N 2 = p # ps" "node_msg (pool_mem t) p = c" using assms(2) by (auto simp: queues_def)
  have p: "task_tbl t 2 = p" using emos_repD(2) [OF rep, of 2] N(1) by (auto dest: plist_head)
  have nz: "task_tbl t 2 \<noteq> NULL" using queued_loop_next(2) [OF rep q] by simp
  have step: "emos_process_queued_event be ?call t = emos_queued_loop be ?call 2 1 t"
    using queued_loop_next(1) [OF rep, of be ?call] q by simp
  show ?thesis
  proof (cases "\<exists>u. dispatches be ?call c t u \<and> posts_only be t u")
    case False
    obtain e where e: "emos_entry_find be (ctx_task_id c) t = Some e"
      using False calm_posts_only [OF calm_refl] by (cases "emos_entry_find be (ctx_task_id c) t") (auto simp: dispatches_def)
    then have none: "?call (e_task_entry e) c t = None" "e_task_entry e = 2" "ctx_id c = RTBUS_CLI_INPUT" "reads_reboot cmds t"
      using False task_returns [OF bus _, of B U V X code "e_task_entry e" c] assms(1) by (auto simp: dispatches_def bus_ready_def)
    then have "takes_reboot cmds c t" using entry_of_cli [OF bus e] by (simp add: takes_reboot_def)
    moreover have "emos_process_queued_event be ?call t = None"
      using step e none(1) nz p N(2) emos_bus_find(3) [OF bus e] by (simp add: Let_def)
    ultimately show ?thesis by blast
  next
    case True
    then obtain u where u: "dispatches be ?call c t u" "posts_only be t u" by blast
    obtain bs1 N1 where B: "emos_bus be u runtime_tasks bs1 (\<lambda>k. N k @ N1 k)"
      "\<And>k. \<exists>ms. queues u (\<lambda>k. N k @ N1 k) k = queues t N k @ ms \<and> (k \<noteq> 2 \<longrightarrow> ms = [])"
      using u(2) bus unfolding posts_only_def bus_posts_def by blast
    have N1: "(\<lambda>k. N k @ N1 k) 2 = p # (ps @ N1 2)" using N(1) by simp
    from B(1) _ N1 obtain s1 bs2 where R: "queue_remove 2 p u = Some s1"
      "emos_bus be s1 runtime_tasks bs2 ((\<lambda>k. N k @ N1 k)(2 := ps @ N1 2))"
      "queues s1 ((\<lambda>k. N k @ N1 k)(2 := ps @ N1 2)) =
         (queues u (\<lambda>k. N k @ N1 k))(2 := tl (queues u (\<lambda>k. N k @ N1 k) 2))"
      "emos.more s1 = emos.more u" by (cases rule: queue_remove_head) simp_all
    have run: "emos_process_queued_event be ?call t = Some (1, s1)"
      using step u(1) R(1) nz p N(2) emos_bus_find(3) [OF bus] by (auto simp: dispatches_def Let_def split: option.splits)
    have sub: "set (post_msgq s1) \<subseteq> set (post_msgq t)" using u(2) native_of_more(2) [OF R(4)] by (simp add: posts_only_def bus_posts_def)
    have dev: "device_ok s1" using u(2) assms(1) device_of_more [OF R(4)] by (simp add: posts_only_def bus_ready_def)
    have "queues s1 ((\<lambda>k. N k @ N1 k)(2 := ps @ N1 2)) 0 = []" "queues s1 ((\<lambda>k. N k @ N1 k)(2 := ps @ N1 2)) 1 = []"
      using B(2) [of 0] B(2) [of 1] assms(1) unfolding R(3) by (simp_all add: bus_ready_def)
    then have "bus_ready be s1 ((\<lambda>k. N k @ N1 k)(2 := ps @ N1 2))" using R(2) sub assms(1) dev unfolding bus_ready_def by blast
    moreover obtain ms where "queues s1 ((\<lambda>k. N k @ N1 k)(2 := ps @ N1 2)) 2 = cs @ ms"
      using B(2) [of 2] assms(2) unfolding R(3) by auto
    ultimately show ?thesis using u(1) run R(4) sub by blast
  qed
qed

end

text \<open>All messages are served, or those in front of a reboot.\<close>

definition served_until where
  "served_until be call async cmds cs n s k s' \<longleftrightarrow> serves be call async n s (take k cs) s' \<and> k \<le> length cs \<and>
     (k = length cs \<or> round_reboots be call async cmds (cs ! k) s')"

lemma served_until_refused:
  "emos_process be call async s = Some (Inl e, t) \<Longrightarrow> served_until be call async cmds cs n t k s' \<Longrightarrow>
   served_until be call async cmds cs (Suc n) s k s'"
  by (auto simp: served_until_def intro: refused)

lemma served_until_served:
  "async s = Some (ok, t) \<Longrightarrow> front_msg t = Some c \<Longrightarrow> dispatches be call c t u \<Longrightarrow>
   emos_process be call async s = Some (Inr 1, s1) \<Longrightarrow> emos.more s1 = emos.more u \<Longrightarrow>
   served_until be call async cmds cs n s1 k s' \<Longrightarrow> served_until be call async cmds (c # cs) (Suc n) s (Suc k) s'"
  by (auto simp: served_until_def intro: served)

context runtime_commands
begin

lemma serves_prefix:
  assumes "bus_ready be s N" "queues s N 2 = cs @ rest"
  shows "\<exists>n k s' N'. n \<le> length (post_msgq s) + length cs \<and> bus_ready be s' N' \<and>
    served_until be (runtime_call B U V X code irq cmds) (rtbus_process_async_posts be) cmds cs n s k s'"
  using assms
proof (induction "length (post_msgq s) + length cs" arbitrary: s N cs rest rule: less_induct)
  case less
  let ?call = "runtime_call B U V X code irq cmds" and ?async = "rtbus_process_async_posts be"
  show ?case
  proof (cases cs)
    case Nil
    then show ?thesis using less.prems(1) no_round [of be ?call ?async s]
      by (intro exI [of _ 0] exI [of _ s] exI [of _ N]) (simp add: served_until_def)
  next
    case (Cons c cs')
    have ec: "entry_count s \<noteq> 0" using less.prems(1) by (auto simp: bus_ready_def emos_bus_def runtime_tasks_def)
    obtain r t N1 ms where H: "?async s = Some (r, t)" "bus_ready be t N1" "queues t N1 2 = queues s N 2 @ ms"
      "if r = ok then post_msgq t = [] else length (post_msgq t) < length (post_msgq s)"
      using hand_over [OF less.prems(1)] by blast
    show ?thesis
    proof (cases r)
      case (Inl e)
      then have P: "emos_process be ?call ?async s = Some (Inl e, t)" using H(1) ec by (simp add: emos_process_def)
      have "length (post_msgq t) < length (post_msgq s)" using H(4) Inl by simp
      with less.hyps [of t cs N1 "rest @ ms"] H(2,3) less.prems(2) obtain n k s' N' where
        "n \<le> length (post_msgq t) + length cs" "bus_ready be s' N'" "served_until be ?call ?async cmds cs n t k s'" by auto
      with \<open>length (post_msgq t) < _\<close> served_until_refused [OF P] show ?thesis
        by (intro exI [of _ "Suc n"] exI [of _ k] exI [of _ s'] exI [of _ N']) simp
    next
      case (Inr x)
      then have t: "post_msgq t = []" "r = ok" using H(4) by simp_all
      have q: "queues t N1 2 = c # (cs' @ rest @ ms)" using H(3) less.prems(2) Cons by simp
      obtain bs1 where b: "emos_bus be t runtime_tasks bs1 N1" "queues t N1 0 = []" "queues t N1 1 = []"
        using H(2) by (auto simp: bus_ready_def)
      have f: "front_msg t = Some c" using front_msg_shared [OF b] q by simp
      from task_serves [OF H(2) q, of B U V X code] show ?thesis
      proof (elim disjE exE conjE)
        assume N: "emos_process_queued_event be ?call t = None" "takes_reboot cmds c t"
        then have "emos_process be ?call ?async s = None" using H(1) t(2) ec by (simp add: emos_process_def)
        then have "served_until be ?call ?async cmds cs 0 s 0 s"
          using N(2) H(1) t(2) f Cons no_round [of be ?call ?async s] by (auto simp: served_until_def round_reboots_def)
        then show ?thesis using less.prems(1) by (intro exI [of _ 0] exI [of _ s] exI [of _ N]) simp
      next
        fix u s1 N2 ms'
        assume S: "dispatches be ?call c t u" "emos_process_queued_event be ?call t = Some (1, s1)"
          "emos.more s1 = emos.more u" "bus_ready be s1 N2" "queues s1 N2 2 = (cs' @ rest @ ms) @ ms'"
          "set (post_msgq s1) \<subseteq> set (post_msgq t)"
        have P: "emos_process be ?call ?async s = Some (Inr 1, s1)" using H(1) t(2) ec S(2) by (simp add: emos_process_def)
        obtain n k s' N' where I: "n \<le> length cs'" "bus_ready be s' N'" "served_until be ?call ?async cmds cs' n s1 k s'"
          using less.hyps [of s1 cs' N2 "rest @ ms @ ms'"] S(4-6) t(1) Cons by auto
        from served_until_served [OF _ f S(1) P S(3) I(3)] H(1) t(2)
        have "served_until be ?call ?async cmds cs (Suc n) s (Suc k) s'" by (simp add: Cons)
        then show ?thesis using I(1,2) Cons by (intro exI [of _ "Suc n"] exI [of _ "Suc k"] exI [of _ s'] exI [of _ N']) simp
      qed
    qed
  qed
qed

end

end
