(* ===== verification/Upgrade_Returns.thy ===== *)
theory Upgrade_Returns
  imports Runtime_Bus
begin

text \<open>
  The upgrade command returns, and the runtime with all its commands goes on.

  \<open>rtbus_cli_dfu_handler\<close> of \<open>rtbus_cli.c\<close> over a port of \<open>rtbus_serial.c\<close> as a quiet line (theory \<open>Serial_Quiet\<close>): it
  stops the application, receives whatever arrives, and gives console and input back.  It is the one long step of
  the event core's thread; with it, the command line keeps the contract of \<open>runtime_commands\<close>.
\<close>

section \<open>During an upgrade\<close>

text \<open>What holds of the state while the command runs, from \<open>s0\<close> on, and what interrupts and other threads must keep:
  they may post to the bus, but input is off, so no input is queued, and nobody else uses the image store.\<close>

definition in_upgrade ::
    "backend \<Rightarrow> ('f, 'd, 'a) serial_scheme \<Rightarrow> ('f, 'd, 'a) serial_scheme \<Rightarrow> bool" where
  "in_upgrade be s0 s \<longleftrightarrow> bus_posts be s0 s \<and> \<not> input_enabled s \<and> input_msgq s = input_msgq s0 \<and> img_store s = img_store s0"

lemma in_upgrade_same:
  assumes "in_upgrade be s0 s" "emos.truncate s' = emos.truncate s" "post_msgq s' = post_msgq s"
    "input_enabled s' = input_enabled s" "input_msgq s' = input_msgq s" "img_store s' = img_store s"
  shows "in_upgrade be s0 s'"
  using assms bus_posts_same [OF _ assms(2,3)] by (simp add: in_upgrade_def)

lemma in_upgrade_updates:
  assumes "in_upgrade be s0 s"
  shows "in_upgrade be s0 (s\<lparr>uart := d\<rparr>)" "in_upgrade be s0 (set_port port p s)"
  by (rule in_upgrade_same [OF assms]; simp add: emos.truncate_def set_port_def)+

lemma in_upgrade_stop:
  assumes "in_upgrade be s0 s"
  shows "in_upgrade be s0 (native_service_force_stop_thread s)"
proof -
  have "calm s (native_service_force_stop_thread s)" by (simp add: native_service_force_stop_thread_def)
  from bus_posts_trans [OF _ calm_bus_posts [OF this]] assms show ?thesis
    by (simp add: in_upgrade_def native_service_force_stop_thread_def)
qed

lemma frames [simp]:
  fixes s :: "('f, 'd, 'a) serial_scheme"
  shows "port_sound port (native_service_force_stop_thread s) = port_sound port s"
    "uart (native_service_force_stop_thread s) = uart s"
  by (simp_all add: port_sound_def native_service_force_stop_thread_def)

context uart_finite
begin

lemma handoff_returns:
  assumes stop: "\<And>s. keep s \<Longrightarrow> keep (native_service_force_stop_thread s)"
  shows "port_sound port s \<Longrightarrow> keep s \<Longrightarrow>
    \<exists>r s'. handoff_loop K deadline s = Some (r, s') \<and> port_sound port s' \<and> keep s'"
proof (induction "nat (deadline - time (uart s))" arbitrary: s rule: less_induct)
  case less
  note W = waits [OF less.prems, of 10]
  consider (idle) "api_busy s = 0" | (late) "api_busy s \<noteq> 0" "deadline \<le> time (uart s)"
    | (wait) "api_busy s \<noteq> 0" "time (uart s) < deadline" by linarith
  then show ?case
  proof cases
    case idle
    then show ?thesis using stop less.prems by (subst handoff_loop.simps) simp
  next
    case late
    then show ?thesis using ticks [of s] less.prems by (subst handoff_loop.simps) simp
  next
    case wait
    then have "nat (deadline - time (uart (k_sleep_ms K 10 s))) < nat (deadline - time (uart s))" using W by linarith
    from less.hyps [OF this] W show ?thesis using wait ticks [of s] by (subst handoff_loop.simps) simp
  qed
qed

end

text \<open>Resuming: the application is loaded and started if that is possible, whatever state it was left in.\<close>

lemma resume_calm:
  assumes "calm s t"
  shows "calm s (native_service_resume_after_upgrade V t)"
proof -
  define u where "u = native_service_force_stop_thread (t\<lparr>patch_handoff := False, api_busy := 0\<rparr>)"
  have "calm s u" using assms by (simp add: u_def native_service_force_stop_thread_def)
  from calm_trans [OF this calm_start] show ?thesis
    by (simp add: native_service_resume_after_upgrade_def u_def native_service_suppress_console_def)
qed

lemma resume_input: "input_msgq (native_service_resume_after_upgrade V s) = input_msgq s" for s :: "('f, 'd, 'a) serial_scheme"
proof -
  define s1 where "s1 = native_service_force_stop_thread (s\<lparr>patch_handoff := False, api_busy := 0\<rparr>)"
  define s2 where "s2 = native_api_table_install V s1"
  obtain r s3 where L: "native_load V s2 = (r, s3)" by force
  have "input_msgq s3 = input_msgq s"
    by (subst native_load_frame(1) [OF L]) (simp add: s2_def s1_def native_api_table_install_def native_service_force_stop_thread_def)
  moreover have "input_msgq s1 = input_msgq s" by (simp add: s1_def native_service_force_stop_thread_def)
  ultimately have "input_msgq (snd (native_service_start V s1)) = input_msgq s"
    using L by (simp add: native_service_start_def s2_def native_service_force_stop_thread_def split: prod.split)
  then show ?thesis by (simp add: native_service_resume_after_upgrade_def s1_def native_service_suppress_console_def)
qed

lemma write_calm: "calm s t \<Longrightarrow> calm s (snd (rtbus_runtime_serial_write U port bs t))" for s :: "('f, 'd, 'a) serial_scheme"
  by (simp add: rtbus_runtime_serial_write_def)

lemma write_input: "input_msgq (snd (rtbus_runtime_serial_write U port bs t)) = input_msgq t"
  for t :: "('f, 'd, 'a) serial_scheme"
  by (simp add: rtbus_runtime_serial_write_def)

lemma stop_returns:
  fixes s0 s :: "('f, 'd, 'a) serial_scheme"
  assumes W: "uart_finite U irq K 0 left time (in_upgrade be s0)" and s: "port_sound 0 s" "in_upgrade be s0 s"
  shows "\<exists>r s'. native_service_stop_for_upgrade K s = Some (r, s') \<and> port_sound 0 s' \<and> in_upgrade be s0 s'"
proof -
  define s1 where "s1 = native_service_request_stop_for_upgrade s"
  have "in_upgrade be s0 s1"
    by (rule in_upgrade_same [OF s(2)])
      (simp_all add: s1_def native_service_request_stop_for_upgrade_def k_event_post_def native_service_suppress_console_def
        emos.truncate_def)
  moreover have "port_sound 0 s1"
    using s(1) by (simp add: s1_def native_service_request_stop_for_upgrade_def k_event_post_def
        native_service_suppress_console_def port_sound_def)
  ultimately show ?thesis
    using uart_finite.handoff_returns [OF W in_upgrade_stop] uart_finite.ticks [OF W, of s]
    by (auto simp: native_service_stop_for_upgrade_def native_service_handoff_ram_for_patch_def s1_def Let_def)
qed

text \<open>The end of the command.\<close>

lemma upgrade_ends:
  fixes s :: "('f, 'd, 'a) serial_scheme"
  assumes "port_sound 0 t" "in_upgrade be s t" "\<not> active st"
  shows "posts_only be s (t\<lparr>img_store := st, input_enabled := True\<rparr>)"
    "input_msgq (t\<lparr>img_store := st, input_enabled := True\<rparr>) = input_msgq s"
proof -
  have "bus_posts be s (t\<lparr>img_store := st, input_enabled := True\<rparr>)"
    by (rule bus_posts_same [of _ _ t]) (use assms(2) in \<open>simp_all add: in_upgrade_def emos.truncate_def\<close>)
  then show "posts_only be s (t\<lparr>img_store := st, input_enabled := True\<rparr>)"
    using assms by (simp add: posts_only_def device_ok_def port_sound_def)
  show "input_msgq (t\<lparr>img_store := st, input_enabled := True\<rparr>) = input_msgq s" using assms(2) by (simp add: in_upgrade_def)
qed

lemma upgrade_returns:
  fixes s :: "('f, 'd, 'a) serial_scheme"
  assumes W: "uart_finite U irq K 0 left time (in_upgrade be s)" and dev: "device_ok s"
    and laws: "flash_laws (image_of V) view" "crc_laws (image_of V)" "0 < pending_max (image_of V)"
  shows "\<exists>r s'. rtbus_cli_dfu_handler U irq K V args s = Some (r, s') \<and> posts_only be s s' \<and> input_msgq s' = input_msgq s"
proof (cases "args = map of_char ''APP''")
  case False
  then show ?thesis by (simp add: rtbus_cli_dfu_handler_def calm_posts_only)
next
  case True
  define s1 where "s1 = (native_service_suppress_console True s)\<lparr>input_enabled := False\<rparr>"
  have s1: "port_sound 0 s1" "in_upgrade be s s1"
  proof -
    have "bus_posts be s s1" by (rule calm_bus_posts) (simp add: s1_def native_service_suppress_console_def)
    then show "in_upgrade be s s1" by (simp add: in_upgrade_def s1_def native_service_suppress_console_def)
  qed (use dev in \<open>simp add: s1_def native_service_suppress_console_def device_ok_def port_sound_def\<close>)
  obtain r s2 where S: "native_service_stop_for_upgrade K s1 = Some (r, s2)" "port_sound 0 s2" "in_upgrade be s s2"
    using stop_returns [OF W s1] by blast
  have idle: "\<not> active (img_store t)" if "in_upgrade be s t" for t
    using that dev by (simp add: in_upgrade_def device_ok_def)
  have early: "posts_only be s (t\<lparr>input_enabled := True\<rparr>)" "input_msgq (t\<lparr>input_enabled := True\<rparr>) = input_msgq s"
    if "port_sound 0 t" "in_upgrade be s t" for t
    using upgrade_ends [OF that idle [OF that(2)]] by simp_all
  obtain n s3 where P: "rtbus_runtime_serial_write U 0 dfu_ready s2 = (n, s3)" by force
  have s3: "port_sound 0 s3" "in_upgrade be s s3"
    using uart_finite.write_step [OF W S(2,3), of dfu_ready] P by (simp_all add: port_step_def)
  obtain r2 s4 st where R: "rtbus_ymodem_recv (serial_line U irq K) (image_of V) 0 s3 (img_store s3) = Some (r2, s4, st)"
    "port_sound 0 s4" "in_upgrade be s s4" "\<not> active st"
    using uart_finite.recv_over_port_returns [OF W laws idle [OF s3(2)] s3] by blast
  define s5 where "s5 = s4\<lparr>img_store := st, input_enabled := True\<rparr>"
  note E = upgrade_ends [OF R(2-4), folded s5_def]
  let ?out = "snd (rtbus_runtime_serial_write U 0 (if r2 \<noteq> ok then dfu_error else dfu_staged) s5)"
  have resumed: "posts_only be s (native_service_resume_after_upgrade V t) \<and>
      input_msgq (native_service_resume_after_upgrade V t) = input_msgq s"
    if "posts_only be s u" "calm u t" "input_msgq t = input_msgq s" for t u
    using posts_only_trans [OF that(1) calm_posts_only [OF resume_calm [OF that(2)]]] that(3) resume_input by metis
  have quiet: "posts_only be s (native_service_suppress_console False t)" if "posts_only be s t" for t
    by (rule posts_only_trans [OF that calm_posts_only]) (simp add: native_service_suppress_console_def)
  have input: "input_msgq (native_service_suppress_console False t) = input_msgq t" for t
    by (simp add: native_service_suppress_console_def)
  have code: "rtbus_cli_dfu_handler U irq K V args s =
    (if r \<noteq> ok then Some (r, native_service_suppress_console False (s2\<lparr>input_enabled := True\<rparr>))
     else if n \<noteq> length dfu_ready then Some (Inl EIO, native_service_suppress_console False
       (native_service_resume_after_upgrade V (s3\<lparr>input_enabled := True\<rparr>)))
     else Some (r2, native_service_resume_after_upgrade V ?out))"
    using True S(1) P R(1) by (simp add: rtbus_cli_dfu_handler_def s1_def [symmetric] s5_def)
  have out: "calm s5 ?out" "input_msgq ?out = input_msgq s" using E by (simp_all add: write_calm write_input)
  show ?thesis
    using quiet [OF early(1) [OF S(2,3)]] early(2) [OF S(2,3)] resumed [OF early(1) [OF s3] calm_refl early(2) [OF s3]]
      quiet [of "native_service_resume_after_upgrade V (s3\<lparr>input_enabled := True\<rparr>)"] resumed [OF E(1) out]
    by (simp add: code input)
qed

section \<open>The commands of the runtime\<close>

text \<open>A reboot does not return, as \<open>sys_reboot\<close> is declared; every other command does.\<close>

lemma commands_keep:
  fixes irq :: "('f, 'd, 'b, 'a) ble_scheme \<Rightarrow> ('f, 'd, 'b, 'a) ble_scheme"
  assumes W: "\<And>s. uart_finite U irq K 0 left time (in_upgrade be s)" and irq: "\<And>s. posts_only be s (irq s)"
    and laws: "flash_laws (image_of V) view" "crc_laws (image_of V)" "0 < pending_max (image_of V)"
    and reboot: "\<And>s. sys_reboot s = None"
  shows "runtime_commands be irq (rtbus_cli_commands be U irq K V sys_reboot)"
proof
  fix c :: "('f, 'd, 'b, 'a) ble_scheme rtbus_cli_command" and s :: "('f, 'd, 'b, 'a) ble_scheme" and h bs N args
  show "posts_only be s (irq s)" by (rule irq)
  assume c: "c \<in> set (rtbus_cli_commands be U irq K V sys_reboot)" "cmd_handler c = Some h"
    and bus: "emos_bus be s runtime_tasks bs N" and dev: "device_ok s"
  then consider "c \<in> set [test_command be]" | "h = rtbus_cli_dfu_handler U irq K V"
    | "cmd_name c = Some (map of_char ''REBOOT'')" "h = rtbus_cli_reboot_handler sys_reboot"
    by (auto simp: rtbus_cli_commands_def test_command_def)
  then show "(\<exists>r s'. h args s = Some (r, s') \<and> posts_only be s s' \<and> length (input_msgq s') \<le> length (input_msgq s)) \<or>
      h args s = None \<and> cmd_name c = Some (map of_char ''REBOOT'') \<and> args = []"
  proof cases
    case 1
    from tc.command_returns [OF this c(2) bus dev] show ?thesis .
  next
    case 2
    then show ?thesis using upgrade_returns [OF W dev laws, of args] by auto
  next
    case 3
    then show ?thesis by (simp add: rtbus_cli_reboot_handler_def reboot calm_posts_only)
  qed
qed

text \<open>The driver over two lists keeps an upgrade going, so the contract holds of the demonstration.\<close>

lemma calm_receive: "calm s t \<Longrightarrow> calm s (receive_byte port b t)"
proof -
  have put: "calm s (set_port port (rx_put b (ports t ! port)) t)" if "calm s t" for t
    by (rule calm_port [OF that]) (simp add: rx_put_spec(1))
  have submits: "calm s (fold rtbus_cli_submit_byte bs t)" if "calm s t" for bs and t :: "('a, 'b, 'c) serial_scheme"
    using that by (induction bs arbitrary: t) (auto intro: calm_trans [OF _ calm_submit])
  have line: "calm s (t\<lparr>control_line := l, control_active := a, control_overflow := ov, port0_line_start := st\<rparr>)" if "calm s t" for t l a ov st
    using that by (simp add: calm_defs)
  assume t: "calm s t"
  have "calm s (submit_control_line t)"
    using line [OF calm_trans [OF submits [OF t] calm_submit]] line [OF t] by (simp add: submit_control_line_def)
  moreover have "calm s (t\<lparr>control_line := l\<rparr>)" "calm s (t\<lparr>control_overflow := ov\<rparr>)"
    "calm s (t\<lparr>control_active := a, port0_line_start := st, control_overflow := ov, control_line := l\<rparr>)" for l a ov st
    using t by (simp_all add: calm_defs)
  moreover have "calm s (t\<lparr>port0_line_start := st\<rparr>)" for st using t by (simp add: calm_defs)
  moreover from this have "calm s (set_port port (rx_put b (ports t ! port)) (t\<lparr>port0_line_start := st\<rparr>))" for st
    using put [of "t\<lparr>port0_line_start := st\<rparr>"] by simp
  ultimately show ?thesis using t put [OF t] by (auto simp: receive_byte_def route_port0_byte_def)
qed

lemma feed_posts: "posts_only be s (demo_irq port s)"
proof -
  have "calm s (feed port bs t)" if "calm s t" for bs t
    using that by (induction bs arbitrary: t) (auto intro: calm_receive)
  then show ?thesis by (simp add: demo_irq_def calm_posts_only)
qed

lemma receive_off:
  assumes "\<not> input_enabled s"
  shows "emos.truncate (receive_byte port b s) = emos.truncate s \<and> post_msgq (receive_byte port b s) = post_msgq s \<and>
    \<not> input_enabled (receive_byte port b s) \<and> input_msgq (receive_byte port b s) = input_msgq s \<and>
    img_store (receive_byte port b s) = img_store s"
proof -
  have "rtbus_cli_submit_byte b s = s" for b using assms by (simp add: rtbus_cli_submit_byte_def)
  then have "fold rtbus_cli_submit_byte bs s = s" for bs by (induction bs) simp_all
  then show ?thesis using assms \<open>\<And>b. rtbus_cli_submit_byte b s = s\<close>
    by (simp add: receive_byte_def route_port0_byte_def submit_control_line_def set_port_def emos.truncate_def)
qed

lemma demo_upgrade_finite:
  "uart_finite demo_uart (demo_irq 0) idle_kernel 0 (\<lambda>d. length (fst d)) (\<lambda>d. int (length (snd d))) (in_upgrade be s)"
proof (rule demo_finite)
  show "in_upgrade be s (demo_irq 0 t)" if "in_upgrade be s t" for t
  proof -
    have "in_upgrade be s (feed 0 bs t)" if "in_upgrade be s t" for bs t
      using that
    proof (induction bs arbitrary: t)
      case (Cons b bs)
      have "in_upgrade be s (receive_byte 0 b t)"
        by (rule in_upgrade_same [OF Cons.prems]) (use receive_off [of t 0 b] Cons.prems in \<open>auto simp: in_upgrade_def\<close>)
      then show ?case using Cons in_upgrade_updates(1) [OF Cons.prems] by simp
    qed (simp add: in_upgrade_updates)
    then show ?thesis using that by (simp add: demo_irq_def)
  qed
qed (simp_all add: in_upgrade_updates)

interpretation rc: runtime_commands be "demo_irq 0"
    "rtbus_cli_commands be demo_uart (demo_irq 0) idle_kernel demo_native_env (\<lambda>_. None)" for be
  by (rule commands_keep [OF demo_upgrade_finite feed_posts, where view = demo_view])
    (use demo_env_laws in \<open>simp_all add: demo_native_env_def demo_env_def\<close>)

section \<open>Properties\<close>

text \<open>C17: the upgrade command always returns, and gives everything back.  Whatever arrives on the port, if only it stops
  arriving at some time, and whatever fails (the driver, the stop of the application, the transfer, the flash, the
  restart): the command returns; then the console is on and input enabled again, the image store is idle, the port's ring
  sound, and the bus as it was but for posts of others.  Any other argument is refused at once.\<close>

theorem upgrade_always_returns:
  fixes s :: "('f, 'd, 'a) serial_scheme"
  assumes "uart_finite U irq K 0 left time (in_upgrade be s)" "device_ok s"
    and "flash_laws (image_of V) view" "crc_laws (image_of V)" "0 < pending_max (image_of V)"
  shows "\<exists>r s'. rtbus_cli_dfu_handler U irq K V args s = Some (r, s') \<and> device_ok s' \<and> bus_posts be s s' \<and>
    (if args = map of_char ''APP'' then \<not> console_suppressed s' \<and> input_enabled s' else r = Inl EINVAL \<and> s' = s)"
proof -
  obtain r s' where R: "rtbus_cli_dfu_handler U irq K V args s = Some (r, s')" "posts_only be s s'"
    using upgrade_returns [OF assms, of args] by blast
  then show ?thesis using upgrade_restores_console [OF R(1)] assms(2) by (auto simp: posts_only_def)
qed

lemma demo_device_ok: "device_ok (demo_serial bs)"
proof -
  have "port_sound 0 (demo_serial bs)" using demo_serial_fields(4) [of bs] by (simp add: port_good_def port_sound_def)
  moreover have "img_store (demo_serial bs) = demo_store"
    by (simp add: demo_serial_def cli.defs serial.defs demo_cli_def native.defs demo_native_def rtbus.defs)
  ultimately show ?thesis using demo_store_idle by (simp add: device_ok_def)
qed

theorem upgrade_always_returns_witness:
  "\<exists>r s'. rtbus_cli_dfu_handler demo_uart (demo_irq 0) idle_kernel demo_native_env (map of_char ''APP'')
     (demo_serial [1, 2, 3, 4]) = Some (r, s') \<and> \<not> console_suppressed s' \<and> input_enabled s'"
proof -
  have "flash_laws (image_of demo_native_env) demo_view" "crc_laws (image_of demo_native_env)"
    "0 < pending_max (image_of demo_native_env)" using demo_env_laws by (simp_all add: demo_native_env_def demo_env_def)
  from upgrade_always_returns [OF demo_upgrade_finite demo_device_ok [of "[1, 2, 3, 4]"] this, where be = Entry_Table
      and args = "map of_char ''APP''"] show ?thesis by auto
qed

text \<open>C5: the runtime goes on.  From any state of the bus with the four tasks and all the commands of the section, with
  anything coming in over any line that ends, any application, any Bluetooth stack and any driver: the pending messages
  are given to their tasks, in the order of posting, each within a round of the event core, but for the rounds in which a
  post of the application cannot be handed over; after each the bus, the port and the image store are ready again.  Only one
  thing ends that before every message is served: the next message is input of the command line, which comes to a line that
  asks for a reboot, and \<open>sys_reboot\<close> does not return.  No other task or command, the upgrade included, gets stuck.\<close>

theorem runtime_serves_every_message:
  fixes irq :: "('f, 'd, 'b, 'a) ble_scheme \<Rightarrow> ('f, 'd, 'b, 'a) ble_scheme"
  assumes "\<And>s. uart_finite U irq K 0 left time (in_upgrade be s)" "\<And>s. posts_only be s (irq s)"
    and "flash_laws (image_of V) view" "crc_laws (image_of V)" "0 < pending_max (image_of V)"
    and "\<And>s. sys_reboot s = None" and "bus_ready be s N"
    and "cmds = rtbus_cli_commands be U irq K V sys_reboot"
    and "call = runtime_call B U V X code irq cmds" "async = rtbus_process_async_posts be"
  shows "\<exists>n k s' N'. n \<le> length (post_msgq s) + length (queues s N 2) \<and> k \<le> length (queues s N 2) \<and>
    serves be call async n s (take k (queues s N 2)) s' \<and> bus_ready be s' N' \<and>
    (k = length (queues s N 2) \<or> round_reboots be call async cmds (queues s N 2 ! k) s')"
proof -
  have cmds: "runtime_commands be irq cmds" unfolding assms(8) by (rule commands_keep [OF assms(1-6)])
  have "queues s N 2 = queues s N 2 @ []" by simp
  from runtime_commands.serves_prefix [OF cmds assms(7) this, of B U V X code, folded assms(9,10)] show ?thesis
    unfolding served_until_def by blast
qed

text \<open>A message in the queue of the demonstration.\<close>

lemma demo_runtime_message:
  "\<exists>s N. bus_ready Entry_Table s N \<and> queues s N 2 = [\<lparr>ctx_task_id = 1, ctx_id = RTBUS_CLI_INPUT, ctx_payload = []\<rparr>] \<and>
     emos.more s = emos.more demo_runtime"
proof -
  note R = demo_runtime_rest [unfolded at_rest_def]
  have "payload_ok None 0" by (simp add: payload_ok_def)
  from emos_post_total [OF conjunct1 [OF R] this, of 1 RTBUS_CLI_INPUT] obtain r s bs N where P:
    "emos_bus Entry_Table s runtime_tasks bs N"
    "(r, queues s N) = spec_post runtime_tasks (pool_has_room demo_runtime [] (16 + 0)) 1 RTBUS_CLI_INPUT None 0
       (queues demo_runtime (\<lambda>_. []))" "emos.more s = emos.more demo_runtime" by auto
  have room: "pool_has_room demo_runtime [] (16 + 0)" by (rule room_less) (use R in simp_all)
  have "List.find (\<lambda>e. e_task_id e = 1) runtime_tasks = Some (EMOS_TASK_ENTRY 1 2 2)"
    by (simp add: runtime_tasks_def EMOS_TASK_ENTRY_def)
  then have q: "queues s N = (\<lambda>_. [])(2 := [\<lparr>ctx_task_id = 1, ctx_id = RTBUS_CLI_INPUT, ctx_payload = []\<rparr>])"
    using P(2) room by (simp add: spec_post_def queues_def post_ctx_def EMOS_TASK_ENTRY_def fun_eq_iff)
  have "ports demo_runtime = ports (demo_serial [])" "img_store demo_runtime = img_store (demo_serial [])"
    by (simp_all add: demo_runtime_def demo_ble_def serial.defs ble.defs)
  then have "device_ok demo_runtime" using demo_device_ok [of "[]"] by (simp add: device_ok_def port_sound_def)
  then have "device_ok s" using device_of_more [OF P(3)] by simp
  moreover have "post_msgq s = []" using native_of_more(2) [OF P(3)] R by simp
  ultimately have "bus_ready Entry_Table s N" using P(1) q by (auto simp: bus_ready_def)
  then show ?thesis using q P(3) by (intro exI [of _ s] exI [of _ N]) simp
qed

theorem runtime_serves_every_message_witness:
  "\<exists>s s'. serves Entry_Table (runtime_call demo_bt demo_uart demo_native_env demo_xip (\<lambda>_. 0) (demo_irq 0)
       (rtbus_cli_commands Entry_Table demo_uart (demo_irq 0) idle_kernel demo_native_env (\<lambda>s. None)))
     (rtbus_process_async_posts Entry_Table) 1 s [\<lparr>ctx_task_id = 1, ctx_id = RTBUS_CLI_INPUT, ctx_payload = []\<rparr>] s' \<and>
     emos.more s = emos.more demo_runtime"
proof -
  let ?m = "\<lparr>ctx_task_id = 1, ctx_id = RTBUS_CLI_INPUT, ctx_payload = []\<rparr>"
  have laws: "flash_laws (image_of demo_native_env) demo_view" "crc_laws (image_of demo_native_env)"
    "0 < pending_max (image_of demo_native_env)" using demo_env_laws by (simp_all add: demo_native_env_def demo_env_def)
  obtain s N where s: "bus_ready Entry_Table s N" "queues s N 2 = [?m]" "emos.more s = emos.more demo_runtime"
    using demo_runtime_message by blast
  have posts: "post_msgq s = []" using native_of_more(2) [OF s(3)] demo_runtime_rest by (simp add: at_rest_def)
  have "input_msgq demo_runtime = []" by (simp add: demo_runtime_def demo_ble_def ble.defs serial.defs demo_serial_def cli.defs demo_cli_def native.defs)
  moreover have "input_msgq t = input_msgq u" if "emos.more t = emos.more u" for t u :: "('f, 'd, 'b) ble"
    using that by (cases t; cases u) simp
  ultimately have "input_msgq s = []" using s(3) by metis
  moreover have "rtbus_process_async_posts Entry_Table s = Some (ok, s)"
    using posts by (subst rtbus_process_async_posts.simps) simp
  moreover from this have "emos_process Entry_Table call (rtbus_process_async_posts Entry_Table) s \<noteq> Some (Inl e, t)" for call e t
    by (auto simp: emos_process_def Let_def bind_eq_Some_conv split: if_splits)
  then have quiet: "t = s" if "serves Entry_Table call (rtbus_process_async_posts Entry_Table) n s [] t" for call n t
    using that by (auto elim: serves.cases)
  ultimately have alive: "\<not> round_reboots Entry_Table call (rtbus_process_async_posts Entry_Table) cmds c s" for call cmds c
    using reads_no_reboot [of s] by (auto simp: round_reboots_def takes_reboot_def)
  from runtime_serves_every_message [OF demo_upgrade_finite feed_posts laws refl s(1) refl refl refl, where B = demo_bt and
      X = demo_xip and code = "\<lambda>_. 0"] s(2) posts
  obtain n k s' where S: "n \<le> 1" "k \<le> 1" "serves Entry_Table (runtime_call demo_bt demo_uart demo_native_env demo_xip (\<lambda>_. 0)
       (demo_irq 0) (rtbus_cli_commands Entry_Table demo_uart (demo_irq 0) idle_kernel demo_native_env (\<lambda>s. None)))
     (rtbus_process_async_posts Entry_Table) n s (take k [?m]) s'"
    "k = 1 \<or> round_reboots Entry_Table (runtime_call demo_bt demo_uart demo_native_env demo_xip (\<lambda>_. 0)
       (demo_irq 0) (rtbus_cli_commands Entry_Table demo_uart (demo_irq 0) idle_kernel demo_native_env (\<lambda>s. None)))
     (rtbus_process_async_posts Entry_Table) (rtbus_cli_commands Entry_Table demo_uart (demo_irq 0) idle_kernel demo_native_env (\<lambda>s. None))
       ([?m] ! k) s'" by auto
  have "k = 1"
  proof (rule ccontr)
    assume "k \<noteq> 1"
    then have "k = 0" using S(2) by simp
    with S(3) have "s' = s" using quiet by simp
    then show False using S(4) alive \<open>k \<noteq> 1\<close> by simp
  qed
  with S(1,3) have "n \<noteq> 0" by (auto elim: serves.cases)
  then have "n = 1" using S(1) by simp
  then show ?thesis using S(3) s(3) \<open>k = 1\<close> by auto
qed

end
