(* ===== verification/Arduino_Boards.thy ===== *)
theory Arduino_Boards
  imports Arduino
begin

text \<open>
  The serial objects of the other boards.

  \<open>cores/rak4200/HardwareSerial.cpp\<close> has one object, on port 0, without state and without input; what it sends is what
  the object of the RAK4631 sends.  \<open>cores/rak3172t/HardwareSerial.cpp\<close> differs from the RAK4631's file in how the table
  of its instances is written down, and \<open>cores/rak3172p/HardwareSerial.cpp\<close> does not differ at all.
\<close>

section \<open>RAK4200\<close>

definition RTBUS_SERIAL_PORT_0 :: nat where "RTBUS_SERIAL_PORT_0 = 0"

definition rak4200_serial_write :: "('s, 'm) serial_api \<Rightarrow> byte list option \<Rightarrow> nat \<Rightarrow> 's \<Rightarrow> nat \<times> 's" where
  "rak4200_serial_write A data n s =
     (if data = None \<or> n = 0 then (0, s) else rtbus_serial_write A RTBUS_SERIAL_PORT_0 data n s)"

definition rak4200_serial_begin :: "('s, 'm) serial_api \<Rightarrow> 32 word \<Rightarrow> 's \<Rightarrow> (32 word \<times> 's) option" where
  "rak4200_serial_begin A baud s = rtbus_serial_begin A RTBUS_SERIAL_PORT_0 baud s"

definition rak4200_begin :: "('s, 'm) serial_api \<Rightarrow> 32 word \<Rightarrow> 's \<Rightarrow> 's option" where
  "rak4200_begin A baud s = map_option snd (rak4200_serial_begin A baud s)"

definition rak4200_end :: "'s \<Rightarrow> 's" where "rak4200_end s = s"
definition rak4200_available :: "'s \<Rightarrow> int \<times> 's" where "rak4200_available s = (0, s)"
definition rak4200_peek :: "'s \<Rightarrow> int \<times> 's" where "rak4200_peek s = (-1, s)"
definition rak4200_read :: "'s \<Rightarrow> int \<times> 's" where "rak4200_read s = (-1, s)"
definition rak4200_flush :: "'s \<Rightarrow> 's" where "rak4200_flush s = s"

fun rak4200_readBytes_loop :: "nat \<Rightarrow> 's \<Rightarrow> byte list \<times> 's" where
  "rak4200_readBytes_loop 0 s = ([], s)"
| "rak4200_readBytes_loop (Suc n) s =
     (let (v, s) = rak4200_read s
      in if v < 0 then ([], s)
         else let (bs, s) = rak4200_readBytes_loop n s in (of_int v # bs, s))"

definition rak4200_readBytes :: "nat \<Rightarrow> 's \<Rightarrow> byte list \<times> 's" where
  "rak4200_readBytes n s = (if n = 0 then ([], s) else rak4200_readBytes_loop n s)"

definition rak4200_write :: "('s, 'm) serial_api \<Rightarrow> byte list option \<Rightarrow> nat \<Rightarrow> 's \<Rightarrow> nat \<times> 's" where
  "rak4200_write A buffer n s = (if buffer = None \<or> n = 0 then (0, s) else rak4200_serial_write A buffer n s)"

definition rak4200_write1 :: "('s, 'm) serial_api \<Rightarrow> byte \<Rightarrow> 's \<Rightarrow> nat \<times> 's" where
  "rak4200_write1 A v s = rak4200_write A (Some [v]) 1 s"

definition rak4200_printf :: "('s, 'm) serial_api \<Rightarrow> 'm option \<Rightarrow> 's \<Rightarrow> nat \<times> 's" where
  "rak4200_printf A fmt s = (if fmt = None then (0, s) else rtbus_serial_vprintf A RTBUS_SERIAL_PORT_0 fmt s)"

fun rak4200_string_length :: "byte list \<Rightarrow> nat" where
  "rak4200_string_length [] = 0"
| "rak4200_string_length (c # cs) = (if c = 0 then 0 else Suc (rak4200_string_length cs))"

definition rak4200_print :: "('s, 'm) serial_api \<Rightarrow> byte list option \<Rightarrow> 's \<Rightarrow> nat \<times> 's" where
  "rak4200_print A txt s = rak4200_write A txt (case txt of None \<Rightarrow> 0 | Some cs \<Rightarrow> rak4200_string_length cs) s"

fun rak4200_digits_loop :: "nat \<Rightarrow> 32 word \<Rightarrow> byte list" where
  "rak4200_digits_loop 0 v = []"
| "rak4200_digits_loop (Suc room) v =
     (48 + ucast (v mod 10)) # (if v div 10 \<noteq> 0 then rak4200_digits_loop room (v div 10) else [])"

fun rak4200_send_digits :: "('s, 'm) serial_api \<Rightarrow> byte list \<Rightarrow> nat \<Rightarrow> 's \<Rightarrow> nat \<times> 's" where
  "rak4200_send_digits A [] sent s = (sent, s)"
| "rak4200_send_digits A (d # ds) sent s = (let (n, s) = rak4200_write1 A d s in rak4200_send_digits A ds (sent + n) s)"

definition rak4200_serial_print_unsigned :: "('s, 'm) serial_api \<Rightarrow> 32 word \<Rightarrow> 's \<Rightarrow> nat \<times> 's" where
  "rak4200_serial_print_unsigned A v s = rak4200_send_digits A (rev (rak4200_digits_loop 10 v)) 0 s"

definition rak4200_print_unsigned where "rak4200_print_unsigned A v s = rak4200_serial_print_unsigned A v s"

definition rak4200_print_long :: "('s, 'm) serial_api \<Rightarrow> 32 word \<Rightarrow> 's \<Rightarrow> nat \<times> 's" where
  "rak4200_print_long A v s =
     (let (sent, s) = (if sint v < 0 then rak4200_write1 A 45 s else (0, s));
          magnitude = (if sint v < 0 then 0 - v else v);
          (n, s) = rak4200_serial_print_unsigned A magnitude s
      in (sent + n, s))"

definition rak4200_print_int where "rak4200_print_int A v s = rak4200_print_long A v s"
definition rak4200_print_unsigned_int where "rak4200_print_unsigned_int A v s = rak4200_print_unsigned A v s"

definition rak4200_newline :: "('s, 'm) serial_api \<Rightarrow> 's \<Rightarrow> nat \<times> 's" where
  "rak4200_newline A s = rak4200_write A (Some [13, 10]) 2 s"

definition rak4200_println_after :: "('s \<Rightarrow> nat \<times> 's) \<Rightarrow> ('s, 'm) serial_api \<Rightarrow> 's \<Rightarrow> nat \<times> 's" where
  "rak4200_println_after printed A s = (let (sent, s) = printed s; (n, s) = rak4200_newline A s in (sent + n, s))"

definition rak4200_println where "rak4200_println A txt = rak4200_println_after (rak4200_print A txt) A"
definition rak4200_println_int where "rak4200_println_int A v = rak4200_println_after (rak4200_print_int A v) A"
definition rak4200_println_unsigned_int where
  "rak4200_println_unsigned_int A v = rak4200_println_after (rak4200_print_unsigned_int A v) A"
definition rak4200_println_long where "rak4200_println_long A v = rak4200_println_after (rak4200_print_long A v) A"
definition rak4200_println_unsigned where
  "rak4200_println_unsigned A v = rak4200_println_after (rak4200_print_unsigned A v) A"

section \<open>RAK3172T\<close>

text \<open>The enumeration of \<open>HardwareSerial.h\<close> and a table whose rows name their index.\<close>

definition PortSerial :: nat where "PortSerial = 0"
definition PortSerial1 :: nat where "PortSerial1 = 1"

fun designated :: "'x list \<Rightarrow> (nat \<times> 'x) list \<Rightarrow> 'x list" where
  "designated xs [] = xs"
| "designated xs ((i, x) # rows) = designated (xs[i := x]) rows"

definition rak3172t_start :: "'s \<Rightarrow> 's sketch" where
  "rak3172t_start s =
     \<lparr>serial_instances = designated (replicate 2 \<lparr>si_port = 0, peeked = 0\<rparr>)
        [(PortSerial, \<lparr>si_port = RTBUS_SERIAL_PORT_0, peeked = -1\<rparr>), (PortSerial1, \<lparr>si_port = 1, peeked = -1\<rparr>)],
      runtime = s\<rparr>"

section \<open>The boards send alike\<close>

text \<open>An operation of the RAK4631's object \<open>k\<close> that does to the runtime what one of the RAK4200 does, and nothing else.\<close>

definition sends_alike :: "nat \<Rightarrow> ('s sketch \<Rightarrow> 'n \<times> 's sketch) \<Rightarrow> ('s \<Rightarrow> 'n \<times> 's) \<Rightarrow> bool" where
  "sends_alike k f g \<longleftrightarrow> (\<forall>w. si_port (serial_instances w ! k) = RTBUS_SERIAL_PORT_0 \<longrightarrow>
     f w = (fst (g (runtime w)), w\<lparr>runtime := snd (g (runtime w))\<rparr>))"

lemma alikeD:
  "sends_alike k f g \<Longrightarrow> si_port (serial_instances w ! k) = RTBUS_SERIAL_PORT_0 \<Longrightarrow>
   f w = (fst (g (runtime w)), w\<lparr>runtime := snd (g (runtime w))\<rparr>)"
  by (simp add: sends_alike_def)

lemma alike_write: "sends_alike k (HardwareSerial_write A k buffer n) (rak4200_write A buffer n)"
  by (auto simp: sends_alike_def HardwareSerial_write_def rak4200_write_def runtime_arduino_serial_write_def
      rak4200_serial_write_def split: prod.split)

lemma alike_write1: "sends_alike k (HardwareSerial_write1 A k v) (rak4200_write1 A v)"
  using alike_write by (simp add: sends_alike_def HardwareSerial_write1_def rak4200_write1_def)

lemma alike_then:
  assumes "sends_alike k f g" "sends_alike k f' g'"
  shows "sends_alike k (\<lambda>w. let (m, w) = f w; (n, w) = f' w in (m + n, w)) (\<lambda>s. let (m, s) = g s; (n, s) = g' s in (m + n, s))"
  using assms by (simp add: sends_alike_def case_prod_beta Let_def)

lemma alike_digits: "sends_alike k (send_digits A k ds sent) (rak4200_send_digits A ds sent)"
proof (induction ds arbitrary: sent)
  case Nil
  then show ?case by (simp add: sends_alike_def)
next
  case (Cons d ds)
  then show ?case using alike_write1 [of k A d] by (simp add: sends_alike_def case_prod_beta Let_def)
qed

lemma same_digits: "rak4200_digits_loop n v = digits_loop n v"
  by (induction n arbitrary: v) simp_all

lemma same_length: "rak4200_string_length cs = string_length cs"
  by (induction cs) simp_all

lemma alike_unsigned: "sends_alike k (serial_print_unsigned A k v) (rak4200_serial_print_unsigned A v)"
  using alike_digits [of k A "rev (digits_loop 10 v)" 0]
  by (simp add: sends_alike_def serial_print_unsigned_def rak4200_serial_print_unsigned_def same_digits)

lemma alike_long: "sends_alike k (HardwareSerial_print_long A k v) (rak4200_print_long A v)"
proof (cases "sint v < 0")
  case True
  with alike_then [OF alike_write1 [of k A 45] alike_unsigned [of k A "0 - v"]] show ?thesis
    by (simp add: sends_alike_def HardwareSerial_print_long_def rak4200_print_long_def Let_def)
next
  case False
  with alike_unsigned [of k A v] show ?thesis
    by (simp add: sends_alike_def HardwareSerial_print_long_def rak4200_print_long_def Let_def case_prod_beta)
qed

lemma alike_newline: "sends_alike k (HardwareSerial_newline A k) (rak4200_newline A)"
  using alike_write by (simp add: sends_alike_def HardwareSerial_newline_def rak4200_newline_def)

lemma alike_println: "sends_alike k f g \<Longrightarrow> sends_alike k (println_after f A k) (rak4200_println_after g A)"
  using alike_then [OF _ alike_newline] by (simp add: println_after_def [abs_def] rak4200_println_after_def [abs_def])

lemma alike_text: "sends_alike k (HardwareSerial_print A k txt) (rak4200_print A txt)"
  using alike_write [of k A "txt"] by (cases "txt") (simp_all add: sends_alike_def HardwareSerial_print_def rak4200_print_def same_length)

text \<open>Every method of the class that sends, and a program of calls with what each returns.\<close>

datatype 'm print_call =
    Write "byte list option" nat | Write1 byte | Printf "'m option"
  | Print "byte list option" | Print_int "32 word" | Print_unsigned_int "32 word" | Print_long "32 word" | Print_unsigned "32 word"
  | Println_text "byte list option" | Println_int "32 word" | Println_unsigned_int "32 word" | Println_long "32 word"
  | Println_unsigned "32 word" | Println

fun HardwareSerial_call :: "('s, 'm) serial_api \<Rightarrow> nat \<Rightarrow> 'm print_call \<Rightarrow> 's sketch \<Rightarrow> nat \<times> 's sketch" where
  "HardwareSerial_call A k (Write buffer n) = HardwareSerial_write A k buffer n"
| "HardwareSerial_call A k (Write1 v) = HardwareSerial_write1 A k v"
| "HardwareSerial_call A k (Printf fmt) = HardwareSerial_printf A k fmt"
| "HardwareSerial_call A k (Print txt) = HardwareSerial_print A k txt"
| "HardwareSerial_call A k (Print_int v) = HardwareSerial_print_int A k v"
| "HardwareSerial_call A k (Print_unsigned_int v) = HardwareSerial_print_unsigned_int A k v"
| "HardwareSerial_call A k (Print_long v) = HardwareSerial_print_long A k v"
| "HardwareSerial_call A k (Print_unsigned v) = HardwareSerial_print_unsigned A k v"
| "HardwareSerial_call A k (Println_text txt) = HardwareSerial_println A k txt"
| "HardwareSerial_call A k (Println_int v) = HardwareSerial_println_int A k v"
| "HardwareSerial_call A k (Println_unsigned_int v) = HardwareSerial_println_unsigned_int A k v"
| "HardwareSerial_call A k (Println_long v) = HardwareSerial_println_long A k v"
| "HardwareSerial_call A k (Println_unsigned v) = HardwareSerial_println_unsigned A k v"
| "HardwareSerial_call A k Println = HardwareSerial_newline A k"

fun rak4200_call :: "('s, 'm) serial_api \<Rightarrow> 'm print_call \<Rightarrow> 's \<Rightarrow> nat \<times> 's" where
  "rak4200_call A (Write buffer n) = rak4200_write A buffer n"
| "rak4200_call A (Write1 v) = rak4200_write1 A v"
| "rak4200_call A (Printf fmt) = rak4200_printf A fmt"
| "rak4200_call A (Print txt) = rak4200_print A txt"
| "rak4200_call A (Print_int v) = rak4200_print_int A v"
| "rak4200_call A (Print_unsigned_int v) = rak4200_print_unsigned_int A v"
| "rak4200_call A (Print_long v) = rak4200_print_long A v"
| "rak4200_call A (Print_unsigned v) = rak4200_print_unsigned A v"
| "rak4200_call A (Println_text txt) = rak4200_println A txt"
| "rak4200_call A (Println_int v) = rak4200_println_int A v"
| "rak4200_call A (Println_unsigned_int v) = rak4200_println_unsigned_int A v"
| "rak4200_call A (Println_long v) = rak4200_println_long A v"
| "rak4200_call A (Println_unsigned v) = rak4200_println_unsigned A v"
| "rak4200_call A Println = rak4200_newline A"

fun run_calls :: "('c \<Rightarrow> 's \<Rightarrow> nat \<times> 's) \<Rightarrow> 'c list \<Rightarrow> 's \<Rightarrow> nat list \<times> 's" where
  "run_calls f [] s = ([], s)"
| "run_calls f (c # cs) s = (let (n, s) = f c s; (ns, s) = run_calls f cs s in (n # ns, s))"

lemma alike_printf: "sends_alike k (HardwareSerial_printf A k fmt) (rak4200_printf A fmt)"
  by (auto simp: sends_alike_def HardwareSerial_printf_def rak4200_printf_def split: prod.split)

lemma alike_numbers:
  "sends_alike k (HardwareSerial_print_unsigned A k v) (rak4200_print_unsigned A v)"
  "sends_alike k (HardwareSerial_print_int A k v) (rak4200_print_int A v)"
  "sends_alike k (HardwareSerial_print_unsigned_int A k v) (rak4200_print_unsigned_int A v)"
  using alike_unsigned [of k A v] alike_long [of k A v]
  by (simp_all add: sends_alike_def HardwareSerial_print_unsigned_def rak4200_print_unsigned_def HardwareSerial_print_int_def
      rak4200_print_int_def HardwareSerial_print_unsigned_int_def rak4200_print_unsigned_int_def)

lemmas println_defs =
  HardwareSerial_println_def rak4200_println_def HardwareSerial_println_long_def rak4200_println_long_def
  HardwareSerial_println_int_def rak4200_println_int_def HardwareSerial_println_unsigned_def rak4200_println_unsigned_def
  HardwareSerial_println_unsigned_int_def rak4200_println_unsigned_int_def

lemma alike_call: "sends_alike k (HardwareSerial_call A k c) (rak4200_call A c)"
  by (cases c) (simp_all add: alike_write alike_write1 alike_printf alike_text alike_numbers alike_long alike_newline
      alike_println println_defs)

lemma alike_calls: "sends_alike k (run_calls (HardwareSerial_call A k) calls) (run_calls (rak4200_call A) calls)"
proof (induction calls)
  case Nil
  then show ?case by (simp add: sends_alike_def)
next
  case (Cons c calls)
  then show ?case using alike_call [of k A c] by (simp add: sends_alike_def case_prod_beta Let_def)
qed

lemma rak3172t_starts_alike: "rak3172t_start s = arduino_start s"
  by (simp add: rak3172t_start_def arduino_start_def PortSerial_def PortSerial1_def RTBUS_SERIAL_PORT_0_def numeral_2_eq_2)

lemma starts_on_port_0: "si_port (serial_instances (arduino_start s) ! 0) = RTBUS_SERIAL_PORT_0"
  by (simp add: arduino_start_def RTBUS_SERIAL_PORT_0_def)

section \<open>Properties\<close>

text \<open>C23: the boards' serial objects are interchangeable for output.  Any program of calls of the methods that send
  (every form of \<open>write\<close>, \<open>printf\<close>, \<open>print\<close> and \<open>println\<close>), on an object of the RAK4631's class that is for port 0,
  does to any runtime what the same program does on the RAK4200's object, with the same results of all calls, and leaves
  the objects' own state alone.  Started, the object \<open>Serial\<close> of the RAK4631 and that of the RAK3172T, from its own table of
  instances, are such objects.\<close>

theorem boards_send_alike:
  shows "sends_alike k (run_calls (HardwareSerial_call A k) calls) (run_calls (rak4200_call A) calls) \<and>
    (let (ns, s') = run_calls (rak4200_call A) calls s
     in run_calls (HardwareSerial_call A 0) calls (arduino_start s) = (ns, (arduino_start s)\<lparr>runtime := s'\<rparr>) \<and>
        run_calls (HardwareSerial_call A 0) calls (rak3172t_start s) = (ns, (rak3172t_start s)\<lparr>runtime := s'\<rparr>))"
  using alike_calls [of k A calls] alikeD [OF alike_calls [of 0 A calls] starts_on_port_0 [of s]]
  by (simp add: rak3172t_starts_alike case_prod_beta arduino_start_def)

end
