(* ===== verification/Board_Power.thy ===== *)
theory Board_Power
  imports Prelude
begin

text \<open>
  The start of a Nordic board that is supplied at high voltage,
  \<open>zephyr/runtime/src/platform/nordic/nordic_hv_regout0_3v3.c\<close>: at the first boot the output of the regulator is set to
  3.3 V in the non-volatile configuration, and the board resets.

  The registers, their constants and what a write does are the hardware's: the record \<open>nrf\<close>, whose documented
  behaviour is \<open>nvmc_laws\<close>.  A wait for the controller may not end.
\<close>

unbundle bit_operations_syntax

record 'h nrf =
  REGOUT0 :: "'h \<Rightarrow> 32 word"
  set_REGOUT0 :: "32 word \<Rightarrow> 'h \<Rightarrow> 'h"
  mainregstatus_high :: "'h \<Rightarrow> bool"
  set_NVMC_CONFIG :: "32 word \<Rightarrow> 'h \<Rightarrow> 'h"
  NVMC_busy :: "'h \<Rightarrow> bool \<times> 'h"
  REGOUT0_VOUT_Msk :: "32 word"
  REGOUT0_VOUT_3V3 :: "32 word"
  REGOUT0_VOUT_Pos :: nat
  CONFIG_WEN_Wen :: "32 word"
  CONFIG_WEN_Ren :: "32 word"
  CONFIG_WEN_Pos :: nat

partial_function (option) nvmc_wait :: "'h nrf \<Rightarrow> 'h \<Rightarrow> 'h option" where
  "nvmc_wait N h = (let (busy, h) = NVMC_busy N h in if busy then nvmc_wait N h else Some h)"

text \<open>The boot goes on, or the board is reset.\<close>

datatype boot = Goes_on | System_reset

definition nordic_hv_regout0_3v3_init :: "'h nrf \<Rightarrow> 'h \<Rightarrow> (boot \<times> 'h) option" where
  "nordic_hv_regout0_3v3_init N h =
     (let regout0_vout = REGOUT0 N h AND REGOUT0_VOUT_Msk N
      in if \<not> mainregstatus_high N h \<or> regout0_vout = push_bit (REGOUT0_VOUT_Pos N) (REGOUT0_VOUT_3V3 N)
      then Some (Goes_on, h)
      else do {
        h \<leftarrow> nvmc_wait N (set_NVMC_CONFIG N (push_bit (CONFIG_WEN_Pos N) (CONFIG_WEN_Wen N)) h);
        let h = set_REGOUT0 N ((REGOUT0 N h AND NOT (REGOUT0_VOUT_Msk N)) OR
                  push_bit (REGOUT0_VOUT_Pos N) (REGOUT0_VOUT_3V3 N)) h;
        h \<leftarrow> nvmc_wait N (set_NVMC_CONFIG N (push_bit (CONFIG_WEN_Pos N) (CONFIG_WEN_Ren N)) h);
        Some (System_reset, h)
      })"

text \<open>Up to \<open>n\<close> boots in a row; \<open>reset\<close> is what a reset does to the hardware.\<close>

fun boots :: "'h nrf \<Rightarrow> ('h \<Rightarrow> 'h) \<Rightarrow> nat \<Rightarrow> 'h \<Rightarrow> (boot \<times> 'h) option" where
  "boots N reset 0 h = Some (System_reset, h)"
| "boots N reset (Suc n) h = do {
     (b, h) \<leftarrow> nordic_hv_regout0_3v3_init N h;
     if b = Goes_on then Some (Goes_on, h) else boots N reset n (reset h)
   }"

section \<open>The hardware\<close>

text \<open>The value lies in its field; the controller gets ready (\<open>left\<close> bounds the reads until then), which a read tells, and
  keeps the configuration; when it is ready, with writing enabled (\<open>writable\<close>), a write to the non-volatile register clears
  bits and never sets one, and a reset keeps it.  Nothing is said of a write or a reset while the controller is busy.\<close>

definition nvmc_laws :: "'h nrf \<Rightarrow> ('h \<Rightarrow> 'h) \<Rightarrow> ('h \<Rightarrow> nat) \<Rightarrow> ('h \<Rightarrow> bool) \<Rightarrow> ('h \<Rightarrow> bool) \<Rightarrow> bool" where
  "nvmc_laws N reset left writable ready \<longleftrightarrow>
     push_bit (REGOUT0_VOUT_Pos N) (REGOUT0_VOUT_3V3 N) AND REGOUT0_VOUT_Msk N = push_bit (REGOUT0_VOUT_Pos N) (REGOUT0_VOUT_3V3 N) \<and>
     (\<forall>h b h'. NVMC_busy N h = (b, h') \<longrightarrow> REGOUT0 N h' = REGOUT0 N h \<and> mainregstatus_high N h' = mainregstatus_high N h \<and>
        writable h' = writable h \<and> (if b then left h' < left h else ready h')) \<and>
     (\<forall>h c. REGOUT0 N (set_NVMC_CONFIG N c h) = REGOUT0 N h \<and>
        mainregstatus_high N (set_NVMC_CONFIG N c h) = mainregstatus_high N h) \<and>
     (\<forall>h. writable (set_NVMC_CONFIG N (push_bit (CONFIG_WEN_Pos N) (CONFIG_WEN_Wen N)) h)) \<and>
     (\<forall>h v. writable h \<and> ready h \<longrightarrow> REGOUT0 N (set_REGOUT0 N v h) = REGOUT0 N h AND v \<and>
        mainregstatus_high N (set_REGOUT0 N v h) = mainregstatus_high N h) \<and>
     (\<forall>h. ready h \<longrightarrow> REGOUT0 N (reset h) = REGOUT0 N h \<and> mainregstatus_high N (reset h) = mainregstatus_high N h)"

lemma wait_returns:
  assumes "nvmc_laws N reset left writable ready"
  shows "\<exists>h'. nvmc_wait N h = Some h' \<and> REGOUT0 N h' = REGOUT0 N h \<and> mainregstatus_high N h' = mainregstatus_high N h \<and>
    writable h' = writable h \<and> ready h'"
proof (induction "left h" arbitrary: h rule: less_induct)
  case less
  obtain b h1 where B: "NVMC_busy N h = (b, h1)" by force
  then have h1: "REGOUT0 N h1 = REGOUT0 N h" "mainregstatus_high N h1 = mainregstatus_high N h" "writable h1 = writable h"
    "if b then left h1 < left h else ready h1"
    using assms unfolding nvmc_laws_def by blast+
  show ?case
  proof (cases b)
    case True
    then show ?thesis using less.hyps [of h1] h1 B by (subst nvmc_wait.simps) simp
  next
    case False
    then show ?thesis using h1 B by (subst nvmc_wait.simps) simp
  qed
qed

text \<open>A boot at high voltage that does not find the value clears what it can.\<close>

lemma field_after_write:
  fixes r m v :: "32 word"
  assumes "v AND m = v"
  shows "(r AND ((r AND NOT m) OR v)) AND m = r AND v" "(r AND ((r AND NOT m) OR v)) AND NOT m = r AND NOT m"
proof -
  have v: "bit m i" if "bit v i" for i using assms that by (metis bit_and_iff)
  show "(r AND ((r AND NOT m) OR v)) AND m = r AND v"
    by (rule bit_eqI) (auto simp: bit_simps dest: v)
  show "(r AND ((r AND NOT m) OR v)) AND NOT m = r AND NOT m"
    by (rule bit_eqI) (auto simp: bit_simps dest: v)
qed

definition vout :: "'h nrf \<Rightarrow> 'h \<Rightarrow> 32 word" where "vout N h = REGOUT0 N h AND REGOUT0_VOUT_Msk N"
definition vout_3v3 :: "'h nrf \<Rightarrow> 32 word" where "vout_3v3 N = push_bit (REGOUT0_VOUT_Pos N) (REGOUT0_VOUT_3V3 N)"

lemma init_sets:
  assumes L: "nvmc_laws N reset left writable ready" and h: "mainregstatus_high N h" "vout N h \<noteq> vout_3v3 N"
  shows "\<exists>h'. nordic_hv_regout0_3v3_init N h = Some (System_reset, h') \<and> vout N h' = vout N h AND vout_3v3 N \<and>
    REGOUT0 N h' AND NOT (REGOUT0_VOUT_Msk N) = REGOUT0 N h AND NOT (REGOUT0_VOUT_Msk N) \<and> mainregstatus_high N h' \<and> ready h'"
proof -
  let ?m = "REGOUT0_VOUT_Msk N" and ?v = "vout_3v3 N"
  let ?h0 = "set_NVMC_CONFIG N (push_bit (CONFIG_WEN_Pos N) (CONFIG_WEN_Wen N)) h"
  have fits: "?v AND ?m = ?v" using L by (simp add: nvmc_laws_def vout_3v3_def)
  have h0: "REGOUT0 N ?h0 = REGOUT0 N h" "mainregstatus_high N ?h0" "writable ?h0"
    using L h(1) by (simp_all add: nvmc_laws_def)
  obtain h1 where h1: "nvmc_wait N ?h0 = Some h1" "REGOUT0 N h1 = REGOUT0 N h" "mainregstatus_high N h1" "writable h1" "ready h1"
    using wait_returns [OF L, of ?h0] h0 by auto
  define h2 where "h2 = set_REGOUT0 N ((REGOUT0 N h1 AND NOT ?m) OR ?v) h1"
  have h2: "REGOUT0 N h2 = REGOUT0 N h AND ((REGOUT0 N h AND NOT ?m) OR ?v)" "mainregstatus_high N h2"
    using L h1(2-5) by (simp_all add: nvmc_laws_def h2_def)
  let ?h3 = "set_NVMC_CONFIG N (push_bit (CONFIG_WEN_Pos N) (CONFIG_WEN_Ren N)) h2"
  have h3: "REGOUT0 N ?h3 = REGOUT0 N h2" "mainregstatus_high N ?h3" using L h2(2) by (simp_all add: nvmc_laws_def)
  obtain h4 where h4: "nvmc_wait N ?h3 = Some h4" "REGOUT0 N h4 = REGOUT0 N h2" "mainregstatus_high N h4" "ready h4"
    using wait_returns [OF L, of ?h3] h3 by auto
  have "nordic_hv_regout0_3v3_init N h = Some (System_reset, h4)"
    using h h1(1) h4(1) by (simp add: nordic_hv_regout0_3v3_init_def vout_def vout_3v3_def h2_def [unfolded vout_3v3_def, symmetric])
  moreover have "vout N h4 = vout N h AND ?v"
  proof -
    have "vout N h4 = REGOUT0 N h AND ?v" using field_after_write(1) [OF fits] by (simp add: vout_def h4(2) h2(1))
    also have "\<dots> = REGOUT0 N h AND (?m AND ?v)" using fits by (simp add: and.commute)
    finally show ?thesis by (simp add: vout_def and.assoc)
  qed
  moreover have "REGOUT0 N h4 AND NOT ?m = REGOUT0 N h AND NOT ?m"
    using field_after_write(2) [OF fits] by (simp add: h4(2) h2(1))
  ultimately show ?thesis using h4(3,4) by blast
qed

lemma boots_for_ever:
  assumes L: "nvmc_laws N reset left writable ready"
  shows "mainregstatus_high N h \<Longrightarrow> vout N h AND vout_3v3 N \<noteq> vout_3v3 N \<Longrightarrow> \<exists>h'. boots N reset n h = Some (System_reset, h')"
proof (induction n arbitrary: h)
  case 0
  then show ?case by simp
next
  case (Suc n)
  have "vout N h \<noteq> vout_3v3 N" using Suc.prems(2) by auto
  from init_sets [OF L Suc.prems(1) this] obtain h1 where h1: "nordic_hv_regout0_3v3_init N h = Some (System_reset, h1)"
    "vout N h1 = vout N h AND vout_3v3 N" "mainregstatus_high N h1" "ready h1" by blast
  have r: "mainregstatus_high N (reset h1)" "vout N (reset h1) = vout N h1"
    using L h1(3,4) by (simp_all add: nvmc_laws_def vout_def)
  have "vout N (reset h1) AND vout_3v3 N \<noteq> vout_3v3 N" using Suc.prems(2) r(2) h1(2) by (simp add: and.assoc)
  from Suc.IH [OF r(1) this] show ?case using h1(1) by simp
qed

section \<open>Properties\<close>

text \<open>C26: a board at high voltage comes up with 3.3 V exactly if the configuration can still become that.  When every bit of the
  value is still set in the field (an erased configuration), the second boot at the latest goes on, with the field set and
  every other bit of the register as it was.  When some bit is already cleared, because the field was programmed before, every
  boot ends in a reset, for ever.  A board at normal voltage boots at once and writes nothing.\<close>

theorem regulator_boots_or_resets:
  assumes "nvmc_laws N reset left writable ready"
  shows "if \<not> mainregstatus_high N h then \<forall>n. boots N reset (Suc n) h = Some (Goes_on, h)
    else if vout N h AND vout_3v3 N = vout_3v3 N
    then \<forall>n. \<exists>h'. boots N reset (Suc (Suc n)) h = Some (Goes_on, h') \<and> vout N h' = vout_3v3 N \<and>
      REGOUT0 N h' AND NOT (REGOUT0_VOUT_Msk N) = REGOUT0 N h AND NOT (REGOUT0_VOUT_Msk N)
    else \<forall>n. \<exists>h'. boots N reset n h = Some (System_reset, h')"
proof -
  have goes: "boots N reset (Suc n) h = Some (Goes_on, h)" if "\<not> mainregstatus_high N h \<or> vout N h = vout_3v3 N" for n h
    using that by (auto simp: nordic_hv_regout0_3v3_init_def vout_def vout_3v3_def)
  have "\<exists>h'. boots N reset (Suc (Suc n)) h = Some (Goes_on, h') \<and> vout N h' = vout_3v3 N \<and>
      REGOUT0 N h' AND NOT (REGOUT0_VOUT_Msk N) = REGOUT0 N h AND NOT (REGOUT0_VOUT_Msk N)"
    if h: "mainregstatus_high N h" "vout N h AND vout_3v3 N = vout_3v3 N" for n
  proof (cases "vout N h = vout_3v3 N")
    case True
    then show ?thesis using goes [of h "Suc n"] by auto
  next
    case False
    from init_sets [OF assms h(1) this] obtain h1 where h1: "nordic_hv_regout0_3v3_init N h = Some (System_reset, h1)"
      "vout N h1 = vout_3v3 N" "REGOUT0 N h1 AND NOT (REGOUT0_VOUT_Msk N) = REGOUT0 N h AND NOT (REGOUT0_VOUT_Msk N)" "ready h1"
      using h(2) by auto
    have r: "REGOUT0 N (reset h1) = REGOUT0 N h1" using assms h1(4) by (simp add: nvmc_laws_def)
    then have "vout N (reset h1) = vout_3v3 N" using h1(2) by (simp add: vout_def)
    then show ?thesis using goes [of "reset h1" n] h1(1,3) r by (auto simp del: boots.simps(2) simp: boots.simps(2) [of N reset "Suc n"])
  qed
  then show ?thesis using goes boots_for_ever [OF assms] by auto
qed

text \<open>A chip that is busy for a few reads: the register, whether it can be written, and the reads left.\<close>

definition demo_nrf :: "(32 word \<times> bool \<times> nat) nrf" where
  "demo_nrf = \<lparr>REGOUT0 = fst, set_REGOUT0 = (\<lambda>v (r, w, n). (if w \<and> n = 0 then r AND v else 0, w, 3)), mainregstatus_high = (\<lambda>_. True),
     set_NVMC_CONFIG = (\<lambda>c (r, w, n). (r, c = 1, 2)), NVMC_busy = (\<lambda>(r, w, n). (0 < n, (r, w, n - 1))),
     REGOUT0_VOUT_Msk = 7, REGOUT0_VOUT_3V3 = 5, REGOUT0_VOUT_Pos = 0, CONFIG_WEN_Wen = 1, CONFIG_WEN_Ren = 0, CONFIG_WEN_Pos = 0\<rparr>"

definition demo_reset :: "32 word \<times> bool \<times> nat \<Rightarrow> 32 word \<times> bool \<times> nat" where
  "demo_reset = (\<lambda>(r, w, n). (if n = 0 then r else 0, False, 0))"

lemma demo_nrf_laws: "nvmc_laws demo_nrf demo_reset (\<lambda>(_, _, n). n) (\<lambda>(_, w, _). w) (\<lambda>(_, _, n). n = 0)"
  by (auto simp: nvmc_laws_def demo_nrf_def demo_reset_def split: prod.splits if_splits)

theorem regulator_boots_or_resets_witness:
  "(\<exists>h'. boots demo_nrf demo_reset 2 (0xFFFFFFFF, False, 0) = Some (Goes_on, h') \<and> vout demo_nrf h' = 5) \<and>
   (\<exists>h'. boots demo_nrf demo_reset 1000 (0xFFFFFFFC, False, 0) = Some (System_reset, h'))"
proof
  have f: "mainregstatus_high demo_nrf h" "vout_3v3 demo_nrf = 5" "vout demo_nrf (0xFFFFFFFF, False, 0) = 7"
    "vout demo_nrf (0xFFFFFFFC, False, 0) = 4" for h
    by (simp_all add: vout_def vout_3v3_def demo_nrf_def)
  have "\<forall>n. \<exists>h'. boots demo_nrf demo_reset (Suc (Suc n)) (0xFFFFFFFF, False, 0) = Some (Goes_on, h') \<and>
      vout demo_nrf h' = 5"
    using regulator_boots_or_resets [OF demo_nrf_laws, of "(0xFFFFFFFF, False, 0)"] f by (simp del: boots.simps split_paired_Ex) blast
  then show "\<exists>h'. boots demo_nrf demo_reset 2 (0xFFFFFFFF, False, 0) = Some (Goes_on, h') \<and> vout demo_nrf h' = 5"
    by (metis numeral_2_eq_2)
  show "\<exists>h'. boots demo_nrf demo_reset 1000 (0xFFFFFFFC, False, 0) = Some (System_reset, h')"
    using regulator_boots_or_resets [OF demo_nrf_laws, of "(0xFFFFFFFC, False, 0)"] f by (simp del: boots.simps split_paired_Ex)
qed

end
