(* ===== verification/Spec2Isabelle.thy ===== *)
theory Spec2Isabelle
  imports Emos Rtbus Ymodem_Send Serial Upgrade Ble_Values Ble_Start Ble_Events Application Startup
    Upgrade_Returns Arduino_Boards Board_Power
begin

text \<open>
  \<^bold>\<open>The RTBus runtime, its tools and its applications.\<close>

  The repository is the runtime of a small board: an event core that passes messages between tasks, a
  service that loads and runs one native application out of flash, a command line with an upgrade
  command that receives an application over the serial line, and a Bluetooth service that the
  application drives.  Two tools on the host package an application and send it.  This development
  models these parts as functions on explicit states, and proves what each promises and what they
  promise together.

  \<^bold>\<open>How the program is put together.\<close>
  The application runs in a thread of its own.  It calls the runtime through a table of functions in RAM
  and asks for work by posting messages; the runtime thread forwards them to the event core
  (\<open>emos_post\<close>), which keeps them in one pool, in a queue for each priority, and calls the task that each
  is for.  Four tasks are registered: diagnostics, command line, serial runtime and Bluetooth.  A task
  answers by writing to the application's RAM and giving a semaphore, or by queueing an event that the
  application's callback gets at its next delay.  An upgrade stops the application, receives an image
  by YMODEM, verifies it, commits it to the slot and starts it.

  \<^bold>\<open>State.\<close>
  The statics of the C files are records, each extending the one below it, so that an operation of a lower part
  applies to the state of the whole: \<open>pools\<close> (Bmalloc), \<open>entries\<close>, \<open>emos\<close>, \<open>rtbus\<close>, \<open>native\<close>,
  \<open>cli\<close>, \<open>serial\<close>, \<open>ble\<close>.  Pointers into the pool and into RAM are natural numbers and the memory a map
  from addresses to bytes; the lists of the event core live in it, linked by their bytes.  \<open>size_t\<close>
  arithmetic is written with its wrap-around (\<open>u32\<close>, \<open>psub\<close>), checksums, flags and clocks are words of
  their width.  An error is \<open>Inl\<close> of an error code.

  \<^bold>\<open>Theories and files.\<close>
  \<^item> Prelude: sizes, memory, little-endian words, error codes, clock arithmetic.
  \<^item> Bmalloc: \<open>lib/bmalloc.c\<close>. The pool invariant; a block that is served is fresh and inside the pool; all
    memory comes back.
  \<^item> Linklist: \<open>lib/linklist.c\<close>. Lists in pool memory, their operations against list functions.
  \<^item> Entries: \<open>src/rtbus_entries.c\<close>, \<open>src/rtbus_iterable.c\<close>. Both backends of the task table behind one
    contract (\<open>entry_backend\<close>), and that they answer alike.
  \<^item> Emos: \<open>src/emos.c\<close>. Posting refines appending to abstract queues (\<open>spec_post\<close>); a bus drains by
    priority and in order; polling is fair.  Handlers are a parameter with the contract \<open>bus_handlers\<close>.
  \<^item> Rtbus: \<open>src/rtbus.c\<close>, \<open>services/rtbus_event.c\<close>, \<open>services/rtbus_runtime.c\<close>. Delayed events, the
    time-out, the runtime thread.
  \<^item> Image, Image_Accept: \<open>services/rtbus_image.c\<close>. The upload session as a whole, over a flash with
    contract \<open>flash_laws\<close>: what is accepted is exactly what was sent; every good image is accepted.
  \<^item> Ymodem: \<open>services/rtbus_ymodem.c\<close>, over a line with contract \<open>ideal_line\<close> or over any line.
  \<^item> Stdio, Header_Format, Ihex, Header_Tool: \<open>system/header.c\<close>, over a model of the host's files.
  \<^item> Ymodem_Send: \<open>system/ymodem_upload.c\<close>, over a port with contract \<open>ideal_tty\<close>.
  \<^item> Native, Native_Api, App_Start, Delay: \<open>native_service/*.c\<close>. Loading, starting, stopping, events, posts,
    delays (contract \<open>waiting_application\<close>), and the calls of the API table.
  \<^item> Cli, Commands: \<open>services/rtbus_cli.c\<close>, \<open>services/rtbus_diagnostics.c\<close>.
  \<^item> Serial: \<open>runtime/src/services/rtbus_serial.c\<close>, over a driver with contract \<open>uart_works\<close>; that contract
    gives \<open>ideal_line\<close>, so the receiver's theorems hold over a port, and \<open>byte_source\<close>, so the
    application's do.
  \<^item> Ymodem_Quiet, Serial_Quiet: the same receiver and port when nothing is promised of what arrives.  A
    quiet line (contract \<open>quiet_line\<close>) may fail, lose, delay or corrupt, but has an end; the receiver
    returns over it.  A driver that has an end (\<open>uart_finite\<close>) makes every port a quiet line.
  \<^item> Ble, Ble_Table, Ble_Invariant, Ble_Machine, Ble_Values, Ble_Stack, Ble_Start, Ble_Events:
    \<open>runtime/src/services/rtbus_ble.c\<close>. The operations; the attribute table that a definition in the
    application's memory describes; the invariant; the service as a step relation with requests, callbacks and
    steps of the stack in any order; values as a refinement; starting, over a stack that
    keeps account (contracts \<open>bt_stays\<close>, \<open>bt_host\<close>); events and their decoders.
  \<^item> Runtime: the four tasks on the event core and \<open>system/include/runtime_*_api.h\<close>, the application's side
    of a request, with \<open>rtbus_post_wait_result\<close> of \<open>system/startup.S\<close>.
  \<^item> Runtime_Bus, Upgrade_Returns: the four tasks keep the contract of the event core (\<open>bus_handlers\<close>) when
    the commands keep theirs (\<open>runtime_commands\<close>), and the commands do, the upgrade included: the runtime
    serves every message of its queues, but for one that asks for a reboot.
  \<^item> Arduino, Application: \<open>cores/rak4631\<close>. Serial objects, pins, time and both forms of \<open>main\<close>.
  \<^item> Arduino_Boards: \<open>cores/rak4200\<close> and the instances of \<open>cores/rak3172t\<close>. The boards send alike.
  \<^item> Board_Power: \<open>runtime/src/platform/nordic/nordic_hv_regout0_3v3.c\<close>. The regulator is set once, and the
    board then boots.
  \<^item> Startup: \<open>runtime/src/services/startup_service.c\<close>.
  \<^item> Upgrade, and this theory: properties that span components: an upgrade over the command line, and an
    application from the packaging tool through the uploader and the receiver to the slot.

  \<^bold>\<open>Parameters.\<close>
  Code outside the repository is an argument: the flash and the checksum routine (\<open>image_env\<close>), kernel
  and clock (\<open>kernel\<close>), UART, GPIO, USB, Bluetooth stack and the Nordic registers (\<open>uart_driver\<close>,
  \<open>gpio_driver\<close>, \<open>usb_stack\<close>, \<open>bt_stack\<close>, \<open>nrf\<close>), the host's files and serial port, the application's own code (\<open>app\<close>).
  What a property relies on is a hypothesis of it or a contract above, and each has a witness on a concrete
  instance.

  \<^bold>\<open>Loops.\<close>
  A loop over pointers, a clock, a line or a queue that may not end is a \<open>partial_function (option)\<close>; that it
  returns is proved, from the invariant of the list or pool, or from the contract of the clock or line.
  A loop bounded by a count or table is structural.  There is no fuel.

  \<^bold>\<open>Concurrency.\<close>
  Interrupt locks, spin locks and atomics are the atomicity of a step.  What other threads and interrupts
  do while a function waits is an argument (\<open>irq\<close>, \<open>k_sleep_ms\<close>, \<open>k_block_ms\<close>, \<open>run\<close>), or a
  step of its own in the step relations of the native service and the Bluetooth service.

  \<^bold>\<open>Not modelled.\<close>
  Log and progress messages; \<open>runtime/src/main.c\<close>, which returns 0; \<open>cores/rak3172p\<close>, whose sources are
  byte for byte those of \<open>cores/rak4631\<close>, and what \<open>cores/rak3172t\<close> shares with them line for line; the
  Windows form of the uploader's port functions; build files, linker scripts and device trees, whose constants
  are parameters.
\<close>

section \<open>From the packaging tool to the running device\<close>

lemma flash_works_readable: "flash_works E \<Longrightarrow> slot_readable E f"
  by (simp add: slot_readable_def flash_worksD)

text \<open>C1: an application that the tool packaged installs.  Let the uploader send the packaged image over
  a port whose incoming bytes are the receiver's answers, and the receiver read a line whose
  incoming bytes are what the uploader sent.  On a flash that works, with sizes that fit, the
  uploader succeeds, the receiver succeeds, each has answered what the other waits for, and the
  device then reports a valid image whose payload it reads back as the tool was given it.\<close>

theorem application_installs:
  assumes "flash_laws E view" "crc_laws E" "crc_matches E" "flash_works E" "\<not> active s"
    and "validate_symbols sy = Some ram" "unat ram \<le> image_ram_max E" "payload \<noteq> []"
    and "img = package sy name version ram payload" "length img \<le> slot_partition_size E" "length img < 4294967296"
    and "length img \<le> area_size E (direct_store_area_id E)" "length img \<le> area_size E (slot_area_id E)"
    and "\<forall>c \<in> set (base_name path). c \<noteq> CHR 0x00"
    and "length (base_name path) + 1 + length (decimal (length img)) \<le> 127"
    and "ideal_tty P inp out tclk" "ideal_line L port good pend sent clk"
    and "inp p = tl (ymodem_replies img)" "out p = []"
  shows "\<exists>p'. send_ymodem P path img p = Some (True, p') \<and>
    (\<forall>w. good w \<and> pend (serial_flush_rx L port (snd (serial_begin L port 115200 w))) = out p' \<and>
        sent w = [] \<and> 0 \<le> clk w \<longrightarrow>
      (\<exists>w' s' st. rtbus_ymodem_recv L E port w s = Some (ok, w', s') \<and> tl (sent w') = inp p \<and>
         rtbus_image_get_status E (flash s') = (ok, st) \<and> st_valid st \<and>
         st_payload_size st = length payload \<and>
         rtbus_image_read_payload E 0 (length payload) (flash s') = Inr payload))"
proof -
  let ?meta = "metadata_block path (length img)" and ?slot = "slot_area_id E"
  have img: "length img = 128 + length payload" by (simp add: assms(9) package_def)
  then have ne: "img \<noteq> []" by auto
  have pl: "0 < length payload" "length payload < 4294967296" using assms(8,11) img by simp_all
  have good: "image_ok E img"
    using image_ok_package [OF assms(3) pl refl] assms(7,9) by (simp add: package_def)
  have pm: "0 < pending_max E" using flash_worksD(7,8) [OF assms(4)] by simp
  obtain p' where p': "send_ymodem P path img p = Some (True, p')" "out p' = ymodem_stream ?meta img"
    using does_send_ymodem [OF assms(16), of path img, unfolded does_def, rule_format, of p "[]"] assms(18,19)
    by auto
  obtain s' where S: "image_session E (length img) (blocks img) s = Some (ok, s')"
    using session_works [OF assms(1,2,4,5), of "blocks img" "length img"] good assms(10-13) img
    by (auto simp: concat_blocks)
  have st: "rd (view ?slot (flash s')) 0 (length img) = img"
    using session_spec [OF assms(1,2) pm assms(11,5), of "blocks img"] S flash_worksD(12) [OF assms(4)]
    by (auto simp: concat_blocks)
  have hd: "header_of_bytes (take 128 img) = header_of_bytes (build_header sy name version ram
      (of_nat (length payload)) (crc32_update 0 payload))"
    by (simp add: assms(9) package_def)
  have psz: "h_payload_size (header_of_bytes (take 128 img)) = length payload"
    unfolding hd header_of_build_header using pl(2) by (simp add: unat_of_nat)
  have len: "128 \<le> length img" using img by simp
  note I = slot_image [OF assms(1,2) flash_works_readable [OF assms(4)] st good len assms(13), unfolded psz]
  obtain b where status: "rtbus_image_get_status E (flash s') = (ok, b)" "st_valid b" "st_payload_size b = length payload"
    using I psz flash_worksD(2) [OF assms(4)] by (simp add: rtbus_image_get_status_def Let_def)
  obtain bs where bs: "area_read E ?slot 128 (length payload) (flash s') = Inr bs"
    using flash_worksD(4) [OF assms(4)] assms(13) img by (metis add.commute)
  have "bs = slice 128 (length payload) img"
    using flash_lawsD(2) [OF assms(1) bs] rd_slice [OF st, of 128 "length payload"] img by simp
  then have "bs = payload" by (simp add: assms(9) package_def slice_def)
  then have read: "rtbus_image_read_payload E 0 (length payload) (flash s') = Inr payload"
    using I psz pl(1) bs flash_worksD(2) [OF assms(4)]
    by (simp add: rtbus_image_read_payload_def Let_def IMAGE_HEADER_SIZE_def)
  have size: "ymodem_parse_file_size ?meta = length img" by (rule metadata_size [OF assms(14,15,11)])
  have "\<exists>w'. rtbus_ymodem_recv L E port w s = Some (ok, w', s') \<and> tl (sent w') = inp p" 
    if "good w" "pend (serial_flush_rx L port (snd (serial_begin L port 115200 w))) = out p'" "sent w = []" "0 \<le> clk w" for w
    using ideal_line.recv_session [OF assms(17,1) pm that(1) _ that(4) length_metadata_block size ne assms(11) S]
      that(2,3) p'(2) assms(18) by auto
  then show ?thesis using p'(1) status read by blast
qed

theorem application_installs_witness:
  "let img = package demo_symbols ''app'' ''1.0+7'' 0x1000 [1, 2, 3];
       p = (tl (ymodem_replies img), []) in
   \<exists>p' w' s' st. send_ymodem demo_tty ''app.bin'' img p = Some (True, p') \<and>
     rtbus_ymodem_recv demo_line tool_env 0 (snd p', []) demo_store = Some (ok, w', s') \<and>
     rtbus_image_get_status tool_env (flash s') = (ok, st) \<and> st_valid st \<and> st_payload_size st = 3 \<and>
     rtbus_image_read_payload tool_env 0 3 (flash s') = Inr [1, 2, 3]"
proof -
  let ?img = "package demo_symbols ''app'' ''1.0+7'' 0x1000 [1, 2, 3]"
  have len: "length ?img = 131" by (simp add: package_def)
  have works: "flash_works tool_env"
    using demo_env_works unfolding flash_works_def tool_env_def by (simp add: Let_def) blast
  have env: "slot_partition_size tool_env = 1024" "area_size tool_env a = 1024" "image_ram_max tool_env = 8192"
    "unat (0x1000 :: 32 word) \<le> image_ram_max tool_env" for a by (simp_all add: tool_env_def demo_env_def)
  have name: "base_name ''app.bin'' = ''app.bin''" by (simp add: base_name_def)
  have path: "\<forall>c \<in> set (base_name ''app.bin''). c \<noteq> CHR 0x00"
    "length (base_name ''app.bin'') + 1 + length (decimal (length ?img)) \<le> 127"
    by (simp_all only: name len) (simp_all add: decimal.simps)
  obtain p' where S: "send_ymodem demo_tty ''app.bin'' ?img (tl (ymodem_replies ?img), []) = Some (True, p')"
    "\<exists>w' s' st. rtbus_ymodem_recv demo_line tool_env 0 (snd p', []) demo_store = Some (ok, w', s') \<and>
       rtbus_image_get_status tool_env (flash s') = (ok, st) \<and> st_valid st \<and> st_payload_size st = 3 \<and>
       rtbus_image_read_payload tool_env 0 3 (flash s') = Inr [1, 2, 3]"
    using application_installs [where p = "(tl (ymodem_replies ?img), [])" and path = "''app.bin''",
        OF tool_env_laws works demo_store_idle demo_symbols_valid env(4) _ refl _ _ _ _ path
        demo_tty_ideal demo_line_ideal [of 0]]
    by (auto simp: len env numeral_3_eq_3 demo_line_flush)
  then show ?thesis unfolding Let_def by blast
qed

end
